(* ===== verification/Buxn_Prelude.thy ===== *)
theory Buxn_Prelude
  imports Main "HOL-Library.Word" "HOL-Library.Monad_Syntax"
begin

text \<open>
  What the component theories share: names for the C integer types, the byte and short views
  of a machine word, and the generic lemmas on words and lists that the component proofs use.
  \<open>u8\<close>, \<open>u16\<close>, \<open>u32\<close> are \<^verbatim>\<open>uint8_t\<close>, \<^verbatim>\<open>uint16_t\<close>, \<^verbatim>\<open>uint32_t\<close>;
  \<open>uw\<close> is a machine word of sljit (\<^verbatim>\<open>sljit_uw\<close>) on a 64-bit target.
\<close>

unbundle bit_operations_syntax

type_synonym u8 = "8 word"
type_synonym u16 = "16 word"
type_synonym u32 = "32 word"
type_synonym uw = "64 word"

named_theorems byte_simps \<open>rewriting between a short and its two bytes\<close>

text \<open>The short with a given high and low byte: \<^verbatim>\<open>(uint16_t)hi << 8 | (uint16_t)lo\<close>.\<close>

definition short_of :: "u8 \<Rightarrow> u8 \<Rightarrow> u16" where
  "short_of hi lo = push_bit 8 (ucast hi) OR ucast lo"

definition hi_byte :: "u16 \<Rightarrow> u8" where
  "hi_byte w = ucast (drop_bit 8 w)"

definition lo_byte :: "u16 \<Rightarrow> u8" where
  "lo_byte w = ucast w"

lemma hi_byte_short_of [simp, byte_simps]: "hi_byte (short_of h l) = h"
  by (rule bit_word_eqI) (auto simp: hi_byte_def short_of_def bit_simps dest: bit_imp_le_length)

lemma lo_byte_short_of [simp, byte_simps]: "lo_byte (short_of h l) = l"
  by (rule bit_word_eqI) (auto simp: lo_byte_def short_of_def bit_simps dest: bit_imp_le_length)

lemma short_of_hi_lo [simp, byte_simps]: "short_of (hi_byte w) (lo_byte w) = w"
  by (rule bit_word_eqI) (auto simp: hi_byte_def lo_byte_def short_of_def bit_simps)

lemma short_of_inject [simp]: "short_of h l = short_of h' l' \<longleftrightarrow> h = h' \<and> l = l'"
  by (metis hi_byte_short_of lo_byte_short_of)

text \<open>Widening a word and cutting it back loses nothing.\<close>

lemma ucast_up_down:
  fixes x :: "'a::len word"
  assumes "LENGTH('a) \<le> LENGTH('b::len)"
  shows "ucast (ucast x :: 'b word) = x"
  using assms by (intro bit_word_eqI) (auto simp: bit_simps)

lemma unat_ucast_up:
  fixes x :: "'a::len word"
  assumes "LENGTH('a) \<le> LENGTH('b::len)"
  shows "unat (ucast x :: 'b word) = unat x"
proof -
  have "unat x < 2 ^ LENGTH('a)" by (rule unsigned_less)
  also have "(2 :: nat) ^ LENGTH('a) \<le> 2 ^ LENGTH('b)" using assms by (rule power_increasing) simp
  finally show ?thesis by (simp add: unsigned_ucast_eq take_bit_nat_eq_self)
qed

lemma ucast_widen [simp]:
  "ucast (ucast (x :: u8) :: uw) = x"
  "ucast (ucast (y :: u16) :: uw) = y"
  "ucast (ucast (y :: u16) :: u32) = y"
  "ucast (ucast (x :: u8) :: u16) = x"
  by (rule ucast_up_down; simp)+

lemma unat_ucast_widen [simp]:
  "unat (ucast (x :: u8) :: uw) = unat x"
  "unat (ucast (y :: u16) :: uw) = unat y"
  "unat (ucast (x :: u8) :: u16) = unat x"
  by (rule unat_ucast_up; simp)+

lemma ucast_widen_inj [simp]:
  "(ucast (x :: u8) :: uw) = ucast x' \<longleftrightarrow> x = x'"
  "(ucast (y :: u16) :: uw) = ucast y' \<longleftrightarrow> y = y'"
  by (metis ucast_widen)+

lemma unat_u8_less [simp]: "unat (x :: u8) < 256"
  using unsigned_less [of x] by simp

lemma unat_u16_less [simp]: "unat (y :: u16) < 65536"
  using unsigned_less [of y] by simp

text \<open>Cutting a word down commutes with the ring operations.\<close>

lemma ucast_down_ring:
  fixes a b :: "'a::len word"
  assumes "LENGTH('b::len) \<le> LENGTH('a)"
  shows "(ucast (a + b) :: 'b word) = ucast a + ucast b"
    and "(ucast (a - b) :: 'b word) = ucast a - ucast b"
    and "(ucast (a * b) :: 'b word) = ucast a * ucast b"
proof -
  have drop: "(word_of_int (x mod 2 ^ LENGTH('a)) :: 'b word) = word_of_int x" for x
    using assms unfolding take_bit_eq_mod [symmetric]
    by transfer (simp add: take_bit_take_bit min_def)
  show "(ucast (a + b) :: 'b word) = ucast a + ucast b"
    and "(ucast (a - b) :: 'b word) = ucast a - ucast b"
    and "(ucast (a * b) :: 'b word) = ucast a * ucast b"
    unfolding ucast_eq uint_word_ariths drop by (simp_all only: of_int_add of_int_diff of_int_mult)
qed

lemma ucast_uw_ring [simp]:
  fixes a b :: uw
  shows "(ucast (a + b) :: u8) = ucast a + ucast b"
    and "(ucast (a - b) :: u8) = ucast a - ucast b"
    and "(ucast (a * b) :: u8) = ucast a * ucast b"
    and "(ucast (a + b) :: u16) = ucast a + ucast b"
    and "(ucast (a - b) :: u16) = ucast a - ucast b"
    and "(ucast (a * b) :: u16) = ucast a * ucast b"
  by (rule ucast_down_ring; simp)+

text \<open>Masking with \<open>0xff\<close> and \<open>0xffff\<close> is cutting down to a byte and a short.\<close>

lemma mask_bytes:
  "(0xff :: uw) = mask 8" "(0xffff :: uw) = mask 16" "(0xff :: u16) = mask 8"
  by (simp_all add: mask_eq_exp_minus_1)

lemma and_0xff: "w AND 0xff = ucast (ucast (w :: uw) :: u8)"
  unfolding mask_bytes by (rule bit_word_eqI) (auto simp: bit_simps)

lemma and_0xffff: "w AND 0xffff = ucast (ucast (w :: uw) :: u16)"
  unfolding mask_bytes by (rule bit_word_eqI) (auto simp: bit_simps)

lemma and_0xff_u16: "w AND 0xff = ucast (ucast (w :: u16) :: u8)"
  unfolding mask_bytes by (rule bit_word_eqI) (auto simp: bit_simps)

text \<open>Properties of a list of bounded length are decided position by position.\<close>

lemma all_less_Suc_shift:
  "(\<forall>k < Suc n. P k) \<longleftrightarrow> P 0 \<and> (\<forall>k < n. P (Suc k))"
  by (auto simp: less_Suc_eq_0_disj)

text \<open>The hexadecimal digits \<^verbatim>\<open>printf\<close> writes for \<^verbatim>\<open>%x\<close> and for \<^verbatim>\<open>%04x\<close>.\<close>

definition hex_digit :: "nat \<Rightarrow> u8" where
  "hex_digit n = word_of_nat (if n < 10 then 0x30 + n else 0x57 + n)"

definition hex4 :: "u16 \<Rightarrow> u8 list" where
  "hex4 w = map (\<lambda>k. hex_digit (unat w div 16 ^ k mod 16)) [3, 2, 1, 0]"

lemma hex4_props [simp]: "length (hex4 w) = 4" "0 \<notin> set (hex4 w)"
proof -
  have "hex_digit n \<noteq> 0" if "n < 16" for n
  proof -
    have "n \<in> set [0, 1, 2, 3, 4, 5, 6, 7, 8, 9, 10, 11, 12, 13, 14, 15]" using that by (simp, presburger)
    then show ?thesis by (auto simp: hex_digit_def)
  qed
  then show "0 \<notin> set (hex4 w)" by (auto simp: hex4_def)
qed (simp add: hex4_def)

text \<open>A \<^verbatim>\<open>size_t\<close> converted to \<^verbatim>\<open>int\<close>.\<close>

definition int_of_size :: "uw \<Rightarrow> int" where
  "int_of_size n = sint (ucast n :: u32)"

lemma int_of_size_small:
  assumes less: "unat n < 2 ^ 31"
  shows "int_of_size n = int (unat n)"
proof -
  have "sint (ucast n :: u32) = signed_take_bit 31 (uint n)"
    by (simp add: sint_uint unsigned_ucast_eq signed_take_bit_take_bit)
  also have "\<dots> = uint n"
  proof (rule signed_take_bit_int_eq_self)
    show "- (2 ^ 31) \<le> uint n" by (rule order_trans [OF _ uint_ge_0]) simp
    have "int (unat n) < int (2 ^ 31)" using less by (simp only: of_nat_less_iff)
    then show "uint n < 2 ^ 31" by simp
  qed
  finally show ?thesis by (simp add: int_of_size_def)
qed

end
