(* ===== verification/Hamt.thy ===== *)
theory Hamt
  imports Buxn_Prelude
begin

text \<open>
  The hash array mapped trie of \<^verbatim>\<open>src/hamt.h\<close> with the hash of \<^verbatim>\<open>src/jit.c\<close>. A node holds a
  key, a value (the rest of the C node) and \<^verbatim>\<open>BHAMT_NUM_CHILDREN\<close> = 4 children; \<open>BNull\<close> is the
  NULL pointer. The pointer to a slot that \<^verbatim>\<open>BHAMT_SEARCH\<close> leaves in \<^verbatim>\<open>ITR\<close> is the list of child
  indices on the way to that slot, and \<^verbatim>\<open>*ITR = node\<close> is \<open>bhamt_assign\<close>.
\<close>

section \<open>The trie and its operations\<close>

type_synonym child_index = "2 word"

datatype 'v bhamt = BNull | BNode (bkey: u16) (bval: 'v) "child_index \<Rightarrow> 'v bhamt"

definition BHAMT_INDEX :: "u32 \<Rightarrow> child_index" where
  "BHAMT_INDEX h = ucast (h AND 3)"

primrec BHAMT_SEARCH :: "'v bhamt \<Rightarrow> u32 \<Rightarrow> u16 \<Rightarrow> child_index list \<times> 'v option" where
  "BHAMT_SEARCH BNull h k = ([], None)"
| "BHAMT_SEARCH (BNode key v ch) h k =
     (if key = k then ([], Some v)
      else (let i = BHAMT_INDEX h;
                r = BHAMT_SEARCH (ch i) (drop_bit 2 h) k
            in (i # fst r, snd r)))"

definition BHAMT_GET :: "'v bhamt \<Rightarrow> u32 \<Rightarrow> u16 \<Rightarrow> 'v option" where
  "BHAMT_GET t h k = snd (BHAMT_SEARCH t h k)"

primrec bhamt_assign :: "child_index list \<Rightarrow> 'v bhamt \<Rightarrow> 'v bhamt \<Rightarrow> 'v bhamt" where
  "bhamt_assign [] node t = node"
| "bhamt_assign (i # p) node t =
     (case t of
        BNull \<Rightarrow> BNull
      | BNode key v ch \<Rightarrow> BNode key v (ch(i := bhamt_assign p node (ch i))))"

definition buxn_jit_prospector32 :: "u32 \<Rightarrow> u32" where
  "buxn_jit_prospector32 x0 =
     (let x1 = x0 XOR drop_bit 15 x0;
          x2 = x1 * 0x2c1b3c6d;
          x3 = x2 XOR drop_bit 12 x2;
          x4 = x3 * 0x297a2d39;
          x5 = x4 XOR drop_bit 15 x4
      in x5)"


section \<open>Invariant: a node sits on the path its hash spells\<close>

text \<open>
  \<open>hash_digit h n\<close> is the index the search takes at level \<open>n\<close>. In \<open>bhamt_ok hf n t\<close>, with
  \<open>hf\<close> the hash of a key, the subtree \<open>t\<close> at level \<open>n\<close> holds no key twice and every key below
  child \<open>i\<close> has digit \<open>i\<close> at that level.
\<close>

definition hash_digit :: "u32 \<Rightarrow> nat \<Rightarrow> child_index" where
  "hash_digit h n = BHAMT_INDEX (drop_bit (2 * n) h)"

primrec bhamt_keys :: "'v bhamt \<Rightarrow> u16 set" where
  "bhamt_keys BNull = {}"
| "bhamt_keys (BNode key v ch) = insert key (\<Union>i. bhamt_keys (ch i))"

primrec bhamt_ok :: "(u16 \<Rightarrow> u32) \<Rightarrow> nat \<Rightarrow> 'v bhamt \<Rightarrow> bool" where
  "bhamt_ok hf n BNull = True"
| "bhamt_ok hf n (BNode key v ch) =
     ((\<forall>i. key \<notin> bhamt_keys (ch i)) \<and>
      (\<forall>i. \<forall>k \<in> bhamt_keys (ch i). hash_digit (hf k) n = i) \<and>
      (\<forall>i. bhamt_ok hf (Suc n) (ch i)))"

lemma drop_bit_level [simp]: "drop_bit 2 (drop_bit (2 * n) h) = drop_bit (2 * Suc n) (h :: u32)"
  by (simp add: drop_bit_drop_bit add.commute)

lemma search_None_iff:
  "bhamt_ok hf n t \<Longrightarrow>
   snd (BHAMT_SEARCH t (drop_bit (2 * n) (hf k)) k) = None \<longleftrightarrow> k \<notin> bhamt_keys t"
proof (induction t arbitrary: n)
  case BNull
  then show ?case by simp
next
  case (BNode key v ch)
  let ?i = "hash_digit (hf k) n"
  have IH: "snd (BHAMT_SEARCH (ch ?i) (drop_bit (2 * Suc n) (hf k)) k) = None
      \<longleftrightarrow> k \<notin> bhamt_keys (ch ?i)"
    using BNode.IH [of "ch ?i" "Suc n"] BNode.prems by auto
  have "k \<in> bhamt_keys (ch i) \<Longrightarrow> i = ?i" for i
    using BNode.prems by auto
  then show ?case
    using IH by (auto simp: Let_def hash_digit_def [symmetric] simp del: drop_bit_drop_bit)
qed

text \<open>
  Writing a fresh node for \<open>k\<close> into the slot the search for \<open>k\<close> stopped at adds exactly that
  key, keeps the invariant, and changes no other search.
\<close>

abbreviation bhamt_leaf :: "u16 \<Rightarrow> 'v \<Rightarrow> 'v bhamt" where
  "bhamt_leaf k v \<equiv> BNode k v (\<lambda>_. BNull)"

lemma assign_keys:
  "snd (BHAMT_SEARCH t h k) = None \<Longrightarrow>
   bhamt_keys (bhamt_assign (fst (BHAMT_SEARCH t h k)) (bhamt_leaf k v) t) = insert k (bhamt_keys t)"
proof (induction t arbitrary: h)
  case BNull
  then show ?case by simp
next
  case (BNode key w ch)
  let ?i = "BHAMT_INDEX h"
  let ?c = "bhamt_assign (fst (BHAMT_SEARCH (ch ?i) (drop_bit 2 h) k)) (bhamt_leaf k v) (ch ?i)"
  from BNode.prems have neq: "key \<noteq> k" and none: "snd (BHAMT_SEARCH (ch ?i) (drop_bit 2 h) k) = None"
    by (auto simp: Let_def split: if_splits)
  have "bhamt_keys ?c = insert k (bhamt_keys (ch ?i))"
    by (rule BNode.IH [OF _ none]) simp
  then have "(\<Union>i. bhamt_keys ((ch(?i := ?c)) i)) = insert k (\<Union>i. bhamt_keys (ch i))"
    by (auto split: if_splits)
  with neq show ?case by (auto simp: Let_def)
qed

lemma bhamt_assign_ok:
  "bhamt_ok hf n t \<Longrightarrow> snd (BHAMT_SEARCH t (drop_bit (2 * n) (hf k)) k) = None \<Longrightarrow>
   bhamt_ok hf n (bhamt_assign (fst (BHAMT_SEARCH t (drop_bit (2 * n) (hf k)) k)) (bhamt_leaf k v) t)"
proof (induction t arbitrary: n)
  case BNull
  then show ?case by simp
next
  case (BNode key w ch)
  let ?h = "drop_bit (2 * n) (hf k)"
  let ?i = "BHAMT_INDEX ?h"
  let ?s = "BHAMT_SEARCH (ch ?i) (drop_bit (2 * Suc n) (hf k)) k"
  let ?c = "bhamt_assign (fst ?s) (bhamt_leaf k v) (ch ?i)"
  from BNode.prems have neq: "key \<noteq> k" and none: "snd ?s = None"
    by (auto simp: Let_def simp del: drop_bit_drop_bit split: if_splits)
  have ok: "bhamt_ok hf (Suc n) ?c"
    using BNode.IH [of "ch ?i" "Suc n"] BNode.prems(1) none by auto
  have "bhamt_keys ?c = insert k (bhamt_keys (ch ?i))"
    using none by (rule assign_keys)
  then show ?case
    using BNode.prems(1) neq ok by (auto simp: Let_def hash_digit_def simp del: drop_bit_drop_bit)
qed

lemma search_assign:
  "bhamt_ok hf n t \<Longrightarrow> snd (BHAMT_SEARCH t (drop_bit (2 * n) (hf k)) k) = None \<Longrightarrow>
   snd (BHAMT_SEARCH (bhamt_assign (fst (BHAMT_SEARCH t (drop_bit (2 * n) (hf k)) k)) (bhamt_leaf k v) t)
          (drop_bit (2 * n) (hf k')) k') =
   (if k' = k then Some v else snd (BHAMT_SEARCH t (drop_bit (2 * n) (hf k')) k'))"
proof (induction t arbitrary: n)
  case BNull
  then show ?case by (simp add: Let_def)
next
  case (BNode key w ch)
  let ?i = "BHAMT_INDEX (drop_bit (2 * n) (hf k))"
  let ?s = "BHAMT_SEARCH (ch ?i) (drop_bit (2 * Suc n) (hf k)) k"
  from BNode.prems have neq: "key \<noteq> k" and none: "snd ?s = None"
    by (auto simp: Let_def simp del: drop_bit_drop_bit split: if_splits)
  have "snd (BHAMT_SEARCH (bhamt_assign (fst ?s) (bhamt_leaf k v) (ch ?i)) (drop_bit (2 * Suc n) (hf k')) k')
      = (if k' = k then Some v else snd (BHAMT_SEARCH (ch ?i) (drop_bit (2 * Suc n) (hf k')) k'))"
    using BNode.IH [of "ch ?i" "Suc n"] BNode.prems(1) none by auto
  with neq show ?case
    by (auto simp: Let_def simp del: drop_bit_drop_bit)
qed


section \<open>The block map interface\<close>

text \<open>
  What \<^verbatim>\<open>buxn_jit_queue_block\<close> relies on: a search that finds nothing leaves a slot, and filling
  the slot makes exactly that key found.
\<close>

locale key_map =
  fixes empty :: "'m"
    and search :: "'m \<Rightarrow> u16 \<Rightarrow> 'slot \<times> 'v option"
    and assign :: "'slot \<Rightarrow> u16 \<Rightarrow> 'v \<Rightarrow> 'm \<Rightarrow> 'm"
    and ok :: "'m \<Rightarrow> bool"
  assumes empty_ok: "ok empty"
    and empty_search: "snd (search empty k) = None"
    and assign_ok: "ok m \<Longrightarrow> snd (search m k) = None \<Longrightarrow> ok (assign (fst (search m k)) k v m)"
    and assign_search: "ok m \<Longrightarrow> snd (search m k) = None \<Longrightarrow>
      snd (search (assign (fst (search m k)) k v m) k') = (if k' = k then Some v else snd (search m k'))"
begin

text \<open>The find-or-insert step, and the map it implements.\<close>

definition find_or_insert :: "u16 \<Rightarrow> 'v \<Rightarrow> 'm \<Rightarrow> 'm" where
  "find_or_insert k v m =
     (case snd (search m k) of None \<Rightarrow> assign (fst (search m k)) k v m | Some w \<Rightarrow> m)"

lemma find_or_insert_ok: "ok m \<Longrightarrow> ok (find_or_insert k v m)"
  by (auto simp: find_or_insert_def assign_ok split: option.splits)

lemma find_or_insert_search:
  "ok m \<Longrightarrow> snd (search (find_or_insert k v m) k') =
    (if k' = k then Some (case snd (search m k) of None \<Rightarrow> v | Some w \<Rightarrow> w) else snd (search m k'))"
  by (auto simp: find_or_insert_def assign_search split: option.splits)

lemma find_or_insert_again:
  "ok m \<Longrightarrow> find_or_insert k w (find_or_insert k v m) = find_or_insert k v m"
  using find_or_insert_search [of m k v k]
  by (auto simp: find_or_insert_def [of k w] split: option.splits)

end

definition block_search :: "'v bhamt \<Rightarrow> u16 \<Rightarrow> child_index list \<times> 'v option" where
  "block_search t k = BHAMT_SEARCH t (buxn_jit_prospector32 (ucast k)) k"

definition block_assign :: "child_index list \<Rightarrow> u16 \<Rightarrow> 'v \<Rightarrow> 'v bhamt \<Rightarrow> 'v bhamt" where
  "block_assign p k v t = bhamt_assign p (bhamt_leaf k v) t"

abbreviation block_hash :: "u16 \<Rightarrow> u32" where
  "block_hash k \<equiv> buxn_jit_prospector32 (ucast k)"

abbreviation block_map_ok :: "'v bhamt \<Rightarrow> bool" where
  "block_map_ok \<equiv> bhamt_ok block_hash 0"

lemmas block_map_defs = block_search_def block_assign_def

interpretation bm: key_map BNull block_search block_assign block_map_ok
proof
  fix t :: "'v bhamt" and k k' :: u16 and v :: 'v
  assume ok: "block_map_ok t" and none: "snd (block_search t k) = None"
  show "block_map_ok (block_assign (fst (block_search t k)) k v t)"
    using bhamt_assign_ok [OF ok, of k v] none by (simp add: block_map_defs)
  show "snd (block_search (block_assign (fst (block_search t k)) k v t) k') =
      (if k' = k then Some v else snd (block_search t k'))"
    using search_assign [OF ok, of k v k'] none by (simp add: block_map_defs)
qed (simp_all add: block_map_defs)

section \<open>The hash is injective, so searches are short\<close>

lemma xorshift_inverse:
  fixes x :: u32
  assumes "0 < n" and "32 \<le> 3 * n"
  shows "(let y = x XOR drop_bit n x in y XOR drop_bit n y XOR drop_bit (n + n) y) = x"
  using assms
  by (intro bit_word_eqI) (auto simp: Let_def bit_simps algebra_simps dest: bit_imp_le_length)

lemma xorshift_eq_iff:
  fixes x y :: u32
  assumes "0 < n" and "32 \<le> 3 * n"
  shows "x XOR drop_bit n x = y XOR drop_bit n y \<longleftrightarrow> x = y"
proof
  assume eq: "x XOR drop_bit n x = y XOR drop_bit n y"
  have "x = (let y = x XOR drop_bit n x in y XOR drop_bit n y XOR drop_bit (n + n) y)"
    by (rule xorshift_inverse [OF assms, symmetric])
  also have "\<dots> = y"
    unfolding eq by (rule xorshift_inverse [OF assms])
  finally show "x = y" .
qed simp

lemma mult_unit_eq_iff:
  fixes x y c d :: u32
  assumes "c * d = 1"
  shows "x * c = y * c \<longleftrightarrow> x = y"
proof
  assume "x * c = y * c"
  then have "x * (c * d) = y * (c * d)"
    by (simp only: mult.assoc [symmetric])
  then show "x = y"
    by (simp only: assms mult_1_right)
qed simp

lemma prospector32_injective': "inj buxn_jit_prospector32"
proof (rule injI)
  fix x y :: u32
  assume "buxn_jit_prospector32 x = buxn_jit_prospector32 y"
  then show "x = y"
    by (simp add: buxn_jit_prospector32_def Let_def xorshift_eq_iff
        mult_unit_eq_iff [of _ "0x64ea2d65"] mult_unit_eq_iff [of _ "0xcf0b109"])
qed

text \<open>
  C16. The block hash \<^verbatim>\<open>buxn_jit_prospector32\<close> never maps two 32-bit inputs to the same value, so two
  program counters never collide on their full hash.
\<close>

theorem prospector32_injective: "inj buxn_jit_prospector32"
  by (rule prospector32_injective')


lemma bit_hash_digit: "b < 2 \<Longrightarrow> bit (hash_digit h n) b \<longleftrightarrow> bit h (2 * n + b)"
  by (auto simp: hash_digit_def BHAMT_INDEX_def bit_simps less_2_cases_iff numeral_3_eq_3)

lemma hash_digits_determine:
  assumes "\<forall>n < 16. hash_digit h n = hash_digit h' n"
  shows "h = h'"
proof (rule bit_word_eqI)
  fix j assume "j < LENGTH(32)"
  then have "hash_digit h (j div 2) = hash_digit h' (j div 2)"
    using assms by auto
  then show "bit h j \<longleftrightarrow> bit h' j"
    using bit_hash_digit [of "j mod 2" h "j div 2"] bit_hash_digit [of "j mod 2" h' "j div 2"] by simp
qed

lemma bhamt_keys_empty_iff [simp]: "bhamt_keys t = {} \<longleftrightarrow> t = BNull"
  by (cases t) auto

lemma path_length_level:
  assumes inj: "inj hf"
  shows "bhamt_ok hf n t \<Longrightarrow> n \<le> 16 \<Longrightarrow>
    \<forall>k1 \<in> bhamt_keys t. \<forall>k2 \<in> bhamt_keys t. \<forall>i < n. hash_digit (hf k1) i = hash_digit (hf k2) i \<Longrightarrow>
    length (fst (BHAMT_SEARCH t h k)) \<le> 17 - n"
proof (induction t arbitrary: n h)
  case BNull
  then show ?case by simp
next
  case (BNode key v ch)
  let ?c = "ch (BHAMT_INDEX h)"
  show ?case
  proof (cases "n = 16")
    case True
    have "bhamt_keys ?c = {}"
    proof (rule equals0I)
      fix k' assume k': "k' \<in> bhamt_keys ?c"
      then have "k' \<in> bhamt_keys (BNode key v ch)" and "key \<in> bhamt_keys (BNode key v ch)"
        by auto
      then have "\<forall>i < 16. hash_digit (hf k') i = hash_digit (hf key) i"
        using BNode.prems(3) True by blast
      then have "k' = key"
        by (intro injD [OF inj] hash_digits_determine)
      with k' BNode.prems(1) show False by simp
    qed
    with True show ?thesis by (simp add: Let_def)
  next
    case False
    have agree: "\<forall>k1 \<in> bhamt_keys ?c. \<forall>k2 \<in> bhamt_keys ?c. \<forall>i < Suc n.
        hash_digit (hf k1) i = hash_digit (hf k2) i"
    proof (intro ballI allI impI)
      fix k1 k2 i
      assume k: "k1 \<in> bhamt_keys ?c" "k2 \<in> bhamt_keys ?c" and i: "i < Suc n"
      then have "k1 \<in> bhamt_keys (BNode key v ch)" and "k2 \<in> bhamt_keys (BNode key v ch)"
        by auto
      then have "i < n \<Longrightarrow> hash_digit (hf k1) i = hash_digit (hf k2) i"
        using BNode.prems(3) by blast
      moreover have "hash_digit (hf k1) n = hash_digit (hf k2) n"
        using BNode.prems(1) k by simp
      ultimately show "hash_digit (hf k1) i = hash_digit (hf k2) i"
        using i less_antisym by blast
    qed
    have "length (fst (BHAMT_SEARCH ?c (drop_bit 2 h) k)) \<le> 17 - Suc n"
      by (rule BNode.IH [OF _ _ _ agree]) (use BNode.prems(1,2) False in simp_all)
    with False BNode.prems(2) show ?thesis by (auto simp: Let_def)
  qed
qed

lemma inj_block_hash: "inj block_hash"
  by (rule inj_compose [unfolded comp_def, OF prospector32_injective'])
    (rule injI, metis ucast_widen(3))

text \<open>
  C17. A search of the block map takes at most 17 steps, however many blocks are in it.
\<close>

theorem block_search_steps:
  assumes "block_map_ok t"
  shows "length (fst (block_search t k)) \<le> 17"
  using path_length_level [OF inj_block_hash assms] by (simp add: block_search_def)

lemma bhamt_steps_example: "block_map_ok (block_assign [] 0x100 (7 :: nat) BNull)"
  using bm.assign_ok [OF bm.empty_ok, of "0x100" "7 :: nat"] bm.empty_search
  by (simp add: block_map_defs)

theorem block_search_steps_witness:
  "length (fst (block_search (block_assign [] 0x100 (7 :: nat) BNull) 0x101)) \<le> 17"
  by (rule block_search_steps) (rule bhamt_steps_example)

text \<open>
  C18. The block map is a map: filling the slot at which the search for an absent key ended makes
  that key found with the new block, changes the result for no other key, and keeps the map well
  formed.
\<close>

theorem block_assign_refines_map_update:
  assumes "block_map_ok t" and "snd (block_search t k) = None"
  shows "(\<lambda>k'. snd (block_search (block_assign (fst (block_search t k)) k v t) k')) =
      (\<lambda>k'. snd (block_search t k'))(k \<mapsto> v) \<and>
    block_map_ok (block_assign (fst (block_search t k)) k v t)"
  using bm.assign_search [OF assms] bm.assign_ok [OF assms] by auto

theorem block_assign_refines_map_update_witness:
  "let t = block_assign [] 0x100 (7 :: nat) BNull in
   snd (block_search (block_assign (fst (block_search t 0x101)) 0x101 9 t) 0x101) = Some 9 \<and>
   snd (block_search (block_assign (fst (block_search t 0x101)) 0x101 9 t) 0x100) = Some 7"
proof -
  let ?t = "block_assign [] 0x100 (7 :: nat) BNull"
  have t: "snd (block_search ?t 0x101) = None" "snd (block_search ?t 0x100) = Some 7"
    by (simp_all add: block_map_defs)
  show ?thesis
    using fun_cong [OF conjunct1 [OF block_assign_refines_map_update [OF bhamt_steps_example t(1), of 9]]] t
    by (simp add: Let_def)
qed

end
