(* ===== verification/Jit_Queue.thy ===== *)
theory Jit_Queue
  imports Hamt "HOL-Library.Multiset"
begin

text \<open>
  The state of the JIT runtime (\<^verbatim>\<open>struct buxn_jit_s\<close> of \<^verbatim>\<open>src/jit.c\<close>) and its queues. Entries and
  blocks are heap objects that the C code links through \<^verbatim>\<open>next\<close> pointers, so both live in stores
  from addresses to records; an address is a \<open>nat\<close>, a pointer that may be NULL a \<open>nat option\<close>.
  \<^verbatim>\<open>buxn_jit_alloc\<close> (supplied by the host) hands out addresses never used before, with whatever
  contents the store holds there. The part of a block that the trie walks (its key and children) is
  the trie of \<open>Hamt\<close>, whose values are block addresses.
\<close>

section \<open>Linked lists in a store\<close>

fun linked :: "(nat \<Rightarrow> nat option) \<Rightarrow> nat option \<Rightarrow> nat list \<Rightarrow> bool" where
  "linked nx p [] \<longleftrightarrow> p = None"
| "linked nx p (a # as) \<longleftrightarrow> p = Some a \<and> linked nx (nx a) as"

lemma linked_None [simp]: "linked nx None as \<longleftrightarrow> as = []"
  by (cases as) auto

lemma linked_Some: "linked nx (Some a) as \<longleftrightarrow> (\<exists>bs. as = a # bs \<and> linked nx (nx a) bs)"
  by (cases as) auto

lemma linked_cong: "(\<And>a. a \<in> set as \<Longrightarrow> nx a = nx' a) \<Longrightarrow> linked nx p as = linked nx' p as"
  by (induction as arbitrary: p) auto

lemma linked_upd_other [simp]: "a \<notin> set as \<Longrightarrow> linked (nx(a := q)) p as = linked nx p as"
  by (rule linked_cong) auto

lemma linked_unique: "linked nx p as \<Longrightarrow> linked nx p bs \<Longrightarrow> as = bs"
  by (induction as arbitrary: p bs) (auto simp: linked_Some)

section \<open>Data\<close>

datatype buxn_jit_link_type = LINK_TO_HEAD | LINK_TO_BODY

datatype entry_target = Jump_target nat | Pc_target u16

record buxn_jit_entry =
  enext :: "nat option"
  link_type :: buxn_jit_link_type
  eblock :: nat
  ecompiler :: nat
  etarget :: entry_target

record buxn_jit_block =
  bpc :: u16
  fn :: uw
  head_addr :: uw
  body_addr :: uw
  executable_offset :: uw
  bnext :: "nat option"

record buxn_jit_stats =
  code_size :: nat
  num_blocks :: int
  num_bounces :: int

datatype vm_field = F_ws | F_rs | F_wsp | F_rsp | F_device | F_memory

record buxn_jit =
  jit_addr :: uw
  vm_memory :: "u16 \<Rightarrow> u8"
  vm_offset :: "vm_field \<Rightarrow> uw"
  little_endian :: bool
  stats :: buxn_jit_stats
  root :: "nat bhamt"
  first :: "nat option"
  compile_queue :: "nat option"
  link_queue :: "nat option"
  cleanup_queue :: "nat option"
  entry_pool :: "nat option"
  entry_store :: "nat \<Rightarrow> buxn_jit_entry"
  block_store :: "nat \<Rightarrow> buxn_jit_block"
  entries_allocated :: nat
  blocks_allocated :: nat
  compilers_created :: nat

section \<open>Operations\<close>

definition buxn_jit_init ::
  "uw \<Rightarrow> (u16 \<Rightarrow> u8) \<Rightarrow> (vm_field \<Rightarrow> uw) \<Rightarrow> bool \<Rightarrow> (nat \<Rightarrow> buxn_jit_entry) \<Rightarrow> (nat \<Rightarrow> buxn_jit_block) \<Rightarrow> buxn_jit" where
  "buxn_jit_init addr memory offs le es bs =
     \<lparr>jit_addr = addr, vm_memory = memory, vm_offset = offs, little_endian = le,
      stats = \<lparr>code_size = 0, num_blocks = 0, num_bounces = 0\<rparr>,
      root = BNull, first = None,
      compile_queue = None, link_queue = None, cleanup_queue = None, entry_pool = None,
      entry_store = es, block_store = bs,
      entries_allocated = 0, blocks_allocated = 0, compilers_created = 0\<rparr>"

definition buxn_jit_dequeue ::
  "(nat \<Rightarrow> buxn_jit_entry) \<Rightarrow> nat option \<Rightarrow> nat option \<times> nat option" where
  "buxn_jit_dequeue es queue =
     (case queue of
        None \<Rightarrow> (None, queue)
      | Some entry \<Rightarrow> (Some entry, enext (es entry)))"

definition buxn_jit_enqueue ::
  "(nat \<Rightarrow> buxn_jit_entry) \<Rightarrow> nat option \<Rightarrow> nat \<Rightarrow> (nat \<Rightarrow> buxn_jit_entry) \<times> nat option" where
  "buxn_jit_enqueue es queue entry =
     (es(entry := (es entry)\<lparr>enext := queue\<rparr>), Some entry)"

definition buxn_jit_alloc_entry :: "buxn_jit \<Rightarrow> nat \<times> buxn_jit" where
  "buxn_jit_alloc_entry jit =
     (case buxn_jit_dequeue (entry_store jit) (entry_pool jit) of
        (Some entry, pool) \<Rightarrow> (entry, jit\<lparr>entry_pool := pool\<rparr>)
      | (None, pool) \<Rightarrow>
          (entries_allocated jit,
           jit\<lparr>entry_pool := pool, entries_allocated := Suc (entries_allocated jit)\<rparr>))"

definition enqueue_compile :: "nat \<Rightarrow> buxn_jit \<Rightarrow> buxn_jit" where
  "enqueue_compile e jit =
     (let (es, q) = buxn_jit_enqueue (entry_store jit) (compile_queue jit) e
      in jit\<lparr>entry_store := es, compile_queue := q\<rparr>)"

definition enqueue_link :: "nat \<Rightarrow> buxn_jit \<Rightarrow> buxn_jit" where
  "enqueue_link e jit =
     (let (es, q) = buxn_jit_enqueue (entry_store jit) (link_queue jit) e
      in jit\<lparr>entry_store := es, link_queue := q\<rparr>)"

definition enqueue_cleanup :: "nat \<Rightarrow> buxn_jit \<Rightarrow> buxn_jit" where
  "enqueue_cleanup e jit =
     (let (es, q) = buxn_jit_enqueue (entry_store jit) (cleanup_queue jit) e
      in jit\<lparr>entry_store := es, cleanup_queue := q\<rparr>)"

definition enqueue_pool :: "nat \<Rightarrow> buxn_jit \<Rightarrow> buxn_jit" where
  "enqueue_pool e jit =
     (let (es, q) = buxn_jit_enqueue (entry_store jit) (entry_pool jit) e
      in jit\<lparr>entry_store := es, entry_pool := q\<rparr>)"

definition update_entry :: "nat \<Rightarrow> (buxn_jit_entry \<Rightarrow> buxn_jit_entry) \<Rightarrow> buxn_jit \<Rightarrow> buxn_jit" where
  "update_entry e f jit = jit\<lparr>entry_store := (entry_store jit)(e := f (entry_store jit e))\<rparr>"

text \<open>The block part of \<^verbatim>\<open>buxn_jit_queue_block\<close>: a zeroed block for \<open>pc\<close>, put into the slot of
  the trie and in front of the list of all blocks.\<close>

definition new_block :: "child_index list \<Rightarrow> u16 \<Rightarrow> buxn_jit \<Rightarrow> nat \<times> buxn_jit" where
  "new_block itr pc jit =
     (let block = blocks_allocated jit
      in (block,
          jit\<lparr>blocks_allocated := Suc block,
              root := block_assign itr pc block (root jit),
              block_store := (block_store jit)(block :=
                \<lparr>bpc = pc, fn = 0, head_addr = 0, body_addr = 0, executable_offset = 0,
                 bnext = first jit\<rparr>),
              first := Some block,
              stats := (stats jit)\<lparr>num_blocks := num_blocks (stats jit) + 1\<rparr>\<rparr>))"

definition buxn_jit_queue_block :: "buxn_jit \<Rightarrow> u16 \<Rightarrow> nat \<times> buxn_jit" where
  "buxn_jit_queue_block jit pc =
     (let (itr, found) = block_search (root jit) pc
      in case found of
           Some block \<Rightarrow> (block, jit)
         | None \<Rightarrow>
             (let (block, jit) = new_block itr pc jit;
                  compiler = compilers_created jit;
                  jit = jit\<lparr>compilers_created := Suc compiler\<rparr>;
                  (e, jit) = buxn_jit_alloc_entry jit;
                  jit = update_entry e
                    (\<lambda>x. x\<lparr>eblock := block, ecompiler := compiler, etarget := Pc_target pc\<rparr>) jit;
                  jit = enqueue_compile e jit;
                  (k, jit) = buxn_jit_alloc_entry jit;
                  jit = update_entry k (\<lambda>x. x\<lparr>ecompiler := compiler\<rparr>) jit
              in (block, enqueue_cleanup k jit)))"

text \<open>The code addresses \<^verbatim>\<open>buxn_jit_cleanup\<close> passes to \<^verbatim>\<open>sljit_free_code\<close>, in order: the blocks on
  the list that were compiled.\<close>

partial_function (option) cleanup_from :: "(nat \<Rightarrow> buxn_jit_block) \<Rightarrow> nat option \<Rightarrow> uw list option" where
  "cleanup_from bs itr =
     (case itr of
        None \<Rightarrow> Some []
      | Some b \<Rightarrow>
          do {
            rest \<leftarrow> cleanup_from bs (bnext (bs b));
            Some (if fn (bs b) \<noteq> 0 then fn (bs b) # rest else rest)
          })"

definition buxn_jit_cleanup :: "buxn_jit \<Rightarrow> uw list option" where
  "buxn_jit_cleanup jit = cleanup_from (block_store jit) (first jit)"


section \<open>The queue interface\<close>

text \<open>
  What the JIT relies on: a queue represents a list of entries, enqueueing an entry that is on no
  list puts it in front and disturbs no other queue, and dequeueing takes the front off.
\<close>

locale lifo_queue =
  fixes repr :: "'h \<Rightarrow> nat option \<Rightarrow> nat list \<Rightarrow> bool"
    and enq :: "'h \<Rightarrow> nat option \<Rightarrow> nat \<Rightarrow> 'h \<times> nat option"
    and deq :: "'h \<Rightarrow> nat option \<Rightarrow> nat option \<times> nat option"
  assumes repr_empty: "repr h None []"
    and enq_repr: "repr h q xs \<Longrightarrow> e \<notin> set xs \<Longrightarrow> repr (fst (enq h q e)) (snd (enq h q e)) (e # xs)"
    and enq_frame: "repr h p ys \<Longrightarrow> e \<notin> set ys \<Longrightarrow> repr (fst (enq h q e)) p ys"
    and deq_empty: "repr h q [] \<Longrightarrow> deq h q = (None, q)"
    and deq_repr: "repr h q (e # xs) \<Longrightarrow> fst (deq h q) = Some e \<and> repr h (snd (deq h q)) xs"
begin

lemma enq_deq:
  assumes "repr h q xs" and "e \<notin> set xs"
  shows "fst (deq (fst (enq h q e)) (snd (enq h q e))) = Some e"
    and "repr (fst (enq h q e)) (snd (deq (fst (enq h q e)) (snd (enq h q e)))) xs"
  using deq_repr [OF enq_repr [OF assms]] by auto

text \<open>Moving the front of one queue to another, as every loop of \<^verbatim>\<open>buxn_jit\<close> ends: the two queues
  stay intact and the entry is on the second one only.\<close>

lemma recycle:
  assumes q: "repr h q (e # xs)" and p: "repr h p ys"
    and e: "e \<notin> set xs" "e \<notin> set ys"
  shows "repr (fst (enq h p e)) (snd (deq h q)) xs"
    and "repr (fst (enq h p e)) (snd (enq h p e)) (e # ys)"
  using enq_frame [OF conjunct2 [OF deq_repr [OF q]] e(1)] enq_repr [OF p e(2)] by auto

end

definition queue_repr :: "(nat \<Rightarrow> buxn_jit_entry) \<Rightarrow> nat option \<Rightarrow> nat list \<Rightarrow> bool" where
  "queue_repr es q xs = linked (\<lambda>e. enext (es e)) q xs"

lemma queue_repr_cong:
  "(\<And>e. e \<in> set xs \<Longrightarrow> enext (es e) = enext (es' e)) \<Longrightarrow> queue_repr es q xs = queue_repr es' q xs"
  unfolding queue_repr_def by (rule linked_cong) simp

lemma queue_repr_upd [simp]: "e \<notin> set xs \<Longrightarrow> queue_repr (es(e := x)) q xs = queue_repr es q xs"
  by (rule queue_repr_cong) auto

lemma queue_repr_Nil [simp]: "queue_repr es q [] \<longleftrightarrow> q = None"
  by (simp add: queue_repr_def)

lemma queue_repr_Cons [simp]:
  "queue_repr es q (e # xs) \<longleftrightarrow> q = Some e \<and> queue_repr es (enext (es e)) xs"
  by (simp add: queue_repr_def)

interpretation jq: lifo_queue queue_repr buxn_jit_enqueue buxn_jit_dequeue
  by unfold_locales (auto simp: buxn_jit_enqueue_def buxn_jit_dequeue_def)

section \<open>Invariant of the queues\<close>

text \<open>
  \<open>jit_queues jit H cq lq kq pool\<close>: the four queues hold the listed entries, and the entries ever
  allocated are exactly those on a queue and those the running code holds (\<open>H\<close>), each once. So no
  entry is lost and none is on two queues.
\<close>

definition jit_queues ::
  "buxn_jit \<Rightarrow> nat list \<Rightarrow> nat list \<Rightarrow> nat list \<Rightarrow> nat list \<Rightarrow> nat list \<Rightarrow> bool" where
  "jit_queues jit H cq lq kq pool \<longleftrightarrow>
     queue_repr (entry_store jit) (compile_queue jit) cq \<and>
     queue_repr (entry_store jit) (link_queue jit) lq \<and>
     queue_repr (entry_store jit) (cleanup_queue jit) kq \<and>
     queue_repr (entry_store jit) (entry_pool jit) pool \<and>
     distinct (H @ cq @ lq @ kq @ pool) \<and>
     set (H @ cq @ lq @ kq @ pool) = {..<entries_allocated jit}"

lemma jit_queues_init: "jit_queues (buxn_jit_init addr mem offs le es bs) [] [] [] [] []"
  by (simp add: jit_queues_def buxn_jit_init_def queue_repr_def)

lemma jit_queues_enqueue:
  assumes "jit_queues jit (e # H) cq lq kq pool"
  shows "jit_queues (enqueue_compile e jit) H (e # cq) lq kq pool"
    and "jit_queues (enqueue_link e jit) H cq (e # lq) kq pool"
    and "jit_queues (enqueue_cleanup e jit) H cq lq (e # kq) pool"
    and "jit_queues (enqueue_pool e jit) H cq lq kq (e # pool)"
  using assms jq.enq_repr jq.enq_frame
  by (auto simp: jit_queues_def enqueue_compile_def enqueue_link_def enqueue_cleanup_def
      enqueue_pool_def split_beta)

lemma jit_queues_alloc:
  assumes wf: "jit_queues jit H cq lq kq pool" and al: "buxn_jit_alloc_entry jit = (e, jit')"
  shows "jit_queues jit' (e # H) cq lq kq (tl pool)"
proof (cases pool)
  case Nil
  then have "entry_pool jit = None"
    using wf by (simp add: jit_queues_def queue_repr_def)
  then have "e = entries_allocated jit" and
    "jit' = jit\<lparr>entry_pool := None, entries_allocated := Suc (entries_allocated jit)\<rparr>"
    using al by (auto simp: buxn_jit_alloc_entry_def buxn_jit_dequeue_def)
  then show ?thesis
    using wf Nil by (auto simp: jit_queues_def lessThan_Suc queue_repr_def)
next
  case (Cons a as)
  then have a: "entry_pool jit = Some a" "linked (\<lambda>e. enext (entry_store jit e)) (enext (entry_store jit a)) as"
    using wf by (auto simp: jit_queues_def queue_repr_def)
  then have "e = a" and "jit' = jit\<lparr>entry_pool := enext (entry_store jit a)\<rparr>"
    using al by (auto simp: buxn_jit_alloc_entry_def buxn_jit_dequeue_def)
  then show ?thesis
    using wf Cons a(2) by (auto simp: jit_queues_def queue_repr_def)
qed

lemma jit_queues_update_entry:
  assumes "\<And>x. enext (f x) = enext x"
  shows "jit_queues (update_entry e f jit) H cq lq kq pool = jit_queues jit H cq lq kq pool"
proof -
  have "queue_repr (entry_store (update_entry e f jit)) q xs = queue_repr (entry_store jit) q xs" for q xs
    by (rule queue_repr_cong) (simp add: update_entry_def assms)
  then show ?thesis
    by (simp add: jit_queues_def update_entry_def)
qed

section \<open>Invariant of the blocks\<close>

text \<open>
  \<open>jit_blocks jit bs\<close>: the list from \<^verbatim>\<open>blocks.first\<close> is \<open>bs\<close> and holds every block once; the trie
  finds a block exactly under its own address; the statistics count the blocks.
\<close>

definition jit_blocks :: "buxn_jit \<Rightarrow> nat list \<Rightarrow> bool" where
  "jit_blocks jit bs \<longleftrightarrow>
     block_map_ok (root jit) \<and>
     linked (\<lambda>b. bnext (block_store jit b)) (first jit) bs \<and>
     distinct bs \<and> set bs = {..<blocks_allocated jit} \<and>
     num_blocks (stats jit) = int (blocks_allocated jit) \<and>
     (\<forall>k b. snd (block_search (root jit) k) = Some b \<longleftrightarrow>
        b < blocks_allocated jit \<and> bpc (block_store jit b) = k)"

lemma jit_blocks_init: "jit_blocks (buxn_jit_init addr mem offs le es bs) []"
  by (simp add: jit_blocks_def buxn_jit_init_def bm.empty_search)

lemma jit_blocks_new_block:
  assumes wf: "jit_blocks jit bs" and none: "snd (block_search (root jit) pc) = None"
    and nb: "new_block (fst (block_search (root jit) pc)) pc jit = (b, jit')"
  shows "jit_blocks jit' (b # bs)" and "bpc (block_store jit' b) = pc" and "b < blocks_allocated jit'"
proof -
  have ok: "block_map_ok (root jit)" using wf by (simp add: jit_blocks_def)
  have b: "b = blocks_allocated jit" and
    j': "root jit' = block_assign (fst (block_search (root jit) pc)) pc b (root jit)"
      "first jit' = Some b" "blocks_allocated jit' = Suc b"
      "num_blocks (stats jit') = num_blocks (stats jit) + 1"
      "block_store jit' = (block_store jit)(b := \<lparr>bpc = pc, fn = 0, head_addr = 0, body_addr = 0,
          executable_offset = 0, bnext = first jit\<rparr>)"
    using nb by (auto simp: new_block_def Let_def)
  have fresh: "b \<notin> set bs" using wf b by (auto simp: jit_blocks_def)
  have "linked (\<lambda>x. bnext (block_store jit' x)) (first jit) bs =
      linked (\<lambda>x. bnext (block_store jit x)) (first jit) bs"
    using fresh by (intro linked_cong) (auto simp: j')
  moreover have "snd (block_search (root jit') k) = Some c \<longleftrightarrow>
      c < blocks_allocated jit' \<and> bpc (block_store jit' c) = k" for k c
  proof -
    have "snd (block_search (root jit) pc) \<noteq> Some c" using none by simp
    then show ?thesis
      using wf b by (auto simp: j' bm.assign_search [OF ok none] jit_blocks_def less_Suc_eq)
  qed
  ultimately show "jit_blocks jit' (b # bs)"
    using wf fresh b bm.assign_ok [OF ok none]
    by (auto simp: jit_blocks_def j' lessThan_Suc)
  show "bpc (block_store jit' b) = pc" and "b < blocks_allocated jit'"
    by (simp_all add: j')
qed

text \<open>Only the block part of the state matters to \<open>jit_blocks\<close>, only the queue part to \<open>jit_queues\<close>.\<close>

definition same_blocks :: "buxn_jit \<Rightarrow> buxn_jit \<Rightarrow> bool" where
  "same_blocks jit jit' \<longleftrightarrow>
     root jit' = root jit \<and> first jit' = first jit \<and> block_store jit' = block_store jit \<and>
     blocks_allocated jit' = blocks_allocated jit \<and> stats jit' = stats jit"

lemma same_blocks_refl [simp]: "same_blocks jit jit"
  by (simp add: same_blocks_def)

lemma same_blocks_trans [trans]: "same_blocks a b \<Longrightarrow> same_blocks b c \<Longrightarrow> same_blocks a c"
  by (simp add: same_blocks_def)

lemma same_blocks_wf: "same_blocks jit jit' \<Longrightarrow> jit_blocks jit' bs = jit_blocks jit bs"
  by (simp add: same_blocks_def jit_blocks_def)

lemma same_blocks_ops [simp]:
  "same_blocks jit (update_entry e f jit)"
  "same_blocks jit (enqueue_compile e jit)"
  "same_blocks jit (enqueue_link e jit)"
  "same_blocks jit (enqueue_cleanup e jit)"
  "same_blocks jit (enqueue_pool e jit)"
  "same_blocks jit (snd (buxn_jit_alloc_entry jit))"
  by (auto simp: same_blocks_def update_entry_def enqueue_compile_def enqueue_link_def
      enqueue_cleanup_def enqueue_pool_def buxn_jit_alloc_entry_def split_beta split: option.splits prod.splits)


section \<open>Queueing a block\<close>

lemma queue_block_found:
  "snd (block_search (root jit) pc) = Some b \<Longrightarrow> buxn_jit_queue_block jit pc = (b, jit)"
  by (simp add: buxn_jit_queue_block_def split_beta)

lemma jit_queues_new_block:
  "new_block itr pc jit = (b, jit') \<Longrightarrow> jit_queues jit' H cq lq kq pool = jit_queues jit H cq lq kq pool"
  by (auto simp: new_block_def Let_def jit_queues_def)

lemma jit_queues_compilers [simp]:
  "jit_queues (jit\<lparr>compilers_created := n\<rparr>) H cq lq kq pool = jit_queues jit H cq lq kq pool"
  by (simp add: jit_queues_def)

lemma same_blocks_compilers [simp]: "same_blocks jit (jit\<lparr>compilers_created := n\<rparr>)"
  by (simp add: same_blocks_def)

lemma alloc_entry_store [simp]:
  "entry_store (snd (buxn_jit_alloc_entry jit)) = entry_store jit"
  by (auto simp: buxn_jit_alloc_entry_def split: prod.splits option.splits)

lemma queue_block_new:
  assumes qs: "jit_queues jit H cq lq kq pool" and bl: "jit_blocks jit bs"
    and none: "snd (block_search (root jit) pc) = None"
    and q: "buxn_jit_queue_block jit pc = (b, jit')"
  obtains e k where
    "jit_queues jit' H (e # cq) lq (k # kq) (tl (tl pool))"
    "jit_blocks jit' (b # bs)" "bpc (block_store jit' b) = pc" "b < blocks_allocated jit'"
    "eblock (entry_store jit' e) = b" "etarget (entry_store jit' e) = Pc_target pc"
    "ecompiler (entry_store jit' e) = compilers_created jit"
    "ecompiler (entry_store jit' k) = compilers_created jit"
    "b = blocks_allocated jit" "blocks_allocated jit' = Suc b" "fn (block_store jit' b) = 0"
    "\<forall>x. x \<noteq> b \<longrightarrow> block_store jit' x = block_store jit x"
    "\<forall>x. x \<noteq> e \<longrightarrow> x \<noteq> k \<longrightarrow> entry_store jit' x = entry_store jit x"
proof -
  let ?c = "compilers_created jit"
  obtain b1 j1 where nb: "new_block (fst (block_search (root jit) pc)) pc jit = (b1, j1)"
    by fastforce
  have c1: "compilers_created j1 = ?c"
    using nb by (auto simp: new_block_def Let_def)
  obtain e j2 where al1: "buxn_jit_alloc_entry (j1\<lparr>compilers_created := Suc ?c\<rparr>) = (e, j2)"
    by fastforce
  define j3 where "j3 = enqueue_compile e (update_entry e
      (\<lambda>x. x\<lparr>eblock := b1, ecompiler := ?c, etarget := Pc_target pc\<rparr>) j2)"
  obtain k j4 where al2: "buxn_jit_alloc_entry j3 = (k, j4)"
    by fastforce
  have j': "b = b1" "jit' = enqueue_cleanup k (update_entry k (\<lambda>x. x\<lparr>ecompiler := ?c\<rparr>) j4)"
    using q none by (simp_all add: buxn_jit_queue_block_def split_beta nb Let_def c1 al1 j3_def [symmetric] al2)
  have "jit_queues j1 H cq lq kq pool"
    using qs jit_queues_new_block [OF nb] by simp
  then have "jit_queues j2 (e # H) cq lq kq (tl pool)"
    using jit_queues_alloc [OF _ al1] by simp
  then have q3: "jit_queues j3 H (e # cq) lq kq (tl pool)"
    by (simp add: j3_def jit_queues_enqueue jit_queues_update_entry)
  have q4: "jit_queues j4 (k # H) (e # cq) lq kq (tl (tl pool))"
    by (rule jit_queues_alloc [OF q3 al2])
  then have "jit_queues jit' H (e # cq) lq (k # kq) (tl (tl pool))"
    by (simp add: j' jit_queues_enqueue jit_queues_update_entry)
  moreover
  have "same_blocks j1 j2" and "same_blocks j3 j4"
    using same_blocks_trans [OF same_blocks_compilers same_blocks_ops(6), of j1 "Suc ?c"]
      same_blocks_ops(6) [of j3] by (simp_all add: al1 al2)
  then have sb: "same_blocks j1 jit'"
    by (simp add: j'(2) j3_def same_blocks_def update_entry_def enqueue_compile_def
        enqueue_cleanup_def split_beta)
  have "jit_blocks jit' (b # bs)" "bpc (block_store jit' b) = pc" "b < blocks_allocated jit'"
    using jit_blocks_new_block [OF bl none nb] sb
    unfolding same_blocks_wf [OF sb] j'(1) by (simp_all add: same_blocks_def)
  moreover have "k \<noteq> e" using q4 by (auto simp: jit_queues_def)
  then have "eblock (entry_store jit' e) = b" "etarget (entry_store jit' e) = Pc_target pc"
    "ecompiler (entry_store jit' e) = ?c" "ecompiler (entry_store jit' k) = ?c"
    using alloc_entry_store [of j3] unfolding al2 snd_conv
    by (auto simp: j' j3_def update_entry_def enqueue_compile_def enqueue_cleanup_def buxn_jit_enqueue_def)
  moreover have "b = blocks_allocated jit" "blocks_allocated j1 = Suc b" "fn (block_store j1 b) = 0"
    "\<forall>x. x \<noteq> b \<longrightarrow> block_store j1 x = block_store jit x" "entry_store j1 = entry_store jit"
    using nb by (auto simp: j' new_block_def Let_def)
  then have "b = blocks_allocated jit" "blocks_allocated jit' = Suc b" "fn (block_store jit' b) = 0"
    "\<forall>x. x \<noteq> b \<longrightarrow> block_store jit' x = block_store jit x" "entry_store j1 = entry_store jit"
    using sb by (simp_all add: same_blocks_def)
  moreover from this(5) have "\<forall>x. x \<noteq> e \<longrightarrow> x \<noteq> k \<longrightarrow> entry_store jit' x = entry_store jit x"
    using alloc_entry_store [of j3] alloc_entry_store [of "j1\<lparr>compilers_created := Suc ?c\<rparr>"] unfolding al1 al2 snd_conv
    by (auto simp: j' j3_def update_entry_def enqueue_compile_def enqueue_cleanup_def buxn_jit_enqueue_def)
  ultimately show ?thesis by (intro that)
qed

text \<open>
  C13. Queueing a program counter returns a block for it and keeps both invariants: entries are on
  exactly one queue, blocks are findable exactly under their own address and are counted. When the
  block existed nothing changes; otherwise one compile entry for it and one cleanup entry with the
  same compiler are in front of their queues, and the link queue is untouched.
\<close>

theorem queue_block_invariant:
  assumes qs: "jit_queues jit H cq lq kq pool" and bl: "jit_blocks jit bs"
    and q: "buxn_jit_queue_block jit pc = (b, jit')"
  shows "bpc (block_store jit' b) = pc \<and> b < blocks_allocated jit' \<and>
    (case snd (block_search (root jit) pc) of
       Some b0 \<Rightarrow> b = b0 \<and> jit' = jit
     | None \<Rightarrow> (\<exists>e k. jit_queues jit' H (e # cq) lq (k # kq) (tl (tl pool)) \<and> jit_blocks jit' (b # bs) \<and>
         eblock (entry_store jit' e) = b \<and> etarget (entry_store jit' e) = Pc_target pc \<and>
         ecompiler (entry_store jit' e) = ecompiler (entry_store jit' k)))"
proof (cases "snd (block_search (root jit) pc)")
  case None
  obtain e k where
    "jit_queues jit' H (e # cq) lq (k # kq) (tl (tl pool))"
    "jit_blocks jit' (b # bs)" "bpc (block_store jit' b) = pc" "b < blocks_allocated jit'"
    "eblock (entry_store jit' e) = b" "etarget (entry_store jit' e) = Pc_target pc"
    "ecompiler (entry_store jit' e) = ecompiler (entry_store jit' k)"
    by (rule queue_block_new [OF qs bl None q]) simp
  with None show ?thesis by (simp only: option.case) blast
next
  case (Some b0)
  then have "b = b0" and "jit' = jit"
    using q by (simp_all add: queue_block_found)
  moreover have "b0 < blocks_allocated jit" and "bpc (block_store jit b0) = pc"
    using bl Some by (auto simp: jit_blocks_def)
  ultimately show ?thesis using Some by simp
qed

theorem queue_block_invariant_witness:
  "let jit = buxn_jit_init 0x1000 (\<lambda>_. 0) (\<lambda>_. 8) True (\<lambda>_. \<lparr>enext = None, link_type = LINK_TO_HEAD, eblock = 0,
        ecompiler = 0, etarget = Pc_target 0\<rparr>) (\<lambda>_. undefined);
      (b, jit') = buxn_jit_queue_block jit 0x100
   in bpc (block_store jit' b) = 0x100 \<and> b < blocks_allocated jit'"
  using queue_block_invariant [OF jit_queues_init jit_blocks_init prod.collapse [symmetric]]
  by (simp add: split_beta Let_def)

text \<open>
  C14. Queueing the same program counter twice gives the same block and leaves the second state
  unchanged: a block is compiled at most once per address.
\<close>

theorem queue_block_idempotent:
  assumes "jit_queues jit H cq lq kq pool" and "jit_blocks jit bs"
    and "buxn_jit_queue_block jit pc = (b, jit')"
  shows "buxn_jit_queue_block jit' pc = (b, jit')"
proof (cases "snd (block_search (root jit) pc)")
  case None
  show ?thesis
    by (rule queue_block_new [OF assms(1,2) None assms(3)])
      (auto simp: jit_blocks_def intro!: queue_block_found)
next
  case (Some b0)
  then show ?thesis using assms(3) by (simp add: queue_block_found)
qed

theorem queue_block_idempotent_witness:
  "let jit = buxn_jit_init 0x1000 (\<lambda>_. 0) (\<lambda>_. 8) True (\<lambda>_. \<lparr>enext = None, link_type = LINK_TO_HEAD, eblock = 0,
        ecompiler = 0, etarget = Pc_target 0\<rparr>) (\<lambda>_. undefined);
      (b, jit') = buxn_jit_queue_block jit 0x100
   in buxn_jit_queue_block jit' 0x100 = (b, jit')"
  using queue_block_idempotent [OF jit_queues_init jit_blocks_init prod.collapse [symmetric]]
  by (simp add: split_beta Let_def)

lemma cleanup_from_linked:
  "linked (\<lambda>b. bnext (bs b)) p xs \<Longrightarrow>
   cleanup_from bs p = Some (filter (\<lambda>a. a \<noteq> 0) (map (\<lambda>b. fn (bs b)) xs))"
proof (induction xs arbitrary: p)
  case Nil
  then show ?case by (simp add: cleanup_from.simps)
next
  case (Cons x xs)
  then have "cleanup_from bs (bnext (bs x)) = Some (filter (\<lambda>a. a \<noteq> 0) (map (\<lambda>b. fn (bs b)) xs))"
    by simp
  then show ?case
    using Cons.prems by (subst cleanup_from.simps) simp
qed

text \<open>
  C15. \<^verbatim>\<open>buxn_jit_cleanup\<close> terminates and frees the code of every block that was compiled exactly
  once, whatever order the blocks were created in.
\<close>

theorem cleanup_frees_compiled_blocks:
  assumes "jit_blocks jit bs"
  shows "\<exists>freed. buxn_jit_cleanup jit = Some freed \<and>
    mset freed = mset (filter (\<lambda>a. a \<noteq> 0) (map (\<lambda>b. fn (block_store jit b)) [0..<blocks_allocated jit]))"
proof -
  have l: "linked (\<lambda>b. bnext (block_store jit b)) (first jit) bs"
    and "mset bs = mset [0..<blocks_allocated jit]"
    using assms set_eq_iff_mset_eq_distinct [of bs "[0..<blocks_allocated jit]"]
    by (auto simp: jit_blocks_def lessThan_atLeast0)
  then have "mset (map (\<lambda>b. fn (block_store jit b)) bs) =
      mset (map (\<lambda>b. fn (block_store jit b)) [0..<blocks_allocated jit])"
    by (simp only: mset_map)
  then show ?thesis
    using cleanup_from_linked [OF l] by (simp add: buxn_jit_cleanup_def del: mset_map)
qed

text \<open>One block, which has code.\<close>

theorem cleanup_frees_compiled_blocks_witness:
  "\<exists>jit. blocks_allocated jit = 1 \<and> fn (block_store jit 0) = 0x7000 \<and> buxn_jit_cleanup jit = Some [0x7000]"
proof -
  let ?j0 = "buxn_jit_init 0x1000 (\<lambda>_. 0) (\<lambda>_. 8) True (\<lambda>_. undefined) (\<lambda>_. undefined)"
  obtain b jit' where q: "buxn_jit_queue_block ?j0 0x100 = (b, jit')" by fastforce
  have "snd (block_search (root ?j0) 0x100) = None"
    by (simp add: buxn_jit_init_def bm.empty_search)
  from queue_block_new [OF jit_queues_init jit_blocks_init this q]
  have bl: "jit_blocks jit' [b]" by blast
  have n: "blocks_allocated jit' = 1"
    using q by (auto simp: buxn_jit_queue_block_def buxn_jit_init_def block_map_defs new_block_def
        Let_def buxn_jit_alloc_entry_def buxn_jit_dequeue_def update_entry_def enqueue_compile_def
        enqueue_cleanup_def buxn_jit_enqueue_def)
  let ?j = "jit'\<lparr>block_store := (\<lambda>b. (block_store jit' b)\<lparr>fn := 0x7000\<rparr>)\<rparr>"
  have "jit_blocks ?j [b]" using bl by (simp add: jit_blocks_def)
  from cleanup_frees_compiled_blocks [OF this] n show ?thesis
    by (intro exI [of _ ?j]) (auto simp: add_mset_eq_single)
qed

end
