(* ===== verification/Lir.thy ===== *)
theory Lir
  imports Jit_Queue
begin

text \<open>
  The code \<^verbatim>\<open>src/jit.c\<close> emits: one constructor per sljit call it makes (\<^verbatim>\<open>sljit_emit_op1\<close>, \<^verbatim>\<open>sljit_emit_op2\<close>,
  ...), with the arguments of the call. sljit itself is not part of the repository, so what an
  instruction does is a parameter \<open>step\<close>; the locale \<open>sljit_exec\<close> states the documented behaviour
  that the emitted code relies on. The layout of \<^verbatim>\<open>buxn_vm_t\<close> (also outside the repository) is the
  parameter \<open>offs\<close>, the field offsets, with \<open>layout_ok\<close> saying that fields do not overlap.
\<close>

section \<open>Instructions\<close>

datatype sreg = R nat | S nat

datatype opnd = Reg sreg | Imm uw | Mem1 sreg uw | Mem2 sreg sreg

datatype op1 = SLJIT_MOV | SLJIT_MOV_P | SLJIT_MOV32 | SLJIT_MOV_U8 | SLJIT_MOV_S8 | SLJIT_MOV_U16 | SLJIT_REV_U16

datatype op2 = SLJIT_ADD | SLJIT_SUB | SLJIT_MUL | SLJIT_AND | SLJIT_OR | SLJIT_XOR | SLJIT_SHL | SLJIT_LSHR

datatype flag_set = SLJIT_SET_Z | SLJIT_SET_LESS | SLJIT_SET_GREATER

datatype cond = SLJIT_EQUAL | SLJIT_NOT_EQUAL | SLJIT_LESS | SLJIT_GREATER | SLJIT_ZERO

datatype cfun = Fn_dei_helper | Fn_dei2_helper | Fn_deo_helper | Fn_deo2_helper | Fn_translate_jump_addr

datatype lir =
    Op0_DIV_UW
  | Op1 op1 opnd opnd
  | Op2 op2 opnd opnd opnd
  | Op2u op2 flag_set opnd opnd
  | Op_flags opnd cond
  | Load_U16_unaligned sreg opnd
  | Label
  | Jump "cond option" bool
  | Cmp cond bool opnd opnd
  | Call_reg_arg bool
  | Icall_reg_arg sreg
  | Icall cfun
  | Return opnd
  | Enter_c
  | Enter_reg_arg

section \<open>Machine state\<close>

record mach =
  reg :: "sreg \<Rightarrow> uw"
  mem :: "uw \<Rightarrow> u8"
  flag :: "cond \<Rightarrow> bool"

abbreviation set_reg :: "sreg \<Rightarrow> uw \<Rightarrow> mach \<Rightarrow> mach" where
  "set_reg r w m \<equiv> m\<lparr>reg := (reg m)(r := w)\<rparr>"

abbreviation set_mem :: "uw \<Rightarrow> u8 \<Rightarrow> mach \<Rightarrow> mach" where
  "set_mem a b m \<equiv> m\<lparr>mem := (mem m)(a := b)\<rparr>"

fun is_value :: "opnd \<Rightarrow> bool" where
  "is_value (Reg r) = True"
| "is_value (Imm w) = True"
| "is_value _ = False"

fun rd :: "mach \<Rightarrow> opnd \<Rightarrow> uw" where
  "rd m (Reg r) = reg m r"
| "rd m (Imm w) = w"
| "rd m (Mem1 b off) = ucast (mem m (reg m b + off))"
| "rd m (Mem2 b i) = ucast (mem m (reg m b + reg m i))"

fun ea :: "mach \<Rightarrow> opnd \<Rightarrow> uw" where
  "ea m (Mem1 b off) = reg m b + off"
| "ea m (Mem2 b i) = reg m b + reg m i"
| "ea m _ = 0"

fun op1_val :: "op1 \<Rightarrow> uw \<Rightarrow> uw" where
  "op1_val SLJIT_MOV w = w"
| "op1_val SLJIT_MOV_P w = w"
| "op1_val SLJIT_MOV32 w = ucast (ucast w :: u32)"
| "op1_val SLJIT_MOV_U8 w = ucast (ucast w :: u8)"
| "op1_val SLJIT_MOV_S8 w = scast (ucast w :: u8)"
| "op1_val SLJIT_MOV_U16 w = ucast (ucast w :: u16)"
| "op1_val SLJIT_REV_U16 w = ucast (short_of (lo_byte (ucast w)) (hi_byte (ucast w)))"

fun op2_val :: "op2 \<Rightarrow> uw \<Rightarrow> uw \<Rightarrow> uw" where
  "op2_val SLJIT_ADD a b = a + b"
| "op2_val SLJIT_SUB a b = a - b"
| "op2_val SLJIT_MUL a b = a * b"
| "op2_val SLJIT_AND a b = a AND b"
| "op2_val SLJIT_OR a b = a OR b"
| "op2_val SLJIT_XOR a b = a XOR b"
| "op2_val SLJIT_SHL a b = push_bit (unat b) a"
| "op2_val SLJIT_LSHR a b = drop_bit (unat b) a"

section \<open>What the emitted code relies on\<close>

locale sljit_exec =
  fixes step :: "lir \<Rightarrow> mach \<Rightarrow> mach"
    and le :: bool
  assumes step_mov: "is_value s \<Longrightarrow> op \<noteq> SLJIT_MOV32 \<Longrightarrow>
      step (Op1 op (Reg d) s) m = set_reg d (op1_val op (rd m s)) m"
    and step_load: "\<not> is_value s \<Longrightarrow> step (Op1 SLJIT_MOV_U8 (Reg d) s) m = set_reg d (rd m s) m"
    and step_store: "\<not> is_value dst \<Longrightarrow> is_value s \<Longrightarrow>
      step (Op1 SLJIT_MOV_U8 dst s) m = set_mem (ea m dst) (ucast (rd m s)) m"
    and step_op2: "is_value a \<Longrightarrow> is_value b \<Longrightarrow> bop \<noteq> SLJIT_SHL \<Longrightarrow> bop \<noteq> SLJIT_LSHR \<Longrightarrow>
      step (Op2 bop (Reg d) a b) m = set_reg d (op2_val bop (rd m a) (rd m b)) m"
    and step_shift: "is_value a \<Longrightarrow> is_value b \<Longrightarrow> bop = SLJIT_SHL \<or> bop = SLJIT_LSHR \<Longrightarrow>
      unat (rd m b) < 64 \<Longrightarrow>
      step (Op2 bop (Reg d) a b) m = set_reg d (op2_val bop (rd m a) (rd m b)) m"
    and step_sub_z: "is_value a \<Longrightarrow> is_value b \<Longrightarrow> \<exists>fl.
      step (Op2u SLJIT_SUB SLJIT_SET_Z a b) m = m\<lparr>flag := fl\<rparr> \<and>
      fl SLJIT_EQUAL = (rd m a = rd m b) \<and> fl SLJIT_NOT_EQUAL = (rd m a \<noteq> rd m b)"
    and step_sub_less: "is_value a \<Longrightarrow> is_value b \<Longrightarrow> \<exists>fl.
      step (Op2u SLJIT_SUB SLJIT_SET_LESS a b) m = m\<lparr>flag := fl\<rparr> \<and>
      fl SLJIT_LESS = (rd m a < rd m b)"
    and step_sub_greater: "is_value a \<Longrightarrow> is_value b \<Longrightarrow> \<exists>fl.
      step (Op2u SLJIT_SUB SLJIT_SET_GREATER a b) m = m\<lparr>flag := fl\<rparr> \<and>
      fl SLJIT_GREATER = (rd m b < rd m a)"
    and step_flags: "step (Op_flags (Reg d) c) m = set_reg d (if flag m c then 1 else 0) m"
    and step_div: "reg m (R 1) \<noteq> 0 \<Longrightarrow>
      \<exists>w. step Op0_DIV_UW m = m\<lparr>reg := (reg m)(R 0 := reg m (R 0) div reg m (R 1), R 1 := w)\<rparr>"
    and step_load_u16: "step (Load_U16_unaligned d (Mem2 base idx)) m =
      set_reg d (let ad = reg m base + reg m idx in
        ucast (if le then short_of (mem m (ad + 1)) (mem m ad) else short_of (mem m ad) (mem m (ad + 1)))) m"

text \<open>A reference machine with that behaviour.\<close>

fun lir_step :: "bool \<Rightarrow> lir \<Rightarrow> mach \<Rightarrow> mach" where
  "lir_step le (Op1 op (Reg d) s) m =
     set_reg d (if is_value s then op1_val op (rd m s) else rd m s) m"
| "lir_step le (Op1 op d s) m = set_mem (ea m d) (ucast (rd m s)) m"
| "lir_step le (Op2 op (Reg d) a b) m = set_reg d (op2_val op (rd m a) (rd m b)) m"
| "lir_step le (Op2u op f a b) m =
     m\<lparr>flag := case_cond (rd m a = rd m b) (rd m a \<noteq> rd m b) (rd m a < rd m b) (rd m b < rd m a)
                (op2_val op (rd m a) (rd m b) = 0)\<rparr>"
| "lir_step le (Op_flags (Reg d) c) m = set_reg d (if flag m c then 1 else 0) m"
| "lir_step le (Load_U16_unaligned d (Mem2 b i)) m =
     set_reg d (let a = reg m b + reg m i in
        ucast (if le then short_of (mem m (a + 1)) (mem m a) else short_of (mem m a) (mem m (a + 1)))) m"
| "lir_step le Op0_DIV_UW m = set_reg (R 0) (reg m (R 0) div reg m (R 1)) m"
| "lir_step le _ m = m"

interpretation ref_machine: sljit_exec "lir_step le" le
proof
  fix s op d m assume "is_value s" "op \<noteq> SLJIT_MOV32"
  then show "lir_step le (Op1 op (Reg d) s) m = set_reg d (op1_val op (rd m s)) m" by simp
next
  fix d s :: opnd and m assume "\<not> is_value d" "is_value s"
  then show "lir_step le (Op1 SLJIT_MOV_U8 d s) m = set_mem (ea m d) (ucast (rd m s)) m"
    by (cases d) auto
next
  fix m :: mach
  show "\<exists>w. lir_step le Op0_DIV_UW m = m\<lparr>reg := (reg m)(R 0 := reg m (R 0) div reg m (R 1), R 1 := w)\<rparr>"
    by (rule exI [of _ "reg m (R 1)"]) (simp add: fun_upd_idem)
qed auto

section \<open>Straight-line execution\<close>

definition exec :: "(lir \<Rightarrow> mach \<Rightarrow> mach) \<Rightarrow> lir list \<Rightarrow> mach \<Rightarrow> mach" where
  "exec step is m = fold step is m"

lemma exec_Nil [simp]: "exec step [] m = m"
  and exec_Cons [simp]: "exec step (i # is) m = exec step is (step i m)"
  and exec_append [simp]: "exec step (is @ js) m = exec step js (exec step is m)"
  by (simp_all add: exec_def)

section \<open>The layout of the virtual machine in memory\<close>

fun field_size :: "vm_field \<Rightarrow> nat" where
  "field_size F_ws = 256"
| "field_size F_rs = 256"
| "field_size F_device = 256"
| "field_size F_wsp = 1"
| "field_size F_rsp = 1"
| "field_size F_memory = 65536"

definition vm_addr :: "(vm_field \<Rightarrow> uw) \<Rightarrow> uw \<Rightarrow> vm_field \<Rightarrow> uw \<Rightarrow> uw" where
  "vm_addr offs vm f i = vm + offs f + i"

text \<open>The memory of the process that is not part of \<^verbatim>\<open>buxn_vm_t\<close>; the devices keep their state there.\<close>

definition outside_vm :: "(vm_field \<Rightarrow> uw) \<Rightarrow> uw \<Rightarrow> uw \<Rightarrow> bool" where
  "outside_vm offs vm a \<longleftrightarrow> (\<forall>f i. unat i < field_size f \<longrightarrow> a \<noteq> vm_addr offs vm f i)"

definition layout_ok :: "(vm_field \<Rightarrow> uw) \<Rightarrow> uw \<Rightarrow> bool" where
  "layout_ok offs vm \<longleftrightarrow>
     (\<forall>f. offs f \<noteq> 0 \<and> unat vm + unat (offs f) + field_size f < 2 ^ 64) \<and>
     (\<forall>f g. f \<noteq> g \<longrightarrow> unat (offs f) + field_size f \<le> unat (offs g) \<or>
                      unat (offs g) + field_size g \<le> unat (offs f))"

lemma unat_vm_addr:
  assumes "layout_ok offs vm" and "unat i < field_size f"
  shows "unat (vm_addr offs vm f i) = unat vm + unat (offs f) + unat i"
proof -
  have "unat vm + unat (offs f) + unat i < 2 ^ 64"
    using assms by (auto simp: layout_ok_def dest!: spec [where x = f])
  then show ?thesis
    by (simp add: vm_addr_def unat_word_ariths)
qed

lemma vm_addr_eq_iff:
  assumes l: "layout_ok offs vm" and i: "unat i < field_size f" and j: "unat j < field_size g"
  shows "vm_addr offs vm f i = vm_addr offs vm g j \<longleftrightarrow> f = g \<and> i = j"
proof
  assume "vm_addr offs vm f i = vm_addr offs vm g j"
  then have eq: "unat (offs f) + unat i = unat (offs g) + unat j"
    using unat_vm_addr [OF l i] unat_vm_addr [OF l j] by simp
  moreover have "f = g"
  proof (rule ccontr)
    assume "f \<noteq> g"
    then have "unat (offs f) + field_size f \<le> unat (offs g) \<or> unat (offs g) + field_size g \<le> unat (offs f)"
      using l by (auto simp: layout_ok_def)
    with eq i j show False by linarith
  qed
  ultimately show "f = g \<and> i = j" by (simp add: word_unat_eq_iff)
qed simp

text \<open>A layout that satisfies the hypothesis, for the witnesses.\<close>

fun example_offs :: "vm_field \<Rightarrow> uw" where
  "example_offs F_ws = 0x100"
| "example_offs F_rs = 0x200"
| "example_offs F_device = 0x300"
| "example_offs F_wsp = 0x10"
| "example_offs F_rsp = 0x11"
| "example_offs F_memory = 0x400"

lemma layout_ok_example: "layout_ok example_offs 0x1000"
proof -
  have "offs \<noteq> 0 \<and> unat (0x1000 :: uw) + unat offs + field_size f < 2 ^ 64"
    if "offs = example_offs f" for f offs
    using that by (cases f) simp_all
  moreover have "f \<noteq> g \<longrightarrow> unat (example_offs f) + field_size f \<le> unat (example_offs g) \<or>
      unat (example_offs g) + field_size g \<le> unat (example_offs f)" for f g
    by (cases f; cases g) simp_all
  ultimately show ?thesis by (simp add: layout_ok_def)
qed

end
