(* ===== verification/Jit_Ctx.thy ===== *)
theory Jit_Ctx
  imports Lir
begin

text \<open>
  The state of one block compilation (\<^verbatim>\<open>buxn_jit_ctx_t\<close>), the opcode flags, the register reference
  counts, and the stack cache as far as allocating a register needs it: allocation may spill cached
  values to the virtual machine's stack (\<^verbatim>\<open>Utils\<close> and \<^verbatim>\<open>Stack cache\<close> of \<^verbatim>\<open>src/jit.c\<close>).

  A pointer to one of the two caches is the flag that tells them apart in the source
  (\<^verbatim>\<open>cache == &ctx->rst_cache\<close>). The code of \<^verbatim>\<open>ctx->compiler\<close> is the list of instructions emitted so
  far; a label or jump is the position of its instruction there, and \<open>jump_labels\<close> records
  \<^verbatim>\<open>sljit_set_label\<close>. An operation returns \<open>None\<close> where a \<^verbatim>\<open>BUXN_JIT_ASSERT\<close> of the source fails.
\<close>

section \<open>Data\<close>

definition BUXN_JIT_CACHE_SIZE :: nat where
  "BUXN_JIT_CACHE_SIZE = 4"

definition BUXN_JIT_S_VM :: sreg where "BUXN_JIT_S_VM = S 0"
definition BUXN_JIT_S_WSP :: sreg where "BUXN_JIT_S_WSP = S 1"
definition BUXN_JIT_S_RSP :: sreg where "BUXN_JIT_S_RSP = S 2"
definition BUXN_JIT_R_MEM_BASE :: sreg where "BUXN_JIT_R_MEM_BASE = R 0"
definition BUXN_JIT_MEM_OFFSET :: sreg where "BUXN_JIT_MEM_OFFSET = R 1"
definition BUXN_JIT_TMP :: sreg where "BUXN_JIT_TMP = R 2"
definition BUXN_JIT_R_OP_MIN :: nat where "BUXN_JIT_R_OP_MIN = 3"
definition BUXN_JIT_R_OP_MAX :: nat where "BUXN_JIT_R_OP_MAX = 8"

lemmas jit_reg_defs = BUXN_JIT_S_VM_def BUXN_JIT_S_WSP_def BUXN_JIT_S_RSP_def
  BUXN_JIT_R_MEM_BASE_def BUXN_JIT_MEM_OFFSET_def BUXN_JIT_TMP_def

definition BUXN_JIT_MEM :: opnd where
  "BUXN_JIT_MEM = Mem2 BUXN_JIT_R_MEM_BASE BUXN_JIT_MEM_OFFSET"

datatype sem_flag = SEM_CONST | SEM_BOOLEAN | SEM_IMM_JMP

record buxn_jit_value =
  vsem :: "sem_flag set"
  vconst :: u8

record buxn_jit_operand =
  semantics :: "sem_flag set"
  is_short :: bool
  const_value :: u16
  oreg :: sreg

record buxn_jit_stack_cache_cell =
  cval :: buxn_jit_operand
  need_flush :: bool

record buxn_jit_stack_cache =
  cells :: "buxn_jit_stack_cache_cell list"
  clen :: nat

record buxn_jit_ctx =
  jit :: buxn_jit
  compiler :: bool
  compiler_id :: nat
  code :: "lir list"
  jump_labels :: "nat \<rightharpoonup> nat"
  call_fallback :: nat
  entry_pc :: u16
  pc :: u16
  current_opcode :: u8
  mem_base :: uw
  wst :: "u8 \<Rightarrow> buxn_jit_value"
  rst :: "u8 \<Rightarrow> buxn_jit_value"
  wsp :: u8
  rsp :: u8
  shadow_wsp :: u8
  shadow_rsp :: u8
  eshadow :: bool
  wsp_reg :: sreg
  rsp_reg :: sreg
  reg_ref_counts :: "nat list"
  wst_cache :: buxn_jit_stack_cache
  rst_cache :: buxn_jit_stack_cache

section \<open>Emitting code\<close>

definition emit :: "lir \<Rightarrow> buxn_jit_ctx \<Rightarrow> buxn_jit_ctx" where
  "emit i ctx = ctx\<lparr>code := code ctx @ [i]\<rparr>"

definition emit_label :: "buxn_jit_ctx \<Rightarrow> nat \<times> buxn_jit_ctx" where
  "emit_label ctx = (length (code ctx), emit Label ctx)"

definition emit_jump :: "lir \<Rightarrow> buxn_jit_ctx \<Rightarrow> nat \<times> buxn_jit_ctx" where
  "emit_jump j ctx = (length (code ctx), emit j ctx)"

definition set_label :: "nat \<Rightarrow> nat \<Rightarrow> buxn_jit_ctx \<Rightarrow> buxn_jit_ctx" where
  "set_label j l ctx = ctx\<lparr>jump_labels := (jump_labels ctx)(j \<mapsto> l)\<rparr>"

fun emit_all :: "lir list \<Rightarrow> buxn_jit_ctx \<Rightarrow> buxn_jit_ctx" where
  "emit_all [] ctx = ctx"
| "emit_all (i # is) ctx = emit_all is (emit i ctx)"

lemma emit_all_eq: "emit_all is ctx = ctx\<lparr>code := code ctx @ is\<rparr>"
  by (induction "is" arbitrary: ctx) (simp_all add: emit_def)

section \<open>Opcode flags\<close>

abbreviation OPC_JCI :: u8 where "OPC_JCI \<equiv> 0x20"
abbreviation OPC_JMI :: u8 where "OPC_JMI \<equiv> 0x40"
abbreviation OPC_JSI :: u8 where "OPC_JSI \<equiv> 0x60"

definition buxn_jit_op_flag_2 :: "buxn_jit_ctx \<Rightarrow> bool" where
  "buxn_jit_op_flag_2 ctx \<longleftrightarrow>
     current_opcode ctx AND 0x20 \<noteq> 0 \<and>
     current_opcode ctx \<noteq> 0x20 \<and> current_opcode ctx \<noteq> 0x40 \<and> current_opcode ctx \<noteq> 0x60"

definition buxn_jit_op_flag_k :: "buxn_jit_ctx \<Rightarrow> bool" where
  "buxn_jit_op_flag_k ctx \<longleftrightarrow>
     current_opcode ctx AND 0x80 \<noteq> 0 \<and>
     current_opcode ctx \<noteq> 0x20 \<and> current_opcode ctx \<noteq> 0x40 \<and> current_opcode ctx \<noteq> 0x60 \<and>
     current_opcode ctx \<noteq> 0x80 \<and> current_opcode ctx \<noteq> 0xa0 \<and>
     current_opcode ctx \<noteq> 0xc0 \<and> current_opcode ctx \<noteq> 0xe0"

definition buxn_jit_op_flag_r :: "buxn_jit_ctx \<Rightarrow> bool" where
  "buxn_jit_op_flag_r ctx \<longleftrightarrow>
     current_opcode ctx AND 0x40 \<noteq> 0 \<and>
     current_opcode ctx \<noteq> 0x20 \<and> current_opcode ctx \<noteq> 0x40 \<and> current_opcode ctx \<noteq> 0x60"

section \<open>Register reference counts\<close>

fun find_free_from :: "nat \<Rightarrow> nat list \<Rightarrow> nat option" where
  "find_free_from i [] = None"
| "find_free_from i (c # cs) = (if c = 0 then Some i else find_free_from (Suc i) cs)"

definition buxn_jit_find_free_reg :: "buxn_jit_ctx \<Rightarrow> sreg option" where
  "buxn_jit_find_free_reg ctx =
     map_option (\<lambda>i. R (BUXN_JIT_R_OP_MIN + i)) (find_free_from 0 (reg_ref_counts ctx))"

fun op_index :: "sreg \<Rightarrow> nat option" where
  "op_index (R n) =
     (if BUXN_JIT_R_OP_MIN \<le> n \<and> n \<le> BUXN_JIT_R_OP_MAX then Some (n - BUXN_JIT_R_OP_MIN) else None)"
| "op_index (S n) = None"

definition buxn_jit_retain_reg :: "sreg \<Rightarrow> buxn_jit_ctx \<Rightarrow> buxn_jit_ctx option" where
  "buxn_jit_retain_reg r ctx =
     (case op_index r of
        None \<Rightarrow> None
      | Some i \<Rightarrow>
          Some (ctx\<lparr>reg_ref_counts := (reg_ref_counts ctx)[i := reg_ref_counts ctx ! i + 1]\<rparr>))"

definition buxn_jit_release_reg :: "sreg \<Rightarrow> buxn_jit_ctx \<Rightarrow> buxn_jit_ctx option" where
  "buxn_jit_release_reg r ctx =
     (case op_index r of
        None \<Rightarrow> None
      | Some i \<Rightarrow>
          (if reg_ref_counts ctx ! i > 0
           then Some (ctx\<lparr>reg_ref_counts := (reg_ref_counts ctx)[i := reg_ref_counts ctx ! i - 1]\<rparr>)
           else None))"

section \<open>Caches\<close>

definition cache_of :: "bool \<Rightarrow> buxn_jit_ctx \<Rightarrow> buxn_jit_stack_cache" where
  "cache_of flag_r ctx = (if flag_r then rst_cache ctx else wst_cache ctx)"

definition set_cache :: "bool \<Rightarrow> buxn_jit_stack_cache \<Rightarrow> buxn_jit_ctx \<Rightarrow> buxn_jit_ctx" where
  "set_cache flag_r c ctx = (if flag_r then ctx\<lparr>rst_cache := c\<rparr> else ctx\<lparr>wst_cache := c\<rparr>)"

definition stack_field :: "bool \<Rightarrow> vm_field" where
  "stack_field flag_r = (if flag_r then F_rs else F_ws)"

definition stack_reg :: "bool \<Rightarrow> sreg" where
  "stack_reg flag_r = (if flag_r then BUXN_JIT_S_RSP else BUXN_JIT_S_WSP)"

definition stack_ptr_reg :: "bool \<Rightarrow> buxn_jit_ctx \<Rightarrow> sreg" where
  "stack_ptr_reg flag_r ctx = (if flag_r then rsp_reg ctx else wsp_reg ctx)"

section \<open>Writing cached values to the stack\<close>

definition buxn_jit_set_mem_base :: "vm_field \<Rightarrow> buxn_jit_ctx \<Rightarrow> buxn_jit_ctx" where
  "buxn_jit_set_mem_base f ctx =
     (let base = vm_offset (jit ctx) f
      in if mem_base ctx \<noteq> base
         then (emit (Op2 SLJIT_ADD (Reg BUXN_JIT_R_MEM_BASE) (Reg BUXN_JIT_S_VM) (Imm base)) ctx)
                \<lparr>mem_base := base\<rparr>
         else ctx)"

definition push_code :: "bool \<Rightarrow> buxn_jit_operand \<Rightarrow> lir list" where
  "push_code flag_r operand =
     (let sp = stack_reg flag_r in
      if is_short operand then
        [Op1 SLJIT_MOV_U8 (Reg BUXN_JIT_MEM_OFFSET) (Reg sp),
         Op2 SLJIT_LSHR (Reg BUXN_JIT_TMP) (Reg (oreg operand)) (Imm 8),
         Op1 SLJIT_MOV_U8 BUXN_JIT_MEM (Reg BUXN_JIT_TMP),
         Op2 SLJIT_ADD (Reg sp) (Reg sp) (Imm 1),
         Op1 SLJIT_MOV_U8 (Reg BUXN_JIT_MEM_OFFSET) (Reg sp),
         Op2 SLJIT_AND (Reg BUXN_JIT_TMP) (Reg (oreg operand)) (Imm 0xff),
         Op1 SLJIT_MOV_U8 BUXN_JIT_MEM (Reg BUXN_JIT_TMP),
         Op2 SLJIT_ADD (Reg sp) (Reg sp) (Imm 1)]
      else
        [Op1 SLJIT_MOV_U8 (Reg BUXN_JIT_MEM_OFFSET) (Reg sp),
         Op1 SLJIT_MOV_U8 BUXN_JIT_MEM (Reg (oreg operand)),
         Op2 SLJIT_ADD (Reg sp) (Reg sp) (Imm 1)])"

definition buxn_jit_do_push :: "buxn_jit_operand \<Rightarrow> bool \<Rightarrow> buxn_jit_ctx \<Rightarrow> buxn_jit_ctx" where
  "buxn_jit_do_push operand flag_r ctx =
     emit_all (push_code flag_r operand) (buxn_jit_set_mem_base (stack_field flag_r) ctx)"

definition buxn_jit_flush_cell :: "bool \<Rightarrow> nat \<Rightarrow> buxn_jit_ctx \<Rightarrow> buxn_jit_ctx" where
  "buxn_jit_flush_cell flag_r i ctx =
     (let cache = cache_of flag_r ctx;
          cell = cells cache ! i
      in set_cache flag_r (cache\<lparr>cells := (cells cache)[i := cell\<lparr>need_flush := False\<rparr>]\<rparr>)
           (buxn_jit_do_push (cval cell) flag_r ctx))"

text \<open>\<^verbatim>\<open>memmove(&cells[0], &cells[k], n * sizeof(cells[0]))\<close>: the slots from \<open>n\<close> on keep their
  contents.\<close>

definition shift_cells :: "nat \<Rightarrow> nat \<Rightarrow> 'a list \<Rightarrow> 'a list" where
  "shift_cells k n xs = take n (drop k xs) @ drop n xs"

definition buxn_jit_stack_cache_spill :: "bool \<Rightarrow> buxn_jit_ctx \<Rightarrow> (bool \<times> buxn_jit_ctx) option" where
  "buxn_jit_stack_cache_spill flag_r ctx =
     (if clen (cache_of flag_r ctx) = 0 then Some (False, ctx)
      else do {
        let ctx = (if need_flush (cells (cache_of flag_r ctx) ! 0)
                   then buxn_jit_flush_cell flag_r 0 ctx else ctx);
        ctx \<leftarrow> buxn_jit_release_reg (oreg (cval (cells (cache_of flag_r ctx) ! 0))) ctx;
        let cache = cache_of flag_r ctx;
        let n = clen cache - 1;
        Some (True, set_cache flag_r (cache\<lparr>clen := n, cells := shift_cells 1 n (cells cache)\<rparr>) ctx)
      })"


section \<open>What the cache operations leave alone\<close>

lemma cache_of_set_cache [simp]:
  "cache_of r (set_cache r c ctx) = c"
  "r \<noteq> q \<Longrightarrow> cache_of q (set_cache r c ctx) = cache_of q ctx"
  by (auto simp: cache_of_def set_cache_def)

lemma set_cache_sel [simp]:
  "jit (set_cache r c ctx) = jit ctx"
  "compiler (set_cache r c ctx) = compiler ctx"
  "compiler_id (set_cache r c ctx) = compiler_id ctx"
  "code (set_cache r c ctx) = code ctx"
  "jump_labels (set_cache r c ctx) = jump_labels ctx"
  "call_fallback (set_cache r c ctx) = call_fallback ctx"
  "entry_pc (set_cache r c ctx) = entry_pc ctx"
  "pc (set_cache r c ctx) = pc ctx"
  "current_opcode (set_cache r c ctx) = current_opcode ctx"
  "mem_base (set_cache r c ctx) = mem_base ctx"
  "wst (set_cache r c ctx) = wst ctx"
  "rst (set_cache r c ctx) = rst ctx"
  "wsp (set_cache r c ctx) = wsp ctx"
  "rsp (set_cache r c ctx) = rsp ctx"
  "shadow_wsp (set_cache r c ctx) = shadow_wsp ctx"
  "shadow_rsp (set_cache r c ctx) = shadow_rsp ctx"
  "eshadow (set_cache r c ctx) = eshadow ctx"
  "wsp_reg (set_cache r c ctx) = wsp_reg ctx"
  "rsp_reg (set_cache r c ctx) = rsp_reg ctx"
  "reg_ref_counts (set_cache r c ctx) = reg_ref_counts ctx"
  by (simp_all add: set_cache_def)

text \<open>\<open>ctx_frame ctx ctx'\<close>: the two differ only in emitted code, memory base, reference counts and
  caches, which is all that writing cached values back and allocating registers may touch.\<close>

definition ctx_frame :: "buxn_jit_ctx \<Rightarrow> buxn_jit_ctx \<Rightarrow> bool" where
  "ctx_frame ctx ctx' \<longleftrightarrow>
     jit ctx' = jit ctx \<and> compiler ctx' = compiler ctx \<and>
     compiler_id ctx' = compiler_id ctx \<and> jump_labels ctx' = jump_labels ctx \<and>
     call_fallback ctx' = call_fallback ctx \<and> entry_pc ctx' = entry_pc ctx \<and> pc ctx' = pc ctx \<and>
     current_opcode ctx' = current_opcode ctx \<and> wst ctx' = wst ctx \<and> rst ctx' = rst ctx \<and>
     wsp ctx' = wsp ctx \<and> rsp ctx' = rsp ctx \<and> shadow_wsp ctx' = shadow_wsp ctx \<and>
     shadow_rsp ctx' = shadow_rsp ctx \<and> eshadow ctx' = eshadow ctx \<and>
     wsp_reg ctx' = wsp_reg ctx \<and> rsp_reg ctx' = rsp_reg ctx"

lemma ctx_frame_refl [simp]: "ctx_frame ctx ctx"
  by (simp add: ctx_frame_def)

lemma ctx_frame_trans [trans]: "ctx_frame a b \<Longrightarrow> ctx_frame b c \<Longrightarrow> ctx_frame a c"
  by (simp add: ctx_frame_def)

lemma ctx_frame_set_cache [simp]: "ctx_frame ctx (set_cache r c ctx')  = ctx_frame ctx ctx'"
  by (simp add: ctx_frame_def)

lemma ctx_frame_emit [simp]: "ctx_frame ctx (emit i ctx') = ctx_frame ctx ctx'"
  by (simp add: ctx_frame_def emit_def)

lemma ctx_frame_emit_all [simp]: "ctx_frame ctx (emit_all is ctx') = ctx_frame ctx ctx'"
  by (simp add: ctx_frame_def emit_all_eq)

lemma ctx_frame_set_mem_base [simp]: "ctx_frame ctx (buxn_jit_set_mem_base f ctx') = ctx_frame ctx ctx'"
  by (simp add: ctx_frame_def buxn_jit_set_mem_base_def emit_def Let_def)

lemma ctx_frame_flush_cell [simp]: "ctx_frame ctx (buxn_jit_flush_cell r i ctx') = ctx_frame ctx ctx'"
  by (simp add: buxn_jit_flush_cell_def buxn_jit_do_push_def Let_def)

lemma ctx_frame_sym: "ctx_frame a b = ctx_frame b a"
  by (auto simp: ctx_frame_def)

lemma ctx_frame_flush_cell_left [simp]: "ctx_frame (buxn_jit_flush_cell r i ctx) ctx' = ctx_frame ctx ctx'"
  using ctx_frame_flush_cell [of ctx' r i ctx] by (simp add: ctx_frame_sym)

lemma ctx_frame_release: "buxn_jit_release_reg r ctx = Some ctx' \<Longrightarrow> ctx_frame ctx ctx'"
  by (auto simp: buxn_jit_release_reg_def ctx_frame_def split: option.splits if_splits)

lemma ctx_frame_retain: "buxn_jit_retain_reg r ctx = Some ctx' \<Longrightarrow> ctx_frame ctx ctx'"
  by (auto simp: buxn_jit_retain_reg_def ctx_frame_def split: option.splits if_splits)

lemma cache_emit [simp]:
  "cache_of r (emit i ctx) = cache_of r ctx"
  "cache_of r (emit_all is ctx) = cache_of r ctx"
  "cache_of r (buxn_jit_set_mem_base f ctx) = cache_of r ctx"
  "cache_of r (buxn_jit_do_push v q ctx) = cache_of r ctx"
  by (simp_all add: cache_of_def emit_def emit_all_eq buxn_jit_set_mem_base_def buxn_jit_do_push_def Let_def)

lemma ref_counts_emit [simp]:
  "reg_ref_counts (emit i ctx) = reg_ref_counts ctx"
  "reg_ref_counts (emit_all is ctx) = reg_ref_counts ctx"
  "reg_ref_counts (buxn_jit_set_mem_base f ctx) = reg_ref_counts ctx"
  "reg_ref_counts (buxn_jit_do_push v q ctx) = reg_ref_counts ctx"
  "reg_ref_counts (buxn_jit_flush_cell q n ctx) = reg_ref_counts ctx"
  by (simp_all add: emit_def emit_all_eq buxn_jit_set_mem_base_def buxn_jit_do_push_def
      buxn_jit_flush_cell_def Let_def)

lemma cache_flush_cell [simp]:
  "clen (cache_of q (buxn_jit_flush_cell r i ctx)) = clen (cache_of q ctx)"
  "cells (cache_of q (buxn_jit_flush_cell r i ctx)) =
     (if q = r then (cells (cache_of r ctx))[i := (cells (cache_of r ctx) ! i)\<lparr>need_flush := False\<rparr>]
      else cells (cache_of q ctx))"
  by (cases "q = r"; simp add: buxn_jit_flush_cell_def Let_def)+

lemma cache_release: "buxn_jit_release_reg r ctx = Some ctx' \<Longrightarrow> cache_of q ctx' = cache_of q ctx"
  by (auto simp: buxn_jit_release_reg_def cache_of_def split: option.splits if_splits)

lemma cache_retain: "buxn_jit_retain_reg r ctx = Some ctx' \<Longrightarrow> cache_of q ctx' = cache_of q ctx"
  by (auto simp: buxn_jit_retain_reg_def cache_of_def split: option.splits if_splits)

lemma spill_result:
  assumes "buxn_jit_stack_cache_spill r ctx = Some (ok, ctx')"
  shows "ok \<longleftrightarrow> clen (cache_of r ctx) \<noteq> 0" and "ctx_frame ctx ctx'"
    and "clen (cache_of r ctx') = clen (cache_of r ctx) - 1"
    and "cache_of (\<not> r) ctx' = cache_of (\<not> r) ctx"
proof -
  show "ok \<longleftrightarrow> clen (cache_of r ctx) \<noteq> 0" "ctx_frame ctx ctx'"
    "clen (cache_of r ctx') = clen (cache_of r ctx) - 1"
    using assms
    by (auto simp: buxn_jit_stack_cache_spill_def Let_def split: if_splits bind_splits
        dest: ctx_frame_release cache_release [where q = r])
  have "cache_of (\<not> r) (buxn_jit_flush_cell r 0 ctx) = cache_of (\<not> r) ctx"
    by (simp add: buxn_jit_flush_cell_def Let_def)
  then show "cache_of (\<not> r) ctx' = cache_of (\<not> r) ctx"
    using assms
    by (auto simp: buxn_jit_stack_cache_spill_def Let_def split: if_splits bind_splits
        dest: cache_release [where q = "\<not> r"])
qed

section \<open>Allocating a register\<close>

definition cached_total :: "buxn_jit_ctx \<Rightarrow> nat" where
  "cached_total ctx = clen (wst_cache ctx) + clen (rst_cache ctx)"

text \<open>The body of the loop in \<^verbatim>\<open>buxn_jit_alloc_reg\<close>: spill from the current stack's cache, else from
  the other one.\<close>

definition spill_any :: "buxn_jit_ctx \<Rightarrow> buxn_jit_ctx option" where
  "spill_any ctx =
     (let r = buxn_jit_op_flag_r ctx in
      do {
        (ok, ctx) \<leftarrow> buxn_jit_stack_cache_spill r ctx;
        if ok then Some ctx
        else do { (ok, ctx) \<leftarrow> buxn_jit_stack_cache_spill (\<not> r) ctx; Some ctx }
      })"

lemma cached_total_eq: "cached_total ctx = clen (cache_of r ctx) + clen (cache_of (\<not> r) ctx)"
  by (simp add: cached_total_def cache_of_def)

lemma spill_empty: "clen (cache_of r ctx) = 0 \<Longrightarrow> buxn_jit_stack_cache_spill r ctx = Some (False, ctx)"
  by (simp add: buxn_jit_stack_cache_spill_def)

text \<open>One round of the loop is one spill, of one of the two caches, or of none when both are empty.\<close>

lemma spill_any_cases:
  assumes "spill_any ctx = Some ctx'"
  obtains r ok where "buxn_jit_stack_cache_spill r ctx = Some (ok, ctx')"
    and "ok \<longleftrightarrow> cached_total ctx \<noteq> 0"
proof -
  let ?r = "buxn_jit_op_flag_r ctx"
  show ?thesis
  proof (cases "clen (cache_of ?r ctx) = 0")
    case True
    then obtain ok where "buxn_jit_stack_cache_spill (\<not> ?r) ctx = Some (ok, ctx')"
      using assms by (auto simp: spill_any_def Let_def spill_empty split: bind_splits)
    from that [OF this] spill_result(1) [OF this] True show ?thesis
      by (simp add: cached_total_eq [of _ ?r])
  next
    case False
    then have "buxn_jit_stack_cache_spill ?r ctx = Some (True, ctx')"
      using assms by (auto simp: spill_any_def Let_def split: bind_splits if_splits dest: spill_result(1))
    from that [OF this] False show ?thesis
      by (simp add: cached_total_eq [of _ ?r])
  qed
qed

lemma spill_any_frame: "spill_any ctx = Some ctx' \<Longrightarrow> ctx_frame ctx ctx'"
  by (erule spill_any_cases) (rule spill_result(2))

lemma spill_any_total:
  assumes "spill_any ctx = Some ctx'"
  shows "cached_total ctx' = cached_total ctx - 1"
proof (rule spill_any_cases [OF assms])
  fix r ok assume "buxn_jit_stack_cache_spill r ctx = Some (ok, ctx')" and "ok \<longleftrightarrow> cached_total ctx \<noteq> 0"
  with spill_result [OF this(1)] show ?thesis
    by (auto simp: cached_total_eq [of _ r])
qed

function alloc_reg_loop :: "buxn_jit_ctx \<Rightarrow> (sreg option \<times> buxn_jit_ctx) option" where
  "alloc_reg_loop ctx =
     (case buxn_jit_find_free_reg ctx of
        Some r \<Rightarrow> Some (Some r, ctx)
      | None \<Rightarrow>
          if cached_total ctx > 0
          then (case spill_any ctx of None \<Rightarrow> None | Some ctx' \<Rightarrow> alloc_reg_loop ctx')
          else Some (None, ctx))"
  by pat_completeness auto
termination
  by (relation "measure cached_total") (auto dest: spill_any_total)

declare alloc_reg_loop.simps [simp del]

definition buxn_jit_alloc_reg :: "buxn_jit_ctx \<Rightarrow> (sreg \<times> buxn_jit_ctx) option" where
  "buxn_jit_alloc_reg ctx =
     do {
       (r, ctx) \<leftarrow> alloc_reg_loop ctx;
       case r of
         None \<Rightarrow> None
       | Some r \<Rightarrow> do { ctx \<leftarrow> buxn_jit_retain_reg r ctx; Some (r, ctx) }
     }"

end
