(* ===== verification/Stack_Cache.thy ===== *)
theory Stack_Cache
  imports Jit_Ctx
begin

text \<open>
  The rest of the stack cache of \<^verbatim>\<open>src/jit.c\<close>: pushing, popping and discarding operands, and
  flushing, clearing and retaining a whole cache. Operands popped stay in their registers; the
  virtual machine's stack is only touched when a value has to leave the cache or was never in it.
\<close>

definition buxn_jit_stack_cache_push ::
  "bool \<Rightarrow> buxn_jit_operand \<Rightarrow> buxn_jit_ctx \<Rightarrow> buxn_jit_ctx option" where
  "buxn_jit_stack_cache_push flag_r value ctx =
     do {
       ctx \<leftarrow> (if clen (cache_of flag_r ctx) \<ge> BUXN_JIT_CACHE_SIZE
               then map_option snd (buxn_jit_stack_cache_spill flag_r ctx) else Some ctx);
       let cache = cache_of flag_r ctx;
       let n = clen cache;
       let ctx = set_cache flag_r
         (cache\<lparr>clen := n + 1, cells := (cells cache)[n := \<lparr>cval = value, need_flush = True\<rparr>]\<rparr>) ctx;
       buxn_jit_retain_reg (oreg value) ctx
     }"

definition pop_code :: "sreg \<Rightarrow> sreg \<Rightarrow> bool \<Rightarrow> lir list" where
  "pop_code sp r flag_2 =
     (if flag_2 then
        [Op2 SLJIT_SUB (Reg sp) (Reg sp) (Imm 1),
         Op1 SLJIT_MOV_U8 (Reg BUXN_JIT_MEM_OFFSET) (Reg sp),
         Op1 SLJIT_MOV_U8 (Reg r) BUXN_JIT_MEM,
         Op2 SLJIT_SUB (Reg sp) (Reg sp) (Imm 1),
         Op1 SLJIT_MOV_U8 (Reg BUXN_JIT_MEM_OFFSET) (Reg sp),
         Op1 SLJIT_MOV_U8 (Reg BUXN_JIT_TMP) BUXN_JIT_MEM,
         Op2 SLJIT_SHL (Reg BUXN_JIT_TMP) (Reg BUXN_JIT_TMP) (Imm 8),
         Op2 SLJIT_OR (Reg r) (Reg r) (Reg BUXN_JIT_TMP)]
      else
        [Op2 SLJIT_SUB (Reg sp) (Reg sp) (Imm 1),
         Op1 SLJIT_MOV_U8 (Reg BUXN_JIT_MEM_OFFSET) (Reg sp),
         Op1 SLJIT_MOV_U8 (Reg r) BUXN_JIT_MEM])"

definition buxn_jit_pop_from_mem :: "bool \<Rightarrow> bool \<Rightarrow> buxn_jit_ctx \<Rightarrow> (sreg \<times> buxn_jit_ctx) option" where
  "buxn_jit_pop_from_mem flag_2 flag_r ctx =
     do {
       let ctx = buxn_jit_set_mem_base (stack_field flag_r) ctx;
       let sp = stack_ptr_reg flag_r ctx;
       (r, ctx) \<leftarrow> buxn_jit_alloc_reg ctx;
       Some (r, emit_all (pop_code sp r flag_2) ctx)
     }"

text \<open>
  \<^verbatim>\<open>buxn_jit_stack_cache_pop\<close> for a byte. The pointer \<^verbatim>\<open>top\<close> is taken before a register is
  allocated; the slot index \<open>top\<close> here is fixed at the same moment, so a spill in between moves the
  cells under it just as \<^verbatim>\<open>memmove\<close> does.
\<close>

definition stack_cache_pop_byte :: "bool \<Rightarrow> buxn_jit_ctx \<Rightarrow> (sreg \<times> buxn_jit_ctx) option" where
  "stack_cache_pop_byte flag_r ctx =
     (if clen (cache_of flag_r ctx) = 0 then buxn_jit_pop_from_mem False flag_r ctx
      else
        let top = clen (cache_of flag_r ctx) - 1 in
        if is_short (cval (cells (cache_of flag_r ctx) ! top)) then
          do {
            (r, ctx) \<leftarrow> buxn_jit_alloc_reg ctx;
            if clen (cache_of flag_r ctx) = 0 then
              do {
                ctx \<leftarrow> buxn_jit_release_reg r ctx;
                buxn_jit_pop_from_mem False flag_r ctx
              }
            else
              let cell = cells (cache_of flag_r ctx) ! top;
                  ctx = emit_all
                    [Op1 SLJIT_MOV_U8 (Reg r) (Reg (oreg (cval cell))),
                     Op2 SLJIT_LSHR (Reg (oreg (cval cell))) (Reg (oreg (cval cell))) (Imm 8)] ctx;
                  cache = cache_of flag_r ctx
              in Some (r, set_cache flag_r
                   (cache\<lparr>cells := (cells cache)[top := cell\<lparr>cval := (cval cell)\<lparr>is_short := False\<rparr>\<rparr>]\<rparr>) ctx)
          }
        else
          let cache = cache_of flag_r ctx
          in Some (oreg (cval (cells cache ! top)), set_cache flag_r (cache\<lparr>clen := top\<rparr>) ctx))"

definition stack_cache_pop_short :: "bool \<Rightarrow> buxn_jit_ctx \<Rightarrow> (sreg \<times> buxn_jit_ctx) option" where
  "stack_cache_pop_short flag_r ctx =
     (if clen (cache_of flag_r ctx) = 0 then buxn_jit_pop_from_mem True flag_r ctx
      else
        let cache = cache_of flag_r ctx;
            top = clen cache - 1;
            value = cval (cells cache ! top);
            ctx = set_cache flag_r (cache\<lparr>clen := top\<rparr>) ctx
        in if is_short value then Some (oreg value, ctx)
           else
             do {
               (hi, ctx) \<leftarrow> stack_cache_pop_byte flag_r ctx;
               let lo = oreg value;
               let ctx = emit_all
                 [Op2 SLJIT_SHL (Reg hi) (Reg hi) (Imm 8),
                  Op2 SLJIT_OR (Reg hi) (Reg hi) (Reg lo)] ctx;
               ctx \<leftarrow> buxn_jit_release_reg lo ctx;
               Some (hi, ctx)
             })"

definition buxn_jit_stack_cache_pop ::
  "bool \<Rightarrow> bool \<Rightarrow> buxn_jit_ctx \<Rightarrow> (sreg \<times> buxn_jit_ctx) option" where
  "buxn_jit_stack_cache_pop flag_r flag_2 ctx =
     (if flag_2 then stack_cache_pop_short flag_r ctx else stack_cache_pop_byte flag_r ctx)"

definition buxn_jit_discard_from_mem :: "bool \<Rightarrow> bool \<Rightarrow> buxn_jit_ctx \<Rightarrow> buxn_jit_ctx" where
  "buxn_jit_discard_from_mem flag_2 flag_r ctx =
     (let sp = stack_ptr_reg flag_r ctx
      in emit (Op2 SLJIT_SUB (Reg sp) (Reg sp) (Imm (if flag_2 then 2 else 1))) ctx)"

definition stack_cache_discard_byte :: "bool \<Rightarrow> buxn_jit_ctx \<Rightarrow> buxn_jit_ctx option" where
  "stack_cache_discard_byte flag_r ctx =
     (let cache = cache_of flag_r ctx; top = clen cache - 1; cell = cells cache ! top in
      if clen cache = 0 then Some (buxn_jit_discard_from_mem False flag_r ctx)
      else if is_short (cval cell) then
        Some (set_cache flag_r
          (cache\<lparr>cells := (cells cache)[top := cell\<lparr>cval := (cval cell)\<lparr>is_short := False\<rparr>\<rparr>]\<rparr>)
          (emit (Op2 SLJIT_LSHR (Reg (oreg (cval cell))) (Reg (oreg (cval cell))) (Imm 8)) ctx))
      else
        buxn_jit_release_reg (oreg (cval cell)) (set_cache flag_r (cache\<lparr>clen := top\<rparr>) ctx))"

definition stack_cache_discard_short :: "bool \<Rightarrow> buxn_jit_ctx \<Rightarrow> buxn_jit_ctx option" where
  "stack_cache_discard_short flag_r ctx =
     (let cache = cache_of flag_r ctx; top = clen cache - 1; value = cval (cells cache ! top) in
      if clen cache = 0 then Some (buxn_jit_discard_from_mem True flag_r ctx)
      else
        do {
          ctx \<leftarrow> buxn_jit_release_reg (oreg value) (set_cache flag_r (cache\<lparr>clen := top\<rparr>) ctx);
          if is_short value then Some ctx else stack_cache_discard_byte flag_r ctx
        })"

definition buxn_jit_stack_cache_discard :: "bool \<Rightarrow> bool \<Rightarrow> buxn_jit_ctx \<Rightarrow> buxn_jit_ctx option" where
  "buxn_jit_stack_cache_discard flag_r flag_2 ctx =
     (if flag_2 then stack_cache_discard_short flag_r ctx else stack_cache_discard_byte flag_r ctx)"

text \<open>The loop of \<^verbatim>\<open>buxn_jit_stack_cache_flush\<close> over the cells.\<close>

fun flush_cells :: "bool \<Rightarrow> nat list \<Rightarrow> buxn_jit_ctx \<Rightarrow> buxn_jit_ctx" where
  "flush_cells flag_r [] ctx = ctx"
| "flush_cells flag_r (i # is) ctx =
     flush_cells flag_r is
       (if need_flush (cells (cache_of flag_r ctx) ! i) then buxn_jit_flush_cell flag_r i ctx else ctx)"

definition buxn_jit_stack_cache_flush :: "bool \<Rightarrow> buxn_jit_ctx \<Rightarrow> buxn_jit_ctx" where
  "buxn_jit_stack_cache_flush flag_r ctx = flush_cells flag_r [0..<clen (cache_of flag_r ctx)] ctx"

function buxn_jit_stack_cache_clear :: "bool \<Rightarrow> buxn_jit_ctx \<Rightarrow> buxn_jit_ctx option" where
  "buxn_jit_stack_cache_clear flag_r ctx =
     (case buxn_jit_stack_cache_spill flag_r ctx of
        None \<Rightarrow> None
      | Some (ok, ctx') \<Rightarrow> (if ok then buxn_jit_stack_cache_clear flag_r ctx' else Some ctx'))"
  by pat_completeness auto
termination
  by (relation "measure (\<lambda>(flag_r, ctx). clen (cache_of flag_r ctx))")
    (use spill_result in \<open>fastforce+\<close>)

declare buxn_jit_stack_cache_clear.simps [simp del]

definition buxn_jit_clear_stack_caches :: "buxn_jit_ctx \<Rightarrow> buxn_jit_ctx option" where
  "buxn_jit_clear_stack_caches ctx =
     do {
       ctx \<leftarrow> buxn_jit_stack_cache_clear False ctx;
       buxn_jit_stack_cache_clear True ctx
     }"

fun retain_cells :: "buxn_jit_stack_cache_cell list \<Rightarrow> buxn_jit_ctx \<Rightarrow> buxn_jit_ctx option" where
  "retain_cells [] ctx = Some ctx"
| "retain_cells (c # cs) ctx =
     do { ctx \<leftarrow> buxn_jit_retain_reg (oreg (cval c)) ctx; retain_cells cs ctx }"

definition buxn_jit_stack_cache_retain :: "bool \<Rightarrow> buxn_jit_ctx \<Rightarrow> buxn_jit_ctx option" where
  "buxn_jit_stack_cache_retain flag_r ctx =
     (let cache = cache_of flag_r ctx;
          num_flushed = length (filter (\<lambda>c. \<not> need_flush c) (take (clen cache) (cells cache)));
          n = clen cache - num_flushed;
          cache = cache\<lparr>clen := n, cells := shift_cells num_flushed n (cells cache)\<rparr>
      in retain_cells (take n (cells cache)) (set_cache flag_r cache ctx))"

end
