(* ===== verification/Micro_Ops.thy ===== *)
theory Micro_Ops
  imports Stack_Cache
begin

text \<open>
  The micro operations of \<^verbatim>\<open>src/jit.c\<close>: pushing and popping operands with their compile-time
  semantics (\<^verbatim>\<open>wst\<close>, \<^verbatim>\<open>rst\<close>), loads and stores, saving and restoring the stack pointers, jumps,
  immediates. \<^verbatim>\<open>buxn_jit_jump\<close> may compile the next opcode, so it takes that function as the
  argument \<open>next_opcode\<close>; \<open>Jit_Compile\<close> closes the loop.
\<close>

section \<open>Operands and their compile-time values\<close>

definition push_values :: "buxn_jit_operand \<Rightarrow> u8 \<Rightarrow> (u8 \<Rightarrow> buxn_jit_value) \<Rightarrow> (u8 \<Rightarrow> buxn_jit_value) \<times> u8" where
  "push_values operand sp stack =
     (if is_short operand then
        (stack(sp := \<lparr>vsem = semantics operand, vconst = ucast (drop_bit 8 (const_value operand))\<rparr>,
               sp + 1 := \<lparr>vsem = semantics operand, vconst = ucast (const_value operand AND 0xff)\<rparr>),
         sp + 2)
      else
        (stack(sp := \<lparr>vsem = semantics operand, vconst = ucast (const_value operand)\<rparr>), sp + 1))"

definition buxn_jit_push_ex :: "buxn_jit_operand \<Rightarrow> bool \<Rightarrow> buxn_jit_ctx \<Rightarrow> buxn_jit_ctx option" where
  "buxn_jit_push_ex operand flag_r ctx =
     do {
       i \<leftarrow> op_index (oreg operand);
       ctx \<leftarrow> (if reg_ref_counts ctx ! i \<noteq> 0 then Some ctx else None);
       ctx \<leftarrow> buxn_jit_stack_cache_push flag_r operand ctx;
       Some (if flag_r
             then (let (st, p) = push_values operand (rsp ctx) (rst ctx) in ctx\<lparr>rst := st, rsp := p\<rparr>)
             else (let (st, p) = push_values operand (wsp ctx) (wst ctx) in ctx\<lparr>wst := st, wsp := p\<rparr>))
     }"

text \<open>The pointers \<^verbatim>\<open>ewsp\<close> and \<^verbatim>\<open>ersp\<close> point to the shadow copies in keep mode (\<open>eshadow\<close>) and to the
  context's own pointers otherwise.\<close>

definition esp :: "bool \<Rightarrow> buxn_jit_ctx \<Rightarrow> u8" where
  "esp flag_r ctx =
     (if eshadow ctx then (if flag_r then shadow_rsp ctx else shadow_wsp ctx)
      else (if flag_r then rsp ctx else wsp ctx))"

definition set_esp :: "bool \<Rightarrow> u8 \<Rightarrow> buxn_jit_ctx \<Rightarrow> buxn_jit_ctx" where
  "set_esp flag_r p ctx =
     (if eshadow ctx then (if flag_r then ctx\<lparr>shadow_rsp := p\<rparr> else ctx\<lparr>shadow_wsp := p\<rparr>)
      else (if flag_r then ctx\<lparr>rsp := p\<rparr> else ctx\<lparr>wsp := p\<rparr>))"

definition pop_value :: "bool \<Rightarrow> u8 \<Rightarrow> (u8 \<Rightarrow> buxn_jit_value) \<Rightarrow> buxn_jit_operand \<times> u8" where
  "pop_value flag_2 sp stack =
     (if flag_2 then
        let lo = stack (sp - 1); hi = stack (sp - 2) in
        (if SEM_CONST \<in> vsem hi \<and> SEM_CONST \<in> vsem lo
         then \<lparr>semantics = {SEM_CONST}, is_short = True,
               const_value = push_bit 8 (ucast (vconst hi)) OR ucast (vconst lo), oreg = R 0\<rparr>
         else \<lparr>semantics = {}, is_short = True, const_value = 0, oreg = R 0\<rparr>, sp - 2)
      else
        let value = stack (sp - 1) in
        (\<lparr>semantics = vsem value, is_short = False, const_value = ucast (vconst value), oreg = R 0\<rparr>, sp - 1))"

definition buxn_jit_pop_ex :: "bool \<Rightarrow> bool \<Rightarrow> buxn_jit_ctx \<Rightarrow> (buxn_jit_operand \<times> buxn_jit_ctx) option" where
  "buxn_jit_pop_ex flag_2 flag_r ctx =
     do {
       let (operand, p) = pop_value flag_2 (esp flag_r ctx) (if flag_r then rst ctx else wst ctx);
       (r, ctx) \<leftarrow> buxn_jit_stack_cache_pop flag_r flag_2 (set_esp flag_r p ctx);
       Some (operand\<lparr>oreg := r\<rparr>, ctx)
     }"

definition buxn_jit_push :: "buxn_jit_operand \<Rightarrow> buxn_jit_ctx \<Rightarrow> buxn_jit_ctx option" where
  "buxn_jit_push operand ctx = buxn_jit_push_ex operand (buxn_jit_op_flag_r ctx) ctx"

definition buxn_jit_pop :: "buxn_jit_ctx \<Rightarrow> (buxn_jit_operand \<times> buxn_jit_ctx) option" where
  "buxn_jit_pop ctx = buxn_jit_pop_ex (buxn_jit_op_flag_2 ctx) (buxn_jit_op_flag_r ctx) ctx"

section \<open>Memory\<close>

definition load_code :: "sreg \<Rightarrow> sreg \<Rightarrow> bool \<Rightarrow> bool \<Rightarrow> lir list" where
  "load_code r addr addr_short short =
     [Op1 SLJIT_MOV_U16 (Reg BUXN_JIT_MEM_OFFSET) (Reg addr),
      Op1 SLJIT_MOV_U8 (Reg r) BUXN_JIT_MEM] @
     (if short then
        [Op2 SLJIT_SHL (Reg r) (Reg r) (Imm 8),
         Op2 SLJIT_ADD (Reg BUXN_JIT_MEM_OFFSET) (Reg BUXN_JIT_MEM_OFFSET) (Imm 1),
         Op2 SLJIT_AND (Reg BUXN_JIT_MEM_OFFSET) (Reg BUXN_JIT_MEM_OFFSET)
           (Imm (if addr_short then 0xffff else 0x00ff)),
         Op1 SLJIT_MOV_U8 (Reg BUXN_JIT_TMP) BUXN_JIT_MEM,
         Op2 SLJIT_OR (Reg r) (Reg r) (Reg BUXN_JIT_TMP)]
      else [])"

definition buxn_jit_load ::
  "sreg \<Rightarrow> buxn_jit_operand \<Rightarrow> buxn_jit_ctx \<Rightarrow> buxn_jit_operand \<times> buxn_jit_ctx" where
  "buxn_jit_load r addr ctx =
     (let short = buxn_jit_op_flag_2 ctx;
          ctx = buxn_jit_set_mem_base F_memory ctx
      in (\<lparr>semantics = {}, is_short = short, const_value = 0, oreg = r\<rparr>,
          emit_all (load_code r (oreg addr) (is_short addr) short) ctx))"

definition store_code :: "sreg \<Rightarrow> bool \<Rightarrow> sreg \<Rightarrow> bool \<Rightarrow> lir list" where
  "store_code addr addr_short value short =
     (if short then
        [Op1 SLJIT_MOV_U16 (Reg BUXN_JIT_MEM_OFFSET) (Reg addr),
         Op2 SLJIT_LSHR (Reg BUXN_JIT_TMP) (Reg value) (Imm 8),
         Op1 SLJIT_MOV_U8 BUXN_JIT_MEM (Reg BUXN_JIT_TMP),
         Op2 SLJIT_ADD (Reg BUXN_JIT_MEM_OFFSET) (Reg BUXN_JIT_MEM_OFFSET) (Imm 1),
         Op2 SLJIT_AND (Reg BUXN_JIT_MEM_OFFSET) (Reg BUXN_JIT_MEM_OFFSET)
           (Imm (if addr_short then 0xffff else 0x00ff)),
         Op1 SLJIT_MOV_U8 BUXN_JIT_MEM (Reg value)]
      else
        [Op1 SLJIT_MOV_U16 (Reg BUXN_JIT_MEM_OFFSET) (Reg addr),
         Op1 SLJIT_MOV_U8 BUXN_JIT_MEM (Reg value)])"

definition buxn_jit_store :: "buxn_jit_operand \<Rightarrow> buxn_jit_operand \<Rightarrow> buxn_jit_ctx \<Rightarrow> buxn_jit_ctx" where
  "buxn_jit_store addr value ctx =
     emit_all (store_code (oreg addr) (is_short addr) (oreg value) (is_short value))
       (buxn_jit_set_mem_base F_memory ctx)"

definition buxn_jit_load_state :: "buxn_jit_ctx \<Rightarrow> buxn_jit_ctx" where
  "buxn_jit_load_state ctx =
     emit_all
       [Op1 SLJIT_MOV_U8 (Reg BUXN_JIT_S_WSP) (Mem1 BUXN_JIT_S_VM (vm_offset (jit ctx) F_wsp)),
        Op1 SLJIT_MOV_U8 (Reg BUXN_JIT_S_RSP) (Mem1 BUXN_JIT_S_VM (vm_offset (jit ctx) F_rsp))] ctx"

definition buxn_jit_save_state :: "buxn_jit_ctx \<Rightarrow> buxn_jit_ctx" where
  "buxn_jit_save_state ctx =
     emit_all
       [Op1 SLJIT_MOV_U8 (Mem1 BUXN_JIT_S_VM (vm_offset (jit ctx) F_wsp)) (Reg BUXN_JIT_S_WSP),
        Op1 SLJIT_MOV_U8 (Mem1 BUXN_JIT_S_VM (vm_offset (jit ctx) F_rsp)) (Reg BUXN_JIT_S_RSP)] ctx"

section \<open>Jumps\<close>

text \<open>Both branches of \<^verbatim>\<open>buxn_jit_jump_abs\<close> queue the target and a link entry for the jump.\<close>

definition queue_link :: "buxn_jit_link_type \<Rightarrow> u16 \<Rightarrow> nat \<Rightarrow> buxn_jit_ctx \<Rightarrow> buxn_jit_ctx" where
  "queue_link lt target jump ctx =
     (let (e, j) = buxn_jit_alloc_entry (jit ctx);
          (block, j) = buxn_jit_queue_block j target;
          j = update_entry e (\<lambda>x. x\<lparr>link_type := lt, eblock := block, ecompiler := compiler_id ctx,
            etarget := Jump_target jump\<rparr>) j
      in ctx\<lparr>jit := enqueue_link e j\<rparr>)"

definition buxn_jit_jump_abs :: "buxn_jit_operand \<Rightarrow> u16 \<Rightarrow> buxn_jit_ctx \<Rightarrow> buxn_jit_ctx" where
  "buxn_jit_jump_abs target return_addr ctx =
     (if SEM_CONST \<in> semantics target then
        if return_addr = 0 then
          let (jump, ctx) =
                (if SEM_IMM_JMP \<in> semantics target
                 then emit_jump (Jump None True) ctx
                 else emit_jump (Cmp SLJIT_EQUAL True (Reg (oreg target)) (Imm (ucast (const_value target)))) ctx);
              (here, ctx) = emit_label ctx;
              ctx = set_label jump here ctx;
              ctx = queue_link LINK_TO_BODY (const_value target) jump ctx
          in emit (Return (Reg (oreg target))) ctx
        else
          let (skip_call, ctx) =
                (if SEM_IMM_JMP \<in> semantics target then (None, ctx)
                 else (case emit_jump (Cmp SLJIT_NOT_EQUAL False (Reg (oreg target))
                              (Imm (ucast (const_value target)))) ctx of (j, c) \<Rightarrow> (Some j, c)));
              ctx = ctx\<lparr>mem_base := 0\<rparr>;
              (call, ctx) = emit_jump (Call_reg_arg True) ctx;
              ctx = set_label call (call_fallback ctx) ctx;
              (exit, ctx) = emit_jump (Cmp SLJIT_EQUAL False (Reg (R 0)) (Imm (ucast return_addr))) ctx;
              ctx = emit (Return (Reg (R 0))) ctx;
              ctx = (case skip_call of
                       None \<Rightarrow> ctx
                     | Some j \<Rightarrow> (let (l, ctx) = emit_label ctx in set_label j l ctx));
              ctx = queue_link LINK_TO_HEAD (const_value target) call ctx;
              ctx = emit (Return (Reg (oreg target))) ctx;
              (l, ctx) = emit_label ctx
          in set_label exit l ctx
      else emit (Return (Reg (oreg target))) ctx)"

definition buxn_jit_jump ::
  "(buxn_jit_ctx \<Rightarrow> buxn_jit_ctx option) \<Rightarrow> buxn_jit_operand \<Rightarrow> u16 \<Rightarrow> buxn_jit_ctx \<Rightarrow> buxn_jit_ctx option" where
  "buxn_jit_jump next_opcode target return_addr ctx =
     do {
       ctx \<leftarrow> buxn_jit_clear_stack_caches ctx;
       if is_short target then Some (buxn_jit_jump_abs target return_addr ctx)
       else if SEM_BOOLEAN \<in> semantics target then
         do {
           let saved = compiler ctx;
           let (skip, ctx) = emit_jump (Cmp SLJIT_NOT_EQUAL False (Reg (oreg target)) (Imm 0)) ctx;
           ctx \<leftarrow> next_opcode ctx;
           ctx \<leftarrow> buxn_jit_clear_stack_caches (ctx\<lparr>compiler := saved\<rparr>);
           let (l, ctx) = emit_label ctx;
           Some (set_label skip l ctx)
         }
       else
         (let ctx = emit_all
                [Op1 SLJIT_MOV_S8 (Reg (oreg target)) (Reg (oreg target)),
                 Op2 SLJIT_ADD (Reg (oreg target)) (Reg (oreg target)) (Imm (ucast (pc ctx)))] ctx;
              target = target\<lparr>const_value := pc ctx + scast (ucast (const_value target) :: u8)\<rparr>
          in Some (buxn_jit_jump_abs target return_addr ctx))
     }"

definition buxn_jit_conditional_jump ::
  "(buxn_jit_ctx \<Rightarrow> buxn_jit_ctx option) \<Rightarrow> buxn_jit_operand \<Rightarrow> buxn_jit_operand \<Rightarrow>
   buxn_jit_ctx \<Rightarrow> buxn_jit_ctx option" where
  "buxn_jit_conditional_jump next_opcode condition target ctx =
     do {
       ctx \<leftarrow> buxn_jit_clear_stack_caches ctx;
       let ctx = emit (Op2u SLJIT_AND SLJIT_SET_Z (Reg (oreg condition)) (Imm 0xff)) ctx;
       let (skip_jump, ctx) = emit_jump (Jump (Some SLJIT_ZERO) False) ctx;
       ctx \<leftarrow> buxn_jit_jump next_opcode target 0 ctx;
       let (l, ctx) = emit_label ctx;
       Some (set_label skip_jump l ctx)
     }"

definition buxn_jit_finalize :: "buxn_jit_ctx \<Rightarrow> buxn_jit_ctx" where
  "buxn_jit_finalize ctx = ctx\<lparr>compiler := False\<rparr>"

section \<open>Immediates\<close>

definition mem_short :: "(u16 \<Rightarrow> u8) \<Rightarrow> u16 \<Rightarrow> u16" where
  "mem_short memory a = push_bit 8 (ucast (memory a)) OR ucast (memory (a + 1))"

definition immediate_code :: "bool \<Rightarrow> u16 \<Rightarrow> sreg \<Rightarrow> bool \<Rightarrow> lir list" where
  "immediate_code le a r short =
     (if short then
        if a < 0xffff then
          [Op1 SLJIT_MOV_U16 (Reg BUXN_JIT_MEM_OFFSET) (Imm (ucast a)),
           Load_U16_unaligned r BUXN_JIT_MEM] @
          (if le then [Op1 SLJIT_REV_U16 (Reg r) (Reg r)] else [])
        else
          [Op1 SLJIT_MOV_U16 (Reg BUXN_JIT_MEM_OFFSET) (Imm (ucast a)),
           Op1 SLJIT_MOV_U8 (Reg r) BUXN_JIT_MEM,
           Op2 SLJIT_SHL (Reg r) (Reg r) (Imm 8),
           Op1 SLJIT_MOV_U16 (Reg BUXN_JIT_MEM_OFFSET) (Imm (ucast a + 1)),
           Op1 SLJIT_MOV_U8 (Reg BUXN_JIT_TMP) BUXN_JIT_MEM,
           Op2 SLJIT_OR (Reg r) (Reg r) (Reg BUXN_JIT_TMP)]
      else
        [Op1 SLJIT_MOV_U16 (Reg BUXN_JIT_MEM_OFFSET) (Imm (ucast a)),
         Op1 SLJIT_MOV_U8 (Reg r) BUXN_JIT_MEM])"

definition buxn_jit_immediate :: "bool \<Rightarrow> buxn_jit_ctx \<Rightarrow> (buxn_jit_operand \<times> buxn_jit_ctx) option" where
  "buxn_jit_immediate short ctx =
     do {
       (r, ctx) \<leftarrow> buxn_jit_alloc_reg ctx;
       let a = pc ctx;
       let memory = vm_memory (jit ctx);
       let imm = \<lparr>semantics = {SEM_CONST}, is_short = short,
                  const_value = (if short then mem_short memory a else ucast (memory a)), oreg = r\<rparr>;
       let ctx = buxn_jit_set_mem_base F_memory ctx;
       let ctx = emit_all (immediate_code (little_endian (jit ctx)) a r short) ctx;
       Some (imm, ctx\<lparr>pc := a + (if short then 2 else 1)\<rparr>)
     }"

definition buxn_jit_immediate_jump_target :: "buxn_jit_ctx \<Rightarrow> buxn_jit_operand \<times> buxn_jit_ctx" where
  "buxn_jit_immediate_jump_target ctx =
     (let a = pc ctx;
          v = mem_short (vm_memory (jit ctx)) a + (a + 2);
          ctx = ctx\<lparr>pc := a + 2\<rparr>
      in (\<lparr>semantics = {SEM_CONST, SEM_IMM_JMP}, is_short = True, const_value = v, oreg = BUXN_JIT_TMP\<rparr>,
          emit (Op1 SLJIT_MOV_U16 (Reg BUXN_JIT_TMP) (Imm (ucast v))) ctx))"

definition buxn_jit_wrap_around :: "buxn_jit_operand \<Rightarrow> buxn_jit_ctx \<Rightarrow> buxn_jit_ctx" where
  "buxn_jit_wrap_around operand ctx =
     emit (Op2 SLJIT_AND (Reg (oreg operand)) (Reg (oreg operand))
             (Imm (if buxn_jit_op_flag_2 ctx then 0xffff else 0x00ff))) ctx"

end
