(* ===== verification/Opcodes.thy ===== *)
theory Opcodes
  imports Micro_Ops
begin

text \<open>
  One definition per opcode handler of \<^verbatim>\<open>src/jit.c\<close> (section \<^verbatim>\<open>Opcodes\<close>), in the order of the source.
  The handlers that jump take the compiler of the next opcode as an argument (see \<open>Micro_Ops\<close>).
\<close>

definition buxn_jit_BRK :: "buxn_jit_ctx \<Rightarrow> buxn_jit_ctx option" where
  "buxn_jit_BRK ctx =
     do {
       ctx \<leftarrow> buxn_jit_clear_stack_caches ctx;
       Some (buxn_jit_finalize (emit (Return (Imm 0x10000)) ctx))
     }"

definition buxn_jit_INC :: "buxn_jit_ctx \<Rightarrow> buxn_jit_ctx option" where
  "buxn_jit_INC ctx =
     do {
       (operand, ctx) \<leftarrow> buxn_jit_pop ctx;
       let operand = operand\<lparr>semantics := semantics operand - {SEM_BOOLEAN}\<rparr>;
       let operand = (if SEM_CONST \<in> semantics operand
                      then operand\<lparr>const_value := const_value operand + 1\<rparr> else operand);
       let ctx = emit (Op2 SLJIT_ADD (Reg (oreg operand)) (Reg (oreg operand)) (Imm 1)) ctx;
       buxn_jit_push operand (buxn_jit_wrap_around operand ctx)
     }"

definition buxn_jit_POP :: "buxn_jit_ctx \<Rightarrow> buxn_jit_ctx option" where
  "buxn_jit_POP ctx =
     (if buxn_jit_op_flag_k ctx then Some ctx
      else
        let flag_2 = buxn_jit_op_flag_2 ctx; size = (if flag_2 then 2 else 1) in
        if buxn_jit_op_flag_r ctx
        then buxn_jit_stack_cache_discard True flag_2 (ctx\<lparr>rsp := rsp ctx - size\<rparr>)
        else buxn_jit_stack_cache_discard False flag_2 (ctx\<lparr>wsp := wsp ctx - size\<rparr>))"

definition buxn_jit_NIP :: "buxn_jit_ctx \<Rightarrow> buxn_jit_ctx option" where
  "buxn_jit_NIP ctx =
     do {
       (b, ctx) \<leftarrow> buxn_jit_pop ctx;
       ctx \<leftarrow> buxn_jit_POP ctx;
       buxn_jit_push b ctx
     }"

definition buxn_jit_SWP :: "buxn_jit_ctx \<Rightarrow> buxn_jit_ctx option" where
  "buxn_jit_SWP ctx =
     do {
       (b, ctx) \<leftarrow> buxn_jit_pop ctx;
       (a, ctx) \<leftarrow> buxn_jit_pop ctx;
       ctx \<leftarrow> buxn_jit_push b ctx;
       buxn_jit_push a ctx
     }"

definition buxn_jit_ROT :: "buxn_jit_ctx \<Rightarrow> buxn_jit_ctx option" where
  "buxn_jit_ROT ctx =
     do {
       (c, ctx) \<leftarrow> buxn_jit_pop ctx;
       (b, ctx) \<leftarrow> buxn_jit_pop ctx;
       (a, ctx) \<leftarrow> buxn_jit_pop ctx;
       ctx \<leftarrow> buxn_jit_push b ctx;
       ctx \<leftarrow> buxn_jit_push c ctx;
       buxn_jit_push a ctx
     }"

definition buxn_jit_DUP :: "buxn_jit_ctx \<Rightarrow> buxn_jit_ctx option" where
  "buxn_jit_DUP ctx =
     do {
       (a, ctx) \<leftarrow> buxn_jit_pop ctx;
       ctx \<leftarrow> buxn_jit_push a ctx;
       buxn_jit_push a ctx
     }"

definition buxn_jit_OVR :: "buxn_jit_ctx \<Rightarrow> buxn_jit_ctx option" where
  "buxn_jit_OVR ctx =
     do {
       (b, ctx) \<leftarrow> buxn_jit_pop ctx;
       (a, ctx) \<leftarrow> buxn_jit_pop ctx;
       ctx \<leftarrow> buxn_jit_push a ctx;
       ctx \<leftarrow> buxn_jit_push b ctx;
       buxn_jit_push a ctx
     }"

text \<open>The common body of the four comparisons: the flag they ask for and the condition they read.\<close>

definition compare_op :: "flag_set \<Rightarrow> cond \<Rightarrow> buxn_jit_ctx \<Rightarrow> buxn_jit_ctx option" where
  "compare_op fl cond ctx =
     do {
       (b, ctx) \<leftarrow> buxn_jit_pop ctx;
       (a, ctx) \<leftarrow> buxn_jit_pop ctx;
       (r, ctx) \<leftarrow> buxn_jit_alloc_reg ctx;
       let ctx = emit_all
         [Op2u SLJIT_SUB fl (Reg (oreg a)) (Reg (oreg b)), Op_flags (Reg r) cond] ctx;
       buxn_jit_push \<lparr>semantics = {SEM_BOOLEAN}, is_short = False, const_value = 0, oreg = r\<rparr> ctx
     }"

definition buxn_jit_EQU :: "buxn_jit_ctx \<Rightarrow> buxn_jit_ctx option" where
  "buxn_jit_EQU ctx = compare_op SLJIT_SET_Z SLJIT_EQUAL ctx"

definition buxn_jit_NEQ :: "buxn_jit_ctx \<Rightarrow> buxn_jit_ctx option" where
  "buxn_jit_NEQ ctx = compare_op SLJIT_SET_Z SLJIT_NOT_EQUAL ctx"

definition buxn_jit_GTH :: "buxn_jit_ctx \<Rightarrow> buxn_jit_ctx option" where
  "buxn_jit_GTH ctx = compare_op SLJIT_SET_GREATER SLJIT_GREATER ctx"

definition buxn_jit_LTH :: "buxn_jit_ctx \<Rightarrow> buxn_jit_ctx option" where
  "buxn_jit_LTH ctx = compare_op SLJIT_SET_LESS SLJIT_LESS ctx"

definition buxn_jit_JMP ::
  "(buxn_jit_ctx \<Rightarrow> buxn_jit_ctx option) \<Rightarrow> buxn_jit_ctx \<Rightarrow> buxn_jit_ctx option" where
  "buxn_jit_JMP next_opcode ctx =
     do {
       (target, ctx) \<leftarrow> buxn_jit_pop ctx;
       ctx \<leftarrow> buxn_jit_jump next_opcode target 0 ctx;
       Some (if SEM_BOOLEAN \<in> semantics target then ctx else buxn_jit_finalize ctx)
     }"

definition buxn_jit_JCN ::
  "(buxn_jit_ctx \<Rightarrow> buxn_jit_ctx option) \<Rightarrow> buxn_jit_ctx \<Rightarrow> buxn_jit_ctx option" where
  "buxn_jit_JCN next_opcode ctx =
     do {
       (target, ctx) \<leftarrow> buxn_jit_pop ctx;
       (condition, ctx) \<leftarrow> buxn_jit_pop_ex False (buxn_jit_op_flag_r ctx) ctx;
       buxn_jit_conditional_jump next_opcode condition target ctx
     }"

text \<open>\<^verbatim>\<open>JSR\<close> and \<^verbatim>\<open>JSI\<close> put the return address on the other stack before they jump.\<close>

definition push_return_addr :: "bool \<Rightarrow> buxn_jit_ctx \<Rightarrow> buxn_jit_ctx option" where
  "push_return_addr flag_r ctx =
     do {
       (r, ctx) \<leftarrow> buxn_jit_alloc_reg ctx;
       let ctx = emit (Op1 SLJIT_MOV_U16 (Reg r) (Imm (ucast (pc ctx)))) ctx;
       buxn_jit_push_ex \<lparr>semantics = {}, is_short = True, const_value = 0, oreg = r\<rparr> flag_r ctx
     }"

definition buxn_jit_JSR ::
  "(buxn_jit_ctx \<Rightarrow> buxn_jit_ctx option) \<Rightarrow> buxn_jit_ctx \<Rightarrow> buxn_jit_ctx option" where
  "buxn_jit_JSR next_opcode ctx =
     do {
       (target, ctx) \<leftarrow> buxn_jit_pop ctx;
       ctx \<leftarrow> push_return_addr (\<not> buxn_jit_op_flag_r ctx) ctx;
       buxn_jit_jump next_opcode target (pc ctx) ctx
     }"

definition buxn_jit_STH :: "buxn_jit_ctx \<Rightarrow> buxn_jit_ctx option" where
  "buxn_jit_STH ctx =
     do {
       (a, ctx) \<leftarrow> buxn_jit_pop ctx;
       buxn_jit_push_ex a (\<not> buxn_jit_op_flag_r ctx) ctx
     }"

definition buxn_jit_LDZ :: "buxn_jit_ctx \<Rightarrow> buxn_jit_ctx option" where
  "buxn_jit_LDZ ctx =
     do {
       (addr, ctx) \<leftarrow> buxn_jit_pop_ex False (buxn_jit_op_flag_r ctx) ctx;
       (r, ctx) \<leftarrow> buxn_jit_alloc_reg ctx;
       let (value, ctx) = buxn_jit_load r addr ctx;
       buxn_jit_push value ctx
     }"

definition buxn_jit_STZ :: "buxn_jit_ctx \<Rightarrow> buxn_jit_ctx option" where
  "buxn_jit_STZ ctx =
     do {
       (addr, ctx) \<leftarrow> buxn_jit_pop_ex False (buxn_jit_op_flag_r ctx) ctx;
       (value, ctx) \<leftarrow> buxn_jit_pop ctx;
       Some (buxn_jit_store addr value ctx)
     }"

definition relative_addr_code :: "sreg \<Rightarrow> u16 \<Rightarrow> lir list" where
  "relative_addr_code r a =
     [Op1 SLJIT_MOV_S8 (Reg r) (Reg r), Op2 SLJIT_ADD (Reg r) (Reg r) (Imm (ucast a))]"

definition buxn_jit_LDR :: "buxn_jit_ctx \<Rightarrow> buxn_jit_ctx option" where
  "buxn_jit_LDR ctx =
     do {
       (addr, ctx) \<leftarrow> buxn_jit_pop_ex False (buxn_jit_op_flag_r ctx) ctx;
       let ctx = emit_all (relative_addr_code (oreg addr) (pc ctx)) ctx;
       let addr = addr\<lparr>is_short := True\<rparr>;
       (r, ctx) \<leftarrow> buxn_jit_alloc_reg ctx;
       let (value, ctx) = buxn_jit_load r addr ctx;
       buxn_jit_push value ctx
     }"

definition buxn_jit_STR :: "buxn_jit_ctx \<Rightarrow> buxn_jit_ctx option" where
  "buxn_jit_STR ctx =
     do {
       (addr, ctx) \<leftarrow> buxn_jit_pop_ex False (buxn_jit_op_flag_r ctx) ctx;
       (value, ctx) \<leftarrow> buxn_jit_pop ctx;
       let ctx = emit_all (relative_addr_code (oreg addr) (pc ctx)) ctx;
       Some (buxn_jit_store (addr\<lparr>is_short := True\<rparr>) value ctx)
     }"

definition buxn_jit_LDA :: "buxn_jit_ctx \<Rightarrow> buxn_jit_ctx option" where
  "buxn_jit_LDA ctx =
     do {
       (addr, ctx) \<leftarrow> buxn_jit_pop_ex True (buxn_jit_op_flag_r ctx) ctx;
       (r, ctx) \<leftarrow> buxn_jit_alloc_reg ctx;
       let (value, ctx) = buxn_jit_load r addr ctx;
       buxn_jit_push value ctx
     }"

definition buxn_jit_STA :: "buxn_jit_ctx \<Rightarrow> buxn_jit_ctx option" where
  "buxn_jit_STA ctx =
     do {
       (addr, ctx) \<leftarrow> buxn_jit_pop_ex True (buxn_jit_op_flag_r ctx) ctx;
       (value, ctx) \<leftarrow> buxn_jit_pop ctx;
       Some (buxn_jit_store addr value ctx)
     }"

text \<open>The code around a call into the host: \<^verbatim>\<open>vm\<close> and the device address are its arguments.\<close>

definition host_call_code :: "sreg \<Rightarrow> cfun \<Rightarrow> lir list" where
  "host_call_code addr f =
     [Op1 SLJIT_MOV_P (Reg (R 0)) (Reg BUXN_JIT_S_VM),
      Op1 SLJIT_MOV (Reg (R 1)) (Reg addr),
      Icall f]"

definition buxn_jit_DEI :: "buxn_jit_ctx \<Rightarrow> buxn_jit_ctx option" where
  "buxn_jit_DEI ctx =
     do {
       (addr, ctx) \<leftarrow> buxn_jit_pop_ex False (buxn_jit_op_flag_r ctx) ctx;
       (r, ctx) \<leftarrow> buxn_jit_alloc_reg ctx;
       let short = buxn_jit_op_flag_2 ctx;
       let result = \<lparr>semantics = {}, is_short = short, const_value = 0, oreg = r\<rparr>;
       ctx \<leftarrow> buxn_jit_clear_stack_caches ctx;
       let ctx = (buxn_jit_save_state ctx)\<lparr>mem_base := 0\<rparr>;
       let ctx = emit_all (host_call_code (oreg addr) (if short then Fn_dei2_helper else Fn_dei_helper)) ctx;
       let ctx = emit (Op1 SLJIT_MOV (Reg r) (Reg (R 0))) ctx;
       let ctx = buxn_jit_load_state ctx;
       buxn_jit_push result ctx
     }"

definition device_store_code :: "sreg \<Rightarrow> sreg \<Rightarrow> bool \<Rightarrow> lir list" where
  "device_store_code addr value short =
     (if short then
        [Op1 SLJIT_MOV_U8 (Reg BUXN_JIT_MEM_OFFSET) (Reg addr),
         Op2 SLJIT_LSHR (Reg BUXN_JIT_TMP) (Reg value) (Imm 8),
         Op1 SLJIT_MOV_U8 BUXN_JIT_MEM (Reg BUXN_JIT_TMP),
         Op2 SLJIT_ADD (Reg BUXN_JIT_MEM_OFFSET) (Reg BUXN_JIT_MEM_OFFSET) (Imm 1),
         Op2 SLJIT_AND (Reg BUXN_JIT_MEM_OFFSET) (Reg BUXN_JIT_MEM_OFFSET) (Imm 0xff),
         Op1 SLJIT_MOV_U8 BUXN_JIT_MEM (Reg value)]
      else
        [Op1 SLJIT_MOV_U8 (Reg BUXN_JIT_MEM_OFFSET) (Reg addr),
         Op1 SLJIT_MOV_U8 BUXN_JIT_MEM (Reg value)])"

definition buxn_jit_DEO :: "buxn_jit_ctx \<Rightarrow> buxn_jit_ctx option" where
  "buxn_jit_DEO ctx =
     do {
       (addr, ctx) \<leftarrow> buxn_jit_pop_ex False (buxn_jit_op_flag_r ctx) ctx;
       (value, ctx) \<leftarrow> buxn_jit_pop ctx;
       let ctx = buxn_jit_set_mem_base F_device ctx;
       let ctx = emit_all (device_store_code (oreg addr) (oreg value) (is_short value)) ctx;
       ctx \<leftarrow> buxn_jit_clear_stack_caches ctx;
       let ctx = (buxn_jit_save_state ctx)\<lparr>mem_base := 0\<rparr>;
       let ctx = emit_all (host_call_code (oreg addr)
         (if is_short value then Fn_deo2_helper else Fn_deo_helper)) ctx;
       Some (buxn_jit_load_state ctx)
     }"

text \<open>The result operand of the binary operations: constant when both operands are.\<close>

definition const_result :: "buxn_jit_operand \<Rightarrow> buxn_jit_operand \<Rightarrow> bool \<Rightarrow> u16 \<Rightarrow> sreg \<Rightarrow> buxn_jit_operand" where
  "const_result a b short v r =
     \<lparr>semantics = (if SEM_CONST \<in> semantics a \<and> SEM_CONST \<in> semantics b then {SEM_CONST} else {}),
      is_short = short, const_value = v, oreg = r\<rparr>"

definition buxn_jit_ADD :: "buxn_jit_ctx \<Rightarrow> buxn_jit_ctx option" where
  "buxn_jit_ADD ctx =
     do {
       (b, ctx) \<leftarrow> buxn_jit_pop ctx;
       (a, ctx) \<leftarrow> buxn_jit_pop ctx;
       (r, ctx) \<leftarrow> buxn_jit_alloc_reg ctx;
       let c = const_result a b (is_short b) (const_value a + const_value b) r;
       let ctx = emit (Op2 SLJIT_ADD (Reg r) (Reg (oreg a)) (Reg (oreg b))) ctx;
       let ctx = buxn_jit_wrap_around c ctx;
       buxn_jit_push c ctx
     }"

definition buxn_jit_SUB :: "buxn_jit_ctx \<Rightarrow> buxn_jit_ctx option" where
  "buxn_jit_SUB ctx =
     do {
       (b, ctx) \<leftarrow> buxn_jit_pop ctx;
       (a, ctx) \<leftarrow> buxn_jit_pop ctx;
       (r, ctx) \<leftarrow> buxn_jit_alloc_reg ctx;
       let c = const_result a b (is_short b) (const_value a - const_value b) r;
       let ctx = emit (Op2 SLJIT_SUB (Reg r) (Reg (oreg a)) (Reg (oreg b))) ctx;
       let ctx = buxn_jit_wrap_around c ctx;
       buxn_jit_push c ctx
     }"

definition buxn_jit_MUL :: "buxn_jit_ctx \<Rightarrow> buxn_jit_ctx option" where
  "buxn_jit_MUL ctx =
     do {
       (b, ctx) \<leftarrow> buxn_jit_pop ctx;
       (a, ctx) \<leftarrow> buxn_jit_pop ctx;
       (r, ctx) \<leftarrow> buxn_jit_alloc_reg ctx;
       let c = const_result a b (is_short b) (const_value a * const_value b) r;
       let ctx = emit (Op2 SLJIT_MUL (Reg r) (Reg (oreg a)) (Reg (oreg b))) ctx;
       let ctx = buxn_jit_wrap_around c ctx;
       buxn_jit_push c ctx
     }"

definition buxn_jit_DIV :: "buxn_jit_ctx \<Rightarrow> buxn_jit_ctx option" where
  "buxn_jit_DIV ctx =
     do {
       (b, ctx) \<leftarrow> buxn_jit_pop ctx;
       (a, ctx) \<leftarrow> buxn_jit_pop ctx;
       (r, ctx) \<leftarrow> buxn_jit_alloc_reg ctx;
       let c = const_result a b (is_short b) 0 r;
       let c = (if SEM_CONST \<in> semantics c \<and> const_value b \<noteq> 0
                then c\<lparr>const_value := const_value a div const_value b\<rparr> else c);
       let (set_zero, ctx) = emit_jump (Cmp SLJIT_EQUAL False (Reg (oreg b)) (Imm 0)) ctx;
       let ctx = emit_all
         [Op1 SLJIT_MOV (Reg BUXN_JIT_TMP) (Reg (R 0)),
          Op1 SLJIT_MOV (Reg (R 0)) (Reg (oreg a)),
          Op1 SLJIT_MOV (Reg (R 1)) (Reg (oreg b)),
          Op0_DIV_UW,
          Op1 SLJIT_MOV (Reg r) (Reg (R 0)),
          Op1 SLJIT_MOV (Reg (R 0)) (Reg BUXN_JIT_TMP)] ctx;
       let (end_jump, ctx) = emit_jump (Jump None False) ctx;
       let (l, ctx) = emit_label ctx;
       let ctx = set_label set_zero l ctx;
       let ctx = emit (Op1 SLJIT_MOV (Reg r) (Imm 0)) ctx;
       let (l, ctx) = emit_label ctx;
       let ctx = set_label end_jump l ctx;
       buxn_jit_push c ctx
     }"

definition buxn_jit_AND :: "buxn_jit_ctx \<Rightarrow> buxn_jit_ctx option" where
  "buxn_jit_AND ctx =
     do {
       (b, ctx) \<leftarrow> buxn_jit_pop ctx;
       (a, ctx) \<leftarrow> buxn_jit_pop ctx;
       (r, ctx) \<leftarrow> buxn_jit_alloc_reg ctx;
       let c = const_result a b (is_short b) (const_value a AND const_value b) r;
       let ctx = emit (Op2 SLJIT_AND (Reg r) (Reg (oreg a)) (Reg (oreg b))) ctx;
       buxn_jit_push c ctx
     }"

definition buxn_jit_ORA :: "buxn_jit_ctx \<Rightarrow> buxn_jit_ctx option" where
  "buxn_jit_ORA ctx =
     do {
       (b, ctx) \<leftarrow> buxn_jit_pop ctx;
       (a, ctx) \<leftarrow> buxn_jit_pop ctx;
       (r, ctx) \<leftarrow> buxn_jit_alloc_reg ctx;
       let c = const_result a b (is_short b) (const_value a OR const_value b) r;
       let ctx = emit (Op2 SLJIT_OR (Reg r) (Reg (oreg a)) (Reg (oreg b))) ctx;
       buxn_jit_push c ctx
     }"

definition buxn_jit_EOR :: "buxn_jit_ctx \<Rightarrow> buxn_jit_ctx option" where
  "buxn_jit_EOR ctx =
     do {
       (b, ctx) \<leftarrow> buxn_jit_pop ctx;
       (a, ctx) \<leftarrow> buxn_jit_pop ctx;
       (r, ctx) \<leftarrow> buxn_jit_alloc_reg ctx;
       let c = const_result a b (is_short b) (const_value a XOR const_value b) r;
       let ctx = emit (Op2 SLJIT_XOR (Reg r) (Reg (oreg a)) (Reg (oreg b))) ctx;
       buxn_jit_push c ctx
     }"

definition shift_code :: "sreg \<Rightarrow> sreg \<Rightarrow> sreg \<Rightarrow> lir list" where
  "shift_code r a b =
     [Op2 SLJIT_AND (Reg BUXN_JIT_TMP) (Reg b) (Imm 0x0f),
      Op2 SLJIT_LSHR (Reg r) (Reg a) (Reg BUXN_JIT_TMP),
      Op2 SLJIT_LSHR (Reg BUXN_JIT_TMP) (Reg b) (Imm 4),
      Op2 SLJIT_SHL (Reg r) (Reg r) (Reg BUXN_JIT_TMP)]"

definition buxn_jit_SFT :: "buxn_jit_ctx \<Rightarrow> buxn_jit_ctx option" where
  "buxn_jit_SFT ctx =
     do {
       (b, ctx) \<leftarrow> buxn_jit_pop_ex False (buxn_jit_op_flag_r ctx) ctx;
       (a, ctx) \<leftarrow> buxn_jit_pop ctx;
       (r, ctx) \<leftarrow> buxn_jit_alloc_reg ctx;
       let cb = const_value b;
       let c = const_result a b (is_short a)
         (push_bit (unat (drop_bit 4 (cb AND 0xf0))) (drop_bit (unat (cb AND 0x0f)) (const_value a))) r;
       let ctx = emit_all (shift_code r (oreg a) (oreg b)) ctx;
       buxn_jit_push c (buxn_jit_wrap_around c ctx)
     }"

definition buxn_jit_JCI ::
  "(buxn_jit_ctx \<Rightarrow> buxn_jit_ctx option) \<Rightarrow> buxn_jit_ctx \<Rightarrow> buxn_jit_ctx option" where
  "buxn_jit_JCI next_opcode ctx =
     do {
       (condition, ctx) \<leftarrow> buxn_jit_pop_ex False False ctx;
       let (target, ctx) = buxn_jit_immediate_jump_target ctx;
       buxn_jit_conditional_jump next_opcode condition target ctx
     }"

definition buxn_jit_JMI ::
  "(buxn_jit_ctx \<Rightarrow> buxn_jit_ctx option) \<Rightarrow> buxn_jit_ctx \<Rightarrow> buxn_jit_ctx option" where
  "buxn_jit_JMI next_opcode ctx =
     do {
       let (target, ctx) = buxn_jit_immediate_jump_target ctx;
       ctx \<leftarrow> buxn_jit_jump next_opcode target 0 ctx;
       Some (buxn_jit_finalize ctx)
     }"

definition buxn_jit_JSI ::
  "(buxn_jit_ctx \<Rightarrow> buxn_jit_ctx option) \<Rightarrow> buxn_jit_ctx \<Rightarrow> buxn_jit_ctx option" where
  "buxn_jit_JSI next_opcode ctx =
     do {
       let (target, ctx) = buxn_jit_immediate_jump_target ctx;
       ctx \<leftarrow> push_return_addr True ctx;
       buxn_jit_jump next_opcode target (pc ctx) ctx
     }"

definition buxn_jit_LIT :: "buxn_jit_ctx \<Rightarrow> buxn_jit_ctx option" where
  "buxn_jit_LIT ctx =
     do {
       (lit, ctx) \<leftarrow> buxn_jit_immediate (buxn_jit_op_flag_2 ctx) ctx;
       buxn_jit_push lit ctx
     }"

end
