(* ===== verification/Jit_Compile.thy ===== *)
theory Jit_Compile
  imports Opcodes
begin

text \<open>
  Compiling a block and driving the queues: \<^verbatim>\<open>buxn_jit_next_opcode\<close>, \<^verbatim>\<open>buxn_jit_compile\<close>, \<^verbatim>\<open>buxn_jit\<close>
  and \<^verbatim>\<open>buxn_jit_execute\<close> of \<^verbatim>\<open>src/jit.c\<close>, without a hook (\<^verbatim>\<open>config.hook == NULL\<close>).

  The opcode table \<^verbatim>\<open>BUXN_OPCODE_DISPATCH\<close> comes from a header outside the repository; it is the
  parameter \<open>decode\<close>. \<^verbatim>\<open>sljit_generate_code\<close> is the parameter \<open>gen\<close>. A byte-sized jump through a
  boolean compiles the following opcode from within the jump, so \<open>buxn_jit_next_opcode\<close> is recursive;
  every level starts at a larger program counter, and \<open>fuel\<close> bounds the depth.
\<close>

section \<open>One opcode\<close>

datatype opname = OP_BRK | OP_INC | OP_POP | OP_NIP | OP_SWP | OP_ROT | OP_DUP | OP_OVR
  | OP_EQU | OP_NEQ | OP_GTH | OP_LTH | OP_JMP | OP_JCN | OP_JSR | OP_STH
  | OP_LDZ | OP_STZ | OP_LDR | OP_STR | OP_LDA | OP_STA | OP_DEI | OP_DEO
  | OP_ADD | OP_SUB | OP_MUL | OP_DIV | OP_AND | OP_ORA | OP_EOR | OP_SFT
  | OP_JCI | OP_JMI | OP_JSI | OP_LIT

fun BUXN_JIT_DISPATCH ::
  "opname \<Rightarrow> (buxn_jit_ctx \<Rightarrow> buxn_jit_ctx option) \<Rightarrow> buxn_jit_ctx \<Rightarrow> buxn_jit_ctx option" where
  "BUXN_JIT_DISPATCH OP_BRK nxt = buxn_jit_BRK"
| "BUXN_JIT_DISPATCH OP_INC nxt = buxn_jit_INC"
| "BUXN_JIT_DISPATCH OP_POP nxt = buxn_jit_POP"
| "BUXN_JIT_DISPATCH OP_NIP nxt = buxn_jit_NIP"
| "BUXN_JIT_DISPATCH OP_SWP nxt = buxn_jit_SWP"
| "BUXN_JIT_DISPATCH OP_ROT nxt = buxn_jit_ROT"
| "BUXN_JIT_DISPATCH OP_DUP nxt = buxn_jit_DUP"
| "BUXN_JIT_DISPATCH OP_OVR nxt = buxn_jit_OVR"
| "BUXN_JIT_DISPATCH OP_EQU nxt = buxn_jit_EQU"
| "BUXN_JIT_DISPATCH OP_NEQ nxt = buxn_jit_NEQ"
| "BUXN_JIT_DISPATCH OP_GTH nxt = buxn_jit_GTH"
| "BUXN_JIT_DISPATCH OP_LTH nxt = buxn_jit_LTH"
| "BUXN_JIT_DISPATCH OP_JMP nxt = buxn_jit_JMP nxt"
| "BUXN_JIT_DISPATCH OP_JCN nxt = buxn_jit_JCN nxt"
| "BUXN_JIT_DISPATCH OP_JSR nxt = buxn_jit_JSR nxt"
| "BUXN_JIT_DISPATCH OP_STH nxt = buxn_jit_STH"
| "BUXN_JIT_DISPATCH OP_LDZ nxt = buxn_jit_LDZ"
| "BUXN_JIT_DISPATCH OP_STZ nxt = buxn_jit_STZ"
| "BUXN_JIT_DISPATCH OP_LDR nxt = buxn_jit_LDR"
| "BUXN_JIT_DISPATCH OP_STR nxt = buxn_jit_STR"
| "BUXN_JIT_DISPATCH OP_LDA nxt = buxn_jit_LDA"
| "BUXN_JIT_DISPATCH OP_STA nxt = buxn_jit_STA"
| "BUXN_JIT_DISPATCH OP_DEI nxt = buxn_jit_DEI"
| "BUXN_JIT_DISPATCH OP_DEO nxt = buxn_jit_DEO"
| "BUXN_JIT_DISPATCH OP_ADD nxt = buxn_jit_ADD"
| "BUXN_JIT_DISPATCH OP_SUB nxt = buxn_jit_SUB"
| "BUXN_JIT_DISPATCH OP_MUL nxt = buxn_jit_MUL"
| "BUXN_JIT_DISPATCH OP_DIV nxt = buxn_jit_DIV"
| "BUXN_JIT_DISPATCH OP_AND nxt = buxn_jit_AND"
| "BUXN_JIT_DISPATCH OP_ORA nxt = buxn_jit_ORA"
| "BUXN_JIT_DISPATCH OP_EOR nxt = buxn_jit_EOR"
| "BUXN_JIT_DISPATCH OP_SFT nxt = buxn_jit_SFT"
| "BUXN_JIT_DISPATCH OP_JCI nxt = buxn_jit_JCI nxt"
| "BUXN_JIT_DISPATCH OP_JMI nxt = buxn_jit_JMI nxt"
| "BUXN_JIT_DISPATCH OP_JSI nxt = buxn_jit_JSI nxt"
| "BUXN_JIT_DISPATCH OP_LIT nxt = buxn_jit_LIT"

text \<open>The start of \<^verbatim>\<open>buxn_jit_next_opcode\<close>: forget the references of the previous opcode, keep those of
  the caches, fetch.\<close>

definition fetch_opcode :: "buxn_jit_ctx \<Rightarrow> buxn_jit_ctx option" where
  "fetch_opcode ctx =
     do {
       ctx \<leftarrow> buxn_jit_stack_cache_retain False (ctx\<lparr>reg_ref_counts := replicate 6 0\<rparr>);
       ctx \<leftarrow> buxn_jit_stack_cache_retain True ctx;
       Some (ctx\<lparr>current_opcode := vm_memory (jit ctx) (pc ctx), pc := pc ctx + 1\<rparr>)
     }"

text \<open>Its keep-mode branch: pops go through shadow stack pointers, and the cache of the current stack is
  written to memory first.\<close>

definition setup_shadow :: "buxn_jit_ctx \<Rightarrow> buxn_jit_ctx option" where
  "setup_shadow ctx =
     (if buxn_jit_op_flag_k ctx then
        do {
          let ctx = ctx\<lparr>shadow_wsp := wsp ctx, shadow_rsp := rsp ctx, eshadow := True\<rparr>;
          (swsp_reg, ctx) \<leftarrow> buxn_jit_alloc_reg ctx;
          (srsp_reg, ctx) \<leftarrow> buxn_jit_alloc_reg ctx;
          let ctx = emit_all
            [Op1 SLJIT_MOV_U8 (Reg swsp_reg) (Reg BUXN_JIT_S_WSP),
             Op1 SLJIT_MOV_U8 (Reg srsp_reg) (Reg BUXN_JIT_S_RSP)] ctx;
          let ctx = ctx\<lparr>wsp_reg := swsp_reg, rsp_reg := srsp_reg\<rparr>;
          Some (buxn_jit_stack_cache_flush (buxn_jit_op_flag_r ctx) ctx)
        }
      else Some (ctx\<lparr>eshadow := False, wsp_reg := BUXN_JIT_S_WSP, rsp_reg := BUXN_JIT_S_RSP\<rparr>))"

fun buxn_jit_next_opcode :: "(u8 \<Rightarrow> opname) \<Rightarrow> nat \<Rightarrow> buxn_jit_ctx \<Rightarrow> buxn_jit_ctx option" where
  "buxn_jit_next_opcode decode 0 ctx = None"
| "buxn_jit_next_opcode decode (Suc fuel) ctx =
     (if pc ctx < 256 then
        do {
          ctx \<leftarrow> buxn_jit_clear_stack_caches ctx;
          Some (buxn_jit_finalize (emit (Return (Imm (ucast (pc ctx)))) ctx))
        }
      else
        do {
          ctx \<leftarrow> fetch_opcode ctx;
          ctx \<leftarrow> setup_shadow ctx;
          BUXN_JIT_DISPATCH (decode (current_opcode ctx)) (buxn_jit_next_opcode decode fuel) ctx
        })"

section \<open>A block\<close>

definition empty_cache :: buxn_jit_stack_cache where
  "empty_cache =
     \<lparr>cells = replicate BUXN_JIT_CACHE_SIZE
        \<lparr>cval = \<lparr>semantics = {}, is_short = False, const_value = 0, oreg = R 0\<rparr>, need_flush = False\<rparr>,
      clen = 0\<rparr>"

definition initial_ctx :: "buxn_jit \<Rightarrow> nat \<Rightarrow> u16 \<Rightarrow> buxn_jit_ctx" where
  "initial_ctx j cid a =
     \<lparr>jit = j, compiler = True, compiler_id = cid, code = [], jump_labels = Map.empty, call_fallback = 0,
      entry_pc = a, pc = a, current_opcode = 0, mem_base = 0,
      wst = (\<lambda>_. \<lparr>vsem = {}, vconst = 0\<rparr>), rst = (\<lambda>_. \<lparr>vsem = {}, vconst = 0\<rparr>), wsp = 0, rsp = 0,
      shadow_wsp = 0, shadow_rsp = 0, eshadow = False, wsp_reg = BUXN_JIT_S_WSP, rsp_reg = BUXN_JIT_S_RSP,
      reg_ref_counts = replicate 6 0, wst_cache = empty_cache, rst_cache = empty_cache\<rparr>"

text \<open>The prologue: C entry point, trampoline for indirect jumps, call fallback stub, then the head and
  body labels of the block.\<close>

definition prologue :: "buxn_jit_ctx \<Rightarrow> (nat \<times> nat) \<times> buxn_jit_ctx" where
  "prologue ctx =
     (let ctx = buxn_jit_load_state (emit Enter_c ctx);
          (call, ctx) = emit_jump (Call_reg_arg False) ctx;
          (trampoline, ctx) = emit_label ctx;
          (jmp_brk, ctx) = emit_jump (Cmp SLJIT_GREATER False (Reg (R 0)) (Imm 0xffff)) ctx;
          (jmp_zero_page, ctx) = emit_jump (Cmp SLJIT_LESS False (Reg (R 0)) (Imm 0x100)) ctx;
          ctx = emit_all
            [Op1 SLJIT_MOV32 (Reg (R 1)) (Reg (R 0)),
             Op1 SLJIT_MOV_P (Reg (R 0)) (Imm (jit_addr (jit ctx))),
             Icall Fn_translate_jump_addr,
             Icall_reg_arg (R 0)] ctx;
          (again, ctx) = emit_jump (Jump None False) ctx;
          ctx = set_label again trampoline ctx;
          (ret, ctx) = emit_label ctx;
          ctx = set_label jmp_zero_page ret (set_label jmp_brk ret ctx);
          ctx = emit (Return (Reg (R 0))) (buxn_jit_save_state ctx);
          (fallback, ctx) = emit_label ctx;
          ctx = emit_all [Enter_reg_arg, Return (Imm 0x10000)] (ctx\<lparr>call_fallback := fallback\<rparr>);
          (head, ctx) = emit_label ctx;
          ctx = emit Enter_reg_arg (set_label call head ctx);
          (body, ctx) = emit_label ctx
      in ((head, body), ctx))"

fun compile_loop :: "(u8 \<Rightarrow> opname) \<Rightarrow> nat \<Rightarrow> buxn_jit_ctx \<Rightarrow> buxn_jit_ctx option" where
  "compile_loop decode fuel ctx =
     (if compiler ctx then
        (case fuel of
           0 \<Rightarrow> None
         | Suc n \<Rightarrow> do { ctx \<leftarrow> buxn_jit_next_opcode decode 65536 ctx; compile_loop decode n ctx })
      else Some ctx)"

declare compile_loop.simps [simp del]

record sljit_code =
  generated_fn :: uw
  label_addr :: "nat \<Rightarrow> uw"
  generated_offset :: uw
  generated_size :: nat

type_synonym sljit_generator = "nat \<Rightarrow> lir list \<Rightarrow> (nat \<rightharpoonup> nat) \<Rightarrow> sljit_code"

definition buxn_jit_compile ::
  "(u8 \<Rightarrow> opname) \<Rightarrow> sljit_generator \<Rightarrow> nat \<Rightarrow> buxn_jit \<Rightarrow> buxn_jit option" where
  "buxn_jit_compile decode gen e j =
     do {
       let entry = entry_store j e;
       a \<leftarrow> (case etarget entry of Pc_target a \<Rightarrow> Some a | Jump_target _ \<Rightarrow> None);
       let ((head, body), ctx) = prologue (initial_ctx j (ecompiler entry) a);
       ctx \<leftarrow> compile_loop decode 65536 ctx;
       let out = gen (ecompiler entry) (code ctx) (jump_labels ctx);
       let j = jit ctx;
       let block = eblock entry;
       let j = j\<lparr>block_store := (block_store j)(block := (block_store j block)
           \<lparr>fn := generated_fn out, head_addr := label_addr out head,
            body_addr := label_addr out body, executable_offset := generated_offset out\<rparr>)\<rparr>;
       Some (j\<lparr>stats := (stats j)\<lparr>code_size := code_size (stats j) + generated_size out\<rparr>\<rparr>)
     }"

section \<open>The runtime\<close>

datatype sljit_event = Set_jump_addr nat nat uw uw | Free_compiler nat

fun compile_all ::
  "(u8 \<Rightarrow> opname) \<Rightarrow> sljit_generator \<Rightarrow> nat \<Rightarrow> buxn_jit \<Rightarrow> buxn_jit option" where
  "compile_all decode gen fuel j =
     (case buxn_jit_dequeue (entry_store j) (compile_queue j) of
        (None, q) \<Rightarrow> Some j
      | (Some e, q) \<Rightarrow>
          (case fuel of
             0 \<Rightarrow> None
           | Suc n \<Rightarrow>
               do {
                 j \<leftarrow> buxn_jit_compile decode gen e (j\<lparr>compile_queue := q\<rparr>);
                 compile_all decode gen n (enqueue_pool e j)
               }))"

declare compile_all.simps [simp del]

definition link_event :: "buxn_jit \<Rightarrow> nat \<Rightarrow> sljit_event list" where
  "link_event j e =
     (let entry = entry_store j e; block = block_store j (eblock entry);
          target = (case link_type entry of LINK_TO_HEAD \<Rightarrow> head_addr block | LINK_TO_BODY \<Rightarrow> body_addr block)
      in case etarget entry of
           Jump_target jump \<Rightarrow>
             (if target \<noteq> 0
              then [Set_jump_addr (ecompiler entry) jump target (executable_offset block)] else [])
         | Pc_target _ \<Rightarrow> [])"

partial_function (option) link_all :: "buxn_jit \<Rightarrow> (sljit_event list \<times> buxn_jit) option" where
  "link_all j =
     (case buxn_jit_dequeue (entry_store j) (link_queue j) of
        (None, q) \<Rightarrow> Some ([], j)
      | (Some e, q) \<Rightarrow>
          do {
            (evs, j') \<leftarrow> link_all (enqueue_pool e (j\<lparr>link_queue := q\<rparr>));
            Some (link_event j e @ evs, j')
          })"

partial_function (option) cleanup_all :: "buxn_jit \<Rightarrow> (sljit_event list \<times> buxn_jit) option" where
  "cleanup_all j =
     (case buxn_jit_dequeue (entry_store j) (cleanup_queue j) of
        (None, q) \<Rightarrow> Some ([], j)
      | (Some e, q) \<Rightarrow>
          do {
            (evs, j') \<leftarrow> cleanup_all (enqueue_pool e (j\<lparr>cleanup_queue := q\<rparr>));
            Some (Free_compiler (ecompiler (entry_store j e)) # evs, j')
          })"

definition buxn_jit_main ::
  "(u8 \<Rightarrow> opname) \<Rightarrow> sljit_generator \<Rightarrow> u16 \<Rightarrow> buxn_jit \<Rightarrow> (nat \<times> sljit_event list \<times> buxn_jit) option" where
  "buxn_jit_main decode gen a j =
     (let (block, j) = buxn_jit_queue_block j a in
      if fn (block_store j block) \<noteq> 0 then Some (block, [], j)
      else
        do {
          j \<leftarrow> compile_all decode gen 65536 j;
          (links, j) \<leftarrow> link_all j;
          (frees, j) \<leftarrow> cleanup_all j;
          Some (block, links @ frees, j)
        })"

definition buxn_jit_translate_jump_addr ::
  "(u8 \<Rightarrow> opname) \<Rightarrow> sljit_generator \<Rightarrow> u32 \<Rightarrow> buxn_jit \<Rightarrow> (uw \<times> sljit_event list \<times> buxn_jit) option" where
  "buxn_jit_translate_jump_addr decode gen target j =
     do {
       (block, evs, j) \<leftarrow> buxn_jit_main decode gen (ucast target) j;
       Some (head_addr (block_store j block), evs, j)
     }"

text \<open>\<^verbatim>\<open>buxn_jit_execute\<close>: \<open>native\<close> is the call of the generated code, \<open>vm_execute\<close> the interpreter
  \<^verbatim>\<open>buxn_vm_execute\<close>.\<close>

definition buxn_jit_execute ::
  "(u8 \<Rightarrow> opname) \<Rightarrow> sljit_generator \<Rightarrow> (uw \<Rightarrow> buxn_jit \<Rightarrow> u32 \<times> buxn_jit) \<Rightarrow>
   (u16 \<Rightarrow> buxn_jit \<Rightarrow> buxn_jit) \<Rightarrow> u16 \<Rightarrow> buxn_jit \<Rightarrow> buxn_jit option" where
  "buxn_jit_execute decode gen native vm_execute a j =
     do {
       (block, evs, j) \<leftarrow> buxn_jit_main decode gen a j;
       let (next, j) = native (fn (block_store j block)) j;
       if next > 0xffff then Some j
       else
         let p = ucast next;
             j = j\<lparr>stats := (stats j)\<lparr>num_bounces := num_bounces (stats j) + 1\<rparr>\<rparr>
         in if p \<le> 0xff then Some (vm_execute p j) else None
     }"

end
