(* ===== verification/Jit_Sim.thy ===== *)
theory Jit_Sim
  imports Jit_Compile
begin

text \<open>
  What the emitted code does. The state of the virtual machine's two stacks during a block is split
  between memory, the stack pointer registers and the cached operands; \<open>rview\<close> says which bytes (top
  first) a stack holds once every pending write is done, \<open>pview\<close> which bytes the next pops will
  deliver. \<open>core\<close> collects the invariants that tie the compile-time context to the machine. The
  lemmas of this theory say, for every cache operation and micro operation, that running the code it
  emitted keeps \<open>core\<close> and moves the views as the operation on the stack should.
\<close>

section \<open>Bytes below a pointer\<close>

fun below :: "(u8 \<Rightarrow> u8) \<Rightarrow> u8 \<Rightarrow> u8 list \<Rightarrow> bool" where
  "below arr p [] \<longleftrightarrow> True"
| "below arr p (x # xs) \<longleftrightarrow> arr (p - 1) = x \<and> below arr (p - 1) xs"

lemma unat_pred: "(p :: u8) \<noteq> 0 \<Longrightarrow> unat (p - 1) = unat p - 1"
  by (metis unat_minus_one)

lemma below_upd: "length ms \<le> unat (p - 1 - q) \<Longrightarrow> below (arr(q := x)) p ms = below arr p ms"
proof (induction ms arbitrary: p)
  case Nil
  then show ?case by simp
next
  case (Cons a ms)
  then have ne: "p - 1 - q \<noteq> 0" by auto
  then have "unat (p - 1 - 1 - q) = unat (p - 1 - q) - 1"
    using unat_pred [of "p - 1 - q"] by (simp add: algebra_simps)
  then have "below (arr(q := x)) (p - 1) ms = below arr (p - 1) ms"
    using Cons.prems by (intro Cons.IH) simp
  with ne show ?case by (simp add: fun_upd_other del: fun_upd_apply)
qed

lemma unat_all_ones [simp]: "unat (- 1 :: u8) = 255"
  by (simp add: unat_eq_nat_uint uint_word_ariths)

lemma below_push1:
  assumes "below arr p ms" and "length ms < 256"
  shows "below (arr(p := x)) (p + 1) (x # ms)"
  using assms by (simp add: below_upd)

lemma below_push2:
  assumes "below arr p ms" and "length ms < 255"
  shows "below (arr(p := h, p + 1 := l)) (p + 2) (l # h # ms)"
proof -
  have "below (arr(p := h, p + 1 := l)) (p + 1) (h # ms) = below (arr(p := h)) (p + 1) (h # ms)"
    by (rule below_upd) (use assms(2) in simp)
  then show ?thesis
    using below_push1 [of arr p ms h] assms by (simp add: algebra_simps)
qed

lemma below_cong:
  "(\<And>q. arr q = arr' q) \<Longrightarrow> below arr p ms = below arr' p ms"
  by (metis ext)

section \<open>Views of a stack\<close>

definition stack_is :: "(u8 \<Rightarrow> u8) \<Rightarrow> u8 \<Rightarrow> u8 list \<Rightarrow> u8 list \<Rightarrow> bool" where
  "stack_is arr p bs xs \<longleftrightarrow> length xs \<le> 256 \<and> (\<exists>ms. xs = bs @ ms \<and> below arr p ms)"

definition stack_arr :: "buxn_jit_ctx \<Rightarrow> mach \<Rightarrow> bool \<Rightarrow> u8 \<Rightarrow> u8" where
  "stack_arr ctx m r p = mem m (vm_addr (vm_offset (jit ctx)) (reg m BUXN_JIT_S_VM) (stack_field r) (ucast p))"

text \<open>The bytes of an operand in its register, top first.\<close>

definition opbytes :: "mach \<Rightarrow> buxn_jit_operand \<Rightarrow> u8 list" where
  "opbytes m v =
     (let w = reg m (oreg v)
      in if is_short v then [ucast w, ucast (drop_bit 8 w)] else [ucast w])"

definition cbytes :: "mach \<Rightarrow> buxn_jit_operand list \<Rightarrow> u8 list" where
  "cbytes m vs = concat (map (opbytes m) vs)"

lemma cbytes_simps [simp]:
  "cbytes m [] = []"
  "cbytes m (v # vs) = opbytes m v @ cbytes m vs"
  "cbytes m (vs @ us) = cbytes m vs @ cbytes m us"
  by (simp_all add: cbytes_def)

definition act :: "bool \<Rightarrow> buxn_jit_ctx \<Rightarrow> buxn_jit_stack_cache_cell list" where
  "act r ctx = take (clen (cache_of r ctx)) (cells (cache_of r ctx))"

definition ops_all :: "bool \<Rightarrow> buxn_jit_ctx \<Rightarrow> buxn_jit_operand list" where
  "ops_all r ctx = map cval (act r ctx)"

definition ops_new :: "bool \<Rightarrow> buxn_jit_ctx \<Rightarrow> buxn_jit_operand list" where
  "ops_new r ctx = map cval (filter need_flush (act r ctx))"

definition rview :: "buxn_jit_ctx \<Rightarrow> mach \<Rightarrow> bool \<Rightarrow> u8 list \<Rightarrow> bool" where
  "rview ctx m r xs \<longleftrightarrow>
     stack_is (stack_arr ctx m r) (ucast (reg m (stack_reg r))) (cbytes m (rev (ops_new r ctx))) xs"

definition pview :: "buxn_jit_ctx \<Rightarrow> mach \<Rightarrow> bool \<Rightarrow> u8 list \<Rightarrow> bool" where
  "pview ctx m r xs \<longleftrightarrow>
     stack_is (stack_arr ctx m r) (ucast (reg m (stack_ptr_reg r ctx))) (cbytes m (rev (ops_all r ctx))) xs"

section \<open>The invariant\<close>

definition op_reg :: "sreg \<Rightarrow> bool" where
  "op_reg r \<longleftrightarrow> op_index r \<noteq> None"

lemma op_reg_iff: "op_reg r \<longleftrightarrow> (\<exists>i < 6. r = R (3 + i))"
proof (cases r)
  case (R n)
  have "3 \<le> n \<and> n \<le> 8 \<longleftrightarrow> (\<exists>i < 6. n = 3 + i)"
    by (auto intro!: exI [of _ "n - 3"])
  then show ?thesis
    using R by (simp add: op_reg_def BUXN_JIT_R_OP_MIN_def BUXN_JIT_R_OP_MAX_def)
qed (simp add: op_reg_def)

lemma op_reg_not [simp]:
  "op_reg r \<Longrightarrow> r \<noteq> R 0" "op_reg r \<Longrightarrow> r \<noteq> R (Suc 0)" "op_reg r \<Longrightarrow> r \<noteq> R 2" "op_reg r \<Longrightarrow> r \<noteq> S n"
  "op_reg r \<Longrightarrow> R 0 \<noteq> r" "op_reg r \<Longrightarrow> R (Suc 0) \<noteq> r" "op_reg r \<Longrightarrow> R 2 \<noteq> r" "op_reg r \<Longrightarrow> S n \<noteq> r"
  by (auto simp: op_reg_iff)

text \<open>A register holds no more than the operand's width.\<close>

definition fits :: "mach \<Rightarrow> buxn_jit_operand \<Rightarrow> bool" where
  "fits m v \<longleftrightarrow> unat (reg m (oreg v)) < (if is_short v then 65536 else 256)"

definition cached_regs :: "buxn_jit_ctx \<Rightarrow> sreg list" where
  "cached_regs ctx = map oreg (ops_all False ctx) @ map oreg (ops_all True ctx)"

definition shape_ok :: "buxn_jit_ctx \<Rightarrow> bool" where
  "shape_ok ctx \<longleftrightarrow>
     (\<forall>r. length (cells (cache_of r ctx)) = BUXN_JIT_CACHE_SIZE \<and> clen (cache_of r ctx) \<le> BUXN_JIT_CACHE_SIZE) \<and>
     length (reg_ref_counts ctx) = 6"

text \<open>Every register in use, by a cell or by the running handler (\<open>held\<close>), is counted.\<close>

definition refs_ok :: "buxn_jit_ctx \<Rightarrow> sreg list \<Rightarrow> bool" where
  "refs_ok ctx held \<longleftrightarrow>
     (\<forall>q \<in> set (cached_regs ctx @ held). op_reg q) \<and>
     (\<forall>i < 6. count_list (cached_regs ctx @ held) (R (3 + i)) = reg_ref_counts ctx ! i)"

definition base_ok :: "buxn_jit_ctx \<Rightarrow> mach \<Rightarrow> bool" where
  "base_ok ctx m \<longleftrightarrow>
     layout_ok (vm_offset (jit ctx)) (reg m BUXN_JIT_S_VM) \<and>
     (mem_base ctx \<noteq> 0 \<longrightarrow> reg m BUXN_JIT_R_MEM_BASE = reg m BUXN_JIT_S_VM + mem_base ctx)"

definition core :: "buxn_jit_ctx \<Rightarrow> mach \<Rightarrow> sreg list \<Rightarrow> bool" where
  "core ctx m held \<longleftrightarrow>
     shape_ok ctx \<and> refs_ok ctx held \<and> base_ok ctx m \<and>
     (\<forall>r. \<forall>v \<in> set (ops_all r ctx). fits m v)"

text \<open>\<open>emits step ctx m ctx' m'\<close>: going from \<open>ctx\<close> to \<open>ctx'\<close> emitted code that takes \<open>m\<close> to \<open>m'\<close>.\<close>

definition emits :: "(lir \<Rightarrow> mach \<Rightarrow> mach) \<Rightarrow> buxn_jit_ctx \<Rightarrow> mach \<Rightarrow> buxn_jit_ctx \<Rightarrow> mach \<Rightarrow> bool" where
  "emits step ctx m ctx' m' \<longleftrightarrow> (\<exists>is. code ctx' = code ctx @ is \<and> exec step is m = m')"

lemma emits_refl [simp]: "code ctx' = code ctx \<Longrightarrow> emits step ctx m ctx' m"
  by (simp add: emits_def)

lemma emits_trans [trans]:
  "emits step a m b m' \<Longrightarrow> emits step b m' c m'' \<Longrightarrow> emits step a m c m''"
  by (auto simp: emits_def)

lemma emits_code:
  "emits step a m b m' \<Longrightarrow> code c = code b \<Longrightarrow> emits step a m c m'"
  by (auto simp: emits_def)

lemma emits_emit_all: "emits step ctx m (emit_all is ctx) (exec step is m)"
  by (auto simp: emits_def emit_all_eq)

lemma emits_emit: "emits step ctx m (emit i ctx) (step i m)"
  by (auto simp: emits_def emit_def)


section \<open>Frames\<close>

definition regs_same :: "sreg set \<Rightarrow> mach \<Rightarrow> mach \<Rightarrow> bool" where
  "regs_same X m m' \<longleftrightarrow> (\<forall>q. q \<notin> X \<longrightarrow> reg m' q = reg m q)"

definition mem_same :: "vm_field set \<Rightarrow> buxn_jit_ctx \<Rightarrow> mach \<Rightarrow> mach \<Rightarrow> bool" where
  "mem_same F ctx m m' \<longleftrightarrow>
     (\<forall>f i. f \<notin> F \<longrightarrow> unat i < field_size f \<longrightarrow>
        mem m' (vm_addr (vm_offset (jit ctx)) (reg m BUXN_JIT_S_VM) f i) =
        mem m (vm_addr (vm_offset (jit ctx)) (reg m BUXN_JIT_S_VM) f i)) \<and>
     (\<forall>a. outside_vm (vm_offset (jit ctx)) (reg m BUXN_JIT_S_VM) a \<longrightarrow> mem m' a = mem m a)"

lemma regs_same_refl [simp]: "regs_same X m m"
  by (simp add: regs_same_def)

lemma regs_sameD: "regs_same X m m' \<Longrightarrow> q \<notin> X \<Longrightarrow> reg m' q = reg m q"
  by (simp add: regs_same_def)

lemma regs_same_trans: "regs_same X m m' \<Longrightarrow> regs_same Y m' m'' \<Longrightarrow> regs_same (X \<union> Y) m m''"
  by (simp add: regs_same_def)

lemma regs_same_mono: "regs_same X m m' \<Longrightarrow> X \<subseteq> Y \<Longrightarrow> regs_same Y m m'"
  by (auto simp: regs_same_def)

lemma mem_same_refl [simp]: "mem m' = mem m \<Longrightarrow> mem_same F ctx m m'"
  by (simp add: mem_same_def)

lemma mem_same_trans:
  "mem_same F ctx m m' \<Longrightarrow> mem_same F ctx m' m'' \<Longrightarrow> reg m' BUXN_JIT_S_VM = reg m BUXN_JIT_S_VM \<Longrightarrow>
   mem_same F ctx m m''"
  by (simp add: mem_same_def)

lemma mem_same_mono: "mem_same F ctx m m' \<Longrightarrow> F \<subseteq> G \<Longrightarrow> mem_same G ctx m m'"
  by (auto simp: mem_same_def)

lemma mem_same_jit: "jit ctx' = jit ctx \<Longrightarrow> mem_same F ctx' = mem_same F ctx"
  by (simp add: mem_same_def fun_eq_iff)

lemma field_size_stack [simp]: "field_size (stack_field r) = 256"
  by (simp add: stack_field_def)

lemma stack_field_neq [simp]: "stack_field (\<not> r) \<noteq> stack_field r" "stack_field r \<noteq> stack_field (\<not> r)"
  by (simp_all add: stack_field_def)

lemma stack_reg_facts [simp]:
  "stack_reg r \<noteq> R n" "R n \<noteq> stack_reg r" "stack_reg r \<noteq> S 0" "S 0 \<noteq> stack_reg r"
  "stack_reg (\<not> r) \<noteq> stack_reg r" "stack_reg r \<noteq> stack_reg (\<not> r)"
  "op_reg q \<Longrightarrow> stack_reg r \<noteq> q" "op_reg q \<Longrightarrow> q \<noteq> stack_reg r"
  by (auto simp: stack_reg_def jit_reg_defs)

lemma stack_arr_frame:
  assumes "mem_same F ctx m m'" and "stack_field r \<notin> F" and "reg m' BUXN_JIT_S_VM = reg m BUXN_JIT_S_VM"
  shows "stack_arr ctx m' r = stack_arr ctx m r"
  using assms by (simp add: stack_arr_def mem_same_def fun_eq_iff)

lemma stack_arr_jit: "jit ctx' = jit ctx \<Longrightarrow> stack_arr ctx' = stack_arr ctx"
  by (simp add: stack_arr_def fun_eq_iff)

lemma stack_arr_upd:
  assumes "layout_ok (vm_offset (jit ctx)) (reg m BUXN_JIT_S_VM)"
    and "mem m' = (mem m)(vm_addr (vm_offset (jit ctx)) (reg m BUXN_JIT_S_VM) (stack_field r) (ucast p) := x)"
    and "reg m' BUXN_JIT_S_VM = reg m BUXN_JIT_S_VM"
  shows "stack_arr ctx m' r = (stack_arr ctx m r)(p := x)"
  using assms vm_addr_eq_iff [OF assms(1)] by (auto simp: stack_arr_def fun_eq_iff)

lemma mem_same_upd:
  assumes "layout_ok (vm_offset (jit ctx)) (reg m BUXN_JIT_S_VM)" and "unat i < field_size f" and "f \<in> F"
    and "mem m' = (mem m)(vm_addr (vm_offset (jit ctx)) (reg m BUXN_JIT_S_VM) f i := x)"
  shows "mem_same F ctx m m'"
  using assms vm_addr_eq_iff [OF assms(1) _ assms(2)] by (auto simp: mem_same_def outside_vm_def)


section \<open>Cells and reference counts\<close>

abbreviation scratch_regs :: "bool \<Rightarrow> sreg set" where
  "scratch_regs r \<equiv> {R 0, R 1, R 2, stack_reg r}"

lemma op_reg_frame: "regs_same (scratch_regs r) m m' \<Longrightarrow> op_reg q \<Longrightarrow> reg m' q = reg m q"
  by (simp add: regs_same_def)

lemma opbytes_cong: "reg m' (oreg v) = reg m (oreg v) \<Longrightarrow> opbytes m' v = opbytes m v"
  by (simp add: opbytes_def)

lemma cbytes_cong: "(\<And>v. v \<in> set vs \<Longrightarrow> reg m' (oreg v) = reg m (oreg v)) \<Longrightarrow> cbytes m' vs = cbytes m vs"
  by (induction vs) (auto simp: opbytes_def)

lemma fits_cong: "reg m' (oreg v) = reg m (oreg v) \<Longrightarrow> fits m' v = fits m v"
  by (simp add: fits_def)

lemma op_reg_ops: "refs_ok ctx held \<Longrightarrow> v \<in> set (ops_all r ctx) \<Longrightarrow> op_reg (oreg v)"
  by (cases r) (auto simp: refs_ok_def cached_regs_def)

lemma set_ops_new: "set (ops_new r ctx) \<subseteq> set (ops_all r ctx)"
  by (auto simp: ops_new_def ops_all_def)

lemma count_cached:
  "count_list (cached_regs ctx) q =
     count_list (map oreg (ops_all r ctx)) q + count_list (map oreg (ops_all (\<not> r) ctx)) q"
  by (cases r) (simp_all add: cached_regs_def)

lemma set_cached: "set (cached_regs ctx) = oreg ` set (ops_all r ctx) \<union> oreg ` set (ops_all (\<not> r) ctx)"
  by (cases r) (auto simp: cached_regs_def)

lemma length_act [simp]: "shape_ok ctx \<Longrightarrow> length (act r ctx) = clen (cache_of r ctx)"
  by (simp add: act_def shape_ok_def)

lemma op_index_op [simp]: "i < 6 \<Longrightarrow> op_index (R (3 + i)) = Some i"
  by (simp add: BUXN_JIT_R_OP_MIN_def BUXN_JIT_R_OP_MAX_def)

lemma release_reg_ok:
  assumes "i < 6" and "0 < reg_ref_counts ctx ! i"
  shows "buxn_jit_release_reg (R (3 + i)) ctx =
    Some (ctx\<lparr>reg_ref_counts := (reg_ref_counts ctx)[i := reg_ref_counts ctx ! i - 1]\<rparr>)"
  using assms by (simp add: buxn_jit_release_reg_def del: op_index.simps)

lemma retain_reg_ok:
  assumes "i < 6"
  shows "buxn_jit_retain_reg (R (3 + i)) ctx =
    Some (ctx\<lparr>reg_ref_counts := (reg_ref_counts ctx)[i := reg_ref_counts ctx ! i + 1]\<rparr>)"
  using assms by (simp add: buxn_jit_retain_reg_def del: op_index.simps)

lemma cache_ref_counts [simp]: "cache_of r (ctx\<lparr>reg_ref_counts := x\<rparr>) = cache_of r ctx"
  by (simp add: cache_of_def)

lemma act_cong: "cache_of r ctx' = cache_of r ctx \<Longrightarrow> act r ctx' = act r ctx"
  by (simp add: act_def)

lemma act_set_cache [simp]:
  "act r (set_cache r c ctx) = take (clen c) (cells c)"
  "q \<noteq> r \<Longrightarrow> act q (set_cache r c ctx) = act q ctx"
  by (simp_all add: act_def)

text \<open>Dropping one reference to a register that the caches or the handler no longer use.\<close>

lemma refs_ok_release:
  assumes len: "length (reg_ref_counts ctx) = 6"
    and rc: "reg_ref_counts ctx' = (reg_ref_counts ctx)[i := reg_ref_counts ctx ! i - 1]" and "i < 6"
    and regs: "mset (R (3 + i) # cached_regs ctx' @ held') = mset (cached_regs ctx @ held)"
    and ok: "refs_ok ctx held"
  shows "refs_ok ctx' held'"
proof -
  have cnt: "count_list (cached_regs ctx @ held) q =
      (if q = R (3 + i) then 1 else 0) + count_list (cached_regs ctx' @ held') q" for q
    using arg_cong [OF regs, of "\<lambda>M. count M q"] by (auto simp: count_mset)
  have "count_list (cached_regs ctx' @ held') (R (3 + j)) = reg_ref_counts ctx' ! j" if "j < 6" for j
    using ok that cnt [of "R (3 + j)"] len rc \<open>i < 6\<close>
    by (cases "i = j") (auto simp: refs_ok_def dest!: spec [where x = j])
  moreover have "set (cached_regs ctx' @ held') \<subseteq> set (cached_regs ctx @ held)"
    using mset_eq_setD [OF regs] by auto
  ultimately show ?thesis using ok by (auto simp: refs_ok_def)
qed

lemma shift_cells_props:
  "n + k \<le> length xs \<Longrightarrow> length (shift_cells k n xs) = length xs"
  "n + k \<le> length xs \<Longrightarrow> take n (shift_cells k n xs) = take n (drop k xs)"
  by (auto simp: shift_cells_def)

lemma spill_static:
  assumes sh: "shape_ok ctx" and rf: "refs_ok ctx held" and ne: "clen (cache_of r ctx) \<noteq> 0"
  obtains ctx' where "buxn_jit_stack_cache_spill r ctx = Some (True, ctx')"
    and "shape_ok ctx'" and "refs_ok ctx' held"
    and "act r ctx' = tl (act r ctx)" and "act (\<not> r) ctx' = act (\<not> r) ctx"
    and "code ctx' = code (if need_flush (hd (act r ctx))
           then buxn_jit_do_push (cval (hd (act r ctx))) r ctx else ctx)"
    and "mem_base ctx' = mem_base (if need_flush (hd (act r ctx))
           then buxn_jit_do_push (cval (hd (act r ctx))) r ctx else ctx)"
proof -
  define cs where "cs = cells (cache_of r ctx)"
  define n where "n = clen (cache_of r ctx)"
  define c where "c = (if need_flush (cs ! 0) then buxn_jit_flush_cell r 0 ctx else ctx)"
  define cs' where "cs' = cells (cache_of r c)"
  have lens: "length cs = 4" "n \<le> 4" "n \<noteq> 0"
    using sh ne by (auto simp: shape_ok_def BUXN_JIT_CACHE_SIZE_def cs_def n_def)
  have act: "act r ctx = take n cs" by (simp add: act_def cs_def n_def)
  have hd: "hd (act r ctx) = cs ! 0"
    using lens by (cases cs) (auto simp: act take_Cons')
  have c: "length cs' = 4" "drop 1 cs' = drop 1 cs" "clen (cache_of r c) = n"
    "oreg (cval (cs' ! 0)) = oreg (cval (cs ! 0))" "cache_of (\<not> r) c = cache_of (\<not> r) ctx"
    "reg_ref_counts c = reg_ref_counts ctx"
    using lens by (auto simp: c_def cs'_def cs_def n_def buxn_jit_flush_cell_def Let_def)
  have in_act: "cs ! 0 \<in> set (act r ctx)"
    unfolding hd [symmetric] by (rule hd_in_set) (use lens in \<open>auto simp: act\<close>)
  then have in_ops: "cval (cs ! 0) \<in> set (ops_all r ctx)" by (simp add: ops_all_def)
  from op_reg_ops [OF rf this] obtain i where i: "i < 6" "oreg (cval (cs ! 0)) = R (3 + i)"
    by (auto simp: op_reg_iff)
  have "R (3 + i) \<in> set (cached_regs ctx)"
    unfolding set_cached [of _ r] i(2) [symmetric] using in_ops by blast
  then have "0 < count_list (cached_regs ctx @ held) (R (3 + i))"
    by (auto simp: count_list_0_iff neq0_conv [symmetric] simp del: neq0_conv)
  then have pos: "0 < reg_ref_counts c ! i"
    using rf i(1) unfolding c(6) by (auto simp: refs_ok_def dest!: spec [where x = i])
  define d where "d = c\<lparr>reg_ref_counts := (reg_ref_counts ctx)[i := reg_ref_counts ctx ! i - 1]\<rparr>"
  define ctx' where "ctx' = set_cache r (cache_of r c\<lparr>clen := n - 1, cells := shift_cells 1 (n - 1) cs'\<rparr>) d"
  have rel: "buxn_jit_release_reg (oreg (cval (cs' ! 0))) c = Some d"
    unfolding c(4) i(2) release_reg_ok [OF i(1) pos] d_def c(6) ..
  have d: "cache_of r d = cache_of r c" by (simp add: d_def)
  have sp: "buxn_jit_stack_cache_spill r ctx = Some (True, ctx')"
    using ne rel unfolding buxn_jit_stack_cache_spill_def Let_def cs_def [symmetric] c_def [symmetric]
    by (simp add: cs'_def [symmetric] d c(3) ctx'_def)
  have caches: "clen (cache_of r ctx') = n - 1" "cells (cache_of r ctx') = shift_cells 1 (n - 1) cs'"
    "cache_of (\<not> r) ctx' = cache_of (\<not> r) ctx"
    "reg_ref_counts ctx' = (reg_ref_counts ctx)[i := reg_ref_counts ctx ! i - 1]"
    using c(5) by (simp_all add: ctx'_def d_def)
  have act': "act r ctx' = tl (act r ctx)"
    using shift_cells_props(2) [of "n - 1" 1 cs'] lens c(1,2)
    unfolding act by (simp add: act_def caches drop_Suc tl_take)
  have oth: "act (\<not> r) ctx' = act (\<not> r) ctx"
    by (rule act_cong) (rule caches)
  have "length (cells (cache_of q ctx')) = 4 \<and> clen (cache_of q ctx') \<le> 4" for q
  proof (cases "q = r")
    case True
    then show ?thesis using shift_cells_props(1) [of "n - 1" 1 cs'] lens c(1) by (simp add: caches)
  next
    case False
    then have "q = (\<not> r)" by auto
    with sh show ?thesis by (simp add: caches shape_ok_def BUXN_JIT_CACHE_SIZE_def)
  qed
  then have shp: "shape_ok ctx'"
    using sh by (simp add: shape_ok_def caches BUXN_JIT_CACHE_SIZE_def)
  have "act r ctx = cs ! 0 # tl (act r ctx)"
    unfolding hd [symmetric] using in_act by (cases "act r ctx") auto
  then have "map oreg (ops_all r ctx) = R (3 + i) # map oreg (ops_all r ctx')"
    unfolding ops_all_def act' i(2) [symmetric] by (metis list.simps(9))
  then have "mset (R (3 + i) # cached_regs ctx' @ held) = mset (cached_regs ctx @ held)"
    using oth by (cases r) (simp_all add: cached_regs_def ops_all_def)
  then have rf': "refs_ok ctx' held"
    by (intro refs_ok_release [OF _ caches(4) i(1) _ rf]) (use sh in \<open>simp_all add: shape_ok_def\<close>)
  show ?thesis
    by (rule that [OF sp shp rf' act' oth])
      (simp_all add: hd ctx'_def d_def c_def cs_def buxn_jit_flush_cell_def Let_def)
qed

section \<open>The code fragments\<close>

context sljit_exec
begin

lemmas step_simps = step_mov step_load step_store step_op2 step_shift

lemma exec_set_mem_base:
  assumes "base_ok ctx m"
  obtains m' where "emits step ctx m (buxn_jit_set_mem_base f ctx) m'"
    and "base_ok (buxn_jit_set_mem_base f ctx) m'"
    and "reg m' BUXN_JIT_R_MEM_BASE = reg m BUXN_JIT_S_VM + vm_offset (jit ctx) f"
    and "regs_same {R 0} m m'" and "mem m' = mem m"
proof (cases "mem_base ctx = vm_offset (jit ctx) f")
  case True
  have "vm_offset (jit ctx) f \<noteq> 0" using assms by (simp add: base_ok_def layout_ok_def)
  with True assms show ?thesis
    by (intro that [of m]) (simp_all add: buxn_jit_set_mem_base_def base_ok_def)
next
  case False
  let ?i = "Op2 SLJIT_ADD (Reg BUXN_JIT_R_MEM_BASE) (Reg BUXN_JIT_S_VM) (Imm (vm_offset (jit ctx) f))"
  have "emits step ctx m (buxn_jit_set_mem_base f ctx) (step ?i m)"
    using False by (auto simp: buxn_jit_set_mem_base_def Let_def intro: emits_code [OF emits_emit])
  then show ?thesis
    by (rule that) (use False assms in \<open>simp_all add: step_simps buxn_jit_set_mem_base_def Let_def base_ok_def emit_def
        jit_reg_defs regs_same_def\<close>)
qed

lemma exec_push_byte:
  assumes "\<not> is_short v" and "op_reg (oreg v)"
  shows "exec step (push_code r v) m =
    m\<lparr>reg := (reg m)(R 1 := ucast (ucast (reg m (stack_reg r)) :: u8), stack_reg r := reg m (stack_reg r) + 1),
      mem := (mem m)(reg m (R 0) + ucast (ucast (reg m (stack_reg r)) :: u8) := ucast (reg m (oreg v)))\<rparr>"
  using assms by (simp add: push_code_def Let_def step_simps BUXN_JIT_MEM_def jit_reg_defs fun_upd_twist)

lemma exec_push_short:
  assumes "is_short v" and "op_reg (oreg v)"
  shows "exec step (push_code r v) m =
    m\<lparr>reg := (reg m)(R 2 := reg m (oreg v) AND 0xff,
               R 1 := ucast (ucast (reg m (stack_reg r)) + 1 :: u8), stack_reg r := reg m (stack_reg r) + 1 + 1),
      mem := (mem m)(reg m (R 0) + ucast (ucast (reg m (stack_reg r)) :: u8) := ucast (drop_bit 8 (reg m (oreg v))),
                     reg m (R 0) + ucast (ucast (reg m (stack_reg r)) + 1 :: u8) := ucast (reg m (oreg v) AND 0xff))\<rparr>"
  using assms
  by (cases m) (simp add: push_code_def Let_def step_simps BUXN_JIT_MEM_def jit_reg_defs fun_upd_twist)


text \<open>Writing an operand to the stack: the bytes of the operand are now below the stack pointer, above
  what was there, and nothing else that matters has changed.\<close>

lemma exec_do_push:
  assumes base: "base_ok ctx m" and v: "op_reg (oreg v)"
    and ms: "below (stack_arr ctx m r) (ucast (reg m (stack_reg r))) ms"
    and len: "length (opbytes m v @ ms) \<le> 256"
  obtains m' where "emits step ctx m (buxn_jit_do_push v r ctx) m'"
    and "base_ok (buxn_jit_do_push v r ctx) m'"
    and "below (stack_arr ctx m' r) (ucast (reg m' (stack_reg r))) (opbytes m v @ ms)"
    and "regs_same {R 0, R 1, R 2, stack_reg r} m m'" and "mem_same {stack_field r} ctx m m'"
proof -
  let ?c1 = "buxn_jit_set_mem_base (stack_field r) ctx"
  obtain m1 where e1: "emits step ctx m ?c1 m1" and b1: "base_ok ?c1 m1"
    and r0: "reg m1 BUXN_JIT_R_MEM_BASE = reg m BUXN_JIT_S_VM + vm_offset (jit ctx) (stack_field r)"
    and rs: "regs_same {R 0} m m1" and mm: "mem m1 = mem m"
    by (rule exec_set_mem_base [OF base])
  have same: "reg m1 q = reg m q" if "q \<noteq> R 0" for q
    using rs that by (simp add: regs_same_def)
  have vm: "reg m1 BUXN_JIT_S_VM = reg m BUXN_JIT_S_VM" and sp: "reg m1 (stack_reg r) = reg m (stack_reg r)"
    and rv: "reg m1 (oreg v) = reg m (oreg v)"
    using v by (simp_all add: same jit_reg_defs)
  have lay: "layout_ok (vm_offset (jit ctx)) (reg m BUXN_JIT_S_VM)"
    using base by (simp add: base_ok_def)
  let ?p = "ucast (reg m (stack_reg r)) :: u8"
  let ?a = "\<lambda>i :: u8. vm_addr (vm_offset (jit ctx)) (reg m BUXN_JIT_S_VM) (stack_field r) (ucast i)"
  define m' where "m' = exec step (push_code r v) m1"
  have em: "emits step ctx m (buxn_jit_do_push v r ctx) m'"
    unfolding buxn_jit_do_push_def m'_def by (rule emits_trans [OF e1 emits_emit_all])
  have addr: "reg m1 (R 0) + ucast i = ?a i" for i :: u8
    using r0 by (simp add: vm_addr_def jit_reg_defs)
  have mid: "stack_arr ctx m1 = stack_arr ctx m"
    by (simp add: stack_arr_def fun_eq_iff mm vm)
  have "below (stack_arr ctx m' r) (ucast (reg m' (stack_reg r))) (opbytes m v @ ms) \<and>
      regs_same {R 1, R 2, stack_reg r} m1 m' \<and> mem_same {stack_field r} ctx m1 m'"
  proof (cases "is_short v")
    case False
    have m': "m' = m1\<lparr>reg := (reg m1)(R 1 := ucast ?p, stack_reg r := reg m (stack_reg r) + 1),
        mem := (mem m1)(?a ?p := ucast (reg m (oreg v)))\<rparr>"
      unfolding m'_def exec_push_byte [OF False v] addr by (simp add: sp rv)
    have "stack_arr ctx m' r = (stack_arr ctx m r)(?p := ucast (reg m (oreg v)))"
      unfolding mid [symmetric] by (rule stack_arr_upd) (use lay in \<open>simp_all add: vm [unfolded jit_reg_defs] m' jit_reg_defs\<close>)
    moreover have "mem_same {stack_field r} ctx m1 m'"
      by (rule mem_same_upd [where f = "stack_field r"]) (use lay in \<open>simp_all add: vm [unfolded jit_reg_defs] m' jit_reg_defs\<close>)
    ultimately show ?thesis
      using False below_push1 [OF ms, of "ucast (reg m (oreg v))"] len
      by (simp add: opbytes_def Let_def m' regs_same_def)
  next
    case True
    let ?h = "ucast (drop_bit 8 (reg m (oreg v))) :: u8"
    let ?l = "ucast (reg m (oreg v) AND 0xff) :: u8"
    have l: "?l = ucast (reg m (oreg v))"
      by (simp add: and_0xff)
    have m': "m' = m1\<lparr>reg := (reg m1)(R 2 := reg m (oreg v) AND 0xff, R 1 := ucast (?p + 1),
          stack_reg r := reg m (stack_reg r) + 1 + 1),
        mem := (mem m1)(?a ?p := ?h, ?a (?p + 1) := ?l)\<rparr>"
      unfolding m'_def exec_push_short [OF True v] addr by (simp add: sp rv)
    let ?m2 = "m1\<lparr>mem := (mem m1)(?a ?p := ?h)\<rparr>"
    have a2: "stack_arr ctx ?m2 r = (stack_arr ctx m r)(?p := ?h)"
      unfolding mid [symmetric] by (rule stack_arr_upd) (use lay in \<open>simp_all add: vm\<close>)
    have "stack_arr ctx m' r = (stack_arr ctx ?m2 r)(?p + 1 := ?l)"
      by (rule stack_arr_upd) (use lay in \<open>simp_all add: vm [unfolded jit_reg_defs] m' jit_reg_defs\<close>)
    moreover have "mem_same {stack_field r} ctx m1 ?m2"
      by (rule mem_same_upd [where f = "stack_field r"]) (use lay in \<open>simp_all add: vm\<close>)
    moreover have "mem_same {stack_field r} ctx ?m2 m'"
      by (rule mem_same_upd [where f = "stack_field r"]) (use lay in \<open>simp_all add: vm [unfolded jit_reg_defs] m' jit_reg_defs\<close>)
    ultimately show ?thesis
      using True below_push2 [OF ms, of ?h ?l] len l a2
      by (auto simp: opbytes_def Let_def m' regs_same_def algebra_simps intro: mem_same_trans)
  qed
  then have below': "below (stack_arr ctx m' r) (ucast (reg m' (stack_reg r))) (opbytes m v @ ms)"
    and rs': "regs_same {R 1, R 2, stack_reg r} m1 m'" and ms': "mem_same {stack_field r} ctx m1 m'"
    by blast+
  have "regs_same {R 0, R 1, R 2, stack_reg r} m m'"
    using regs_same_trans [OF rs rs'] by (rule regs_same_mono) auto
  moreover have "mem_same {stack_field r} ctx m m'"
    using ms' by (simp add: mem_same_def mm vm)
  moreover have "base_ok (buxn_jit_do_push v r ctx) m'"
    using b1 regs_sameD [OF rs', of "R 0"] regs_sameD [OF rs', of "S 0"]
    by (simp add: base_ok_def buxn_jit_do_push_def emit_all_eq jit_reg_defs)
  ultimately show ?thesis using that em below' by blast
qed

end

end
