(* ===== verification/Sim_Cache.thy ===== *)
theory Sim_Cache
  imports Jit_Sim
begin

text \<open>
  Spilling, clearing and allocating: housekeeping that moves cached values to the virtual machine's
  stacks. The relation \<open>quiet\<close> says what all of it has in common: code was emitted that changes no
  operand register and no memory outside the two stacks, and whatever a stack held, it still holds.
\<close>

section \<open>Housekeeping\<close>

lemma emits_functional: "emits step a m b m1 \<Longrightarrow> emits step a m b m2 \<Longrightarrow> m1 = m2"
  by (auto simp: emits_def)

definition quiet :: "(lir \<Rightarrow> mach \<Rightarrow> mach) \<Rightarrow> buxn_jit_ctx \<Rightarrow> mach \<Rightarrow> buxn_jit_ctx \<Rightarrow> mach \<Rightarrow> bool" where
  "quiet step ctx m ctx' m' \<longleftrightarrow>
     emits step ctx m ctx' m' \<and> ctx_frame ctx ctx' \<and>
     regs_same {R 0, R 1, R 2, S 1, S 2} m m' \<and> mem_same {F_ws, F_rs} ctx m m' \<and>
     (\<forall>q xs. rview ctx m q xs \<longrightarrow> rview ctx' m' q xs) \<and>
     (\<forall>q. \<exists>k. act q ctx' = drop k (act q ctx))"

lemma ctx_frame_jit: "ctx_frame ctx ctx' \<Longrightarrow> jit ctx' = jit ctx"
  by (simp add: ctx_frame_def)

lemma quiet_refl [simp]: "quiet step ctx m ctx m"
proof -
  have "\<exists>k. act q ctx = drop k (act q ctx)" for q
    by (rule exI [of _ 0]) simp
  then show ?thesis by (simp add: quiet_def)
qed

lemma quiet_trans [trans]:
  assumes a: "quiet step ctx m ctx' m'" and b: "quiet step ctx' m' ctx'' m''"
  shows "quiet step ctx m ctx'' m''"
proof -
  have "\<exists>k. act q ctx'' = drop k (act q ctx)" for q
  proof -
    obtain k l where "act q ctx' = drop k (act q ctx)" "act q ctx'' = drop l (act q ctx')"
      using a b unfolding quiet_def by meson
    then have "act q ctx'' = drop (l + k) (act q ctx)" by simp
    then show ?thesis by blast
  qed
  moreover have "mem_same {F_ws, F_rs} ctx m m''"
  proof (rule mem_same_trans)
    show "mem_same {F_ws, F_rs} ctx m m'" "reg m' BUXN_JIT_S_VM = reg m BUXN_JIT_S_VM"
      using a by (simp_all add: quiet_def regs_same_def jit_reg_defs)
    have "jit ctx' = jit ctx"
      using a by (simp add: quiet_def ctx_frame_def)
    then show "mem_same {F_ws, F_rs} ctx m' m''"
      using b mem_same_jit [of ctx' ctx] by (simp add: quiet_def)
  qed
  ultimately show ?thesis
    using a b emits_trans [of step ctx m ctx' m' ctx'' m''] ctx_frame_trans [of ctx ctx' ctx'']
      regs_same_trans [of "{R 0, R 1, R 2, S 1, S 2}" m m' "{R 0, R 1, R 2, S 1, S 2}" m'']
    by (simp add: quiet_def)
qed

lemma quietD:
  assumes "quiet step ctx m ctx' m'"
  shows "emits step ctx m ctx' m'" and "ctx_frame ctx ctx'" and "jit ctx' = jit ctx"
    and "op_reg q \<Longrightarrow> reg m' q = reg m q" and "reg m' (S 0) = reg m (S 0)"
    and "mem_same {F_ws, F_rs} ctx m m'" and "rview ctx m r xs \<Longrightarrow> rview ctx' m' r xs"
  using assms by (auto simp: quiet_def ctx_frame_def regs_same_def)

lemma rview_cong:
  assumes "stack_arr ctx' m' r = stack_arr ctx m r" and "reg m' (stack_reg r) = reg m (stack_reg r)"
    and "ops_new r ctx' = ops_new r ctx"
    and "\<And>v. v \<in> set (ops_new r ctx) \<Longrightarrow> reg m' (oreg v) = reg m (oreg v)"
  shows "rview ctx' m' r = rview ctx m r"
  using assms(1-3) cbytes_cong [of "rev (ops_new r ctx)" m' m] assms(4) by (intro ext) (simp add: rview_def)

lemma stack_arr_same:
  assumes "mem m' = mem m" and "reg m' BUXN_JIT_S_VM = reg m BUXN_JIT_S_VM" and "jit ctx' = jit ctx"
  shows "stack_arr ctx' m' = stack_arr ctx m"
  using assms by (simp add: stack_arr_def fun_eq_iff)

lemma core_op_regs: "core ctx m held \<Longrightarrow> v \<in> set (ops_all r ctx) \<Longrightarrow> op_reg (oreg v)"
  by (auto simp: core_def dest: op_reg_ops)

lemma ops_all_drop: "act q ctx' = drop k (act q ctx) \<Longrightarrow> set (ops_all q ctx') \<subseteq> set (ops_all q ctx)"
  by (auto simp: ops_all_def dest: in_set_dropD)

lemma core_mono:
  assumes "core ctx m held" and "shape_ok ctx'" and "refs_ok ctx' held'" and "base_ok ctx' m'"
    and "\<And>q. set (ops_all q ctx') \<subseteq> set (ops_all q ctx)"
    and "\<And>q. op_reg q \<Longrightarrow> reg m' q = reg m q"
  shows "core ctx' m' held'"
  using assms core_op_regs [OF assms(1)] fits_cong [of m' _ m] unfolding core_def by blast

section \<open>Free registers\<close>

lemma find_free_Some:
  "find_free_from k cs = Some i \<Longrightarrow> k \<le> i \<and> i - k < length cs \<and> cs ! (i - k) = 0"
proof (induction k cs rule: find_free_from.induct)
  case (2 k c cs)
  then show ?case by (cases "c = 0") (auto simp: nth_Cons' Suc_diff_le)
qed simp

lemma find_free_None: "find_free_from k cs = None \<Longrightarrow> 0 \<notin> set cs"
  by (induction k cs rule: find_free_from.induct) (auto split: if_splits)

text \<open>A register reported free is used by no cell and by nobody else.\<close>

lemma find_free_reg_Some:
  assumes "shape_ok ctx" and "refs_ok ctx held" and "buxn_jit_find_free_reg ctx = Some q"
  obtains i where "i < 6" and "q = R (3 + i)" and "reg_ref_counts ctx ! i = 0"
    and "q \<notin> set (cached_regs ctx @ held)"
proof -
  from assms(3) obtain i where q: "q = R (3 + i)" and i: "i < 6" "reg_ref_counts ctx ! i = 0"
    using assms(1) by (auto simp: buxn_jit_find_free_reg_def BUXN_JIT_R_OP_MIN_def shape_ok_def dest!: find_free_Some)
  then have "count_list (cached_regs ctx @ held) q = 0"
    using assms(2) by (simp add: refs_ok_def)
  then have "q \<notin> set (cached_regs ctx @ held)"
    by (rule count_list_0_iff [THEN iffD1])
  with q i show ?thesis by (intro that)
qed

text \<open>With no register free, cells and handler between them hold all six.\<close>

lemma find_free_reg_None:
  assumes "shape_ok ctx" and "refs_ok ctx held" and "buxn_jit_find_free_reg ctx = None"
  shows "6 \<le> length (cached_regs ctx @ held)"
proof -
  have "0 \<notin> set (reg_ref_counts ctx)"
    using assms(3) by (auto simp: buxn_jit_find_free_reg_def dest: find_free_None)
  then have "reg_ref_counts ctx ! i \<noteq> 0" if "i < 6" for i
    using assms(1) that by (metis nth_mem shape_ok_def)
  then have "count_list (cached_regs ctx @ held) (R (3 + i)) \<noteq> 0" if "i < 6" for i
    using assms(2) that by (simp add: refs_ok_def)
  then have "(\<lambda>i. R (3 + i)) ` {..<6} \<subseteq> set (cached_regs ctx @ held)"
    by (auto simp only: count_list_0_iff)
  then have "card ((\<lambda>i. R (3 + i)) ` {..<6}) \<le> card (set (cached_regs ctx @ held))"
    by (rule card_mono [OF finite_set])
  also have "card ((\<lambda>i. R (3 + i)) ` {..<6}) = 6"
    by (subst card_image) (auto intro: inj_onI)
  finally show ?thesis using card_length le_trans by blast
qed

lemma retain_ok:
  assumes "shape_ok ctx" and "refs_ok ctx held" and "op_reg q"
  obtains ctx' where "buxn_jit_retain_reg q ctx = Some ctx'" and "shape_ok ctx'" and "refs_ok ctx' (q # held)"
    and "\<forall>r. cache_of r ctx' = cache_of r ctx" and "code ctx' = code ctx" and "mem_base ctx' = mem_base ctx"
proof -
  obtain i where i: "i < 6" "q = R (3 + i)" using assms(3) by (auto simp: op_reg_iff)
  let ?c = "ctx\<lparr>reg_ref_counts := (reg_ref_counts ctx)[i := reg_ref_counts ctx ! i + 1]\<rparr>"
  have len: "length (reg_ref_counts ctx) = 6" using assms(1) by (simp add: shape_ok_def)
  have cr: "cached_regs ?c = cached_regs ctx" by (simp add: cached_regs_def ops_all_def act_def)
  have cnt: "count_list (cached_regs ctx @ q # held) (R (3 + j)) = reg_ref_counts ?c ! j" if "j < 6" for j
    using assms(2) that i len by (cases "i = j") (auto simp: refs_ok_def)
  show ?thesis
  proof (rule that [of ?c])
    show "buxn_jit_retain_reg q ctx = Some ?c" using retain_reg_ok [OF i(1)] i(2) by simp
    show "shape_ok ?c" using assms(1) by (simp add: shape_ok_def)
    show "refs_ok ?c (q # held)" using cnt assms(2,3) unfolding refs_ok_def cr by auto
  qed simp_all
qed

lemma length_cached: "shape_ok ctx \<Longrightarrow> length (cached_regs ctx) = cached_total ctx"
  by (simp add: cached_regs_def ops_all_def cached_total_eq [of _ False])

section \<open>Running it\<close>

context sljit_exec
begin

text \<open>A spill of a pending cell is one push to memory; of a flushed cell, nothing.\<close>

lemma exec_spill:
  assumes core: "core ctx m held" and ne: "clen (cache_of r ctx) \<noteq> 0"
  obtains ctx' m' where "buxn_jit_stack_cache_spill r ctx = Some (True, ctx')"
    and "quiet step ctx m ctx' m'" and "core ctx' m' held"
    and "act r ctx' = tl (act r ctx)" and "act (\<not> r) ctx' = act (\<not> r) ctx"
proof -
  let ?c = "hd (act r ctx)"
  let ?v = "cval ?c"
  have sh: "shape_ok ctx" and rf: "refs_ok ctx held" and bs: "base_ok ctx m"
    using core by (simp_all add: core_def)
  obtain ctx' where sp: "buxn_jit_stack_cache_spill r ctx = Some (True, ctx')"
    and sh': "shape_ok ctx'" and rf': "refs_ok ctx' held"
    and act_r: "act r ctx' = tl (act r ctx)" and act_n: "act (\<not> r) ctx' = act (\<not> r) ctx"
    and code: "code ctx' = code (if need_flush ?c then buxn_jit_do_push ?v r ctx else ctx)"
    and mb: "mem_base ctx' = mem_base (if need_flush ?c then buxn_jit_do_push ?v r ctx else ctx)"
    by (rule spill_static [OF sh rf ne])
  have fr: "ctx_frame ctx ctx'" by (rule spill_result(2) [OF sp])
  have jit: "jit ctx' = jit ctx" by (rule ctx_frame_jit [OF fr])
  have act_ne: "act r ctx = ?c # tl (act r ctx)"
    using length_act [OF sh, of r] ne by (cases "act r ctx") auto
  have drops: "\<exists>k. act q ctx' = drop k (act q ctx)" for q
  proof (cases "q = r")
    case True
    then show ?thesis using act_r by (auto simp: drop_Suc intro: exI [of _ 1])
  next
    case False
    then have "q = (\<not> r)" by auto
    then show ?thesis using act_n by (auto intro: exI [of _ 0])
  qed
  have subs: "set (ops_all q ctx') \<subseteq> set (ops_all q ctx)" for q
    using drops [of q] ops_all_drop by blast
  have new_n: "ops_new (\<not> r) ctx' = ops_new (\<not> r) ctx" by (simp add: ops_new_def act_n)
  show ?thesis
  proof (cases "need_flush ?c")
    case False
    have "ops_new r ctx' = ops_new r ctx"
      unfolding ops_new_def act_r by (subst act_ne) (simp add: False)
    then have "rview ctx' m q = rview ctx m q" for q
      using new_n by (cases "q = r") (auto intro!: rview_cong stack_arr_same [THEN fun_cong] simp: jit)
    moreover have "base_ok ctx' m" using bs mb False by (simp add: base_ok_def jit)
    ultimately show ?thesis
      using code False fr drops by (intro that [OF sp, of m] core_mono [OF core sh' rf'] act_r act_n)
        (simp_all add: quiet_def subs)
  next
    case True
    have v: "op_reg (oreg ?v)"
      by (rule op_reg_ops [OF rf, of _ r]) (subst act_ne [THEN arg_cong [of _ _ "map cval"], folded ops_all_def], simp)
    have "length (opbytes m ?v) \<le> 256" by (simp add: opbytes_def Let_def)
    with exec_do_push [OF bs v, of r "[]"] obtain m' where
      em: "emits step ctx m (buxn_jit_do_push ?v r ctx) m'" and bs': "base_ok (buxn_jit_do_push ?v r ctx) m'"
      and rs: "regs_same {R 0, R 1, R 2, stack_reg r} m m'" and ms: "mem_same {stack_field r} ctx m m'"
      by auto
    have op: "reg m' q = reg m q" if "op_reg q" for q by (rule op_reg_frame [OF rs that])
    have vm: "reg m' BUXN_JIT_S_VM = reg m BUXN_JIT_S_VM" using rs by (simp add: regs_same_def jit_reg_defs)
    have "rview ctx' m' r xs" if rv: "rview ctx m r xs" for xs
    proof -
      have new: "ops_new r ctx = ?v # ops_new r ctx'"
        unfolding ops_new_def act_r by (subst act_ne) (simp add: True)
      from rv obtain ls where xs: "length xs \<le> 256" "xs = cbytes m (rev (ops_new r ctx')) @ opbytes m ?v @ ls"
        and bl: "below (stack_arr ctx m r) (ucast (reg m (stack_reg r))) ls"
        by (auto simp: rview_def stack_is_def new)
      with exec_do_push [OF bs v bl] have "below (stack_arr ctx m' r) (ucast (reg m' (stack_reg r))) (opbytes m ?v @ ls)"
        using emits_functional [OF em] by fastforce
      moreover have "cbytes m' (rev (ops_new r ctx')) = cbytes m (rev (ops_new r ctx'))"
        using set_ops_new [of r ctx'] subs [of r] op_reg_ops [OF rf, of _ r] op by (intro cbytes_cong) auto
      ultimately show ?thesis
        using xs by (auto simp: rview_def stack_is_def stack_arr_jit [OF jit])
    qed
    moreover have "rview ctx' m' (\<not> r) = rview ctx m (\<not> r)"
      using stack_arr_frame [OF ms _ vm, of "\<not> r"] regs_sameD [OF rs, of "stack_reg (\<not> r)"] new_n
        set_ops_new [of "\<not> r" ctx] op_reg_ops [OF rf, of _ "\<not> r"] op
      by (intro rview_cong) (auto simp: stack_arr_jit [OF jit])
    ultimately have views: "rview ctx m q xs \<longrightarrow> rview ctx' m' q xs" for q xs
      by (cases "q = r") (auto simp: not_True_eq_False)
    have "quiet step ctx m ctx' m'"
      using emits_code [OF em] code True fr drops views
        regs_same_mono [OF rs, of "{R 0, R 1, R 2, S 1, S 2}"] mem_same_mono [OF ms, of "{F_ws, F_rs}"]
      by (auto simp: quiet_def stack_reg_def stack_field_def jit_reg_defs)
    moreover have "base_ok ctx' m'"
      using bs' mb True by (simp add: base_ok_def jit buxn_jit_do_push_def emit_all_eq
          ctx_frame_jit [OF ctx_frame_set_mem_base [THEN iffD2, OF ctx_frame_refl]])
    ultimately show ?thesis
      using that [OF sp _ core_mono [OF core sh' rf' _ subs op] act_r act_n] by blast
  qed
qed

lemma exec_clear:
  assumes "core ctx m held"
  obtains ctx' m' where "buxn_jit_stack_cache_clear r ctx = Some ctx'" and "quiet step ctx m ctx' m'"
    and "core ctx' m' held" and "act r ctx' = []" and "act (\<not> r) ctx' = act (\<not> r) ctx"
  using assms
proof (induction "clen (cache_of r ctx)" arbitrary: ctx m thesis)
  case 0
  then have "act r ctx = []" by (simp add: act_def)
  then show ?case
    using 0 by (intro 0(2) [of ctx m]) (simp_all add: buxn_jit_stack_cache_clear.simps [of r ctx] spill_empty)
next
  case (Suc n)
  then have "clen (cache_of r ctx) \<noteq> 0" by simp
  with exec_spill [OF Suc.prems(2)] obtain c m1 where sp: "buxn_jit_stack_cache_spill r ctx = Some (True, c)"
    and q: "quiet step ctx m c m1" and co: "core c m1 held" and other: "act (\<not> r) c = act (\<not> r) ctx"
    by metis
  have "n = clen (cache_of r c)"
    using spill_result(3) [OF sp] Suc.hyps(2) by simp
  from Suc.hyps(1) [OF this _ co] obtain ctx' m' where
    rec: "buxn_jit_stack_cache_clear r c = Some ctx'" "quiet step c m1 ctx' m'"
    "core ctx' m' held" "act r ctx' = []" "act (\<not> r) ctx' = act (\<not> r) c"
    by blast
  show ?case
    by (rule Suc.prems(1) [OF _ quiet_trans [OF q rec(2)] rec(3,4)])
      (simp_all add: buxn_jit_stack_cache_clear.simps [of r ctx] sp rec other)
qed

lemma exec_clear_stack_caches:
  assumes "core ctx m held"
  obtains ctx' m' where "buxn_jit_clear_stack_caches ctx = Some ctx'" and "quiet step ctx m ctx' m'"
    and "core ctx' m' held" and "\<forall>r. act r ctx' = []"
proof -
  obtain c m1 where 1: "buxn_jit_stack_cache_clear False ctx = Some c" "quiet step ctx m c m1"
    "core c m1 held" "act False c = []"
    by (rule exec_clear [OF assms, of False])
  obtain ctx' m' where 2: "buxn_jit_stack_cache_clear True c = Some ctx'" "quiet step c m1 ctx' m'"
    "core ctx' m' held" "act True ctx' = []" "act False ctx' = act False c"
    by (rule exec_clear [OF 1(3), of True]) simp
  have "act r ctx' = []" for r using 1 2 by (cases r) simp_all
  with 1 2 show ?thesis
    by (intro that [of ctx' m']) (auto simp: buxn_jit_clear_stack_caches_def intro: quiet_trans)
qed

lemma exec_spill_any:
  assumes "core ctx m held" and "cached_total ctx \<noteq> 0"
  obtains ctx' m' where "spill_any ctx = Some ctx'" and "quiet step ctx m ctx' m'" and "core ctx' m' held"
proof -
  let ?r = "buxn_jit_op_flag_r ctx"
  show ?thesis
  proof (cases "clen (cache_of ?r ctx) = 0")
    case True
    with assms(2) have "clen (cache_of (\<not> ?r) ctx) \<noteq> 0" by (simp add: cached_total_eq [of _ ?r])
    from exec_spill [OF assms(1) this] obtain ctx' m' where
      "buxn_jit_stack_cache_spill (\<not> ?r) ctx = Some (True, ctx')" "quiet step ctx m ctx' m'" "core ctx' m' held"
      by metis
    with True show ?thesis
      by (intro that [of ctx' m']) (simp_all add: spill_any_def Let_def spill_empty)
  next
    case False
    from exec_spill [OF assms(1) this] obtain ctx' m' where
      "buxn_jit_stack_cache_spill ?r ctx = Some (True, ctx')" "quiet step ctx m ctx' m'" "core ctx' m' held"
      by metis
    then show ?thesis
      by (intro that [of ctx' m']) (simp_all add: spill_any_def Let_def)
  qed
qed

text \<open>Allocation always succeeds while the handler holds fewer than six registers, and the register it
  returns is used by no cached operand and by no operand the handler holds.\<close>

lemma exec_alloc_loop:
  assumes "core ctx m held" and "length held < 6"
  obtains q ctx' m' where "alloc_reg_loop ctx = Some (Some q, ctx')" and "quiet step ctx m ctx' m'"
    and "core ctx' m' held" and "buxn_jit_find_free_reg ctx' = Some q"
    and "cached_total ctx + length held < 6 \<Longrightarrow> ctx' = ctx \<and> m' = m"
  using assms
proof (induction "cached_total ctx" arbitrary: ctx m thesis rule: less_induct)
  case less
  have ok: "shape_ok ctx" "refs_ok ctx held" using less.prems(2) by (simp_all add: core_def)
  show ?case
  proof (cases "buxn_jit_find_free_reg ctx")
    case (Some q)
    then show ?thesis
      using less.prems by (intro less.prems(1) [of q ctx m]) (simp_all add: alloc_reg_loop.simps [of ctx])
  next
    case None
    have full: "6 \<le> cached_total ctx + length held"
      using find_free_reg_None [OF ok None] length_cached [OF ok(1)] by simp
    then have ne: "cached_total ctx \<noteq> 0" using less.prems(3) by simp
    from exec_spill_any [OF less.prems(2) ne] obtain c m1 where sp: "spill_any ctx = Some c"
      and q: "quiet step ctx m c m1" and co: "core c m1 held" .
    have "cached_total c < cached_total ctx"
      using spill_any_total [OF sp] ne by simp
    from less.hyps [OF this _ co less.prems(3)] obtain r ctx' m' where
      rec: "alloc_reg_loop c = Some (Some r, ctx')" "quiet step c m1 ctx' m'"
      "core ctx' m' held" "buxn_jit_find_free_reg ctx' = Some r"
      by blast
    show ?thesis
      by (rule less.prems(1) [OF _ quiet_trans [OF q rec(2)] rec(3,4)])
        (use full None ne sp rec(1) in \<open>simp_all add: alloc_reg_loop.simps [of ctx]\<close>)
  qed
qed

lemma exec_alloc_reg:
  assumes "core ctx m held" and "length held < 6"
  obtains q ctx' m' where "buxn_jit_alloc_reg ctx = Some (q, ctx')" and "quiet step ctx m ctx' m'"
    and "core ctx' m' (q # held)" and "op_reg q" and "q \<notin> set (cached_regs ctx' @ held)"
    and "cached_total ctx + length held < 6 \<Longrightarrow>
      m' = m \<and> code ctx' = code ctx \<and> mem_base ctx' = mem_base ctx \<and> (\<forall>r. cache_of r ctx' = cache_of r ctx)"
proof -
  obtain q c m' where lp: "alloc_reg_loop ctx = Some (Some q, c)" and qu: "quiet step ctx m c m'"
    and co: "core c m' held" and ff: "buxn_jit_find_free_reg c = Some q"
    and room: "cached_total ctx + length held < 6 \<Longrightarrow> c = ctx \<and> m' = m"
    using exec_alloc_loop [OF assms] by metis
  have ok: "shape_ok c" "refs_ok c held" using co by (simp_all add: core_def)
  from find_free_reg_Some [OF ok ff] have op: "op_reg q" and fresh: "q \<notin> set (cached_regs c @ held)"
    by (auto simp: op_reg_iff)
  obtain ctx' where rt: "buxn_jit_retain_reg q c = Some ctx'" and ok': "shape_ok ctx'" "refs_ok ctx' (q # held)"
    and ca: "\<forall>r. cache_of r ctx' = cache_of r c" and cd: "code ctx' = code c" "mem_base ctx' = mem_base c"
    by (rule retain_ok [OF ok op])
  have fr: "ctx_frame c ctx'" by (rule ctx_frame_retain [OF rt])
  have act: "act r ctx' = act r c" for r by (rule act_cong) (simp add: ca)
  have "rview ctx' m' r = rview c m' r" for r
    using stack_arr_same [OF refl refl ctx_frame_jit [OF fr]] by (intro rview_cong) (simp_all add: ops_new_def act)
  then have "quiet step c m' ctx' m'"
    using cd fr act by (auto simp: quiet_def intro: exI [of _ 0])
  then have qu': "quiet step ctx m ctx' m'" by (rule quiet_trans [OF qu])
  have "base_ok ctx' m'"
    using co cd ctx_frame_jit [OF fr] by (simp add: core_def base_ok_def)
  then have co': "core ctx' m' (q # held)"
    by (intro core_mono [OF co ok']) (simp_all add: ops_all_def act)
  have "cached_regs ctx' = cached_regs c" by (simp add: cached_regs_def ops_all_def act)
  then show ?thesis
    using lp rt fresh room cd ca by (intro that [OF _ qu' co' op]) (auto simp: buxn_jit_alloc_reg_def)
qed

end

end
