(* ===== verification/Sim_Stack.thy ===== *)
theory Sim_Stack
  imports Sim_Cache
begin

text \<open>
  The relation between a compilation context and the machine that runs its code while a handler is at work:
  in \<open>vsim ctx m held live v\<close> the two stacks hold the bytes that the view \<open>v\<close> names (top first), the handler
  has taken references to the registers \<open>held\<close>, and the registers \<open>live\<close> among them are its own: no cached
  operand shares them. A view is \<open>Direct st\<close> in the ordinary mode. In keep mode pops leave the stack as it is:
  in \<open>Keep k st (Some d)\<close> the stacks hold \<open>st\<close> and \<open>d\<close> bytes of stack \<open>k\<close> were popped through the shadow
  pointer; \<open>Keep k st None\<close> says that pops are over and pushes have begun.
\<close>

section \<open>Views\<close>

datatype view = Direct "bool \<Rightarrow> u8 list" | Keep bool "bool \<Rightarrow> u8 list" "nat option"

text \<open>What the stacks hold, what pops deliver, and what pops and pushes do.\<close>

fun vreal :: "view \<Rightarrow> bool \<Rightarrow> u8 list" where
  "vreal (Direct st) = st"
| "vreal (Keep k st po) = st"

fun vtop :: "view \<Rightarrow> bool \<Rightarrow> u8 list" where
  "vtop (Direct st) r = st r"
| "vtop (Keep k st (Some d)) r = (if r = k then drop d (st r) else [])"
| "vtop (Keep k st None) r = []"

fun vpop :: "bool \<Rightarrow> nat \<Rightarrow> view \<Rightarrow> view" where
  "vpop r n (Direct st) = Direct (st(r := drop n (st r)))"
| "vpop r n (Keep k st po) = Keep k st (map_option ((+) n) po)"

fun vpush :: "bool \<Rightarrow> u8 list \<Rightarrow> view \<Rightarrow> view" where
  "vpush r bs (Direct st) = Direct (st(r := bs @ st r))"
| "vpush r bs (Keep k st po) = Keep k (st(r := bs @ st r)) None"

text \<open>After a spill the flushed cells are no longer all there: nothing can be popped any more.\<close>

fun vseal :: "view \<Rightarrow> view" where
  "vseal (Direct st) = Direct st"
| "vseal (Keep k st po) = Keep k st None"

lemma vtop_vpop [simp]: "vtop (vpop r n v) r = drop n (vtop v r)"
proof (cases v)
  case (Keep k st po)
  then show ?thesis by (cases po) (simp_all add: add.commute)
qed simp

lemma vpop_vpop [simp]: "vpop r n (vpop r l v) = vpop r (l + n) v"
proof (cases v)
  case (Keep k st po)
  then show ?thesis by (cases po) (simp_all add: ac_simps)
qed (simp add: add.commute)

lemma vpop_0 [simp]: "vpop r 0 v = v"
proof (cases v)
  case (Keep k st po)
  then show ?thesis by (cases po) simp_all
qed simp

lemma vseal_vseal [simp]: "vseal (vseal v) = vseal v"
  by (cases v) simp_all

lemma vpush_vseal [simp]: "vpush r bs (vseal v) = vpush r bs v" "vseal (vpush r bs v) = vpush r bs v"
  by (cases v; simp)+

lemma vreal_simps [simp]:
  "vreal (vseal v) = vreal v"
  "vreal (vpush r bs v) = (vreal v)(r := bs @ vreal v r)"
  by (cases v; simp)+

lemma vreal_vpop_le: "length (vreal (vpop r n v) q) \<le> length (vreal v q)"
  by (cases v) simp_all

text \<open>The room a pop leaves when the stack is not full.\<close>

lemma vtop_fit:
  assumes "vtop v r = bs @ xs" and "length (vreal v r) \<le> 256"
  shows "length (bs @ xs) \<le> 256"
proof (cases v)
  case (Direct st)
  then show ?thesis using assms by simp
next
  case (Keep k st po)
  have "length (vtop v r) \<le> length (vreal v r)" unfolding Keep by (cases po) simp_all
  then show ?thesis using assms by simp
qed

definition keep_view :: "view \<Rightarrow> bool" where
  "keep_view v = (case v of Direct st \<Rightarrow> False | Keep k st po \<Rightarrow> True)"

lemma keep_view_simps [simp]:
  "\<not> keep_view (Direct st)" "keep_view (Keep k st po)" "keep_view (vpop r n v) = keep_view v"
  "keep_view (vpush r bs v) = keep_view v" "keep_view (vseal v) = keep_view v"
  by (simp_all add: keep_view_def split: view.split)

text \<open>What a stack holds when the operands in front of \<open>xs\<close> were popped.\<close>

definition kept :: "view \<Rightarrow> bool \<Rightarrow> u8 list \<Rightarrow> u8 list" where
  "kept v r xs = (if keep_view v then vreal v r else xs)"

lemma kept_simps [simp]:
  "kept (Direct st) r xs = xs" "kept (Keep k st po) r xs = st r"
  by (simp_all add: kept_def)

lemma vreal_vpop:
  assumes "vtop v r = as @ xs"
  shows "vreal (vpop r (length as) v) = (vreal v)(r := kept v r xs)"
  using assms by (cases v) simp_all

section \<open>The simulation relation\<close>

definition pending :: "buxn_jit_ctx \<Rightarrow> bool" where
  "pending ctx \<longleftrightarrow> (\<forall>r. \<forall>c \<in> set (act r ctx). need_flush c)"

definition direct :: "buxn_jit_ctx \<Rightarrow> bool" where
  "direct ctx \<longleftrightarrow> \<not> eshadow ctx \<and> wsp_reg ctx = BUXN_JIT_S_WSP \<and> rsp_reg ctx = BUXN_JIT_S_RSP"

lemma direct_ptr: "direct ctx \<Longrightarrow> stack_ptr_reg r ctx = stack_reg r"
  by (simp add: direct_def stack_ptr_reg_def stack_reg_def)

definition flushed_first :: "bool \<Rightarrow> buxn_jit_ctx \<Rightarrow> bool" where
  "flushed_first r ctx \<longleftrightarrow>
     act r ctx = filter (\<lambda>c. \<not> need_flush c) (act r ctx) @ filter need_flush (act r ctx)"

definition vview :: "buxn_jit_ctx \<Rightarrow> mach \<Rightarrow> view \<Rightarrow> bool" where
  "vview ctx m v \<longleftrightarrow> (\<forall>r. rview ctx m r (vreal v r)) \<and>
     (case v of
        Direct st \<Rightarrow> pending ctx \<and> direct ctx
      | Keep k st po \<Rightarrow> eshadow ctx \<and> (\<forall>r. flushed_first r ctx) \<and>
          (\<forall>d. po = Some d \<longrightarrow> pview ctx m k (drop d (st k)) \<and> (\<forall>c \<in> set (act k ctx). \<not> need_flush c)))"

text \<open>The registers of the shadow pointers belong to the handler in keep mode.\<close>

definition shadow_regs :: "buxn_jit_ctx \<Rightarrow> view \<Rightarrow> sreg list" where
  "shadow_regs ctx v = (case v of Direct st \<Rightarrow> [] | Keep k st po \<Rightarrow> [wsp_reg ctx, rsp_reg ctx])"

definition vsim :: "buxn_jit_ctx \<Rightarrow> mach \<Rightarrow> sreg list \<Rightarrow> sreg list \<Rightarrow> view \<Rightarrow> bool" where
  "vsim ctx m held live v \<longleftrightarrow>
     core ctx m held \<and> set (live @ shadow_regs ctx v) \<subseteq> set held \<and>
     distinct (cached_regs ctx @ live @ shadow_regs ctx v) \<and> vview ctx m v"

abbreviation sim ::
  "buxn_jit_ctx \<Rightarrow> mach \<Rightarrow> sreg list \<Rightarrow> sreg list \<Rightarrow> (bool \<Rightarrow> u8 list) \<Rightarrow> bool" where
  "sim ctx m held live st \<equiv> vsim ctx m held live (Direct st)"

text \<open>What no micro operation of a handler changes.\<close>

definition same_env :: "buxn_jit_ctx \<Rightarrow> buxn_jit_ctx \<Rightarrow> bool" where
  "same_env ctx ctx' \<longleftrightarrow>
     jit ctx' = jit ctx \<and> compiler ctx' = compiler ctx \<and> compiler_id ctx' = compiler_id ctx \<and>
     jump_labels ctx' = jump_labels ctx \<and> call_fallback ctx' = call_fallback ctx \<and>
     entry_pc ctx' = entry_pc ctx \<and> pc ctx' = pc ctx \<and> current_opcode ctx' = current_opcode ctx \<and>
     eshadow ctx' = eshadow ctx \<and> wsp_reg ctx' = wsp_reg ctx \<and> rsp_reg ctx' = rsp_reg ctx"

definition steps_to ::
  "(lir \<Rightarrow> mach \<Rightarrow> mach) \<Rightarrow> sreg list \<Rightarrow> buxn_jit_ctx \<Rightarrow> mach \<Rightarrow> buxn_jit_ctx \<Rightarrow> mach \<Rightarrow> bool" where
  "steps_to step live ctx m ctx' m' \<longleftrightarrow>
     emits step ctx m ctx' m' \<and> same_env ctx ctx' \<and> mem_same {F_ws, F_rs} ctx m m' \<and>
     reg m' (S 0) = reg m (S 0) \<and> (\<forall>q \<in> set live. reg m' q = reg m q)"

lemma same_env_refl [simp]: "same_env ctx ctx"
  by (simp add: same_env_def)

lemma same_env_trans: "same_env a b \<Longrightarrow> same_env b c \<Longrightarrow> same_env a c"
  by (simp add: same_env_def)

lemma same_env_frame: "ctx_frame ctx ctx' \<Longrightarrow> same_env ctx ctx'"
  by (simp add: same_env_def ctx_frame_def)

lemma same_env_set_cache [simp]: "same_env ctx (set_cache r c ctx') = same_env ctx ctx'"
  by (simp add: same_env_def)

lemma same_env_emit_all [simp]: "same_env ctx (emit_all is ctx') = same_env ctx ctx'"
  by (simp add: same_env_def emit_all_eq)

lemma same_env_emit [simp]: "same_env ctx (emit i ctx') = same_env ctx ctx'"
  by (simp add: same_env_def emit_def)

lemma same_env_flags:
  assumes "same_env ctx ctx'"
  shows "buxn_jit_op_flag_2 ctx' = buxn_jit_op_flag_2 ctx"
    and "buxn_jit_op_flag_r ctx' = buxn_jit_op_flag_r ctx"
    and "buxn_jit_op_flag_k ctx' = buxn_jit_op_flag_k ctx"
  using assms
  by (simp_all add: same_env_def buxn_jit_op_flag_2_def buxn_jit_op_flag_r_def buxn_jit_op_flag_k_def)

lemma steps_to_refl [simp]: "code ctx' = code ctx \<Longrightarrow> same_env ctx ctx' \<Longrightarrow> steps_to step live ctx m ctx' m"
  by (simp add: steps_to_def)

lemma steps_to_trans:
  assumes a: "steps_to step live ctx m ctx' m'" and b: "steps_to step live' ctx' m' ctx'' m''"
    and "set live \<subseteq> set live'"
  shows "steps_to step live ctx m ctx'' m''"
proof -
  have "jit ctx' = jit ctx" using a by (simp add: steps_to_def same_env_def)
  then have "mem_same {F_ws, F_rs} ctx m m''"
    using a b mem_same_jit [of ctx' ctx] mem_same_trans [of "{F_ws, F_rs}" ctx m m' m'']
    by (simp add: steps_to_def jit_reg_defs)
  then show ?thesis
    using a b assms(3) emits_trans [of step ctx m ctx' m' ctx'' m''] same_env_trans [of ctx ctx' ctx'']
    by (auto simp: steps_to_def)
qed

lemma steps_to_mono: "steps_to step live' ctx m ctx' m' \<Longrightarrow> set live \<subseteq> set live' \<Longrightarrow> steps_to step live ctx m ctx' m'"
  by (auto simp: steps_to_def)

lemma steps_to_quiet:
  assumes "quiet step ctx m ctx' m'" and "\<forall>q \<in> set live. op_reg q"
  shows "steps_to step live ctx m ctx' m'"
  using quietD [OF assms(1)] assms(2) by (simp add: steps_to_def same_env_frame)

lemma steps_toD:
  assumes "steps_to step live ctx m ctx' m'"
  shows "emits step ctx m ctx' m'" and "same_env ctx ctx'" and "q \<in> set live \<Longrightarrow> reg m' q = reg m q"
  using assms by (auto simp: steps_to_def)

section \<open>What keeps the relation\<close>

lemma not_op_reg [simp]: "\<not> op_reg (R 0)" "\<not> op_reg (R (Suc 0))" "\<not> op_reg (R 2)" "\<not> op_reg (S n)"
  by (auto dest: op_reg_not)

lemma vsimD:
  assumes "vsim ctx m held live v"
  shows "core ctx m held" and "shape_ok ctx" and "refs_ok ctx held" and "base_ok ctx m"
    and "\<And>r. rview ctx m r (vreal v r)" and "vview ctx m v"
    and "q \<in> set live \<Longrightarrow> op_reg q" and "q \<in> set live \<Longrightarrow> q \<notin> set (cached_regs ctx)"
    and "distinct (cached_regs ctx @ live)" and "q \<in> set (cached_regs ctx) \<Longrightarrow> op_reg q"
    and "set live \<subseteq> set held" and "distinct live" and "length (vreal v r) \<le> 256"
    and "q \<in> set (shadow_regs ctx v) \<Longrightarrow> op_reg q"
  using assms by (auto simp: vsim_def core_def refs_ok_def vview_def rview_def stack_is_def)

lemma simD:
  assumes "sim ctx m held live st"
  shows "core ctx m held" and "shape_ok ctx" and "refs_ok ctx held" and "base_ok ctx m"
    and "\<And>r. rview ctx m r (st r)" and "pending ctx" and "direct ctx"
    and "q \<in> set live \<Longrightarrow> op_reg q" and "q \<in> set live \<Longrightarrow> q \<notin> set (cached_regs ctx)"
    and "distinct (cached_regs ctx @ live)" and "q \<in> set (cached_regs ctx) \<Longrightarrow> op_reg q"
    and "set live \<subseteq> set held"
  using vsimD [OF assms] by (simp_all add: vview_def)

lemma cached_regs_cong: "(\<And>r. act r ctx' = act r ctx) \<Longrightarrow> cached_regs ctx' = cached_regs ctx"
  by (simp add: cached_regs_def ops_all_def)

lemma shadow_regs_env: "same_env ctx ctx' \<Longrightarrow> shadow_regs ctx' v = shadow_regs ctx v"
  by (simp add: shadow_regs_def same_env_def split: view.split)

lemma shadow_regs_view [simp]:
  "shadow_regs ctx (vseal v) = shadow_regs ctx v" "shadow_regs ctx (vpop r n v) = shadow_regs ctx v"
  "shadow_regs ctx (vpush r bs v) = shadow_regs ctx v"
  by (simp_all add: shadow_regs_def split: view.split)

lemma vpop_seal [simp]: "vseal (vpop r n (Keep k st po)) = Keep k st None"
  by simp

lemma distinct_drops: "distinct (xs @ ys @ zs) \<Longrightarrow> distinct (drop k xs @ drop l ys @ zs)"
  by (auto simp: distinct_drop dest: in_set_dropD)

lemma distinct_cached_drop:
  assumes "distinct (cached_regs ctx @ live)" and "\<forall>q. \<exists>k. act q ctx' = drop k (act q ctx)"
  shows "distinct (cached_regs ctx' @ live)"
proof -
  obtain k l where "act False ctx' = drop k (act False ctx)" "act True ctx' = drop l (act True ctx)"
    using assms(2) by meson
  then have "cached_regs ctx' = drop k (map oreg (ops_all False ctx)) @ drop l (map oreg (ops_all True ctx))"
    by (simp add: cached_regs_def ops_all_def drop_map)
  with assms(1) show ?thesis
    using distinct_drops [of "map oreg (ops_all False ctx)" "map oreg (ops_all True ctx)" live k l]
    by (simp add: cached_regs_def)
qed

lemma flushed_first_iff:
  "flushed_first r ctx \<longleftrightarrow> (\<exists>xs ys. act r ctx = xs @ ys \<and> (\<forall>c \<in> set xs. \<not> need_flush c) \<and> (\<forall>c \<in> set ys. need_flush c))"
proof
  assume "\<exists>xs ys. act r ctx = xs @ ys \<and> (\<forall>c \<in> set xs. \<not> need_flush c) \<and> (\<forall>c \<in> set ys. need_flush c)"
  then obtain xs ys where "act r ctx = xs @ ys" "\<forall>c \<in> set xs. \<not> need_flush c" "\<forall>c \<in> set ys. need_flush c" by blast
  then show "flushed_first r ctx" by (simp add: flushed_first_def)
next
  assume "flushed_first r ctx"
  then show "\<exists>xs ys. act r ctx = xs @ ys \<and> (\<forall>c \<in> set xs. \<not> need_flush c) \<and> (\<forall>c \<in> set ys. need_flush c)"
    unfolding flushed_first_def
    by (intro exI [of _ "filter (\<lambda>c. \<not> need_flush c) (act r ctx)"] exI [of _ "filter need_flush (act r ctx)"]) simp
qed

lemma flushed_first_drop: "flushed_first r ctx \<Longrightarrow> act r ctx' = drop k (act r ctx) \<Longrightarrow> flushed_first r ctx'"
  unfolding flushed_first_iff by (metis drop_append in_set_dropD)

lemma flushed_first_act: "act r ctx' = act r ctx \<Longrightarrow> flushed_first r ctx' = flushed_first r ctx"
  by (simp add: flushed_first_def)

text \<open>Housekeeping keeps the views, but may take flushed cells away.\<close>

lemma vview_quiet:
  assumes v: "vview ctx m v" and q: "quiet step ctx m ctx' m'"
  shows "vview ctx' m' (vseal v)"
proof -
  have dr: "\<forall>q. \<exists>k. act q ctx' = drop k (act q ctx)" using q by (simp add: quiet_def)
  have rv: "\<forall>r. rview ctx' m' r (vreal v r)" using v quietD(7) [OF q] by (simp add: vview_def)
  have fr: "eshadow ctx' = eshadow ctx" "wsp_reg ctx' = wsp_reg ctx" "rsp_reg ctx' = rsp_reg ctx"
    using quietD(2) [OF q] by (simp_all add: ctx_frame_def)
  show ?thesis
  proof (cases v)
    case (Direct st)
    have "need_flush c" if "c \<in> set (act q ctx')" for c q
    proof -
      obtain n where "act q ctx' = drop n (act q ctx)" using dr by blast
      then show ?thesis using that v Direct in_set_dropD [of c n "act q ctx"] by (auto simp: vview_def pending_def)
    qed
    then have "pending ctx'" by (simp add: pending_def)
    then show ?thesis using Direct v rv fr by (simp add: vview_def direct_def)
  next
    case (Keep k st po)
    have "flushed_first r ctx'" for r
    proof -
      obtain n where "act r ctx' = drop n (act r ctx)" using dr by blast
      then show ?thesis using v Keep flushed_first_drop [of r ctx ctx' n] by (simp add: vview_def)
    qed
    then show ?thesis using Keep v rv fr by (simp add: vview_def)
  qed
qed

lemma vsim_quiet:
  assumes s: "vsim ctx m held live v" and q: "quiet step ctx m ctx' m'"
    and c: "core ctx' m' held'" and l: "set held \<subseteq> set held'"
  shows "vsim ctx' m' held' live (vseal v)"
proof -
  have dr: "\<forall>q. \<exists>k. act q ctx' = drop k (act q ctx)" using q by (simp add: quiet_def)
  have sr: "shadow_regs ctx' v = shadow_regs ctx v" by (rule shadow_regs_env [OF same_env_frame [OF quietD(2) [OF q]]])
  have "distinct (cached_regs ctx' @ live @ shadow_regs ctx v)"
    using s by (intro distinct_cached_drop [OF _ dr]) (simp add: vsim_def)
  then show ?thesis using s c l vview_quiet [OF vsimD(6) [OF s] q] by (auto simp: vsim_def sr)
qed

text \<open>The relation reads the context only through its caches, counts, memory base and runtime.\<close>

lemma pview_cong:
  assumes "stack_arr ctx' m' r = stack_arr ctx m r"
    and "(ucast (reg m' (stack_ptr_reg r ctx')) :: u8) = ucast (reg m (stack_ptr_reg r ctx))"
    and "ops_all r ctx' = ops_all r ctx" and "\<And>v. v \<in> set (ops_all r ctx) \<Longrightarrow> reg m' (oreg v) = reg m (oreg v)"
  shows "pview ctx' m' r = pview ctx m r"
  using assms(1-3) cbytes_cong [of "rev (ops_all r ctx)" m' m] assms(4) by (intro ext) (simp add: pview_def)

lemma stack_ptr_shadow: "stack_ptr_reg r ctx \<in> set (shadow_regs ctx (Keep k st po))"
  by (simp add: stack_ptr_reg_def shadow_regs_def)

lemma vview_cong:
  assumes act: "\<And>r. act r ctx' = act r ctx" and arr: "\<And>r. stack_arr ctx' m' r = stack_arr ctx m r"
    and env: "eshadow ctx' = eshadow ctx" "wsp_reg ctx' = wsp_reg ctx" "rsp_reg ctx' = rsp_reg ctx"
    and rs: "\<And>q. q \<in> set (cached_regs ctx @ shadow_regs ctx v) \<union> {S 1, S 2} \<Longrightarrow> reg m' q = reg m q"
  shows "vview ctx' m' v = vview ctx m v"
proof -
  have ops: "reg m' (oreg v) = reg m (oreg v)" if "v \<in> set (ops_all r ctx)" for v r
    using that rs set_cached [of ctx r] by auto
  have fx: "reg m' (stack_reg r) = reg m (stack_reg r)" for r
    using rs by (auto simp: stack_reg_def jit_reg_defs)
  have rv: "rview ctx' m' r = rview ctx m r" for r
    using arr set_ops_new [of r ctx] ops [of _ r] fx by (intro rview_cong) (auto simp: ops_new_def act)
  show ?thesis
  proof (cases v)
    case (Direct st)
    then show ?thesis using rv env by (simp add: vview_def pending_def direct_def act)
  next
    case (Keep k st po)
    have "pview ctx' m' r = pview ctx m r" for r
    proof (rule pview_cong [OF arr])
      have "stack_ptr_reg r ctx' = stack_ptr_reg r ctx" using env by (simp add: stack_ptr_reg_def)
      moreover have "reg m' (stack_ptr_reg r ctx) = reg m (stack_ptr_reg r ctx)"
        by (rule rs) (use stack_ptr_shadow [of r ctx k st po] Keep in simp)
      ultimately show "(ucast (reg m' (stack_ptr_reg r ctx')) :: u8) = ucast (reg m (stack_ptr_reg r ctx))" by simp
    qed (simp_all add: ops_all_def act ops [unfolded ops_all_def])
    then show ?thesis using Keep rv env by (simp add: vview_def act flushed_first_act [OF act])
  qed
qed

lemma vview_ctx_cong:
  assumes "\<And>r. cache_of r ctx' = cache_of r ctx" and "jit ctx' = jit ctx" and "eshadow ctx' = eshadow ctx"
    and "wsp_reg ctx' = wsp_reg ctx" and "rsp_reg ctx' = rsp_reg ctx"
  shows "vview ctx' m v = vview ctx m v"
proof (rule vview_cong)
  show "act r ctx' = act r ctx" for r by (rule act_cong) (rule assms(1))
  show "stack_arr ctx' m r = stack_arr ctx m r" for r using stack_arr_same [OF refl refl assms(2)] by simp
qed (simp_all add: assms)

lemma vsim_ctx_cong:
  assumes "\<And>r. cache_of r ctx' = cache_of r ctx" and "jit ctx' = jit ctx" and "mem_base ctx' = mem_base ctx"
    and "reg_ref_counts ctx' = reg_ref_counts ctx" and "eshadow ctx' = eshadow ctx"
    and "wsp_reg ctx' = wsp_reg ctx" and "rsp_reg ctx' = rsp_reg ctx"
  shows "vsim ctx' m held live v = vsim ctx m held live v"
proof -
  have act: "act r ctx' = act r ctx" for r by (rule act_cong) (rule assms(1))
  have "vview ctx' m v = vview ctx m v" by (rule vview_ctx_cong) (rule assms)+
  moreover have "shadow_regs ctx' v = shadow_regs ctx v" by (cases v) (simp_all add: shadow_regs_def assms)
  moreover have "core ctx' m held = core ctx m held"
    by (simp add: core_def shape_ok_def refs_ok_def base_ok_def assms cached_regs_cong [OF act] ops_all_def act)
  ultimately show ?thesis by (simp add: vsim_def cached_regs_cong [OF act])
qed

lemma vsim_emit_all [simp]: "vsim (emit_all is ctx) m held live v = vsim ctx m held live v"
  by (rule vsim_ctx_cong) (simp_all add: emit_all_eq cache_of_def)

lemma vsim_emit [simp]: "vsim (emit i ctx) m held live v = vsim ctx m held live v"
  using vsim_emit_all [of "[i]"] by simp

text \<open>Nor does it read any register but those of the cached operands, the stack pointers and the bases.\<close>

lemma vsim_frame:
  assumes s: "vsim ctx m held live v" and arr: "\<And>r. stack_arr ctx m' r = stack_arr ctx m r"
    and rs: "\<And>q. q \<in> set (cached_regs ctx @ shadow_regs ctx v) \<union> {R 0, S 0, S 1, S 2} \<Longrightarrow> reg m' q = reg m q"
  shows "vsim ctx m' held live v"
proof -
  have "reg m' (oreg v) = reg m (oreg v)" if "v \<in> set (ops_all r ctx)" for v r
    using that rs set_cached [of ctx r] by auto
  then have "fits m' v = fits m v" if "v \<in> set (ops_all r ctx)" for v r
    using that by (intro fits_cong)
  moreover have "vview ctx m' v = vview ctx m v" using rs by (intro vview_cong arr) auto
  ultimately show ?thesis
    using s rs by (simp add: vsim_def core_def base_ok_def jit_reg_defs)
qed

lemma vsim_regs:
  assumes s: "vsim ctx m held live v" and mm: "mem m' = mem m"
    and rs: "\<And>q. q \<in> set (cached_regs ctx @ shadow_regs ctx v) \<union> {R 0, S 0, S 1, S 2} \<Longrightarrow> reg m' q = reg m q"
  shows "vsim ctx m' held live v"
proof (rule vsim_frame [OF s _ rs])
  show "stack_arr ctx m' r = stack_arr ctx m r" for r
    using stack_arr_same [OF mm _ refl, of ctx] rs [of "S 0"] by (simp add: jit_reg_defs)
qed simp

text \<open>A register that may be written: one the handler owns, or a scratch register.\<close>

definition own_regs :: "sreg list \<Rightarrow> sreg set" where
  "own_regs live = set live \<union> {R 1, R 2}"

lemma own_regs_disjoint:
  assumes "vsim ctx m held live v" and "q \<in> own_regs live"
  shows "q \<notin> set (cached_regs ctx @ shadow_regs ctx v) \<union> {R 0, S 0, S 1, S 2}"
  using assms vsimD(10,14) [OF assms(1), of q] vsimD(7) [OF assms(1), of q]
  by (auto simp: own_regs_def vsim_def)

lemma vsim_own:
  assumes s: "vsim ctx m held live v" and mm: "mem m' = mem m" and rs: "regs_same (own_regs live) m m'"
  shows "vsim ctx m' held live v"
  using own_regs_disjoint [OF s] rs by (intro vsim_regs [OF s mm]) (auto simp: regs_same_def)

lemma vsim_set_reg:
  assumes "vsim ctx m held live v" and "q \<in> set live \<or> q = R 1 \<or> q = R 2"
  shows "vsim ctx (set_reg q w m) held live v"
  using assms(2) by (intro vsim_own [OF assms(1)]) (auto simp: regs_same_def own_regs_def)

lemma vsim_flag: "vsim ctx m held live v \<Longrightarrow> vsim ctx (m\<lparr>flag := f\<rparr>) held live v"
  by (rule vsim_regs) simp_all

lemma vsim_weaken: "vsim ctx m held live v \<Longrightarrow> set live' \<subseteq> set live \<Longrightarrow> distinct live' \<Longrightarrow> vsim ctx m held live' v"
  by (auto simp: vsim_def)

lemma vsim_seal: "vsim ctx m held live v \<Longrightarrow> vsim ctx m held live (vseal v)"
  by (cases v) (auto simp: vsim_def vview_def shadow_regs_def)

text \<open>Memory that is not one of the stacks may change freely.\<close>

lemma vsim_mem:
  assumes s: "vsim ctx m held live v" and rs: "reg m' = reg m"
    and mm: "mem_same F ctx m m'" and F: "F_ws \<notin> F" "F_rs \<notin> F"
  shows "vsim ctx m' held live v"
  using stack_arr_frame [OF mm] F rs by (intro vsim_frame [OF s]) (auto simp: stack_field_def)

lemmas sim_emit_all = vsim_emit_all and sim_emit = vsim_emit and sim_set_reg = vsim_set_reg and sim_weaken = vsim_weaken

lemma sim_regs:
  assumes "sim ctx m held live st" and "mem m' = mem m"
    and "\<And>q. q \<in> set (cached_regs ctx) \<union> {R 0, S 0, S 1, S 2} \<Longrightarrow> reg m' q = reg m q"
  shows "sim ctx m' held live st"
  using assms(3) by (intro vsim_regs [OF assms(1,2)]) (simp add: shadow_regs_def)

section \<open>Taking cells off a cache\<close>

lemma refs_ok_mset:
  assumes "refs_ok ctx held" and "mset (cached_regs ctx' @ held') = mset (cached_regs ctx @ held)"
    and "reg_ref_counts ctx' = reg_ref_counts ctx"
  shows "refs_ok ctx' held'"
proof -
  have "count_list (cached_regs ctx' @ held') q = count_list (cached_regs ctx @ held) q" for q
    using arg_cong [OF assms(2), of "\<lambda>M. count M q"] by (simp only: count_mset)
  then show ?thesis
    using assms(1,3) mset_eq_setD [OF assms(2)] by (simp add: refs_ok_def del: count_list_append)
qed

lemma shape_ok_cells:
  assumes "shape_ok ctx" and "length cs = length (cells (cache_of r ctx))" and "n \<le> clen (cache_of r ctx)"
  shows "shape_ok (set_cache r ((cache_of r ctx)\<lparr>cells := cs, clen := n\<rparr>) ctx)"
proof -
  have "length (cells (cache_of q (set_cache r ((cache_of r ctx)\<lparr>cells := cs, clen := n\<rparr>) ctx))) = BUXN_JIT_CACHE_SIZE \<and>
      clen (cache_of q (set_cache r ((cache_of r ctx)\<lparr>cells := cs, clen := n\<rparr>) ctx)) \<le> BUXN_JIT_CACHE_SIZE" for q
    using assms by (cases "q = r") (auto simp: shape_ok_def intro: le_trans)
  then show ?thesis using assms(1) by (simp add: shape_ok_def)
qed

lemma act_snoc:
  assumes "shape_ok ctx" and "act r ctx = cs @ [c]"
  shows "clen (cache_of r ctx) = Suc (length cs)" and "cells (cache_of r ctx) ! length cs = c"
    and "take (length cs) (cells (cache_of r ctx)) = cs"
    and "length cs < length (cells (cache_of r ctx))"
proof -
  show n: "clen (cache_of r ctx) = Suc (length cs)"
    using length_act [OF assms(1), of r] assms(2) by simp
  then have t: "take (Suc (length cs)) (cells (cache_of r ctx)) = cs @ [c]"
    using assms(2) by (simp add: act_def)
  show l: "length cs < length (cells (cache_of r ctx))"
    using assms(1) n by (auto simp: shape_ok_def dest!: spec [where x = r])
  show "cells (cache_of r ctx) ! length cs = c" "take (length cs) (cells (cache_of r ctx)) = cs"
    using t l by (simp_all add: take_Suc_conv_app_nth)
qed

lemma act_empty: "shape_ok ctx \<Longrightarrow> clen (cache_of r ctx) = 0 \<longleftrightarrow> act r ctx = []"
  by (metis length_act length_0_conv)

lemma mset_cached:
  "mset (cached_regs ctx) = mset (map oreg (ops_all r ctx)) + mset (map oreg (ops_all (\<not> r) ctx))"
  by (cases r) (simp_all add: cached_regs_def add.commute)

lemma pending_ops: "pending ctx \<Longrightarrow> ops_new r ctx = ops_all r ctx"
  by (simp add: pending_def ops_new_def ops_all_def)

lemma opbytes_if:
  "opbytes m v = (if is_short v then [ucast (reg m (oreg v)), ucast (drop_bit 8 (reg m (oreg v)))]
     else [ucast (reg m (oreg v))])"
  by (simp add: opbytes_def Let_def)

lemma stack_is_append:
  "stack_is arr p (bs @ cs) xs \<Longrightarrow> xs = bs @ drop (length bs) xs \<and> stack_is arr p cs (drop (length bs) xs)"
  by (auto simp: stack_is_def)

text \<open>When something can be popped in keep mode, the cells of the stack are all flushed.\<close>

lemma vview_popping:
  assumes "vview ctx m (Keep k st po)" and "vtop (Keep k st po) r \<noteq> []"
  obtains d where "po = Some d" and "r = k" and "pview ctx m k (drop d (st k))" and "\<forall>c \<in> set (act k ctx). \<not> need_flush c"
    and "ops_new k ctx = []"
  using assms by (cases po) (auto simp: vview_def ops_new_def filter_empty_conv split: if_splits)

text \<open>The view after a pop: the bytes \<open>bs\<close> at the front of what the pops deliver are gone.\<close>

lemma vview_pop:
  assumes v: "vview ctx m v" and ne: "vtop v r \<noteq> []"
    and jit: "jit ctx' = jit ctx" and env: "eshadow ctx' = eshadow ctx" "wsp_reg ctx' = wsp_reg ctx" "rsp_reg ctx' = rsp_reg ctx"
    and mm: "mem m' = mem m" and oth: "reg m' (S 0) = reg m (S 0)" "reg m' (stack_reg (\<not> r)) = reg m (stack_reg (\<not> r))"
      "act (\<not> r) ctx' = act (\<not> r) ctx" "\<And>u. u \<in> set (ops_all (\<not> r) ctx) \<Longrightarrow> reg m' (oreg u) = reg m (oreg u)"
    and fl: "(\<forall>c \<in> set (act r ctx). need_flush c) \<Longrightarrow> (\<forall>c \<in> set (act r ctx'). need_flush c)"
      "(\<forall>c \<in> set (act r ctx). \<not> need_flush c) \<Longrightarrow> (\<forall>c \<in> set (act r ctx'). \<not> need_flush c)"
    and ptr: "eshadow ctx \<Longrightarrow> reg m' (stack_reg r) = reg m (stack_reg r)"
    and pop: "\<And>xs. pview ctx m r xs \<Longrightarrow> pview ctx' m' r (drop l xs)"
  shows "vview ctx' m' (vpop r l v)"
proof -
  have arr: "stack_arr ctx' m' = stack_arr ctx m" by (rule stack_arr_same) (use mm jit oth in \<open>simp_all add: jit_reg_defs\<close>)
  have new: "ops_new (\<not> r) ctx' = ops_new (\<not> r) ctx" using oth(3) by (simp add: ops_new_def)
  have rn: "rview ctx' m' (\<not> r) = rview ctx m (\<not> r)"
    using arr oth(2,4) new set_ops_new [of "\<not> r" ctx] by (intro rview_cong) auto
  show ?thesis
  proof (cases v)
    case (Direct st)
    have pe: "pending ctx" "direct ctx" using v Direct by (simp_all add: vview_def)
    have "need_flush c" if "c \<in> set (act q ctx')" for c q
      using that pe(1) fl(1) oth(3) by (cases "q = r") (auto simp: pending_def not_True_eq_False)
    then have pe': "pending ctx'" "direct ctx'" using pe(2) env by (simp_all add: pending_def direct_def)
    have pv: "pview c n q = rview c n q" if "pending c" "direct c" for c n q
      using that by (simp add: fun_eq_iff pview_def rview_def direct_ptr pending_ops)
    have "rview ctx' m' r (drop l (st r))" using pop [of "st r"] v Direct pv [OF pe] pv [OF pe'] by (simp add: vview_def)
    then have "rview ctx' m' q ((st(r := drop l (st r))) q)" for q
      using v Direct rn by (cases "q = r") (auto simp: vview_def not_True_eq_False)
    then show ?thesis using Direct pe' by (simp add: vview_def)
  next
    case (Keep k st po)
    obtain d where d: "po = Some d" "r = k" "pview ctx m k (drop d (st k))" "\<forall>c \<in> set (act k ctx). \<not> need_flush c"
      "ops_new k ctx = []"
      by (rule vview_popping [OF v [unfolded Keep] ne [unfolded Keep]])
    have fl': "\<forall>c \<in> set (act k ctx'). \<not> need_flush c" using fl(2) d(2,4) by simp
    have es: "eshadow ctx" using v Keep by (simp add: vview_def)
    have n': "ops_new k ctx' = []" using fl' by (auto simp: ops_new_def filter_empty_conv)
    have rk: "rview ctx' m' k = rview ctx m k"
      using arr ptr [OF es] d(2,5) n' by (intro rview_cong) auto
    have "rview ctx' m' q (st q)" for q
      using v Keep rn rk d(2) by (cases "q = k") (auto simp: vview_def not_True_eq_False)
    moreover have "flushed_first q ctx'" for q
    proof (cases "q = k")
      case True
      then show ?thesis using fl' by (simp add: flushed_first_def filter_empty_conv)
    next
      case False
      then have "q = (\<not> r)" using d(2) by auto
      then show ?thesis using v Keep flushed_first_act [OF oth(3)] by (simp add: vview_def)
    qed
    moreover have "pview ctx' m' k (drop (l + d) (st k))" using pop [of "drop d (st k)"] d(2,3) by (simp add: add.commute)
    ultimately show ?thesis using Keep d(1) es env fl' by (simp add: vview_def)
  qed
qed

text \<open>What the pops deliver begins with the bytes of the top cell.\<close>

lemma vview_top:
  assumes v: "vview ctx m v" and ne: "vtop v r \<noteq> []"
  shows "pview ctx m r (vtop v r)"
proof (cases v)
  case (Direct st)
  then have p: "pending ctx" "direct ctx" and "rview ctx m r (st r)" using v by (simp_all add: vview_def)
  then show ?thesis using Direct by (simp add: pview_def rview_def direct_ptr [OF p(2)] pending_ops [OF p(1)])
next
  case (Keep k st po)
  show ?thesis by (rule vview_popping [OF v [unfolded Keep] ne [unfolded Keep]]) (simp add: Keep)
qed

text \<open>Taking the top cell off: its register passes from the cache to the handler, its bytes leave the
  stack.\<close>

definition drop_top :: "bool \<Rightarrow> buxn_jit_ctx \<Rightarrow> buxn_jit_ctx" where
  "drop_top r ctx =
     set_cache r ((cache_of r ctx)\<lparr>clen := clen (cache_of r ctx) - 1\<rparr>) ctx"

lemma drop_top_core:
  assumes co: "core ctx m held" and a: "act r ctx = cs @ [c]"
  shows "core (drop_top r ctx) m (oreg (cval c) # held)"
    and "mset (cached_regs (drop_top r ctx) @ oreg (cval c) # xs) = mset (cached_regs ctx @ xs)"
    and "op_reg (oreg (cval c))" and "fits m (cval c)"
    and "act r (drop_top r ctx) = cs" and "act (\<not> r) (drop_top r ctx) = act (\<not> r) ctx"
    and "same_env ctx (drop_top r ctx)" and "code (drop_top r ctx) = code ctx"
    and "cached_total (drop_top r ctx) + 1 = cached_total ctx"
    and "ops_all r ctx = ops_all r (drop_top r ctx) @ [cval c]"
proof -
  let ?v = "cval c" and ?c' = "drop_top r ctx"
  have sh: "shape_ok ctx" and rf: "refs_ok ctx held" and b: "base_ok ctx m" using co by (simp_all add: core_def)
  note sn = act_snoc [OF sh a]
  show ar: "act r ?c' = cs" using sn by (simp add: drop_top_def)
  show an: "act (\<not> r) ?c' = act (\<not> r) ctx" by (simp add: drop_top_def)
  show env: "same_env ctx ?c'" and code: "code ?c' = code ctx" by (simp_all add: drop_top_def)
  have "?v \<in> set (ops_all r ctx)" by (simp add: ops_all_def a)
  then show op: "op_reg (oreg ?v)" and ft: "fits m ?v"
    using core_op_regs [OF co] co by (auto simp: core_def)
  show opr: "ops_all r ctx = ops_all r ?c' @ [?v]" by (simp add: ops_all_def ar a)
  have opa: "ops_all (\<not> r) ?c' = ops_all (\<not> r) ctx" by (simp add: ops_all_def an)
  have ms: "mset (cached_regs ?c' @ [oreg ?v]) = mset (cached_regs ctx)"
    unfolding mset_append mset_cached [of _ r] by (simp add: opr opa)
  then show msh: "mset (cached_regs ?c' @ oreg ?v # xs) = mset (cached_regs ctx @ xs)" for xs
    by (simp add: mset_append)
  have sh': "shape_ok ?c'"
    using shape_ok_cells [OF sh refl, of "clen (cache_of r ctx) - 1" r] by (simp add: drop_top_def)
  have rf': "refs_ok ?c' (oreg ?v # held)"
    by (rule refs_ok_mset [OF rf msh]) (simp add: drop_top_def)
  have b': "base_ok ?c' m" using b by (simp add: base_ok_def drop_top_def)
  have sub: "set (ops_all q ?c') \<subseteq> set (ops_all q ctx)" for q
    using opr opa by (cases "q = r") (auto simp: not_True_eq_False)
  show "core ?c' m (oreg ?v # held)" by (rule core_mono [OF co sh' rf' b' sub]) simp
  show "cached_total ?c' + 1 = cached_total ctx"
    using length_cached [OF sh] length_cached [OF sh'] mset_eq_length [OF ms] by simp
qed

lemma drop_top_vsim:
  assumes s: "vsim ctx m held live v" and ne: "vtop v r \<noteq> []" and a: "act r ctx = cs @ [c]"
  shows "vsim (drop_top r ctx) m (oreg (cval c) # held) (oreg (cval c) # live) (vpop r (length (opbytes m (cval c))) v)"
    and "vtop v r = opbytes m (cval c) @ drop (length (opbytes m (cval c))) (vtop v r)"
proof -
  let ?v = "cval c" and ?c' = "drop_top r ctx"
  note d = drop_top_core [OF vsimD(1) [OF s] a]
  have arr: "stack_arr ?c' m = stack_arr ctx m" by (rule stack_arr_same) (simp_all add: drop_top_def)
  have pt: "stack_ptr_reg r ?c' = stack_ptr_reg r ctx" by (simp add: stack_ptr_reg_def drop_top_def)
  have pop: "xs = opbytes m ?v @ drop (length (opbytes m ?v)) xs" "pview ?c' m r (drop (length (opbytes m ?v)) xs)"
    if "pview ctx m r xs" for xs
    using that stack_is_append [of _ _ "opbytes m ?v" "cbytes m (rev (ops_all r ?c'))" xs]
    by (simp_all add: pview_def d(10) arr pt)
  show "vtop v r = opbytes m ?v @ drop (length (opbytes m ?v)) (vtop v r)"
    by (rule pop(1) [OF vview_top [OF vsimD(6) [OF s] ne]])
  have "vview ?c' m (vpop r (length (opbytes m ?v)) v)"
    by (rule vview_pop [OF vsimD(6) [OF s] ne _ _ _ _ _ _ _ d(6) _ _ _ _ pop(2)])
      (simp_all add: d(5) a, simp_all add: drop_top_def)
  moreover have "distinct (cached_regs ?c' @ oreg ?v # live @ shadow_regs ctx v)"
    using mset_eq_imp_distinct_iff [OF d(2) [of "live @ shadow_regs ctx v"]] s by (simp add: vsim_def)
  ultimately show "vsim ?c' m (oreg ?v # held) (oreg ?v # live) (vpop r (length (opbytes m ?v)) v)"
    using d(1) s shadow_regs_env [OF d(7)] by (auto simp: vsim_def)
qed

lemma distinct_middle:
  "distinct (xs @ y # ys @ zs) \<Longrightarrow> x \<in> set xs \<union> set ys \<Longrightarrow> x \<noteq> y \<and> x \<notin> set zs"
  by auto

text \<open>Taking the low byte off the short on top: the high byte stays in the cell's register.\<close>

definition half_top :: "bool \<Rightarrow> nat \<Rightarrow> buxn_jit_stack_cache_cell \<Rightarrow> buxn_jit_ctx \<Rightarrow> buxn_jit_ctx" where
  "half_top r n c ctx = set_cache r ((cache_of r ctx)\<lparr>cells := (cells (cache_of r ctx))
      [n := c\<lparr>cval := (cval c)\<lparr>is_short := False\<rparr>\<rparr>]\<rparr>) ctx"

lemma half_top_act:
  assumes "shape_ok ctx" and "act r ctx = cs @ [c]"
  shows "act r (half_top r (length cs) c ctx) = cs @ [c\<lparr>cval := (cval c)\<lparr>is_short := False\<rparr>\<rparr>]"
    and "act (\<not> r) (half_top r (length cs) c ctx) = act (\<not> r) ctx"
    and "cached_regs (half_top r (length cs) c ctx) = cached_regs ctx"
    and "shape_ok (half_top r (length cs) c ctx)"
proof -
  let ?c' = "half_top r (length cs) c ctx"
  show ar: "act r ?c' = cs @ [c\<lparr>cval := (cval c)\<lparr>is_short := False\<rparr>\<rparr>]"
    using act_snoc [OF assms] by (simp add: half_top_def take_Suc_conv_app_nth)
  show an: "act (\<not> r) ?c' = act (\<not> r) ctx" by (simp add: half_top_def)
  show "cached_regs ?c' = cached_regs ctx"
    by (cases r) (use ar an assms(2) in \<open>simp_all add: cached_regs_def ops_all_def\<close>)
  show "shape_ok ?c'"
    using shape_ok_cells [OF assms(1), of "(cells (cache_of r ctx))[length cs := c\<lparr>cval := (cval c)\<lparr>is_short := False\<rparr>\<rparr>]" r
        "clen (cache_of r ctx)"]
    by (simp add: half_top_def)
qed

lemma half_top_core:
  assumes co: "core ctx m held" and ds: "distinct (cached_regs ctx @ zs)" and a: "act r ctx = cs @ [c]" and sh2: "is_short (cval c)"
  defines "ctx' \<equiv> half_top r (length cs) c ctx"
  defines "m' \<equiv> set_reg (oreg (cval c)) (drop_bit 8 (reg m (oreg (cval c)))) m"
  shows "core ctx' m' held" and "op_reg (oreg (cval c))" and "q \<in> set zs \<Longrightarrow> oreg (cval c) \<noteq> q"
    and "u \<in> set (map cval cs) \<union> set (ops_all (\<not> r) ctx) \<Longrightarrow> reg m' (oreg u) = reg m (oreg u)"
proof -
  let ?v = "cval c" and ?v' = "(cval c)\<lparr>is_short := False\<rparr>"
  have sh: "shape_ok ctx" and rf: "refs_ok ctx held" and b: "base_ok ctx m" using co by (simp_all add: core_def)
  note h = half_top_act [OF sh a, folded ctx'_def]
  have opa: "ops_all r ctx = map cval cs @ [?v]" "ops_all r ctx' = map cval cs @ [?v']"
    "ops_all (\<not> r) ctx' = ops_all (\<not> r) ctx"
    by (simp_all add: ops_all_def h a)
  have vin: "?v \<in> set (ops_all r ctx)" by (simp add: opa(1))
  then show op: "op_reg (oreg ?v)" by (rule core_op_regs [OF co])
  have "mset (map oreg (map cval cs) @ oreg ?v # map oreg (ops_all (\<not> r) ctx) @ zs) = mset (cached_regs ctx @ zs)"
    unfolding mset_append mset_cached [of _ r] by (simp add: opa(1))
  from mset_eq_imp_distinct_iff [OF this] ds
  have dis: "distinct (map oreg (map cval cs) @ oreg ?v # map oreg (ops_all (\<not> r) ctx) @ zs)" by simp
  then show "q \<in> set zs \<Longrightarrow> oreg ?v \<noteq> q" by auto
  show same: "reg m' (oreg u) = reg m (oreg u)" if "u \<in> set (map cval cs) \<union> set (ops_all (\<not> r) ctx)" for u
  proof -
    have "oreg u \<in> set (map oreg (map cval cs)) \<union> set (map oreg (ops_all (\<not> r) ctx))" using that by auto
    from distinct_middle [OF dis this] show ?thesis by (auto simp: m'_def)
  qed
  have "fits m ?v" using co vin unfolding core_def by blast
  then have ft: "unat (reg m (oreg ?v)) < 65536" using sh2 by (simp add: fits_def)
  have fits': "fits m' u" if "u \<in> set (ops_all x ctx')" for u x
  proof (cases "u \<in> set (map cval cs) \<union> set (ops_all (\<not> r) ctx)")
    case True
    then have "u \<in> set (ops_all r ctx) \<union> set (ops_all (\<not> r) ctx)" using opa(1) by auto
    with co have "fits m u" by (auto simp: core_def)
    then show ?thesis using fits_cong [OF same [OF True]] by simp
  next
    case False
    then have "u = ?v'" using that opa by (cases "x = r") (auto simp: not_True_eq_False)
    moreover have "unat (drop_bit 8 (reg m (oreg ?v))) < 256"
      using ft less_mult_imp_div_less [of "unat (reg m (oreg ?v))" 256 256] by (simp add: drop_bit_eq_div unat_div)
    ultimately show ?thesis by (simp add: fits_def m'_def)
  qed
  have "reg_ref_counts ctx' = reg_ref_counts ctx" by (simp add: ctx'_def half_top_def)
  then have "refs_ok ctx' held" by (intro refs_ok_mset [OF rf]) (simp_all add: h)
  moreover have "base_ok ctx' m'" using b op by (simp add: base_ok_def ctx'_def half_top_def m'_def jit_reg_defs)
  ultimately show "core ctx' m' held" using h(4) fits' by (simp add: core_def)
qed

lemma half_top_vsim:
  assumes s: "vsim ctx m held live v" and ne: "vtop v r \<noteq> []" and a: "act r ctx = cs @ [c]" and sh2: "is_short (cval c)"
  defines "w \<equiv> reg m (oreg (cval c))"
  defines "ctx' \<equiv> half_top r (length cs) c ctx"
  defines "m' \<equiv> set_reg (oreg (cval c)) (drop_bit 8 w) m"
  shows "vsim ctx' m' held live (vpop r 1 v)" and "vtop v r = ucast w # tl (vtop v r)"
    and "q \<in> set live \<Longrightarrow> oreg (cval c) \<noteq> q" and "op_reg (oreg (cval c))"
    and "cached_total ctx' = cached_total ctx"
proof -
  let ?v = "cval c" and ?v' = "(cval c)\<lparr>is_short := False\<rparr>"
  have sh: "shape_ok ctx" by (rule vsimD(2) [OF s])
  note ac = half_top_act [OF sh a, folded ctx'_def]
  have ds: "distinct (cached_regs ctx @ live @ shadow_regs ctx v)" using s by (simp add: vsim_def)
  note h = half_top_core [OF vsimD(1) [OF s] ds a sh2, folded w_def ctx'_def, folded m'_def]
  show op: "op_reg (oreg ?v)" by (rule h(2))
  show "q \<in> set live \<Longrightarrow> oreg ?v \<noteq> q" using h(3) by simp
  have env: "same_env ctx ctx'" by (simp add: ctx'_def half_top_def)
  have fx: "reg m' (S n) = reg m (S n)" "reg m' (stack_reg x) = reg m (stack_reg x)" "mem m' = mem m" for n x
    using op by (simp_all add: m'_def)
  have ptr: "(ucast (reg m' (stack_ptr_reg r ctx')) :: u8) = ucast (reg m (stack_ptr_reg r ctx))"
  proof -
    have pt: "stack_ptr_reg r ctx' = stack_ptr_reg r ctx" by (simp add: stack_ptr_reg_def ctx'_def half_top_def)
    have "stack_ptr_reg r ctx = stack_reg r \<or> stack_ptr_reg r ctx \<in> set (shadow_regs ctx v)"
      using vsimD(6) [OF s] by (cases v) (auto simp: vview_def direct_ptr stack_ptr_shadow)
    then have "stack_ptr_reg r ctx \<noteq> oreg ?v" using h(3) [of "stack_ptr_reg r ctx"] op by auto
    then show ?thesis by (simp add: pt m'_def)
  qed
  have arr: "stack_arr ctx' m' = stack_arr ctx m"
    by (rule stack_arr_same) (use fx in \<open>simp_all add: ctx'_def half_top_def jit_reg_defs\<close>)
  have cb: "cbytes m' (rev (map cval cs)) = cbytes m (rev (map cval cs))" by (rule cbytes_cong, rule h(4), simp)
  have bytes: "cbytes m (rev (ops_all r ctx)) = [ucast w] @ cbytes m' (rev (ops_all r ctx'))"
  proof -
    have "opbytes m' ?v' = [ucast (drop_bit 8 w)]" by (simp add: opbytes_if m'_def)
    moreover have "opbytes m ?v = [ucast w, ucast (drop_bit 8 w)]" using sh2 by (simp add: opbytes_if w_def)
    ultimately show ?thesis by (simp add: ops_all_def a ac(1) cb)
  qed
  have pop: "xs = [ucast w] @ drop 1 xs" "pview ctx' m' r (drop 1 xs)" if "pview ctx m r xs" for xs
    using that stack_is_append [of _ _ "[ucast w]" "cbytes m' (rev (ops_all r ctx'))" xs]
    unfolding pview_def arr ptr bytes by simp_all
  show "vtop v r = ucast w # tl (vtop v r)"
    using pop(1) [OF vview_top [OF vsimD(6) [OF s] ne]] by (simp add: drop_Suc)
  have "vview ctx' m' (vpop r 1 v)"
    by (rule vview_pop [OF vsimD(6) [OF s] ne _ _ _ _ fx(3) fx(1) fx(2) ac(2) h(4) _ _ fx(2) pop(2)])
      (use ac(1) a in \<open>simp_all add: ctx'_def half_top_def\<close>)
  then show "vsim ctx' m' held live (vpop r 1 v)"
    using h(1) s ac(3) shadow_regs_env [OF env] by (simp add: vsim_def)
  show "cached_total ctx' = cached_total ctx"
    using length_cached [OF sh] length_cached [OF ac(4)] ac(3) by simp
qed

end
