(* ===== verification/Sim_Pop.thy ===== *)
theory Sim_Pop
  imports Sim_Stack
begin

text \<open>
  Pops, pushes and discards run: wherever the top bytes of a stack are (in a register of their own, in
  half a register, in two registers, in memory), a pop delivers them as one value, and a push puts a
  value's bytes on top. A pop may need a register; the lemmas ask for one to be free, so that no spill
  happens in the middle of a pop.
\<close>

section \<open>Values of one or two bytes\<close>

fun bytes_val :: "u8 list \<Rightarrow> uw" where
  "bytes_val [l] = ucast l"
| "bytes_val [l, h] = ucast (short_of h l)"
| "bytes_val _ = 0"

abbreviation opsize :: "bool \<Rightarrow> nat" where
  "opsize flag_2 \<equiv> (if flag_2 then 2 else 1)"

lemma opsize_cases:
  assumes "length bs = opsize f"
  obtains x where "\<not> f" and "bs = [x]" | l h where "f" and "bs = [l, h]"
  using assms by (auto simp: length_Suc_conv numeral_2_eq_2 split: if_splits)

lemma word_bound_bits:
  fixes w :: uw
  assumes "unat w < 2 ^ n" and "bit w k"
  shows "k < n"
proof -
  have "bit (unat w) k" using assms(2) by (simp add: bit_unsigned_iff)
  moreover have "take_bit n (unat w) = unat w" using assms(1) by (rule take_bit_nat_eq_self)
  ultimately show ?thesis by (metis bit_take_bit_iff)
qed

lemma byte_word: "unat (w :: uw) < 256 \<Longrightarrow> ucast (ucast w :: u8) = w"
  using word_bound_bits [of w 8] by (intro bit_word_eqI) (auto simp: bit_simps)

lemma short_word:
  assumes "unat (w :: uw) < 65536"
  shows "ucast (short_of (ucast (drop_bit 8 w)) (ucast w)) = w"
proof (rule bit_word_eqI)
  fix n assume "n < LENGTH(64)"
  moreover have "bit w n \<longrightarrow> n < 16" using assms word_bound_bits [of w 16 n] by simp
  ultimately show "bit (ucast (short_of (ucast (drop_bit 8 w)) (ucast w)) :: uw) n = bit w n"
    by (auto simp: short_of_def bit_simps)
qed

lemma short_of_word: "ucast (short_of h l) = (push_bit 8 (ucast h) OR ucast l :: uw)"
  by (rule bit_word_eqI) (auto simp: short_of_def bit_simps dest: bit_imp_le_length)

lemma fits_val: "fits m v \<Longrightarrow> bytes_val (opbytes m v) = reg m (oreg v)"
  by (auto simp: fits_def opbytes_if byte_word short_word split: if_splits)

lemma length_opbytes: "length (opbytes m v) = opsize (is_short v)"
  by (simp add: opbytes_if)

lemma bytes_val_bound: "length bs = opsize f \<Longrightarrow> unat (bytes_val bs) < (if f then 65536 else 256)"
  by (erule opsize_cases) simp_all

text \<open>An operand whose register holds the value of some bytes has those bytes.\<close>

lemma opbytes_val:
  assumes "reg m (oreg v) = bytes_val bs" and "length bs = opsize (is_short v)"
  shows "opbytes m v = bs" and "fits m v"
proof -
  have "(ucast (drop_bit 8 (ucast (short_of h l) :: uw)) :: u8) = h" for h l
    by (rule bit_word_eqI) (auto simp: short_of_def bit_simps dest: bit_imp_le_length)
  moreover have "(ucast (ucast (short_of h l) :: uw) :: u8) = l" for h l
    by (rule bit_word_eqI) (auto simp: short_of_def bit_simps dest: bit_imp_le_length)
  ultimately show "opbytes m v = bs"
    using assms by (cases rule: opsize_cases [OF assms(2)]) (auto simp: opbytes_if)
  show "fits m v" using assms bytes_val_bound [OF assms(2)] by (simp add: fits_def)
qed

section \<open>Moving the stack pointer\<close>

lemma not_op_stack_reg [simp]: "\<not> op_reg (stack_reg r)"
  by (simp add: stack_reg_def jit_reg_defs)

lemma below_drop: "below arr p xs \<Longrightarrow> n \<le> length xs \<Longrightarrow> below arr (p - of_nat n) (drop n xs)"
proof (induction n arbitrary: p xs)
  case (Suc n)
  then obtain y ys where xs: "xs = y # ys" by (cases xs) auto
  then have "below arr (p - 1 - of_nat n) (drop n ys)" using Suc by auto
  then show ?case using xs by (simp add: algebra_simps)
qed simp

text \<open>The register that pops move: the stack pointer itself, or its shadow.\<close>

lemma pop_ptr:
  assumes "vsim ctx m held live v"
  shows "stack_ptr_reg r ctx = stack_reg r \<and> \<not> eshadow ctx \<or>
    eshadow ctx \<and> op_reg (stack_ptr_reg r ctx) \<and> stack_ptr_reg r ctx \<in> set (shadow_regs ctx v)"
  using vsimD(6) [OF assms] vsimD(14) [OF assms, of "stack_ptr_reg r ctx"]
  by (cases v) (auto simp: vview_def direct_ptr direct_def stack_ptr_shadow)

lemma pop_ptr_not:
  assumes "vsim ctx m held live v"
  shows "stack_ptr_reg r ctx \<notin> set (cached_regs ctx @ live) \<union> {R 0, R 1, R 2, S 0, stack_reg (\<not> r)}"
  using pop_ptr [OF assms, of r] vsimD(7,10) [OF assms, of "stack_ptr_reg r ctx"] assms
  by (auto simp: vsim_def not_True_eq_False)

lemma vsim_ptr:
  assumes s: "vsim ctx m held live v" and a: "act r ctx = []" and ne: "vtop v r \<noteq> []" and mm: "mem m' = mem m"
    and rs: "\<And>q. q \<in> set (cached_regs ctx) \<union> {R 0, S 0, S 1, S 2} \<Longrightarrow> q \<noteq> stack_ptr_reg r ctx \<Longrightarrow> reg m' q = reg m q"
    and p: "ucast (reg m' (stack_ptr_reg r ctx)) = (ucast (reg m (stack_ptr_reg r ctx)) - of_nat n :: u8)"
  shows "vsim ctx m' held live (vpop r n v)"
proof -
  note np = pop_ptr_not [OF s, of r]
  have ops: "reg m' (oreg v) = reg m (oreg v)" if "v \<in> set (ops_all x ctx)" for v x
  proof (rule rs)
    show c: "oreg v \<in> set (cached_regs ctx) \<union> {R 0, S 0, S 1, S 2}" using that set_cached [of ctx x] by blast
    have "oreg v \<in> set (cached_regs ctx)" using that set_cached [of ctx x] by blast
    then show "oreg v \<noteq> stack_ptr_reg r ctx" using np by auto
  qed
  have sr: "stack_reg (\<not> r) = S 1 \<or> stack_reg (\<not> r) = S 2" by (simp add: stack_reg_def jit_reg_defs)
  have fx: "reg m' q = reg m q" if "q \<in> {R 0, S 0, stack_reg (\<not> r)}" for q
  proof (rule rs)
    show "q \<in> set (cached_regs ctx) \<union> {R 0, S 0, S 1, S 2}" using that sr by auto
    show "q \<noteq> stack_ptr_reg r ctx" using that np by auto
  qed
  have arr: "stack_arr ctx m' = stack_arr ctx m"
    by (rule stack_arr_same) (use fx mm in \<open>simp_all add: jit_reg_defs\<close>)
  have pop: "pview ctx m' r (drop n xs)" if "pview ctx m r xs" for xs
  proof (cases "n \<le> length xs")
    case True
    then show ?thesis using that below_drop [of "stack_arr ctx m r" _ xs n]
      by (auto simp: pview_def stack_is_def ops_all_def a arr p)
  qed (simp add: pview_def stack_is_def ops_all_def a)
  have ptr: "reg m' (stack_reg r) = reg m (stack_reg r)" if "eshadow ctx"
  proof (rule rs)
    show "stack_reg r \<noteq> stack_ptr_reg r ctx" using pop_ptr [OF s, of r] that by auto
  qed (auto simp: stack_reg_def jit_reg_defs)
  have "vview ctx m' (vpop r n v)"
    by (rule vview_pop [OF vsimD(6) [OF s] ne refl refl refl refl mm fx fx refl ops _ _ ptr pop]) simp_all
  moreover have "fits m' v = fits m v" if "v \<in> set (ops_all x ctx)" for v x
    by (rule fits_cong) (rule ops [OF that])
  ultimately show ?thesis
    using s fx by (simp add: vsim_def core_def base_ok_def jit_reg_defs)
qed

lemma vsim_below:
  assumes "vsim ctx m held live v" and "act r ctx = []" and "vtop v r \<noteq> []"
  shows "below (stack_arr ctx m r) (ucast (reg m (stack_ptr_reg r ctx))) (vtop v r)"
  using vview_top [OF vsimD(6) [OF assms(1)] assms(3)] by (simp add: pview_def stack_is_def ops_all_def assms(2))

section \<open>Allocation\<close>

context sljit_exec
begin

lemma exec_alloc_vsim:
  assumes s: "vsim ctx m held live v" and n: "length held < 6"
  obtains q ctx' m' where "buxn_jit_alloc_reg ctx = Some (q, ctx')"
    and "vsim ctx' m' (q # held) (q # live) (vseal v)" and "steps_to step live ctx m ctx' m'"
    and "q \<notin> set live" and "cached_total ctx' \<le> cached_total ctx"
    and "cached_total ctx + length held < 6 \<Longrightarrow> vsim ctx' m' (q # held) (q # live) v \<and>
      m' = m \<and> code ctx' = code ctx \<and> mem_base ctx' = mem_base ctx \<and> (\<forall>r. cache_of r ctx' = cache_of r ctx)"
proof -
  obtain q ctx' m' where al: "buxn_jit_alloc_reg ctx = Some (q, ctx')" and qu: "quiet step ctx m ctx' m'"
    and co: "core ctx' m' (q # held)" and nq: "q \<notin> set (cached_regs ctx' @ held)"
    and room: "cached_total ctx + length held < 6 \<Longrightarrow>
      m' = m \<and> code ctx' = code ctx \<and> mem_base ctx' = mem_base ctx \<and> (\<forall>r. cache_of r ctx' = cache_of r ctx)"
    using exec_alloc_reg [OF vsimD(1) [OF s] n] by metis
  have "vsim ctx' m' (q # held) live (vseal v)" by (rule vsim_quiet [OF s qu co]) auto
  moreover have sr: "shadow_regs ctx' v = shadow_regs ctx v" "set (live @ shadow_regs ctx v) \<subseteq> set held"
    using shadow_regs_env [OF same_env_frame [OF quietD(2) [OF qu]]] s by (auto simp: vsim_def)
  ultimately have sl: "vsim ctx' m' (q # held) (q # live) (vseal v)"
    using nq by (auto simp: vsim_def)
  have "vsim ctx' m' (q # held) (q # live) v" if "cached_total ctx + length held < 6"
  proof -
    have "vview ctx' m v = vview ctx m v"
      using room [OF that] quietD(2,3) [OF qu] by (intro vview_ctx_cong) (simp_all add: ctx_frame_def)
    then show ?thesis using sl room [OF that] vsimD(6) [OF s] by (simp add: vsim_def)
  qed
  moreover have "steps_to step live ctx m ctx' m'"
    using vsimD(7) [OF s] by (intro steps_to_quiet [OF qu]) blast
  moreover have "cached_total ctx' \<le> cached_total ctx"
  proof -
    have "clen (cache_of r ctx') \<le> clen (cache_of r ctx)" for r
    proof -
      obtain k where "act r ctx' = drop k (act r ctx)" using qu unfolding quiet_def by meson
      then have "length (act r ctx') \<le> length (act r ctx)" by simp
      then show ?thesis using vsimD(2) [OF s] co by (simp add: core_def)
    qed
    then show ?thesis by (simp add: cached_total_eq [of _ False] add_mono)
  qed
  ultimately show ?thesis using that [OF al sl] nq sr room by auto
qed

lemma exec_set_mem_base_vsim:
  assumes s: "vsim ctx m held live v"
  obtains m' where "vsim (buxn_jit_set_mem_base f ctx) m' held live v"
    and "steps_to step live ctx m (buxn_jit_set_mem_base f ctx) m'"
    and "reg m' (R 0) = reg m (S 0) + vm_offset (jit ctx) f"
    and "regs_same {R 0} m m'" and "mem m' = mem m"
proof -
  let ?c = "buxn_jit_set_mem_base f ctx"
  obtain m' where em: "emits step ctx m ?c m'" and b: "base_ok ?c m'"
    and r0: "reg m' BUXN_JIT_R_MEM_BASE = reg m BUXN_JIT_S_VM + vm_offset (jit ctx) f"
    and rs: "regs_same {R 0} m m'" and mm: "mem m' = mem m"
    by (rule exec_set_mem_base [OF vsimD(4) [OF s]])
  have same: "reg m' q = reg m q" if "q \<noteq> R 0" for q using rs that by (simp add: regs_same_def)
  have opr: "reg m' q = reg m q" if "op_reg q" for q using that by (intro same) auto
  have act: "act x ?c = act x ctx" for x by (rule act_cong) simp
  have fr: "ctx_frame ctx ?c" by simp
  have env: "same_env ctx ?c" by (rule same_env_frame [OF fr])
  have arr: "stack_arr ?c m' = stack_arr ctx m"
    using stack_arr_same [OF mm _ ctx_frame_jit [OF fr]] same by (simp add: jit_reg_defs)
  have "vview ?c m' v = vview ctx m v"
    using env vsimD(10,14) [OF s] by (intro vview_cong) (auto simp: act arr same_env_def intro: opr same)
  moreover have "shape_ok ?c" using vsimD(2) [OF s] by (simp add: shape_ok_def)
  moreover have "refs_ok ?c held" using vsimD(3) [OF s] by (simp add: refs_ok_def cached_regs_cong [OF act])
  ultimately have co: "core ?c m' held" and vw: "vview ?c m' v"
    using core_mono [OF vsimD(1) [OF s] _ _ b _ opr] vsimD(6) [OF s] by (simp_all add: ops_all_def act)
  have "vsim ?c m' held live v"
    using s co vw by (simp add: vsim_def cached_regs_cong [OF act] shadow_regs_env [OF env])
  moreover have "steps_to step live ctx m ?c m'"
    using em env same mm vsimD(7) [OF s] by (auto simp: steps_to_def intro: opr)
  ultimately show ?thesis using r0 rs mm by (intro that [of m']) (simp_all add: jit_reg_defs)
qed

lemmas exec_set_mem_base_sim = exec_set_mem_base_vsim

section \<open>Pops from memory\<close>

lemma exec_pop_code_byte:
  assumes "op_reg q" and "p \<noteq> q" and "p \<notin> {R 0, R 1, R 2}"
  shows "exec step (pop_code p q False) m =
    (let a = ucast (reg m p) - 1 :: u8 in
     m\<lparr>reg := (reg m)(p := reg m p - 1, R 1 := ucast a, q := ucast (mem m (reg m (R 0) + ucast a)))\<rparr>)"
proof -
  have "R 0 \<noteq> p" "R (Suc 0) \<noteq> p" "R 2 \<noteq> p" "q \<noteq> p" using assms by auto
  then show ?thesis using assms by (simp add: pop_code_def Let_def step_simps BUXN_JIT_MEM_def jit_reg_defs)
qed

lemma exec_pop_code_short:
  assumes "op_reg q" and "p \<noteq> q" and "p \<notin> {R 0, R 1, R 2}"
  shows "exec step (pop_code p q True) m =
    (let a = ucast (reg m p) - 1 :: u8; h = push_bit 8 (ucast (mem m (reg m (R 0) + ucast (a - 1)))) in
     m\<lparr>reg := (reg m)(p := reg m p - 1 - 1, R 1 := ucast (a - 1), R 2 := h,
       q := ucast (mem m (reg m (R 0) + ucast a)) OR h)\<rparr>)"
proof -
  have "R 0 \<noteq> p" "R (Suc 0) \<noteq> p" "R 2 \<noteq> p" "q \<noteq> p" using assms by auto
  then show ?thesis
    using assms by (cases m) (simp add: pop_code_def Let_def step_simps BUXN_JIT_MEM_def jit_reg_defs fun_upd_twist)
qed

lemma exec_pop_code:
  assumes op: "op_reg q" "p \<noteq> q" "p \<notin> {R 0, R 1, R 2}" and len: "length bs = opsize f"
    and bl: "below arr (ucast (reg m p)) (bs @ xs)" and ad: "\<And>i :: u8. mem m (reg m (R 0) + ucast i) = arr i"
  shows "reg (exec step (pop_code p q f) m) q = bytes_val bs" and "mem (exec step (pop_code p q f) m) = mem m"
    and "ucast (reg (exec step (pop_code p q f) m) p) = (ucast (reg m p) - of_nat (opsize f) :: u8)"
    and "regs_same {R 1, R 2, p, q} m (exec step (pop_code p q f) m)"
proof -
  note ex = exec_pop_code_byte [OF op] exec_pop_code_short [OF op]
  show "reg (exec step (pop_code p q f) m) q = bytes_val bs"
  proof (cases rule: opsize_cases [OF len])
    case (1 x)
    then show ?thesis using bl by (simp add: ex Let_def ad)
  next
    case (2 l h)
    then show ?thesis using bl by (simp add: ex Let_def ad short_of_word or.commute)
  qed
  show "mem (exec step (pop_code p q f) m) = mem m" by (cases f) (simp_all add: ex Let_def)
  show "ucast (reg (exec step (pop_code p q f) m) p) = (ucast (reg m p) - of_nat (opsize f) :: u8)"
    using op by (cases f) (simp_all add: ex Let_def)
  show "regs_same {R 1, R 2, p, q} m (exec step (pop_code p q f) m)"
    by (cases f) (simp_all add: ex Let_def regs_same_def)
qed

lemma exec_pop_from_mem:
  assumes s: "vsim ctx m held live v" and a: "act r ctx = []" and st: "vtop v r = bs @ xs"
    and len: "length bs = opsize f" and room: "cached_total ctx + length held < 6"
  obtains q ctx' m' where "buxn_jit_pop_from_mem f r ctx = Some (q, ctx')"
    and "vsim ctx' m' (q # held) (q # live) (vpop r (opsize f) v)" and "reg m' q = bytes_val bs"
    and "steps_to step live ctx m ctx' m'" and "cached_total ctx' \<le> cached_total ctx"
proof -
  let ?c = "buxn_jit_set_mem_base (stack_field r) ctx" and ?p = "stack_ptr_reg r ctx"
  obtain m1 where s1: "vsim ?c m1 held live v" and t1: "steps_to step live ctx m ?c m1"
    and r0: "reg m1 (R 0) = reg m (S 0) + vm_offset (jit ctx) (stack_field r)"
    and rs1: "regs_same {R 0} m m1" and mm1: "mem m1 = mem m"
    by (rule exec_set_mem_base_vsim [OF s])
  have room1: "cached_total ?c + length held < 6" and n: "length held < 6"
    using room by (simp_all add: cached_total_eq [of _ False])
  obtain q c2 m2 where al: "buxn_jit_alloc_reg ?c = Some (q, c2)" and s2': "vsim c2 m2 (q # held) (q # live) v"
    and t2: "steps_to step live ?c m1 c2 m2" and nq: "q \<notin> set live"
    and rm: "m2 = m1" "\<forall>r. cache_of r c2 = cache_of r ?c"
    using exec_alloc_vsim [OF s1 n] room1 by metis
  note s2 = s2' [unfolded rm(1)]
  have t12: "steps_to step live ctx m c2 m1" using t1 t2 unfolding rm(1) by (rule steps_to_trans) simp
  have jit: "jit c2 = jit ctx" and p2: "stack_ptr_reg r c2 = ?p" "stack_ptr_reg r ?c = ?p"
    using t1 t2 by (cases r; simp add: steps_to_def same_env_def stack_ptr_reg_def)+
  have a2: "act r c2 = []" using a by (simp add: act_def rm)
  have op: "op_reg q" "?p \<noteq> q" "?p \<notin> {R 0, R 1, R 2}"
    using vsimD(7) [OF s2, of q] pop_ptr_not [OF s2, of r] by (auto simp: p2)
  have ne: "vtop v r \<noteq> []" using len st by (auto split: if_splits)
  have bl: "below (stack_arr c2 m1 r) (ucast (reg m1 ?p)) (bs @ xs)"
    using vsim_below [OF s2 a2 ne] st by (simp add: p2)
  have ad: "mem m1 (reg m1 (R 0) + ucast i) = stack_arr c2 m1 r i" for i :: u8
    using r0 rs1 by (simp add: stack_arr_def vm_addr_def jit jit_reg_defs regs_same_def)
  let ?is = "pop_code ?p q f"
  let ?m' = "exec step ?is m1"
  note ex = exec_pop_code [OF op len bl ad]
  have "vsim c2 ?m' (q # held) (q # live) (vpop r (opsize f) v)"
  proof (rule vsim_ptr [OF s2 a2 ne ex(2)])
    show "reg ?m' p = reg m1 p" if "p \<in> set (cached_regs c2) \<union> {R 0, S 0, S 1, S 2}" "p \<noteq> stack_ptr_reg r c2" for p
      using that vsimD(8) [OF s2, of q] vsimD(10) [OF s2, of p] op by (intro regs_sameD [OF ex(4)]) (auto simp: p2)
  qed (use ex(3) in \<open>simp add: p2\<close>)
  then have s3: "vsim (emit_all ?is c2) ?m' (q # held) (q # live) (vpop r (opsize f) v)" by simp
  have "reg ?m' p = reg m1 p" if "p \<in> set live \<union> {S 0}" for p
    using vsimD(7) [OF s, of p] pop_ptr_not [OF s, of r] that nq op by (intro regs_sameD [OF ex(4)]) auto
  then have "steps_to step live c2 m1 (emit_all ?is c2) ?m'"
    using emits_emit_all [of step c2 m1 ?is] ex(2) by (simp add: steps_to_def)
  then have t3: "steps_to step live ctx m (emit_all ?is c2) ?m'" by (rule steps_to_trans [OF t12]) simp
  have "cached_total (emit_all ?is c2) = cached_total ctx"
    by (simp add: cached_total_eq [of _ False] rm)
  then show ?thesis
    using al by (intro that [OF _ s3 ex(1) t3]) (simp_all add: buxn_jit_pop_from_mem_def p2)
qed

section \<open>Pops\<close>

lemma set_cache_emit: "set_cache r c (emit i ctx) = emit i (set_cache r c ctx)"
  by (simp add: set_cache_def emit_def)

lemma exec_split_code:
  assumes "op_reg v" and "op_reg q" and "v \<noteq> q"
  shows "exec step [Op1 SLJIT_MOV_U8 (Reg q) (Reg v), Op2 SLJIT_LSHR (Reg v) (Reg v) (Imm 8)] m =
    m\<lparr>reg := (reg m)(q := ucast (ucast (reg m v) :: u8), v := drop_bit 8 (reg m v))\<rparr>"
  using assms by (simp add: step_simps)

lemma exec_split_top:
  assumes s: "vsim ctx m held live v" and q: "q \<in> set live" and st: "vtop v r = x # xs" and a: "act r ctx = cs @ [c]" and sh: "is_short (cval c)"
  defines "is \<equiv> [Op1 SLJIT_MOV_U8 (Reg q) (Reg (oreg (cval c))),
      Op2 SLJIT_LSHR (Reg (oreg (cval c))) (Reg (oreg (cval c))) (Imm 8)]"
  shows "vsim (emit_all is (half_top r (length cs) c ctx)) (exec step is m) held live (vpop r 1 v)"
    and "reg (exec step is m) q = ucast x"
    and "set live' \<subseteq> set live - {q} \<Longrightarrow> steps_to step live' ctx m (emit_all is (half_top r (length cs) c ctx)) (exec step is m)"
    and "cached_total (emit_all is (half_top r (length cs) c ctx)) = cached_total ctx"
proof -
  have ne: "vtop v r \<noteq> []" by (simp add: st)
  note sp = half_top_vsim [OF s ne a sh]
  have op: "op_reg q" by (rule vsimD(7) [OF s q])
  have vq: "oreg (cval c) \<noteq> q" by (rule sp(3) [OF q])
  have ex: "exec step is m =
      m\<lparr>reg := (reg m)(q := ucast (ucast (reg m (oreg (cval c))) :: u8), oreg (cval c) := drop_bit 8 (reg m (oreg (cval c))))\<rparr>"
    unfolding is_def by (rule exec_split_code [OF sp(4) op vq])
  show "vsim (emit_all is (half_top r (length cs) c ctx)) (exec step is m) held live (vpop r 1 v)"
    using vsim_set_reg [OF sp(1), of q "ucast (ucast (reg m (oreg (cval c))) :: u8)"] q vq
    unfolding ex vsim_emit_all by (simp add: fun_upd_twist)
  show "reg (exec step is m) q = ucast x" using sp(2) st vq by (simp add: ex)
  show "steps_to step live' ctx m (emit_all is (half_top r (length cs) c ctx)) (exec step is m)"
    if l: "set live' \<subseteq> set live - {q}"
  proof -
    have "reg (exec step is m) p = reg m p" if "p \<in> set live'" for p
      using l that sp(3) [of p] unfolding ex by auto
    moreover have "emits step ctx m (emit_all is (half_top r (length cs) c ctx)) (exec step is m)"
      by (rule emits_trans [OF emits_refl emits_emit_all]) (simp add: half_top_def)
    ultimately show ?thesis
      using op sp(4) unfolding ex by (auto simp: steps_to_def half_top_def)
  qed
  show "cached_total (emit_all is (half_top r (length cs) c ctx)) = cached_total ctx"
    using sp(5) by (simp add: cached_total_eq [of _ r])
qed

lemma exec_pop_byte:
  assumes s: "vsim ctx m held live v" and st: "vtop v r = x # xs" and room: "cached_total ctx + length held < 6"
  obtains q ctx' m' where "stack_cache_pop_byte r ctx = Some (q, ctx')"
    and "vsim ctx' m' (q # held) (q # live) (vpop r 1 v)" and "reg m' q = ucast x"
    and "steps_to step live ctx m ctx' m'" and "cached_total ctx' \<le> cached_total ctx"
proof (cases "act r ctx" rule: rev_cases)
  case Nil
  have st': "vtop v r = [x] @ xs" using st by simp
  obtain q ctx' m' where p: "buxn_jit_pop_from_mem False r ctx = Some (q, ctx')"
    "vsim ctx' m' (q # held) (q # live) (vpop r (opsize False) v)" "reg m' q = bytes_val [x]"
    "steps_to step live ctx m ctx' m'" "cached_total ctx' \<le> cached_total ctx"
    by (rule exec_pop_from_mem [OF s Nil st' _ room, of False]) simp_all
  moreover have "clen (cache_of r ctx) = 0" using act_empty [OF vsimD(2) [OF s]] Nil by blast
  ultimately show ?thesis
    by (intro that [OF _ _ _ p(4,5)]) (simp_all add: stack_cache_pop_byte_def)
next
  case (snoc cs c)
  note sn = act_snoc [OF vsimD(2) [OF s] snoc]
  have ne: "vtop v r \<noteq> []" by (simp add: st)
  show ?thesis
  proof (cases "is_short (cval c)")
    case False
    note d = drop_top_vsim [OF s ne snoc] and e = drop_top_core [OF vsimD(1) [OF s] snoc]
    have "opbytes m (cval c) = [x]" using d(2) False st by (auto simp: opbytes_if)
    moreover have "stack_cache_pop_byte r ctx = Some (oreg (cval c), drop_top r ctx)"
      using sn False by (simp add: stack_cache_pop_byte_def Let_def drop_top_def)
    ultimately show ?thesis
      using d(1) e(7-9) fits_val [OF e(4)] by (intro that [of "oreg (cval c)" "drop_top r ctx" m]) simp_all
  next
    case True
    have n: "length held < 6" using room by simp
    obtain q c2 m2 where al: "buxn_jit_alloc_reg ctx = Some (q, c2)" and s2': "vsim c2 m2 (q # held) (q # live) v"
      and t2: "steps_to step live ctx m c2 m2" and nq: "q \<notin> set live"
      and rm: "m2 = m" "\<forall>r. cache_of r c2 = cache_of r ctx"
      using exec_alloc_vsim [OF s n] room by metis
    note s2 = s2' [unfolded rm(1)]
    have a2: "act r c2 = cs @ [c]" using snoc by (simp add: act_def rm)
    have ql: "q \<in> set (q # live)" by simp
    note sp = exec_split_top [OF s2 ql st a2 True]
    have pop: "stack_cache_pop_byte r ctx = Some (q, emit_all [Op1 SLJIT_MOV_U8 (Reg q) (Reg (oreg (cval c))),
      Op2 SLJIT_LSHR (Reg (oreg (cval c))) (Reg (oreg (cval c))) (Imm 8)] (half_top r (length cs) c c2))"
      using sn True al rm(2) by (simp add: stack_cache_pop_byte_def half_top_def Let_def set_cache_emit)
    have "set live \<subseteq> set (q # live) - {q}" using nq by auto
    note t3 = steps_to_trans [OF t2 [unfolded rm(1)] sp(3) [OF this] subset_refl]
    show ?thesis
      by (rule that [OF pop sp(1,2) t3]) (use sp(4) rm(2) in \<open>simp add: cached_total_eq [of _ r]\<close>)
  qed
qed

end

lemma vsim_release:
  assumes s: "vsim ctx m held live v" and lo: "lo \<in> set held"
    and l: "set (live' @ shadow_regs ctx v) \<subseteq> set (remove1 lo held)" "set live' \<subseteq> set live" "distinct live'"
  obtains ctx' where "buxn_jit_release_reg lo ctx = Some ctx'" and "vsim ctx' m (remove1 lo held) live' v"
    and "code ctx' = code ctx" and "same_env ctx ctx'" and "cached_total ctx' = cached_total ctx"
    and "\<forall>r. cache_of r ctx' = cache_of r ctx"
proof -
  have rf: "refs_ok ctx held" and len: "length (reg_ref_counts ctx) = 6"
    using vsimD(2,3) [OF s] by (simp_all add: shape_ok_def)
  from rf lo obtain i where i: "i < 6" "lo = R (3 + i)" by (auto simp: refs_ok_def op_reg_iff)
  have "0 < count_list (cached_regs ctx @ held) lo"
    using lo by (auto simp: count_list_0_iff neq0_conv [symmetric] simp del: neq0_conv)
  then have pos: "0 < reg_ref_counts ctx ! i" using rf i by (auto simp: refs_ok_def simp del: count_list_append)
  define c where "c = ctx\<lparr>reg_ref_counts := (reg_ref_counts ctx)[i := reg_ref_counts ctx ! i - 1]\<rparr>"
  have ca: "cache_of r c = cache_of r ctx" for r by (simp add: c_def)
  have fr: "ctx_frame ctx c" by (simp add: c_def ctx_frame_def)
  have act: "act r c = act r ctx" for r by (rule act_cong) (rule ca)
  have rc: "reg_ref_counts c = (reg_ref_counts ctx)[i := reg_ref_counts ctx ! i - 1]" by (simp add: c_def)
  have rf': "refs_ok c (remove1 lo held)"
    by (rule refs_ok_release [OF len rc i(1) _ rf]) (use lo i(2) in \<open>simp add: cached_regs_cong [OF act]\<close>)
  have "vview c m v = vview ctx m v" by (rule vview_ctx_cong) (simp_all add: ca, simp_all add: c_def)
  moreover have "shape_ok c" using vsimD(2) [OF s] by (simp add: shape_ok_def ca rc)
  moreover have "base_ok c m" using vsimD(4) [OF s] by (simp add: base_ok_def c_def)
  ultimately have s': "vsim c m (remove1 lo held) live' v"
    using s rf' l cached_regs_cong [of c ctx, OF act] shadow_regs_env [OF same_env_frame [OF fr]]
    by (auto simp: vsim_def core_def ops_all_def act)
  have rel: "buxn_jit_release_reg lo ctx = Some c" using release_reg_ok [OF i(1) pos] i(2) by (simp add: c_def)
  show ?thesis
    by (rule that [OF rel s' _ same_env_frame [OF fr]]) (simp_all add: cached_total_eq [of _ False] ca, simp add: c_def)
qed

text \<open>Giving up an operand the handler owns.\<close>

lemma vsim_release_own:
  assumes s: "vsim ctx m (xs @ lo # held) (xs @ lo # live) v" and l: "set (live @ shadow_regs ctx v) \<subseteq> set held"
  obtains ctx' where "buxn_jit_release_reg lo ctx = Some ctx'" and "vsim ctx' m (xs @ held) (xs @ live) v"
    and "code ctx' = code ctx" and "same_env ctx ctx'" and "cached_total ctx' = cached_total ctx"
proof -
  have d: "distinct (xs @ lo # live)" by (rule vsimD(12) [OF s])
  then have r: "remove1 lo (xs @ lo # held) = xs @ held" by (simp add: remove1_append)
  have "set ((xs @ live) @ shadow_regs ctx v) \<subseteq> set (remove1 lo (xs @ lo # held))" unfolding r using l by auto
  moreover have "set (xs @ live) \<subseteq> set (xs @ lo # live)" "distinct (xs @ live)" using d by auto
  moreover have "lo \<in> set (xs @ lo # held)" by simp
  ultimately obtain ctx' where "buxn_jit_release_reg lo ctx = Some ctx'"
    "vsim ctx' m (remove1 lo (xs @ lo # held)) (xs @ live) v"
    "code ctx' = code ctx" "same_env ctx ctx'" "cached_total ctx' = cached_total ctx"
    using vsim_release [OF s, of lo "xs @ live"] by blast
  then show ?thesis using that unfolding r by blast
qed

context sljit_exec
begin

text \<open>The two halves of a short popped from two places are put together in the register of the high one.\<close>

lemma exec_join:
  assumes s: "vsim c1 m1 (q # lo # held) (q # lo # live) v" and l: "set (live @ shadow_regs c1 v) \<subseteq> set held"
    and val: "reg m1 q = ucast h" "reg m1 lo = ucast l"
  defines "is \<equiv> [Op2 SLJIT_SHL (Reg q) (Reg q) (Imm 8), Op2 SLJIT_OR (Reg q) (Reg q) (Reg lo)]"
  obtains c2 m2 where "buxn_jit_release_reg lo (emit_all is c1) = Some c2" and "vsim c2 m2 (q # held) (q # live) v"
    and "reg m2 q = ucast (short_of h l)" and "steps_to step live c1 m1 c2 m2" and "cached_total c2 = cached_total c1"
proof -
  have ne: "q \<noteq> lo" "q \<notin> set live" using vsimD(12) [OF s] by auto
  have ex: "exec step is m1 = set_reg q (ucast (short_of h l)) m1"
    using ne by (simp add: is_def step_simps val short_of_word)
  have s1: "vsim (emit_all is c1) (exec step is m1) ([q] @ lo # held) ([q] @ lo # live) v"
    unfolding ex vsim_emit_all using vsim_set_reg [OF s, of q] by simp
  have l1: "set (live @ shadow_regs (emit_all is c1) v) \<subseteq> set held"
    using l shadow_regs_env [of c1 "emit_all is c1" v] by simp
  obtain c2 where rel: "buxn_jit_release_reg lo (emit_all is c1) = Some c2"
    and s2: "vsim c2 (exec step is m1) ([q] @ held) ([q] @ live) v"
    and cd: "code c2 = code (emit_all is c1)" "same_env (emit_all is c1) c2"
    and ct: "cached_total c2 = cached_total (emit_all is c1)"
    by (rule vsim_release_own [OF s1 l1])
  have "emits step c1 m1 c2 (exec step is m1)" by (rule emits_code [OF emits_emit_all cd(1)])
  moreover have "same_env c1 c2" using cd(2) by (simp add: same_env_def emit_all_eq)
  ultimately have t: "steps_to step live c1 m1 c2 (exec step is m1)"
    using ne(2) vsimD(7) [OF s, of q] unfolding ex by (auto simp: steps_to_def)
  show ?thesis
    by (rule that [OF rel _ _ t]) (use s2 ct in \<open>simp_all add: ex cached_total_eq [of _ False]\<close>)
qed

lemma exec_pop_short:
  assumes s: "vsim ctx m held live v" and st: "vtop v r = l # h # xs" and room: "cached_total ctx + length held < 6"
  obtains q ctx' m' where "stack_cache_pop_short r ctx = Some (q, ctx')"
    and "vsim ctx' m' (q # held) (q # live) (vpop r 2 v)" and "reg m' q = ucast (short_of h l)"
    and "steps_to step live ctx m ctx' m'" and "cached_total ctx' \<le> cached_total ctx"
proof (cases "act r ctx" rule: rev_cases)
  case Nil
  have st': "vtop v r = [l, h] @ xs" using st by simp
  obtain q ctx' m' where p: "buxn_jit_pop_from_mem True r ctx = Some (q, ctx')"
    "vsim ctx' m' (q # held) (q # live) (vpop r (opsize True) v)" "reg m' q = bytes_val [l, h]"
    "steps_to step live ctx m ctx' m'" "cached_total ctx' \<le> cached_total ctx"
    by (rule exec_pop_from_mem [OF s Nil st' _ room, of True]) simp_all
  moreover have "clen (cache_of r ctx) = 0" using act_empty [OF vsimD(2) [OF s]] Nil by blast
  ultimately show ?thesis
    by (intro that [OF _ _ _ p(4,5)]) (simp_all add: stack_cache_pop_short_def)
next
  case (snoc cs c)
  note sn = act_snoc [OF vsimD(2) [OF s] snoc]
  have ne: "vtop v r \<noteq> []" by (simp add: st)
  note d = drop_top_vsim [OF s ne snoc] and e = drop_top_core [OF vsimD(1) [OF s] snoc]
  let ?lo = "oreg (cval c)" and ?d = "drop_top r ctx"
  have t: "steps_to step live ctx m ?d m" using e(7,8) by simp
  show ?thesis
  proof (cases "is_short (cval c)")
    case True
    have "opbytes m (cval c) = [l, h]" using d(2) True st by (auto simp: opbytes_if)
    moreover have "stack_cache_pop_short r ctx = Some (?lo, ?d)"
      using sn True by (simp add: stack_cache_pop_short_def Let_def drop_top_def)
    ultimately show ?thesis
      using d(1) e(9) t fits_val [OF e(4)] by (intro that [of ?lo ?d m]) (simp_all add: numeral_2_eq_2)
  next
    case False
    have ob: "opbytes m (cval c) = [l]" using d(2) False st by (auto simp: opbytes_if)
    have st1: "vtop (vpop r (length (opbytes m (cval c))) v) r = h # xs" using st by (simp add: ob)
    have room1: "cached_total ?d + length (?lo # held) < 6" using room e(9) by simp
    obtain q c1 m1 where pop: "stack_cache_pop_byte r ?d = Some (q, c1)"
      and s1: "vsim c1 m1 (q # ?lo # held) (q # ?lo # live) (vpop r 1 (vpop r (length (opbytes m (cval c))) v))"
      and q1: "reg m1 q = ucast h"
      and t1: "steps_to step (?lo # live) ?d m c1 m1" and ct: "cached_total c1 \<le> cached_total ?d"
      by (rule exec_pop_byte [OF d(1) st1 room1])
    have lo1: "reg m1 ?lo = ucast l"
      using t1 fits_val [OF e(4)] ob by (simp add: steps_to_def)
    have env: "same_env ctx c1" by (rule same_env_trans [OF e(7) steps_toD(2) [OF t1]])
    have l: "set (live @ shadow_regs c1 (vpop r 1 (vpop r (length (opbytes m (cval c))) v))) \<subseteq> set held"
      using s shadow_regs_env [OF env, of v] by (simp add: vsim_def)
    obtain c2 m2 where j: "buxn_jit_release_reg ?lo
        (emit_all [Op2 SLJIT_SHL (Reg q) (Reg q) (Imm 8), Op2 SLJIT_OR (Reg q) (Reg q) (Reg ?lo)] c1) = Some c2"
      "vsim c2 m2 (q # held) (q # live) (vpop r 1 (vpop r (length (opbytes m (cval c))) v))"
      "reg m2 q = ucast (short_of h l)" "steps_to step live c1 m1 c2 m2" "cached_total c2 = cached_total c1"
      by (rule exec_join [OF s1 l q1 lo1])
    have "steps_to step live ?d m c1 m1" by (rule steps_to_mono [OF t1]) auto
    with t j(4) have t2: "steps_to step live ctx m c2 m2" by (blast intro: steps_to_trans)
    have "stack_cache_pop_short r ctx = Some (q, c2)"
      using sn False pop j(1) by (simp add: stack_cache_pop_short_def Let_def drop_top_def)
    then show ?thesis
      using j(2) ct e(9) by (intro that [OF _ _ j(3) t2]) (simp_all add: ob j(5) numeral_2_eq_2)
  qed
qed

text \<open>The pop of \<^verbatim>\<open>buxn_jit_stack_cache_pop\<close>, of either width.\<close>

lemma exec_stack_cache_pop:
  assumes s: "vsim ctx m held live v" and st: "vtop v r = bs @ xs" and len: "length bs = opsize f"
    and room: "cached_total ctx + length held < 6"
  obtains q ctx' m' where "buxn_jit_stack_cache_pop r f ctx = Some (q, ctx')"
    and "vsim ctx' m' (q # held) (q # live) (vpop r (opsize f) v)" and "reg m' q = bytes_val bs"
    and "steps_to step live ctx m ctx' m'" and "cached_total ctx' \<le> cached_total ctx"
proof (cases rule: opsize_cases [OF len])
  case (1 x)
  then have "vtop v r = x # xs" using st by simp
  from exec_pop_byte [OF s this room] obtain q ctx' m' where p: "stack_cache_pop_byte r ctx = Some (q, ctx')"
    "vsim ctx' m' (q # held) (q # live) (vpop r 1 v)" "reg m' q = ucast x"
    "steps_to step live ctx m ctx' m'" "cached_total ctx' \<le> cached_total ctx" .
  show ?thesis
    by (rule that [OF _ _ _ p(4,5)]) (use 1 p in \<open>simp_all add: buxn_jit_stack_cache_pop_def\<close>)
next
  case (2 l h)
  then have "vtop v r = l # h # xs" using st by simp
  from exec_pop_short [OF s this room] obtain q ctx' m' where p: "stack_cache_pop_short r ctx = Some (q, ctx')"
    "vsim ctx' m' (q # held) (q # live) (vpop r 2 v)" "reg m' q = ucast (short_of h l)"
    "steps_to step live ctx m ctx' m'" "cached_total ctx' \<le> cached_total ctx" .
  show ?thesis
    by (rule that [OF _ _ _ p(4,5)]) (use 2 p in \<open>simp_all add: buxn_jit_stack_cache_pop_def\<close>)
qed

end

end
