(* ===== verification/Sim_Push.thy ===== *)
theory Sim_Push
  imports Sim_Pop
begin

text \<open>
  Pushes and discards, and the micro operations \<^verbatim>\<open>buxn_jit_push\<close>, \<^verbatim>\<open>buxn_jit_pop\<close> and
  \<^verbatim>\<open>buxn_jit_wrap_around\<close> on top of the cache operations.
\<close>

section \<open>Adding a cell\<close>

lemma retain_set_cache: "buxn_jit_retain_reg q (set_cache r c ctx) = map_option (set_cache r c) (buxn_jit_retain_reg q ctx)"
  by (cases "op_index q") (simp_all add: buxn_jit_retain_reg_def set_cache_def)

definition add_top :: "bool \<Rightarrow> buxn_jit_operand \<Rightarrow> buxn_jit_ctx \<Rightarrow> buxn_jit_ctx" where
  "add_top r v ctx =
     set_cache r ((cache_of r ctx)\<lparr>clen := clen (cache_of r ctx) + 1,
       cells := (cells (cache_of r ctx))[clen (cache_of r ctx) := \<lparr>cval = v, need_flush = True\<rparr>]\<rparr>) ctx"

lemma add_top_act:
  assumes "shape_ok ctx" and "clen (cache_of r ctx) < BUXN_JIT_CACHE_SIZE"
  shows "act r (add_top r v ctx) = act r ctx @ [\<lparr>cval = v, need_flush = True\<rparr>]"
    and "act (\<not> r) (add_top r v ctx) = act (\<not> r) ctx" and "shape_ok (add_top r v ctx)"
proof -
  have l: "clen (cache_of r ctx) < length (cells (cache_of r ctx))" using assms by (simp add: shape_ok_def)
  then show "act r (add_top r v ctx) = act r ctx @ [\<lparr>cval = v, need_flush = True\<rparr>]"
    by (simp add: add_top_def act_def [of r ctx] take_Suc_conv_app_nth)
  show "act (\<not> r) (add_top r v ctx) = act (\<not> r) ctx" by (simp add: add_top_def)
  have "length (cells (cache_of q (add_top r v ctx))) = BUXN_JIT_CACHE_SIZE \<and>
      clen (cache_of q (add_top r v ctx)) \<le> BUXN_JIT_CACHE_SIZE" for q
    using assms by (cases "q = r") (simp_all add: add_top_def shape_ok_def)
  then show "shape_ok (add_top r v ctx)" using assms(1) by (simp add: shape_ok_def add_top_def)
qed

text \<open>\<open>vwsim\<close> is \<open>vsim\<close> without the claim that no two operands share a register.\<close>

definition vwsim :: "buxn_jit_ctx \<Rightarrow> mach \<Rightarrow> sreg list \<Rightarrow> view \<Rightarrow> bool" where
  "vwsim ctx m held v \<longleftrightarrow> core ctx m held \<and> vview ctx m v"

abbreviation wsim :: "buxn_jit_ctx \<Rightarrow> mach \<Rightarrow> sreg list \<Rightarrow> (bool \<Rightarrow> u8 list) \<Rightarrow> bool" where
  "wsim ctx m held st \<equiv> vwsim ctx m held (Direct st)"

lemma vsim_vwsim: "vsim ctx m held live v \<longleftrightarrow>
    vwsim ctx m held v \<and> set (live @ shadow_regs ctx v) \<subseteq> set held \<and> distinct (cached_regs ctx @ live @ shadow_regs ctx v)"
  by (auto simp: vsim_def vwsim_def)

lemma sim_wsim: "sim ctx m held live st \<longleftrightarrow>
    wsim ctx m held st \<and> set live \<subseteq> set held \<and> distinct (cached_regs ctx @ live)"
  by (auto simp: vsim_vwsim shadow_regs_def)

lemma vwsimD:
  assumes "vwsim ctx m held v"
  shows "core ctx m held" and "shape_ok ctx" and "refs_ok ctx held" and "base_ok ctx m"
    and "\<And>r. rview ctx m r (vreal v r)" and "vview ctx m v" and "q \<in> set held \<Longrightarrow> op_reg q"
  using assms by (auto simp: vwsim_def vview_def core_def refs_ok_def)

lemma wsimD:
  assumes "wsim ctx m held st"
  shows "core ctx m held" and "shape_ok ctx" and "refs_ok ctx held" and "base_ok ctx m"
    and "\<And>r. rview ctx m r (st r)" and "pending ctx" and "direct ctx" and "q \<in> set held \<Longrightarrow> op_reg q"
  using vwsimD [OF assms] by (simp_all add: vview_def)

lemma vview_push:
  assumes v: "vview ctx m v" and jit: "jit ctx' = jit ctx" and env: "same_env ctx ctx'"
    and ar: "act r ctx' = act r ctx @ [\<lparr>cval = x, need_flush = True\<rparr>]" and an: "act (\<not> r) ctx' = act (\<not> r) ctx"
    and b: "opbytes m x = bs" and fit: "length (bs @ vreal v r) \<le> 256"
  shows "vview ctx' m (vpush r bs v)"
proof -
  have arr: "stack_arr ctx' m = stack_arr ctx m" by (rule stack_arr_same [OF refl refl jit])
  have new: "ops_new r ctx' = ops_new r ctx @ [x]" "ops_new (\<not> r) ctx' = ops_new (\<not> r) ctx"
    using ar an by (simp_all add: ops_new_def)
  have rv: "rview ctx' m q (((vreal v)(r := bs @ vreal v r)) q)" for q
  proof (cases "q = r")
    case True
    have "rview ctx m r (vreal v r)" using v by (simp add: vview_def)
    then show ?thesis using fit True by (auto simp: rview_def stack_is_def new arr b)
  next
    case False
    then have "q = (\<not> r)" by auto
    moreover have "rview ctx m (\<not> r) (vreal v (\<not> r))" using v by (simp add: vview_def)
    ultimately show ?thesis by (simp add: rview_def new arr)
  qed
  have nf: "need_flush c" if "c \<in> set (act q ctx')" "\<forall>q. \<forall>c \<in> set (act q ctx). need_flush c" for c q
    using that ar an by (cases "q = r") (auto simp: not_True_eq_False)
  have ff: "flushed_first q ctx'" if "\<forall>q. flushed_first q ctx" for q
  proof (cases "q = r")
    case True
    have "act r ctx = filter (\<lambda>c. \<not> need_flush c) (act r ctx) @ filter need_flush (act r ctx)"
      using that by (simp add: flushed_first_def)
    then show ?thesis using True ar by (simp add: flushed_first_def)
  next
    case False
    then have "q = (\<not> r)" by auto
    then show ?thesis using that flushed_first_act [OF an] by simp
  qed
  show ?thesis
  proof (cases v)
    case (Direct st)
    then show ?thesis using v env rv nf by (simp add: vview_def pending_def direct_def same_env_def)
  next
    case (Keep k st po)
    then show ?thesis using v env rv ff by (simp add: vview_def same_env_def)
  qed
qed

lemma add_top_vwsim:
  assumes s: "vwsim ctx m held v" and n: "clen (cache_of r ctx) < BUXN_JIT_CACHE_SIZE"
    and x: "oreg x \<in> set held" and val: "reg m (oreg x) = bytes_val bs" and len: "length bs = opsize (is_short x)"
    and fit: "length (bs @ vreal v r) \<le> 256"
  obtains ctx' where "buxn_jit_retain_reg (oreg x) (add_top r x ctx) = Some ctx'"
    and "vwsim ctx' m held (vpush r bs v)"
    and "mset (cached_regs ctx') = mset (cached_regs ctx) + {#oreg x#}"
    and "code ctx' = code ctx" and "same_env ctx ctx'" and "cached_total ctx' = cached_total ctx + 1"
proof -
  have sh: "shape_ok ctx" and rf: "refs_ok ctx held" using vwsimD [OF s] by simp_all
  obtain c0 where rt: "buxn_jit_retain_reg (oreg x) ctx = Some c0" and sh0: "shape_ok c0"
    and rf0: "refs_ok c0 (oreg x # held)" and ca: "\<forall>r. cache_of r c0 = cache_of r ctx"
    and cd: "code c0 = code ctx" "mem_base c0 = mem_base ctx"
    by (rule retain_ok [OF sh rf vwsimD(7) [OF s x]])
  have fr: "ctx_frame ctx c0" by (rule ctx_frame_retain [OF rt])
  define c where "c = add_top r x c0"
  have n0: "clen (cache_of r c0) < BUXN_JIT_CACHE_SIZE" using n ca by simp
  have act0: "act y c0 = act y ctx" for y by (rule act_cong) (simp add: ca)
  have ar: "act r c = act r ctx @ [\<lparr>cval = x, need_flush = True\<rparr>]" and an: "act (\<not> r) c = act (\<not> r) ctx"
    and shc: "shape_ok c"
    using add_top_act [OF sh0 n0, of x] act0 by (simp_all add: c_def)
  have rel: "buxn_jit_retain_reg (oreg x) (add_top r x ctx) = Some c"
    using ca rt by (simp add: add_top_def retain_set_cache c_def)
  have opa: "ops_all r c = ops_all r ctx @ [x]" "ops_all (\<not> r) c = ops_all (\<not> r) ctx"
    by (simp_all add: ops_all_def ar an)
  have ms: "mset (cached_regs c) = mset (cached_regs ctx) + {#oreg x#}"
    unfolding mset_cached [of _ r] by (simp add: opa)
  have cr0: "cached_regs c0 = cached_regs ctx" by (rule cached_regs_cong [OF act0])
  have "reg_ref_counts c = reg_ref_counts c0" by (simp add: c_def add_top_def)
  then have rfc: "refs_ok c held" by (intro refs_ok_mset [OF rf0]) (simp_all add: ms cr0)
  have env: "same_env ctx c" using same_env_frame [OF fr] by (simp add: c_def add_top_def)
  have jit: "jit c = jit ctx" using env by (simp add: same_env_def)
  have "base_ok c m"
    using vwsimD(4) [OF s] jit cd by (simp add: base_ok_def) (simp add: c_def add_top_def cd)
  moreover have "fits m u" if "u \<in> set (ops_all y c)" for u y
    using that opbytes_val(2) [OF val len] vwsimD(1) [OF s] opa
    by (cases "y = r") (auto simp: core_def not_True_eq_False)
  ultimately have co: "core c m held" using shc rfc by (simp add: core_def)
  have "vview c m (vpush r bs v)"
    by (rule vview_push [OF vwsimD(6) [OF s] jit env ar an opbytes_val(1) [OF val len] fit])
  with co have s': "vwsim c m held (vpush r bs v)" by (simp add: vwsim_def)
  have "cached_total c = cached_total ctx + 1"
    using length_cached [OF sh] length_cached [OF shc] arg_cong [OF ms, of size] by simp
  then show ?thesis
    by (intro that [OF rel s' ms _ env]) (use cd in \<open>simp_all add: c_def add_top_def\<close>)
qed

section \<open>Push and pop\<close>

lemma vwsim_ctx_cong:
  assumes "\<And>r. cache_of r ctx' = cache_of r ctx" and "jit ctx' = jit ctx" and "mem_base ctx' = mem_base ctx"
    and "reg_ref_counts ctx' = reg_ref_counts ctx" and "eshadow ctx' = eshadow ctx"
    and "wsp_reg ctx' = wsp_reg ctx" and "rsp_reg ctx' = rsp_reg ctx"
  shows "vwsim ctx' m held v = vwsim ctx m held v"
proof -
  have act: "act r ctx' = act r ctx" for r by (rule act_cong) (rule assms(1))
  have "vview ctx' m v = vview ctx m v" by (rule vview_ctx_cong) (rule assms)+
  then show ?thesis
    by (simp add: vwsim_def core_def shape_ok_def refs_ok_def base_ok_def assms act cached_regs_cong [OF act] ops_all_def)
qed

lemma vsim_values [simp]:
  "vsim (ctx\<lparr>rst := a\<rparr>) m held live v = vsim ctx m held live v"
  "vsim (ctx\<lparr>wst := a\<rparr>) m held live v = vsim ctx m held live v"
  "vsim (ctx\<lparr>rsp := p\<rparr>) m held live v = vsim ctx m held live v"
  "vsim (ctx\<lparr>wsp := p\<rparr>) m held live v = vsim ctx m held live v"
  by (rule vsim_ctx_cong; simp add: cache_of_def)+

lemma vwsim_values [simp]:
  "vwsim (ctx\<lparr>rst := a\<rparr>) m held v = vwsim ctx m held v"
  "vwsim (ctx\<lparr>wst := a\<rparr>) m held v = vwsim ctx m held v"
  "vwsim (ctx\<lparr>rsp := p\<rparr>) m held v = vwsim ctx m held v"
  "vwsim (ctx\<lparr>wsp := p\<rparr>) m held v = vwsim ctx m held v"
  by (rule vwsim_ctx_cong; simp add: cache_of_def)+

lemma vsim_set_esp [simp]: "vsim (set_esp r p ctx) m held live v = vsim ctx m held live v"
  by (rule vsim_ctx_cong; simp add: set_esp_def cache_of_def)

lemma same_env_values [simp]:
  "same_env ctx (ctx'\<lparr>rst := a\<rparr>) = same_env ctx ctx'"
  "same_env ctx (ctx'\<lparr>wst := a\<rparr>) = same_env ctx ctx'"
  "same_env ctx (ctx'\<lparr>rsp := p\<rparr>) = same_env ctx ctx'"
  "same_env ctx (ctx'\<lparr>wsp := p\<rparr>) = same_env ctx ctx'"
  "same_env ctx (set_esp r p ctx') = same_env ctx ctx'"
  by (simp_all add: same_env_def set_esp_def)

lemma code_set_esp [simp]: "code (set_esp r p ctx) = code ctx"
  by (simp add: set_esp_def)

lemma cached_total_values [simp]:
  "cached_total (ctx\<lparr>rst := a\<rparr>) = cached_total ctx"
  "cached_total (ctx\<lparr>wst := a\<rparr>) = cached_total ctx"
  "cached_total (ctx\<lparr>rsp := p\<rparr>) = cached_total ctx"
  "cached_total (ctx\<lparr>wsp := p\<rparr>) = cached_total ctx"
  "cached_total (set_esp r p ctx) = cached_total ctx"
  "cached_total (emit i ctx) = cached_total ctx"
  "cached_total (emit_all is ctx) = cached_total ctx"
  "cached_total (buxn_jit_set_mem_base f ctx) = cached_total ctx"
  by (simp_all add: cached_total_def set_esp_def emit_def emit_all_eq buxn_jit_set_mem_base_def Let_def)

lemma steps_to_code:
  "steps_to step live ctx m ctx' m' \<Longrightarrow> code ctx'' = code ctx' \<Longrightarrow> same_env ctx' ctx'' \<Longrightarrow>
   steps_to step live ctx m ctx'' m'"
  by (rule steps_to_trans [of _ _ _ _ ctx' m' live]) simp_all

context sljit_exec
begin

text \<open>A full cache makes room by spilling.\<close>

lemma exec_make_room:
  assumes co: "core ctx m held"
  obtains ctx' m' where "(if clen (cache_of r ctx) \<ge> BUXN_JIT_CACHE_SIZE
        then map_option snd (buxn_jit_stack_cache_spill r ctx) else Some ctx) = Some ctx'"
    and "quiet step ctx m ctx' m'" and "core ctx' m' held"
    and "clen (cache_of r ctx') < BUXN_JIT_CACHE_SIZE" and "cached_total ctx' \<le> cached_total ctx"
proof (cases "clen (cache_of r ctx) \<ge> BUXN_JIT_CACHE_SIZE")
  case True
  then have "clen (cache_of r ctx) \<noteq> 0" by (simp add: BUXN_JIT_CACHE_SIZE_def)
  from exec_spill [OF co this] obtain c1 m1 where
    sp: "buxn_jit_stack_cache_spill r ctx = Some (True, c1)" and q: "quiet step ctx m c1 m1" and co1: "core c1 m1 held"
    by metis
  have "clen (cache_of r c1) < BUXN_JIT_CACHE_SIZE"
    using spill_result(3) [OF sp] co by (auto simp: core_def shape_ok_def BUXN_JIT_CACHE_SIZE_def dest!: spec [where x = r])
  moreover have "cached_total c1 \<le> cached_total ctx"
    using spill_result(3,4) [OF sp] by (simp add: cached_total_eq [of _ r])
  ultimately show ?thesis using True sp by (intro that [OF _ q co1]) simp_all
next
  case False
  then show ?thesis using co by (intro that [of ctx m]) simp_all
qed

lemma exec_stack_cache_push:
  assumes s: "vwsim ctx m held v" and x: "oreg x \<in> set held" and val: "reg m (oreg x) = bytes_val bs"
    and len: "length bs = opsize (is_short x)" and fit: "length (bs @ vreal v r) \<le> 256"
  obtains ctx' m' c1 where "buxn_jit_stack_cache_push r x ctx = Some ctx'"
    and "vwsim ctx' m' held (vpush r bs v)" and "steps_to step held ctx m ctx' m'"
    and "\<forall>q. \<exists>k. act q c1 = drop k (act q ctx)"
    and "mset (cached_regs ctx') = mset (cached_regs c1) + {#oreg x#}"
    and "cached_total ctx' \<le> cached_total ctx + 1"
proof -
  obtain c1 m1 where sp: "(if clen (cache_of r ctx) \<ge> BUXN_JIT_CACHE_SIZE
        then map_option snd (buxn_jit_stack_cache_spill r ctx) else Some ctx) = Some c1"
    and q: "quiet step ctx m c1 m1" and co: "core c1 m1 held"
    and n: "clen (cache_of r c1) < BUXN_JIT_CACHE_SIZE" and ct: "cached_total c1 \<le> cached_total ctx"
    by (rule exec_make_room [OF vwsimD(1) [OF s]])
  have dr: "\<forall>q. \<exists>k. act q c1 = drop k (act q ctx)" using q by (simp add: quiet_def)
  have s1: "vwsim c1 m1 held (vseal v)"
    using co vview_quiet [OF vwsimD(6) [OF s] q] by (simp add: vwsim_def)
  have t1: "steps_to step held ctx m c1 m1" using vwsimD(7) [OF s] by (intro steps_to_quiet [OF q]) blast
  have val1: "reg m1 (oreg x) = bytes_val bs" using steps_toD(3) [OF t1 x] val by simp
  have fit1: "length (bs @ vreal (vseal v) r) \<le> 256" using fit by simp
  obtain ctx' where rt: "buxn_jit_retain_reg (oreg x) (add_top r x c1) = Some ctx'"
    and s2: "vwsim ctx' m1 held (vpush r bs (vseal v))" and ms: "mset (cached_regs ctx') = mset (cached_regs c1) + {#oreg x#}"
    and cd: "code ctx' = code c1" "same_env c1 ctx'" and ct2: "cached_total ctx' = cached_total c1 + 1"
    by (rule add_top_vwsim [OF s1 n x val1 len fit1])
  have "buxn_jit_stack_cache_push r x ctx = Some ctx'"
    using sp rt by (simp add: buxn_jit_stack_cache_push_def Let_def add_top_def)
  then show ?thesis
    using ct ct2 by (intro that [OF _ s2 [unfolded vpush_vseal] steps_to_code [OF t1 cd] dr ms]) simp_all
qed

lemma exec_push_ex_w:
  assumes s: "vwsim ctx m held v" and x: "oreg x \<in> set held" and val: "reg m (oreg x) = bytes_val bs"
    and len: "length bs = opsize (is_short x)" and fit: "length (bs @ vreal v r) \<le> 256"
  obtains ctx' m' c1 where "buxn_jit_push_ex x r ctx = Some ctx'"
    and "vwsim ctx' m' held (vpush r bs v)" and "steps_to step held ctx m ctx' m'"
    and "\<forall>q. \<exists>k. act q c1 = drop k (act q ctx)"
    and "mset (cached_regs ctx') = mset (cached_regs c1) + {#oreg x#}"
    and "cached_total ctx' \<le> cached_total ctx + 1"
proof -
  obtain i where i: "i < 6" "oreg x = R (3 + i)" using vwsimD(7) [OF s x] by (auto simp: op_reg_iff)
  have "count_list (cached_regs ctx @ held) (oreg x) \<noteq> 0"
    unfolding count_list_0_iff using x by auto
  then have rc: "reg_ref_counts ctx ! i \<noteq> 0"
    using vwsimD(3) [OF s] i by (auto simp: refs_ok_def simp del: count_list_append)
  obtain c m' c1 where p: "buxn_jit_stack_cache_push r x ctx = Some c"
    "vwsim c m' held (vpush r bs v)" "steps_to step held ctx m c m'"
    "\<forall>q. \<exists>k. act q c1 = drop k (act q ctx)" "mset (cached_regs c) = mset (cached_regs c1) + {#oreg x#}"
    "cached_total c \<le> cached_total ctx + 1"
    by (rule exec_stack_cache_push [OF s x val len fit])
  define c' where "c' = (if r
      then (let (sv, p) = push_values x (rsp c) (rst c) in c\<lparr>rst := sv, rsp := p\<rparr>)
      else (let (sv, p) = push_values x (wsp c) (wst c) in c\<lparr>wst := sv, wsp := p\<rparr>))"
  have "buxn_jit_push_ex x r ctx = Some c'"
    using p(1) rc i by (simp add: buxn_jit_push_ex_def c'_def del: op_index.simps)
  moreover have "vwsim c' m' held (vpush r bs v)"
    using p(2) by (cases r) (simp_all add: c'_def split_beta)
  moreover have "steps_to step held ctx m c' m'"
    by (rule steps_to_code [OF p(3)]) (simp_all add: c'_def split_beta)
  moreover have "cached_total c' \<le> cached_total ctx + 1"
    using p(6) by (simp add: c'_def split_beta)
  moreover have "cached_regs c' = cached_regs c"
    by (rule cached_regs_cong) (simp add: act_def c'_def split_beta cache_of_def)
  ultimately show ?thesis using p(4,5) that by metis
qed

lemma exec_push_vsim:
  assumes s: "vsim ctx m held live v" and x: "oreg x \<in> set live" and val: "reg m (oreg x) = bytes_val bs"
    and len: "length bs = opsize (is_short x)" and fit: "length (bs @ vreal v r) \<le> 256"
  obtains ctx' m' where "buxn_jit_push_ex x r ctx = Some ctx'"
    and "vsim ctx' m' held (removeAll (oreg x) live) (vpush r bs v)"
    and "steps_to step live ctx m ctx' m'" and "cached_total ctx' \<le> cached_total ctx + 1"
proof -
  let ?zs = "live @ shadow_regs ctx v"
  have w: "vwsim ctx m held v" and xh: "oreg x \<in> set held"
    using s x by (auto simp: vsim_vwsim)
  obtain ctx' m' c1 where p: "buxn_jit_push_ex x r ctx = Some ctx'"
    "vwsim ctx' m' held (vpush r bs v)" "steps_to step held ctx m ctx' m'"
    "\<forall>q. \<exists>k. act q c1 = drop k (act q ctx)" "mset (cached_regs ctx') = mset (cached_regs c1) + {#oreg x#}"
    "cached_total ctx' \<le> cached_total ctx + 1"
    by (rule exec_push_ex_w [OF w xh val len fit])
  have ds: "distinct (cached_regs ctx @ ?zs)" using s by (simp add: vsim_def)
  have d1: "distinct (cached_regs c1 @ ?zs)" by (rule distinct_cached_drop [OF ds p(4)])
  have rm: "removeAll (oreg x) ?zs = removeAll (oreg x) live @ shadow_regs ctx v"
  proof -
    have "oreg x \<notin> set (shadow_regs ctx v)" using ds x by auto
    then show ?thesis by simp
  qed
  have "mset (cached_regs ctx' @ removeAll (oreg x) ?zs) = mset (cached_regs c1 @ oreg x # removeAll (oreg x) ?zs)"
    using p(5) by simp
  from mset_eq_imp_distinct_iff [OF this] have "distinct (cached_regs ctx' @ removeAll (oreg x) ?zs)"
    using d1 x by (auto simp: distinct_removeAll)
  moreover have "shadow_regs ctx' v = shadow_regs ctx v" by (rule shadow_regs_env [OF steps_toD(2) [OF p(3)]])
  ultimately have "vsim ctx' m' held (removeAll (oreg x) live) (vpush r bs v)"
    using p(2) s unfolding rm by (auto simp: vsim_vwsim)
  moreover have "steps_to step live ctx m ctx' m'" by (rule steps_to_mono [OF p(3) vsimD(11) [OF s]])
  ultimately show ?thesis using p(1,6) that by blast
qed

lemma exec_pop_vsim:
  assumes s: "vsim ctx m held live v" and st: "vtop v r = bs @ xs" and len: "length bs = opsize f"
    and room: "cached_total ctx + length held < 6"
  obtains x ctx' m' where "buxn_jit_pop_ex f r ctx = Some (x, ctx')" and "is_short x = f"
    and "vsim ctx' m' (oreg x # held) (oreg x # live) (vpop r (opsize f) v)" and "reg m' (oreg x) = bytes_val bs"
    and "steps_to step live ctx m ctx' m'" and "cached_total ctx' \<le> cached_total ctx"
proof -
  let ?pv = "pop_value f (esp r ctx) (if r then rst ctx else wst ctx)"
  let ?c = "set_esp r (snd ?pv) ctx"
  have s1: "vsim ?c m held live v" using s by simp
  have room1: "cached_total ?c + length held < 6" using room by simp
  obtain q ctx' m' where p: "buxn_jit_stack_cache_pop r f ?c = Some (q, ctx')"
    "vsim ctx' m' (q # held) (q # live) (vpop r (opsize f) v)" "reg m' q = bytes_val bs"
    "steps_to step live ?c m ctx' m'" "cached_total ctx' \<le> cached_total ?c"
    by (rule exec_stack_cache_pop [OF s1 st len room1])
  have "buxn_jit_pop_ex f r ctx = Some ((fst ?pv)\<lparr>oreg := q\<rparr>, ctx')"
    using p(1) by (simp add: buxn_jit_pop_ex_def split_beta)
  moreover have "is_short (fst ?pv) = f" by (auto simp: pop_value_def Let_def)
  moreover have "steps_to step live ctx m ctx' m'"
    by (rule steps_to_trans [OF steps_to_refl p(4)]) simp_all
  ultimately show ?thesis using p by (intro that [of "(fst ?pv)\<lparr>oreg := q\<rparr>" ctx' m']) simp_all
qed

text \<open>In the ordinary mode.\<close>

lemma exec_push_ex:
  assumes s: "sim ctx m held live st" and v: "oreg v \<in> set live" and val: "reg m (oreg v) = bytes_val bs"
    and len: "length bs = opsize (is_short v)" and fit: "length (bs @ st r) \<le> 256"
  obtains ctx' m' where "buxn_jit_push_ex v r ctx = Some ctx'"
    and "sim ctx' m' held (removeAll (oreg v) live) (st(r := bs @ st r))"
    and "steps_to step live ctx m ctx' m'" and "cached_total ctx' \<le> cached_total ctx + 1"
proof -
  have fit': "length (bs @ vreal (Direct st) r) \<le> 256" using fit by simp
  obtain ctx' m' where p: "buxn_jit_push_ex v r ctx = Some ctx'"
    "sim ctx' m' held (removeAll (oreg v) live) (st(r := bs @ st r))"
    "steps_to step live ctx m ctx' m'" "cached_total ctx' \<le> cached_total ctx + 1"
    by (rule exec_push_vsim [OF s v val len fit']) simp
  then show ?thesis by (rule that)
qed

lemma exec_pop_ex:
  assumes s: "sim ctx m held live st" and st: "st r = bs @ xs" and len: "length bs = opsize f"
    and room: "cached_total ctx + length held < 6"
  obtains v ctx' m' where "buxn_jit_pop_ex f r ctx = Some (v, ctx')" and "is_short v = f"
    and "sim ctx' m' (oreg v # held) (oreg v # live) (st(r := xs))" and "reg m' (oreg v) = bytes_val bs"
    and "steps_to step live ctx m ctx' m'" and "cached_total ctx' \<le> cached_total ctx"
proof -
  have st': "vtop (Direct st) r = bs @ xs" and dr: "drop (opsize f) (st r) = xs" using st len by simp_all
  obtain x ctx' m' where p: "buxn_jit_pop_ex f r ctx = Some (x, ctx')" "is_short x = f"
    "sim ctx' m' (oreg x # held) (oreg x # live) (st(r := drop (opsize f) (st r)))" "reg m' (oreg x) = bytes_val bs"
    "steps_to step live ctx m ctx' m'" "cached_total ctx' \<le> cached_total ctx"
    using exec_pop_vsim [OF s st' len room, unfolded vpop.simps] by blast
  show ?thesis by (rule that [OF p(1,2) p(3) [unfolded dr] p(4-6)])
qed

lemma exec_alloc_sim:
  assumes s: "sim ctx m held live st" and n: "length held < 6"
  obtains q ctx' m' where "buxn_jit_alloc_reg ctx = Some (q, ctx')"
    and "sim ctx' m' (q # held) (q # live) st" and "steps_to step live ctx m ctx' m'"
    and "q \<notin> set live" and "cached_total ctx' \<le> cached_total ctx"
  by (rule exec_alloc_vsim [OF s n, unfolded vseal.simps]) (rule that)

section \<open>Discards\<close>

lemma exec_discard_from_mem:
  assumes s: "sim ctx m held live st" and a: "act r ctx = []" and n: "opsize f \<le> length (st r)"
  obtains m' where "sim (buxn_jit_discard_from_mem f r ctx) m' held live (st(r := drop (opsize f) (st r)))"
    and "steps_to step live ctx m (buxn_jit_discard_from_mem f r ctx) m'"
proof -
  let ?i = "Op2 SLJIT_SUB (Reg (stack_reg r)) (Reg (stack_reg r)) (Imm (if f then 2 else 1))"
  have p: "stack_ptr_reg r ctx = stack_reg r" by (rule direct_ptr [OF simD(7) [OF s]])
  have ex: "step ?i m = set_reg (stack_reg r) (reg m (stack_reg r) - (if f then 2 else 1)) m"
    by (simp add: step_simps)
  have c: "buxn_jit_discard_from_mem f r ctx = emit ?i ctx"
    by (simp add: buxn_jit_discard_from_mem_def p Let_def)
  have ne: "vtop (Direct st) r \<noteq> []" using n by (auto split: if_splits)
  have "vsim ctx (step ?i m) held live (vpop r (opsize f) (Direct st))"
    by (rule vsim_ptr [OF s a ne]) (simp_all add: ex p)
  moreover have "steps_to step live ctx m (emit ?i ctx) (step ?i m)"
    using emits_emit [of step ctx m ?i] simD(8) [OF s, of "stack_reg r"] by (auto simp: steps_to_def ex)
  ultimately show ?thesis by (intro that [of "step ?i m"]) (simp_all add: c)
qed

text \<open>Discarding a whole cell.\<close>

lemma exec_discard_cell:
  assumes s: "sim ctx m held live st" and a: "act r ctx = cs @ [c]" and ne: "st r \<noteq> []"
  obtains ctx' where "buxn_jit_release_reg (oreg (cval c)) (drop_top r ctx) = Some ctx'"
    and "sim ctx' m held live (st(r := drop (length (opbytes m (cval c))) (st r)))"
    and "steps_to step live ctx m ctx' m" and "cached_total ctx' \<le> cached_total ctx"
    and "st r = opbytes m (cval c) @ drop (length (opbytes m (cval c))) (st r)"
proof -
  have ne': "vtop (Direct st) r \<noteq> []" using ne by simp
  note d = drop_top_vsim [OF s ne' a, unfolded vpop.simps vtop.simps] and e = drop_top_core [OF simD(1) [OF s] a]
  have l: "set (live @ shadow_regs (drop_top r ctx) (Direct (st(r := drop (length (opbytes m (cval c))) (st r))))) \<subseteq> set held"
    using simD(12) [OF s] by (simp add: shadow_regs_def)
  have d0: "sim (drop_top r ctx) m ([] @ oreg (cval c) # held) ([] @ oreg (cval c) # live)
      (st(r := drop (length (opbytes m (cval c))) (st r)))" using d(1) by simp
  obtain ctx' where rel: "buxn_jit_release_reg (oreg (cval c)) (drop_top r ctx) = Some ctx'"
    and s2: "sim ctx' m ([] @ held) ([] @ live) (st(r := drop (length (opbytes m (cval c))) (st r)))"
    and cd: "code ctx' = code (drop_top r ctx)" "same_env (drop_top r ctx) ctx'"
    and ct: "cached_total ctx' = cached_total (drop_top r ctx)"
    by (rule vsim_release_own [OF d0 l])
  have t: "steps_to step live ctx m ctx' m"
    using e(7,8) cd by (intro steps_to_refl) (simp_all add: same_env_trans)
  show ?thesis using s2 ct e(9) d(2) by (intro that [OF rel _ t]) simp_all
qed

lemma exec_discard_byte:
  assumes s: "sim ctx m held live st" and st: "st r = x # xs"
  obtains ctx' m' where "stack_cache_discard_byte r ctx = Some ctx'"
    and "sim ctx' m' held live (st(r := xs))" and "steps_to step live ctx m ctx' m'"
    and "cached_total ctx' \<le> cached_total ctx"
proof (cases "act r ctx" rule: rev_cases)
  case Nil
  have n: "opsize False \<le> length (st r)" using st by simp
  obtain m' where "sim (buxn_jit_discard_from_mem False r ctx) m' held live (st(r := drop (opsize False) (st r)))"
    "steps_to step live ctx m (buxn_jit_discard_from_mem False r ctx) m'"
    by (rule exec_discard_from_mem [OF s Nil n])
  moreover have "clen (cache_of r ctx) = 0" using act_empty [OF simD(2) [OF s]] Nil by blast
  moreover have "cached_total (buxn_jit_discard_from_mem False r ctx) \<le> cached_total ctx"
    by (simp add: buxn_jit_discard_from_mem_def Let_def)
  ultimately show ?thesis
    using st by (intro that) (simp_all add: stack_cache_discard_byte_def Let_def)
next
  case (snoc cs c)
  note sn = act_snoc [OF simD(2) [OF s] snoc]
  have ne: "st r \<noteq> []" by (simp add: st)
  show ?thesis
  proof (cases "is_short (cval c)")
    case True
    let ?v = "oreg (cval c)"
    let ?i = "Op2 SLJIT_LSHR (Reg ?v) (Reg ?v) (Imm 8)"
    let ?c = "half_top r (length cs) c ctx"
    have ne': "vtop (Direct st) r \<noteq> []" using ne by simp
    note h = half_top_vsim [OF s ne' snoc True, unfolded vpop.simps]
    have ex: "step ?i m = set_reg ?v (drop_bit 8 (reg m ?v)) m" by (simp add: step_simps)
    have em: "emit ?i ?c = half_top r (length cs) c (emit ?i ctx)" by (simp add: half_top_def set_cache_emit)
    have t: "steps_to step live ctx m (emit ?i ?c) (step ?i m)"
      using emits_emit [of step ctx m ?i] h(3,4) by (auto simp: steps_to_def ex half_top_def emits_def set_cache_emit [symmetric])
    show ?thesis
    proof (rule that [OF _ _ t])
      show "stack_cache_discard_byte r ctx = Some (emit ?i ?c)"
        using sn True by (simp add: stack_cache_discard_byte_def Let_def half_top_def set_cache_emit)
      show "sim (emit ?i ?c) (step ?i m) held live (st(r := xs))" using h(1) st by (simp add: ex)
      show "cached_total (emit ?i ?c) \<le> cached_total ctx" using h(5) by simp
    qed
  next
    case False
    obtain ctx' where d: "buxn_jit_release_reg (oreg (cval c)) (drop_top r ctx) = Some ctx'"
      "sim ctx' m held live (st(r := drop (length (opbytes m (cval c))) (st r)))" "steps_to step live ctx m ctx' m"
      "cached_total ctx' \<le> cached_total ctx" "st r = opbytes m (cval c) @ drop (length (opbytes m (cval c))) (st r)"
      by (rule exec_discard_cell [OF s snoc ne])
    have st': "drop (length (opbytes m (cval c))) (st r) = xs" using d(5) False st by (auto simp: opbytes_if)
    have "stack_cache_discard_byte r ctx = Some ctx'"
      using sn False d(1) by (simp add: stack_cache_discard_byte_def Let_def drop_top_def)
    then show ?thesis by (rule that [OF _ d(2) [unfolded st'] d(3,4)])
  qed
qed

lemma exec_discard_short:
  assumes s: "sim ctx m held live st" and st: "st r = l # h # xs"
  obtains ctx' m' where "stack_cache_discard_short r ctx = Some ctx'"
    and "sim ctx' m' held live (st(r := xs))" and "steps_to step live ctx m ctx' m'"
    and "cached_total ctx' \<le> cached_total ctx"
proof (cases "act r ctx" rule: rev_cases)
  case Nil
  have n: "opsize True \<le> length (st r)" using st by simp
  obtain m' where "sim (buxn_jit_discard_from_mem True r ctx) m' held live (st(r := drop (opsize True) (st r)))"
    "steps_to step live ctx m (buxn_jit_discard_from_mem True r ctx) m'"
    by (rule exec_discard_from_mem [OF s Nil n])
  moreover have "clen (cache_of r ctx) = 0" using act_empty [OF simD(2) [OF s]] Nil by blast
  moreover have "cached_total (buxn_jit_discard_from_mem True r ctx) \<le> cached_total ctx"
    by (simp add: buxn_jit_discard_from_mem_def Let_def)
  ultimately show ?thesis
    using st by (intro that) (simp_all add: stack_cache_discard_short_def Let_def)
next
  case (snoc cs c)
  note sn = act_snoc [OF simD(2) [OF s] snoc]
  have ne: "st r \<noteq> []" by (simp add: st)
  let ?st = "st(r := drop (length (opbytes m (cval c))) (st r))"
  obtain c1 where d: "buxn_jit_release_reg (oreg (cval c)) (drop_top r ctx) = Some c1"
    "sim c1 m held live ?st" "steps_to step live ctx m c1 m"
    "cached_total c1 \<le> cached_total ctx" "st r = opbytes m (cval c) @ drop (length (opbytes m (cval c))) (st r)"
    by (rule exec_discard_cell [OF s snoc ne])
  have dis: "stack_cache_discard_short r ctx = (if is_short (cval c) then Some c1 else stack_cache_discard_byte r c1)"
    using sn d(1) by (simp add: stack_cache_discard_short_def Let_def drop_top_def)
  show ?thesis
  proof (cases "is_short (cval c)")
    case True
    then have "drop (length (opbytes m (cval c))) (st r) = xs" using d(5) st by (auto simp: opbytes_if)
    then show ?thesis using True dis d(2,4) by (intro that [OF _ _ d(3)]) simp_all
  next
    case False
    then have st': "?st r = h # xs" using d(5) st by (auto simp: opbytes_if)
    obtain c2 m2 where d2: "stack_cache_discard_byte r c1 = Some c2" and s2: "sim c2 m2 held live (?st(r := xs))"
      and t2: "steps_to step live c1 m c2 m2" and ct2: "cached_total c2 \<le> cached_total c1"
      by (rule exec_discard_byte [OF d(2) st'])
    show ?thesis
      by (rule that [OF _ s2 [unfolded fun_upd_upd] steps_to_trans [OF d(3) t2]])
        (use False dis d2 ct2 d(4) in simp_all)
  qed
qed

lemma exec_discard:
  assumes s: "sim ctx m held live st" and st: "st r = bs @ xs" and len: "length bs = opsize f"
  obtains ctx' m' where "buxn_jit_stack_cache_discard r f ctx = Some ctx'"
    and "sim ctx' m' held live (st(r := xs))" and "steps_to step live ctx m ctx' m'"
    and "cached_total ctx' \<le> cached_total ctx"
proof (cases rule: opsize_cases [OF len])
  case (1 x)
  then have st': "st r = x # xs" using st by simp
  show ?thesis
    by (rule exec_discard_byte [OF s st']) (use that 1 in \<open>simp add: buxn_jit_stack_cache_discard_def\<close>)
next
  case (2 l h)
  then have st': "st r = l # h # xs" using st by simp
  show ?thesis
    by (rule exec_discard_short [OF s st']) (use that 2 in \<open>simp add: buxn_jit_stack_cache_discard_def\<close>)
qed

end

end
