(* ===== verification/Uxn_Spec.thy ===== *)
theory Uxn_Spec
  imports Jit_Compile
begin

text \<open>
  What the opcodes are meant to do, as a function on the bytes of the stacks, top first (a short lies
  with its low byte on top), the memory and the program counter. An operand is the list of its one or
  two bytes. The result is \<open>None\<close> when a stack runs under or over, and for breaks and the
  opcodes of \<open>Uxn_Control\<close>: jumps, device accesses and divisions. This is the specification the emitted code is measured against.
\<close>

section \<open>Stack operations\<close>

definition short_bytes :: "u16 \<Rightarrow> u8 list" where
  "short_bytes w = [lo_byte w, hi_byte w]"

definition bool_byte :: "bool \<Rightarrow> u8" where
  "bool_byte b = (if b then 1 else 0)"

definition width :: "bool \<Rightarrow> nat" where
  "width short = (if short then 2 else 1)"

text \<open>The first bytes of a list, if there are enough.\<close>

definition split_at :: "nat \<Rightarrow> 'a list \<Rightarrow> ('a list \<times> 'a list) option" where
  "split_at n xs = (if n \<le> length xs then Some (take n xs, drop n xs) else None)"

definition uxn_inc :: "u8 list \<Rightarrow> u8 list" where
  "uxn_inc a = (case a of [x] \<Rightarrow> [x + 1] | [l, h] \<Rightarrow> short_bytes (short_of h l + 1) | _ \<Rightarrow> [])"

text \<open>\<open>SFT\<close>: shift right by the low nibble, then left by the high nibble.\<close>

definition uxn_shift :: "'a::len word \<Rightarrow> u8 \<Rightarrow> 'a word" where
  "uxn_shift a b = push_bit (unat (drop_bit 4 b)) (drop_bit (unat (b AND 0x0f)) a)"

definition uxn_sft :: "u8 list \<Rightarrow> u8 \<Rightarrow> u8 list" where
  "uxn_sft a b =
     (case a of [x] \<Rightarrow> [uxn_shift x b] | [l, h] \<Rightarrow> short_bytes (uxn_shift (short_of h l) b) | _ \<Rightarrow> [])"

definition uxn_alu :: "opname \<Rightarrow> 'a::len word \<Rightarrow> 'a word \<Rightarrow> 'a word" where
  "uxn_alu oper a b =
     (case oper of
        OP_ADD \<Rightarrow> a + b | OP_SUB \<Rightarrow> a - b | OP_MUL \<Rightarrow> a * b
      | OP_AND \<Rightarrow> a AND b | OP_ORA \<Rightarrow> a OR b | OP_EOR \<Rightarrow> a XOR b
      | _ \<Rightarrow> 0)"

definition uxn_cmp :: "opname \<Rightarrow> 'a::len word \<Rightarrow> 'a word \<Rightarrow> bool" where
  "uxn_cmp oper a b =
     (case oper of
        OP_EQU \<Rightarrow> a = b | OP_NEQ \<Rightarrow> a \<noteq> b | OP_GTH \<Rightarrow> a > b | OP_LTH \<Rightarrow> a < b
      | _ \<Rightarrow> False)"

definition uxn_arith :: "opname \<Rightarrow> u8 list \<Rightarrow> u8 list \<Rightarrow> u8 list" where
  "uxn_arith oper a b =
     (case (a, b) of
        ([x], [y]) \<Rightarrow> [uxn_alu oper x y]
      | ([al, ah], [bl, bh]) \<Rightarrow> short_bytes (uxn_alu oper (short_of ah al) (short_of bh bl))
      | _ \<Rightarrow> [])"

definition uxn_compare :: "opname \<Rightarrow> u8 list \<Rightarrow> u8 list \<Rightarrow> u8 list" where
  "uxn_compare oper a b =
     (case (a, b) of
        ([x], [y]) \<Rightarrow> [bool_byte (uxn_cmp oper x y)]
      | ([al, ah], [bl, bh]) \<Rightarrow> [bool_byte (uxn_cmp oper (short_of ah al) (short_of bh bl))]
      | _ \<Rightarrow> [])"

definition is_arith :: "opname \<Rightarrow> bool" where
  "is_arith oper \<longleftrightarrow> oper \<in> {OP_ADD, OP_SUB, OP_MUL, OP_AND, OP_ORA, OP_EOR}"

definition is_compare :: "opname \<Rightarrow> bool" where
  "is_compare oper \<longleftrightarrow> oper \<in> {OP_EQU, OP_NEQ, OP_GTH, OP_LTH}"

text \<open>The bytes an opcode leaves for its operands, and what lies below the operands.\<close>

definition uxn_stack :: "opname \<Rightarrow> bool \<Rightarrow> u8 list \<Rightarrow> (u8 list \<times> u8 list) option" where
  "uxn_stack oper short s =
     (let w = width short in
      if oper = OP_INC then do { (a, s) \<leftarrow> split_at w s; Some (uxn_inc a, s) }
      else if oper = OP_POP then do { (a, s) \<leftarrow> split_at w s; Some ([], s) }
      else if oper = OP_NIP then do { (b, s) \<leftarrow> split_at w s; (a, s) \<leftarrow> split_at w s; Some (b, s) }
      else if oper = OP_SWP then do { (b, s) \<leftarrow> split_at w s; (a, s) \<leftarrow> split_at w s; Some (a @ b, s) }
      else if oper = OP_ROT then
        do { (c, s) \<leftarrow> split_at w s; (b, s) \<leftarrow> split_at w s; (a, s) \<leftarrow> split_at w s; Some (a @ c @ b, s) }
      else if oper = OP_DUP then do { (a, s) \<leftarrow> split_at w s; Some (a @ a, s) }
      else if oper = OP_OVR then
        do { (b, s) \<leftarrow> split_at w s; (a, s) \<leftarrow> split_at w s; Some (a @ b @ a, s) }
      else if oper = OP_SFT then
        do { (b, s) \<leftarrow> split_at 1 s; (a, s) \<leftarrow> split_at w s; Some (uxn_sft a (hd b), s) }
      else if is_arith oper then
        do { (b, s) \<leftarrow> split_at w s; (a, s) \<leftarrow> split_at w s; Some (uxn_arith oper a b, s) }
      else if is_compare oper then
        do { (b, s) \<leftarrow> split_at w s; (a, s) \<leftarrow> split_at w s; Some (uxn_compare oper a b, s) }
      else None)"

text \<open>In keep mode the operands stay where they are.\<close>

definition remaining :: "bool \<Rightarrow> 'a list \<Rightarrow> 'a list \<Rightarrow> 'a list" where
  "remaining keep s rest = (if keep then s else rest)"

section \<open>Memory\<close>

text \<open>Reading and writing memory: the second byte of a short at a zero-page address wraps within the
  page, elsewhere within the address space. Bytes are listed low byte first, as on the stack.\<close>

definition next_addr :: "bool \<Rightarrow> u16 \<Rightarrow> u16" where
  "next_addr addr_short a = (if addr_short then a + 1 else (a + 1) AND 0xff)"

definition peek :: "bool \<Rightarrow> bool \<Rightarrow> (u16 \<Rightarrow> u8) \<Rightarrow> u16 \<Rightarrow> u8 list" where
  "peek addr_short short ram a = (if short then [ram (next_addr addr_short a), ram a] else [ram a])"

definition poke :: "bool \<Rightarrow> (u16 \<Rightarrow> u8) \<Rightarrow> u16 \<Rightarrow> u8 list \<Rightarrow> u16 \<Rightarrow> u8" where
  "poke addr_short ram a bs =
     (case bs of
        [l, h] \<Rightarrow> ram(a := h, next_addr addr_short a := l)
      | [x] \<Rightarrow> ram(a := x)
      | _ \<Rightarrow> ram)"

text \<open>The address operand of the three kinds of memory opcodes: zero page, relative, absolute.\<close>

datatype addr_mode = Zero_page | Relative | Absolute

definition addr_of :: "addr_mode \<Rightarrow> u16 \<Rightarrow> u8 list \<Rightarrow> u16" where
  "addr_of mode p bs =
     (case (mode, bs) of
        (Zero_page, [b]) \<Rightarrow> ucast b
      | (Relative, [b]) \<Rightarrow> p + scast b
      | (Absolute, [l, h]) \<Rightarrow> short_of h l
      | _ \<Rightarrow> 0)"

section \<open>One instruction of the virtual machine\<close>

text \<open>The mode bits of an opcode byte; the immediate jumps and \<open>BRK\<close> have none, the literals no keep bit.\<close>

definition mode_2 :: "u8 \<Rightarrow> bool" where
  "mode_2 b \<longleftrightarrow> b AND 0x20 \<noteq> 0 \<and> b \<notin> {0x20, 0x40, 0x60}"

definition mode_r :: "u8 \<Rightarrow> bool" where
  "mode_r b \<longleftrightarrow> b AND 0x40 \<noteq> 0 \<and> b \<notin> {0x20, 0x40, 0x60}"

definition mode_k :: "u8 \<Rightarrow> bool" where
  "mode_k b \<longleftrightarrow> b AND 0x80 \<noteq> 0 \<and> b \<notin> {0x80, 0xa0, 0xc0, 0xe0}"

text \<open>The state: the two stacks, the memory, the device page, the memory of the host in which the devices live, the program
  counter.\<close>

record uxn_state =
  ustk :: "bool \<Rightarrow> u8 list"
  uram :: "u16 \<Rightarrow> u8"
  udev :: "u8 \<Rightarrow> u8"
  uhost :: "uw \<Rightarrow> u8"
  upc :: u16

definition set_stack :: "bool \<Rightarrow> u8 list \<Rightarrow> uxn_state \<Rightarrow> uxn_state option" where
  "set_stack r s u = (if length s \<le> 256 then Some (u\<lparr>ustk := (ustk u)(r := s)\<rparr>) else None)"

definition uxn_load :: "addr_mode \<Rightarrow> bool \<Rightarrow> bool \<Rightarrow> bool \<Rightarrow> uxn_state \<Rightarrow> uxn_state option" where
  "uxn_load mode short r keep u =
     do {
       (a, s) \<leftarrow> split_at (width (mode = Absolute)) (ustk u r);
       set_stack r (peek (mode \<noteq> Zero_page) short (uram u) (addr_of mode (upc u) a) @ remaining keep (ustk u r) s) u
     }"

definition uxn_store :: "addr_mode \<Rightarrow> bool \<Rightarrow> bool \<Rightarrow> bool \<Rightarrow> uxn_state \<Rightarrow> uxn_state option" where
  "uxn_store mode short r keep u =
     do {
       (a, s) \<leftarrow> split_at (width (mode = Absolute)) (ustk u r);
       (v, s) \<leftarrow> split_at (width short) s;
       Some (u\<lparr>ustk := (ustk u)(r := remaining keep (ustk u r) s),
         uram := poke (mode \<noteq> Zero_page) (uram u) (addr_of mode (upc u) a) v\<rparr>)
     }"

definition uxn_stash :: "bool \<Rightarrow> bool \<Rightarrow> bool \<Rightarrow> uxn_state \<Rightarrow> uxn_state option" where
  "uxn_stash short r keep u =
     do {
       (a, s) \<leftarrow> split_at (width short) (ustk u r);
       set_stack (\<not> r) (a @ ustk u (\<not> r)) (u\<lparr>ustk := (ustk u)(r := remaining keep (ustk u r) s)\<rparr>)
     }"

definition uxn_lit :: "bool \<Rightarrow> bool \<Rightarrow> uxn_state \<Rightarrow> uxn_state option" where
  "uxn_lit short r u =
     set_stack r (peek True short (uram u) (upc u) @ ustk u r) (u\<lparr>upc := upc u + (if short then 2 else 1)\<rparr>)"

text \<open>One instruction, its opcode byte \<open>b\<close> already fetched and the program counter behind it. \<open>None\<close>: a
  stack runs over or under, or the instruction is a jump, a device access, a division or a break.\<close>

definition uxn_instr :: "opname \<Rightarrow> u8 \<Rightarrow> uxn_state \<Rightarrow> uxn_state option" where
  "uxn_instr oper b u =
     (case oper of
        OP_LDZ \<Rightarrow> uxn_load Zero_page (mode_2 b) (mode_r b) (mode_k b) u
      | OP_LDR \<Rightarrow> uxn_load Relative (mode_2 b) (mode_r b) (mode_k b) u
      | OP_LDA \<Rightarrow> uxn_load Absolute (mode_2 b) (mode_r b) (mode_k b) u
      | OP_STZ \<Rightarrow> uxn_store Zero_page (mode_2 b) (mode_r b) (mode_k b) u
      | OP_STR \<Rightarrow> uxn_store Relative (mode_2 b) (mode_r b) (mode_k b) u
      | OP_STA \<Rightarrow> uxn_store Absolute (mode_2 b) (mode_r b) (mode_k b) u
      | OP_STH \<Rightarrow> uxn_stash (mode_2 b) (mode_r b) (mode_k b) u
      | OP_LIT \<Rightarrow> uxn_lit (mode_2 b) (mode_r b) u
      | _ \<Rightarrow>
          do {
            (out, s) \<leftarrow> uxn_stack oper (mode_2 b) (ustk u (mode_r b));
            set_stack (mode_r b) (out @ remaining (mode_k b) (ustk u (mode_r b)) s) u
          })"

definition uxn_step :: "(u8 \<Rightarrow> opname) \<Rightarrow> u8 \<Rightarrow> uxn_state \<Rightarrow> uxn_state option" where
  "uxn_step decode b u = uxn_instr (decode b) b (u\<lparr>upc := upc u + 1\<rparr>)"

end
