(* ===== verification/Sim_Ops.thy ===== *)
theory Sim_Ops
  imports Sim_Push Uxn_Spec
begin

text \<open>
  The opcode handlers that work on one stack, run: the code a handler emits turns a stack that holds
  the operands into one that holds the result of \<open>Uxn_Spec\<close>, wherever the operands were cached.
\<close>

section \<open>Common prefixes of the handlers\<close>

text \<open>The handlers of \<^verbatim>\<open>ADD\<close>, \<^verbatim>\<open>SUB\<close>, \<^verbatim>\<open>MUL\<close>, \<^verbatim>\<open>AND\<close>, \<^verbatim>\<open>ORA\<close> and \<^verbatim>\<open>EOR\<close> differ in the
  instruction, in what they compute at compile time, and in whether they mask the result.\<close>

definition arith ::
  "op2 \<Rightarrow> bool \<Rightarrow> (u16 \<Rightarrow> u16 \<Rightarrow> u16) \<Rightarrow> buxn_jit_ctx \<Rightarrow> buxn_jit_ctx option" where
  "arith bop wrap f ctx =
     do {
       (b, ctx) \<leftarrow> buxn_jit_pop ctx;
       (a, ctx) \<leftarrow> buxn_jit_pop ctx;
       (r, ctx) \<leftarrow> buxn_jit_alloc_reg ctx;
       let c = const_result a b (is_short b) (f (const_value a) (const_value b)) r;
       let ctx = emit (Op2 bop (Reg r) (Reg (oreg a)) (Reg (oreg b))) ctx;
       buxn_jit_push c (if wrap then buxn_jit_wrap_around c ctx else ctx)
     }"

lemma arith_handlers:
  "buxn_jit_ADD ctx = arith SLJIT_ADD True (+) ctx"
  "buxn_jit_SUB ctx = arith SLJIT_SUB True (-) ctx"
  "buxn_jit_MUL ctx = arith SLJIT_MUL True (*) ctx"
  "buxn_jit_AND ctx = arith SLJIT_AND False (AND) ctx"
  "buxn_jit_ORA ctx = arith SLJIT_OR False (OR) ctx"
  "buxn_jit_EOR ctx = arith SLJIT_XOR False (XOR) ctx"
  by (simp_all add: buxn_jit_ADD_def buxn_jit_SUB_def buxn_jit_MUL_def buxn_jit_AND_def
      buxn_jit_ORA_def buxn_jit_EOR_def arith_def Let_def)

text \<open>The value a register has after masking it to the width of the opcode.\<close>

definition masked :: "bool \<Rightarrow> uw \<Rightarrow> uw" where
  "masked f w = (if f then ucast (ucast w :: u16) else ucast (ucast w :: u8))"

context sljit_exec
begin

lemma exec_pop_view:
  assumes s: "vsim ctx m held live V" and st: "vtop V (buxn_jit_op_flag_r ctx) = bs @ xs"
    and len: "length bs = opsize (buxn_jit_op_flag_2 ctx)" and room: "cached_total ctx + length held < 6"
  obtains x ctx' m' where "buxn_jit_pop ctx = Some (x, ctx')" and "is_short x = buxn_jit_op_flag_2 ctx"
    and "vsim ctx' m' (oreg x # held) (oreg x # live) (vpop (buxn_jit_op_flag_r ctx) (length bs) V)"
    and "reg m' (oreg x) = bytes_val bs"
    and "steps_to step live ctx m ctx' m'" and "cached_total ctx' \<le> cached_total ctx"
  by (rule exec_pop_vsim [OF s st len room]) (rule that, simp_all add: buxn_jit_pop_def len)

lemma exec_pop:
  assumes s: "sim ctx m held live st" and st: "st (buxn_jit_op_flag_r ctx) = bs @ xs"
    and len: "length bs = opsize (buxn_jit_op_flag_2 ctx)" and room: "cached_total ctx + length held < 6"
  obtains v ctx' m' where "buxn_jit_pop ctx = Some (v, ctx')" and "is_short v = buxn_jit_op_flag_2 ctx"
    and "sim ctx' m' (oreg v # held) (oreg v # live) (st(buxn_jit_op_flag_r ctx := xs))"
    and "reg m' (oreg v) = bytes_val bs"
    and "steps_to step live ctx m ctx' m'" and "cached_total ctx' \<le> cached_total ctx"
  using exec_pop_ex [OF s st len room] unfolding buxn_jit_pop_def by metis

text \<open>Two pops. In keep mode the handler starts with the two shadow pointers among its registers \<open>h\<close>.\<close>

lemma exec_pop2:
  assumes s: "vsim ctx m h [] V" and st: "vtop V (buxn_jit_op_flag_r ctx) = bs @ as @ xs"
    and len: "length bs = opsize fb" "length as = opsize (buxn_jit_op_flag_2 ctx)"
    and room: "cached_total ctx + length h \<le> 4"
  obtains b c1 a c2 m2 where "buxn_jit_pop_ex fb (buxn_jit_op_flag_r ctx) ctx = Some (b, c1)"
    and "buxn_jit_pop c1 = Some (a, c2)"
    and "is_short b = fb" and "is_short a = buxn_jit_op_flag_2 ctx"
    and "vsim c2 m2 (oreg a # oreg b # h) [oreg a, oreg b] (vpop (buxn_jit_op_flag_r ctx) (length (bs @ as)) V)"
    and "reg m2 (oreg a) = bytes_val as" and "reg m2 (oreg b) = bytes_val bs"
    and "steps_to step [] ctx m c2 m2" and "cached_total c2 \<le> cached_total ctx"
proof -
  let ?r = "buxn_jit_op_flag_r ctx" and ?f = "buxn_jit_op_flag_2 ctx"
  have room0: "cached_total ctx + length h < 6" using room by simp
  obtain b c1 m1 where p1: "buxn_jit_pop_ex fb ?r ctx = Some (b, c1)" "is_short b = fb"
    "vsim c1 m1 (oreg b # h) [oreg b] (vpop ?r (opsize fb) V)" "reg m1 (oreg b) = bytes_val bs"
    "steps_to step [] ctx m c1 m1" "cached_total c1 \<le> cached_total ctx"
    by (rule exec_pop_vsim [OF s st len(1) room0])
  have fl: "buxn_jit_op_flag_2 c1 = ?f" "buxn_jit_op_flag_r c1 = ?r"
    using same_env_flags [OF steps_toD(2) [OF p1(5)]] by simp_all
  have st1: "vtop (vpop ?r (opsize fb) V) (buxn_jit_op_flag_r c1) = as @ xs"
    unfolding fl vtop_vpop st len(1) [symmetric] by simp
  have len1: "length as = opsize (buxn_jit_op_flag_2 c1)" using len(2) by (simp add: fl)
  have room1: "cached_total c1 + length (oreg b # h) < 6" using room p1(6) by simp
  obtain a c2 m2 where p2: "buxn_jit_pop c1 = Some (a, c2)" "is_short a = buxn_jit_op_flag_2 c1"
    "vsim c2 m2 (oreg a # oreg b # h) [oreg a, oreg b] (vpop (buxn_jit_op_flag_r c1) (length as) (vpop ?r (opsize fb) V))"
    "reg m2 (oreg a) = bytes_val as" "steps_to step [oreg b] c1 m1 c2 m2" "cached_total c2 \<le> cached_total c1"
    by (rule exec_pop_view [OF p1(3) st1 len1 room1])
  have s2: "vsim c2 m2 (oreg a # oreg b # h) [oreg a, oreg b] (vpop ?r (length (bs @ as)) V)"
    using p2(3) unfolding fl vpop_vpop length_append len(1) .
  show ?thesis
    by (rule that [OF p1(1) p2(1) p1(2) _ s2])
      (use p1 p2 steps_toD(3) [OF p2(5), of "oreg b"] steps_to_trans [OF p1(5) p2(5)] in \<open>simp_all add: fl\<close>)
qed

text \<open>Masking a register to the width of the opcode.\<close>

lemma exec_wrap:
  "step (Op2 SLJIT_AND (Reg q) (Reg q) (Imm (if f then 0xffff else 0xff))) m =
     set_reg q (if f then ucast (ucast (reg m q) :: u16) else ucast (ucast (reg m q) :: u8)) m"
  by (simp add: step_simps and_0xff and_0xffff)

text \<open>The end of a handler: the result is in \<open>q\<close>, which is pushed.\<close>

lemma exec_push_result:
  assumes s: "vsim ctx m held live V" and v: "oreg v \<in> set live" and val: "reg m (oreg v) = bytes_val cs"
    and len: "length cs = opsize (is_short v)" and fit: "length (cs @ vreal V r) \<le> 256"
    and t: "steps_to step [] ctx0 m0 ctx m" and r: "buxn_jit_op_flag_r ctx0 = r"
  obtains ctx' m' where "buxn_jit_push v ctx = Some ctx'"
    and "vsim ctx' m' held (removeAll (oreg v) live) (vpush r cs V)"
    and "steps_to step [] ctx0 m0 ctx' m'" and "\<forall>q \<in> set live. reg m' q = reg m q"
proof -
  have fl: "buxn_jit_op_flag_r ctx = r" using same_env_flags [OF steps_toD(2) [OF t]] r by simp
  obtain ctx' m' where p: "buxn_jit_push_ex v r ctx = Some ctx'"
    "vsim ctx' m' held (removeAll (oreg v) live) (vpush r cs V)" "steps_to step live ctx m ctx' m'"
    by (rule exec_push_vsim [OF s v val len fit])
  show ?thesis
    by (rule that [OF _ p(2) steps_to_trans [OF t p(3)]])
      (use p(1) steps_toD(3) [OF p(3)] in \<open>simp_all add: buxn_jit_push_def fl\<close>)
qed

lemma exec_push_last:
  assumes s: "vsim ctx m held live V" and v: "oreg v \<in> set live" and val: "reg m (oreg v) = bytes_val cs"
    and len: "length cs = opsize (is_short v)" and fit: "length (cs @ vreal V r) \<le> 256"
    and t: "steps_to step [] ctx0 m0 ctx m" and r: "buxn_jit_op_flag_r ctx0 = r"
  obtains ctx' m' where "buxn_jit_push v ctx = Some ctx'" and "vsim ctx' m' held [] (vpush r cs V)"
    and "steps_to step [] ctx0 m0 ctx' m'"
proof -
  obtain ctx' m' where p: "buxn_jit_push v ctx = Some ctx'" "vsim ctx' m' held (removeAll (oreg v) live) (vpush r cs V)"
    "steps_to step [] ctx0 m0 ctx' m'"
    by (rule exec_push_result [OF s v val len fit t r])
  show ?thesis by (rule that [OF p(1) vsim_weaken [OF p(2)] p(3)]) simp_all
qed

text \<open>An instruction that only writes the register \<open>q\<close>, which the handler owns.\<close>

lemma emit_own:
  assumes s: "vsim ctx m held live V" and q: "q \<in> set live" and e: "step i m = set_reg q w m"
    and t: "steps_to step [] ctx0 m0 ctx m"
  shows "vsim (emit i ctx) (set_reg q w m) held live V"
    and "steps_to step [] ctx0 m0 (emit i ctx) (set_reg q w m)"
proof -
  show "vsim (emit i ctx) (set_reg q w m) held live V" using vsim_set_reg [OF s] q by simp
  have "steps_to step [] ctx m (emit i ctx) (set_reg q w m)"
    using emits_emit [of step ctx m i] vsimD(7) [OF s q] by (auto simp: steps_to_def e)
  then show "steps_to step [] ctx0 m0 (emit i ctx) (set_reg q w m)" by (rule steps_to_trans [OF t]) simp
qed

section \<open>Binary operations\<close>

text \<open>Two pops and a register for the result.\<close>

lemma exec_pop2_alloc:
  assumes s: "vsim ctx m h [] V" and hl: "length h \<le> 2" and st: "vtop V (buxn_jit_op_flag_r ctx) = bs @ as @ xs"
    and len: "length bs = opsize fb" "length as = opsize (buxn_jit_op_flag_2 ctx)"
    and room: "cached_total ctx + length h \<le> 4"
  obtains b c1 a c2 q c3 m3 U where "buxn_jit_pop_ex fb (buxn_jit_op_flag_r ctx) ctx = Some (b, c1)"
    and "buxn_jit_pop c1 = Some (a, c2)" and "buxn_jit_alloc_reg c2 = Some (q, c3)"
    and "is_short b = fb" and "is_short a = buxn_jit_op_flag_2 ctx"
    and "vsim c3 m3 (q # oreg a # oreg b # h) [q, oreg a, oreg b] U"
    and "reg m3 (oreg a) = bytes_val as" and "reg m3 (oreg b) = bytes_val bs" and "steps_to step [] ctx m c3 m3"
    and "vreal U = (vreal V)(buxn_jit_op_flag_r ctx := kept V (buxn_jit_op_flag_r ctx) xs)"
proof -
  let ?r = "buxn_jit_op_flag_r ctx"
  obtain b c1 a c2 m2 where p: "buxn_jit_pop_ex fb ?r ctx = Some (b, c1)" "buxn_jit_pop c1 = Some (a, c2)"
    "is_short b = fb" "is_short a = buxn_jit_op_flag_2 ctx"
    "vsim c2 m2 (oreg a # oreg b # h) [oreg a, oreg b] (vpop ?r (length (bs @ as)) V)"
    "reg m2 (oreg a) = bytes_val as" "reg m2 (oreg b) = bytes_val bs" "steps_to step [] ctx m c2 m2"
    by (rule exec_pop2 [OF s st len room])
  have n: "length (oreg a # oreg b # h) < 6" using hl by simp
  obtain q c3 m3 where al: "buxn_jit_alloc_reg c2 = Some (q, c3)"
    and s3: "vsim c3 m3 (q # oreg a # oreg b # h) [q, oreg a, oreg b] (vseal (vpop ?r (length (bs @ as)) V))"
    and t3: "steps_to step [oreg a, oreg b] c2 m2 c3 m3"
    by (rule exec_alloc_vsim [OF p(5) n])
  have v3: "reg m3 (oreg a) = bytes_val as" "reg m3 (oreg b) = bytes_val bs"
    using steps_toD(3) [OF t3] p(6,7) by simp_all
  have t03: "steps_to step [] ctx m c3 m3" by (rule steps_to_trans [OF p(8) t3]) simp
  have "vtop V ?r = (bs @ as) @ xs" using st by simp
  from vreal_vpop [OF this] show ?thesis by (intro that [OF p(1,2) al p(3,4) s3 v3 t03]) simp
qed

lemma exec_arith:
  assumes s: "vsim ctx m h [] V" and hl: "length h \<le> 2" and st: "vtop V (buxn_jit_op_flag_r ctx) = bs @ as @ xs"
    and len: "length bs = opsize (buxn_jit_op_flag_2 ctx)" "length as = opsize (buxn_jit_op_flag_2 ctx)"
    and room: "cached_total ctx + length h \<le> 4" and bop: "bop \<noteq> SLJIT_SHL" "bop \<noteq> SLJIT_LSHR"
    and lc: "length cs = opsize (buxn_jit_op_flag_2 ctx)"
    and fit: "length (cs @ kept V (buxn_jit_op_flag_r ctx) xs) \<le> 256"
    and res: "(if wrap then masked (buxn_jit_op_flag_2 ctx) (op2_val bop (bytes_val as) (bytes_val bs))
      else op2_val bop (bytes_val as) (bytes_val bs)) = bytes_val cs"
  obtains ctx' m' held V' where "arith bop wrap g ctx = Some ctx'" and "vsim ctx' m' held [] V'"
    and "vreal V' = (vreal V)(buxn_jit_op_flag_r ctx := cs @ kept V (buxn_jit_op_flag_r ctx) xs)"
    and "steps_to step [] ctx m ctx' m'"
proof -
  let ?r = "buxn_jit_op_flag_r ctx" and ?f = "buxn_jit_op_flag_2 ctx"
  obtain b c1 a c2 q c3 m3 U where p: "buxn_jit_pop_ex ?f ?r ctx = Some (b, c1)" "buxn_jit_pop c1 = Some (a, c2)"
    "buxn_jit_alloc_reg c2 = Some (q, c3)" "is_short b = ?f" "is_short a = ?f"
    "vsim c3 m3 (q # oreg a # oreg b # h) [q, oreg a, oreg b] U"
    "reg m3 (oreg a) = bytes_val as" "reg m3 (oreg b) = bytes_val bs" "steps_to step [] ctx m c3 m3"
    "vreal U = (vreal V)(?r := kept V ?r xs)"
    by (rule exec_pop2_alloc [OF s hl st len room])
  let ?w = "op2_val bop (bytes_val as) (bytes_val bs)"
  let ?i = "Op2 bop (Reg q) (Reg (oreg a)) (Reg (oreg b))"
  have e4: "step ?i m3 = set_reg q ?w m3" using bop p(7,8) by (simp add: step_op2)
  have q: "q \<in> set [q, oreg a, oreg b]" by simp
  note s4 = emit_own [OF p(6) q e4 p(9)]
  define v where "v = const_result a b (is_short b) (g (const_value a) (const_value b)) q"
  have v: "oreg v = q" "is_short v = ?f" by (simp_all add: v_def const_result_def p(4))
  have fl: "buxn_jit_op_flag_2 (emit ?i c3) = ?f"
    using same_env_flags [OF steps_toD(2) [OF s4(2)]] by simp
  define c5 where "c5 = (if wrap then buxn_jit_wrap_around v (emit ?i c3) else emit ?i c3)"
  have s5: "vsim c5 (set_reg q (bytes_val cs) m3) (q # oreg a # oreg b # h) [q, oreg a, oreg b] U"
    and t5: "steps_to step [] ctx m c5 (set_reg q (bytes_val cs) m3)"
  proof -
    let ?j = "Op2 SLJIT_AND (Reg q) (Reg q) (Imm (if ?f then 0xffff else 0xff))"
    have c5: "c5 = (if wrap then emit ?j (emit ?i c3) else emit ?i c3)"
      by (simp add: c5_def buxn_jit_wrap_around_def v fl)
    have e5: "step ?j (set_reg q ?w m3) = set_reg q (bytes_val cs) (set_reg q ?w m3)" if wrap
      unfolding exec_wrap using res that by (simp add: masked_def split: if_splits)
    show "vsim c5 (set_reg q (bytes_val cs) m3) (q # oreg a # oreg b # h) [q, oreg a, oreg b] U"
      using emit_own(1) [OF s4(1) q e5 s4(2)] s4(1) res by (cases wrap) (simp_all add: c5)
    show "steps_to step [] ctx m c5 (set_reg q (bytes_val cs) m3)"
      using emit_own(2) [OF s4(1) q e5 s4(2)] s4(2) res by (cases wrap) (simp_all add: c5)
  qed
  have vl: "oreg v \<in> set [q, oreg a, oreg b]" and val: "reg (set_reg q (bytes_val cs) m3) (oreg v) = bytes_val cs"
    and lv: "length cs = opsize (is_short v)" and fit5: "length (cs @ vreal U ?r) \<le> 256"
    using fit by (simp_all add: v lc p(10))
  obtain ctx' m' where pu: "buxn_jit_push v c5 = Some ctx'" "vsim ctx' m' (q # oreg a # oreg b # h) [] (vpush ?r cs U)"
    "steps_to step [] ctx m ctx' m'"
    by (rule exec_push_last [OF s5 vl val lv fit5 t5 refl])
  have "arith bop wrap g ctx = Some ctx'"
    using p(1-3) pu(1)
    by (cases wrap) (simp_all add: arith_def buxn_jit_pop_def Let_def v_def [symmetric] c5_def)
  then show ?thesis by (rule that [OF _ pu(2) _ pu(3)]) (simp add: p(10))
qed

section \<open>Comparisons\<close>

lemma exec_compare:
  assumes s: "vsim ctx m h [] V" and hl: "length h \<le> 2" and st: "vtop V (buxn_jit_op_flag_r ctx) = bs @ as @ xs"
    and len: "length bs = opsize (buxn_jit_op_flag_2 ctx)" "length as = opsize (buxn_jit_op_flag_2 ctx)"
    and room: "cached_total ctx + length h \<le> 4" and fit: "length (x # kept V (buxn_jit_op_flag_r ctx) xs) \<le> 256"
    and fl: "\<And>a b m. is_value a \<Longrightarrow> is_value b \<Longrightarrow> \<exists>f. step (Op2u SLJIT_SUB fs a b) m = m\<lparr>flag := f\<rparr> \<and> f c = P (rd m a) (rd m b)"
    and x: "x = bool_byte (P (bytes_val as) (bytes_val bs))"
  obtains ctx' m' held V' where "compare_op fs c ctx = Some ctx'" and "vsim ctx' m' held [] V'"
    and "vreal V' = (vreal V)(buxn_jit_op_flag_r ctx := x # kept V (buxn_jit_op_flag_r ctx) xs)"
    and "steps_to step [] ctx m ctx' m'"
proof -
  let ?r = "buxn_jit_op_flag_r ctx" and ?f = "buxn_jit_op_flag_2 ctx"
  obtain b c1 a c2 q c3 m3 U where p: "buxn_jit_pop_ex ?f ?r ctx = Some (b, c1)" "buxn_jit_pop c1 = Some (a, c2)"
    "buxn_jit_alloc_reg c2 = Some (q, c3)" "is_short b = ?f" "is_short a = ?f"
    "vsim c3 m3 (q # oreg a # oreg b # h) [q, oreg a, oreg b] U"
    "reg m3 (oreg a) = bytes_val as" "reg m3 (oreg b) = bytes_val bs" "steps_to step [] ctx m c3 m3"
    "vreal U = (vreal V)(?r := kept V ?r xs)"
    by (rule exec_pop2_alloc [OF s hl st len room])
  let ?i = "Op2u SLJIT_SUB fs (Reg (oreg a)) (Reg (oreg b))"
  obtain f where f: "step ?i m3 = m3\<lparr>flag := f\<rparr>" "f c = P (bytes_val as) (bytes_val bs)"
    using fl [of "Reg (oreg a)" "Reg (oreg b)" m3] p(7,8) by auto
  have s4: "vsim (emit ?i c3) (m3\<lparr>flag := f\<rparr>) (q # oreg a # oreg b # h) [q, oreg a, oreg b] U"
    using vsim_flag [OF p(6)] by simp
  have "steps_to step [] c3 m3 (emit ?i c3) (m3\<lparr>flag := f\<rparr>)"
    using emits_emit [of step c3 m3 ?i] by (simp add: steps_to_def f)
  then have t4: "steps_to step [] ctx m (emit ?i c3) (m3\<lparr>flag := f\<rparr>)" by (rule steps_to_trans [OF p(9)]) simp
  have q: "q \<in> set [q, oreg a, oreg b]" by simp
  have e5: "step (Op_flags (Reg q) c) (m3\<lparr>flag := f\<rparr>) = set_reg q (bytes_val [x]) (m3\<lparr>flag := f\<rparr>)"
    by (simp add: step_flags f x bool_byte_def)
  note s5 = emit_own [OF s4 q e5 t4]
  define v where "v = \<lparr>semantics = {SEM_BOOLEAN}, is_short = False, const_value = 0 :: u16, oreg = q\<rparr>"
  have vl: "oreg v \<in> set [q, oreg a, oreg b]" and lv: "length [x] = opsize (is_short v)"
    and val: "reg (set_reg q (bytes_val [x]) (m3\<lparr>flag := f\<rparr>)) (oreg v) = bytes_val [x]"
    and fit5: "length ([x] @ vreal U ?r) \<le> 256"
    using fit by (simp_all add: v_def p(10))
  obtain ctx' m' where pu: "buxn_jit_push v (emit (Op_flags (Reg q) c) (emit ?i c3)) = Some ctx'"
    "vsim ctx' m' (q # oreg a # oreg b # h) [] (vpush ?r [x] U)" "steps_to step [] ctx m ctx' m'"
    by (rule exec_push_last [OF s5(1) vl val lv fit5 s5(2) refl])
  have "compare_op fs c ctx = Some ctx'"
    using p(1-3) pu(1) by (simp add: compare_op_def buxn_jit_pop_def Let_def v_def)
  then show ?thesis by (rule that [OF _ pu(2) _ pu(3)]) (simp add: p(10))
qed

section \<open>Increment and shift\<close>

lemma exec_INC:
  assumes s: "vsim ctx m h [] V" and st: "vtop V (buxn_jit_op_flag_r ctx) = as @ xs"
    and len: "length as = opsize (buxn_jit_op_flag_2 ctx)" and room: "cached_total ctx + length h \<le> 5"
    and lc: "length cs = opsize (buxn_jit_op_flag_2 ctx)"
    and fit: "length (cs @ kept V (buxn_jit_op_flag_r ctx) xs) \<le> 256"
    and res: "masked (buxn_jit_op_flag_2 ctx) (bytes_val as + 1) = bytes_val cs"
  obtains ctx' m' held V' where "buxn_jit_INC ctx = Some ctx'" and "vsim ctx' m' held [] V'"
    and "vreal V' = (vreal V)(buxn_jit_op_flag_r ctx := cs @ kept V (buxn_jit_op_flag_r ctx) xs)"
    and "steps_to step [] ctx m ctx' m'"
proof -
  let ?r = "buxn_jit_op_flag_r ctx" and ?f = "buxn_jit_op_flag_2 ctx"
  have room0: "cached_total ctx + length h < 6" using room by simp
  obtain a c1 m1 where p: "buxn_jit_pop ctx = Some (a, c1)" "is_short a = ?f"
    "vsim c1 m1 (oreg a # h) [oreg a] (vpop ?r (length as) V)" "reg m1 (oreg a) = bytes_val as"
    "steps_to step [] ctx m c1 m1"
    by (rule exec_pop_view [OF s st len room0])
  let ?q = "oreg a"
  let ?i = "Op2 SLJIT_ADD (Reg ?q) (Reg ?q) (Imm 1)"
  let ?j = "Op2 SLJIT_AND (Reg ?q) (Reg ?q) (Imm (if ?f then 0xffff else 0xff))"
  have e2: "step ?i m1 = set_reg ?q (bytes_val as + 1) m1" by (simp add: step_op2 p(4))
  note s2 = emit_own [OF p(3) list.set_intros(1) e2 p(5)]
  have e3: "step ?j (set_reg ?q (bytes_val as + 1) m1) = set_reg ?q (bytes_val cs) (set_reg ?q (bytes_val as + 1) m1)"
    unfolding exec_wrap using res by (simp add: masked_def split: if_splits)
  note s3 = emit_own [OF s2(1) list.set_intros(1) e3 s2(2)]
  have fl: "buxn_jit_op_flag_2 (emit ?i c1) = ?f"
    using same_env_flags [OF steps_toD(2) [OF s2(2)]] by simp
  define v where "v = (let operand = a\<lparr>semantics := semantics a - {SEM_BOOLEAN}\<rparr> in
      if SEM_CONST \<in> semantics operand then operand\<lparr>const_value := const_value operand + 1\<rparr> else operand)"
  have v: "oreg v = ?q" "is_short v = ?f" by (simp_all add: v_def Let_def p(2))
  note rv = vreal_vpop [OF st]
  have vl: "oreg v \<in> set [?q]" and lv: "length cs = opsize (is_short v)"
    and val: "reg (set_reg ?q (bytes_val cs) (set_reg ?q (bytes_val as + 1) m1)) (oreg v) = bytes_val cs"
    and fit3: "length (cs @ vreal (vpop ?r (length as) V) ?r) \<le> 256"
    using fit by (simp_all add: v lc rv)
  obtain ctx' m' where pu: "buxn_jit_push v (emit ?j (emit ?i c1)) = Some ctx'"
    "vsim ctx' m' (?q # h) [] (vpush ?r cs (vpop ?r (length as) V))" "steps_to step [] ctx m ctx' m'"
    by (rule exec_push_last [OF s3(1) vl val lv fit3 s3(2) refl])
  have "buxn_jit_INC ctx = Some ctx'"
    using p(1) pu(1) v fl by (simp add: buxn_jit_INC_def buxn_jit_wrap_around_def v_def Let_def)
  then show ?thesis by (rule that [OF _ pu(2) _ pu(3)]) (simp add: rv)
qed

lemma exec_shift_code:
  assumes "op_reg q" and "op_reg a" and "op_reg b" and "q \<noteq> b" and "unat (reg m b) < 256"
  obtains w where "exec step (shift_code q a b) m =
    m\<lparr>reg := (reg m)(R 2 := w,
        q := push_bit (unat (drop_bit 4 (reg m b))) (drop_bit (unat (reg m b AND 0x0f)) (reg m a)))\<rparr>"
proof -
  have lo: "unat (reg m b AND 0x0f) < 64"
    using word_and_le1 [of "reg m b" "0x0f"] by (simp add: word_le_nat_alt)
  have hi: "unat (drop_bit 4 (reg m b)) < 64"
    using assms(5) less_mult_imp_div_less [of "unat (reg m b)" 16 16] by (simp add: drop_bit_eq_div unat_div)
  show ?thesis
    by (rule that [of "drop_bit 4 (reg m b)"])
      (use assms lo hi in \<open>simp add: shift_code_def step_simps jit_reg_defs fun_upd_twist\<close>)
qed

lemma exec_SFT:
  assumes s: "vsim ctx m h [] V" and hl: "length h \<le> 2" and st: "vtop V (buxn_jit_op_flag_r ctx) = [b0] @ as @ xs"
    and len: "length as = opsize (buxn_jit_op_flag_2 ctx)" and room: "cached_total ctx + length h \<le> 4"
    and lc: "length cs = opsize (buxn_jit_op_flag_2 ctx)"
    and fit: "length (cs @ kept V (buxn_jit_op_flag_r ctx) xs) \<le> 256"
    and res: "masked (buxn_jit_op_flag_2 ctx)
        (push_bit (unat (drop_bit 4 (bytes_val [b0]))) (drop_bit (unat (bytes_val [b0] AND 0x0f)) (bytes_val as))) = bytes_val cs"
  obtains ctx' m' held V' where "buxn_jit_SFT ctx = Some ctx'" and "vsim ctx' m' held [] V'"
    and "vreal V' = (vreal V)(buxn_jit_op_flag_r ctx := cs @ kept V (buxn_jit_op_flag_r ctx) xs)"
    and "steps_to step [] ctx m ctx' m'"
proof -
  let ?r = "buxn_jit_op_flag_r ctx" and ?f = "buxn_jit_op_flag_2 ctx"
  have lb: "length [b0] = opsize False" by simp
  obtain b c1 a c2 q c3 m3 U where p: "buxn_jit_pop_ex False ?r ctx = Some (b, c1)" "buxn_jit_pop c1 = Some (a, c2)"
    "buxn_jit_alloc_reg c2 = Some (q, c3)" "is_short b = False" "is_short a = ?f"
    "vsim c3 m3 (q # oreg a # oreg b # h) [q, oreg a, oreg b] U"
    "reg m3 (oreg a) = bytes_val as" "reg m3 (oreg b) = bytes_val [b0]" "steps_to step [] ctx m c3 m3"
    "vreal U = (vreal V)(?r := kept V ?r xs)"
    by (rule exec_pop2_alloc [OF s hl st lb len room])
  let ?is = "shift_code q (oreg a) (oreg b)"
  let ?w = "push_bit (unat (drop_bit 4 (bytes_val [b0]))) (drop_bit (unat (bytes_val [b0] AND 0x0f)) (bytes_val as))"
  have ops: "op_reg q" "op_reg (oreg a)" "op_reg (oreg b)" using vsimD(7) [OF p(6)] by simp_all
  have qb: "q \<noteq> oreg b" using vsimD(12) [OF p(6)] by auto
  have bb: "unat (reg m3 (oreg b)) < 256" by (simp add: p(8))
  obtain w where ex: "exec step ?is m3 = m3\<lparr>reg := (reg m3)(R 2 := w, q := ?w)\<rparr>"
    using exec_shift_code [OF ops qb bb] unfolding p(7,8) .
  have q: "q \<in> set [q, oreg a, oreg b]" by simp
  have "vsim c3 (set_reg q ?w (set_reg (R 2) w m3)) (q # oreg a # oreg b # h) [q, oreg a, oreg b] U"
    by (intro vsim_set_reg [OF vsim_set_reg [OF p(6)]]) simp_all
  then have s4: "vsim (emit_all ?is c3) (exec step ?is m3) (q # oreg a # oreg b # h) [q, oreg a, oreg b] U"
    unfolding ex by simp
  have "steps_to step [] c3 m3 (emit_all ?is c3) (exec step ?is m3)"
    using emits_emit_all [of step c3 m3 ?is] ops unfolding ex by (auto simp: steps_to_def)
  then have t4: "steps_to step [] ctx m (emit_all ?is c3) (exec step ?is m3)" by (rule steps_to_trans [OF p(9)]) simp
  let ?j = "Op2 SLJIT_AND (Reg q) (Reg q) (Imm (if ?f then 0xffff else 0xff))"
  have e5: "step ?j (exec step ?is m3) = set_reg q (bytes_val cs) (exec step ?is m3)"
    unfolding exec_wrap using res by (simp add: masked_def ex split: if_splits)
  note s5 = emit_own [OF s4 q e5 t4]
  have fl: "buxn_jit_op_flag_2 (emit_all ?is c3) = ?f"
    using same_env_flags [OF steps_toD(2) [OF t4]] by simp
  define v where "v = const_result a b (is_short a) (let cb = const_value b in
    push_bit (unat (drop_bit 4 (cb AND 0xf0))) (drop_bit (unat (cb AND 0x0f)) (const_value a))) q"
  have v: "oreg v = q" "is_short v = ?f" by (simp_all add: v_def const_result_def p(5))
  have vl: "oreg v \<in> set [q, oreg a, oreg b]" and lv: "length cs = opsize (is_short v)"
    and val: "reg (set_reg q (bytes_val cs) (exec step ?is m3)) (oreg v) = bytes_val cs"
    and fit5: "length (cs @ vreal U ?r) \<le> 256"
    using fit by (simp_all add: v lc p(10))
  obtain ctx' m' where pu: "buxn_jit_push v (emit ?j (emit_all ?is c3)) = Some ctx'"
    "vsim ctx' m' (q # oreg a # oreg b # h) [] (vpush ?r cs U)" "steps_to step [] ctx m ctx' m'"
    by (rule exec_push_last [OF s5(1) vl val lv fit5 s5(2) refl])
  have "emit ?j (emit_all ?is c3) = buxn_jit_wrap_around v (emit_all ?is c3)"
    by (simp add: buxn_jit_wrap_around_def v fl)
  with pu(1) have "buxn_jit_SFT ctx = Some ctx'"
    using p(1-3) by (simp add: buxn_jit_SFT_def Let_def v_def)
  then show ?thesis by (rule that [OF _ pu(2) _ pu(3)]) (simp add: p(10))
qed

section \<open>Stack shuffling\<close>

text \<open>In keep mode a \<^verbatim>\<open>POP\<close> does nothing.\<close>

lemma exec_POP:
  assumes s: "vsim ctx m held live V" and k: "buxn_jit_op_flag_k ctx = keep_view V"
    and st: "vtop V (buxn_jit_op_flag_r ctx) = as @ xs" and len: "length as = opsize (buxn_jit_op_flag_2 ctx)"
  obtains ctx' m' V' where "buxn_jit_POP ctx = Some ctx'" and "vsim ctx' m' held live V'"
    and "vreal V' = (vreal V)(buxn_jit_op_flag_r ctx := kept V (buxn_jit_op_flag_r ctx) xs)"
    and "steps_to step live ctx m ctx' m'" and "cached_total ctx' \<le> cached_total ctx"
proof (cases V)
  case (Keep k' s' po)
  then show ?thesis using s k by (intro that [of ctx m V]) (simp_all add: buxn_jit_POP_def Let_def)
next
  case (Direct st')
  let ?r = "buxn_jit_op_flag_r ctx" and ?f = "buxn_jit_op_flag_2 ctx"
  define c where "c = (if ?r then ctx\<lparr>rsp := rsp ctx - (if ?f then 2 else 1)\<rparr>
      else ctx\<lparr>wsp := wsp ctx - (if ?f then 2 else 1)\<rparr>)"
  have s1: "sim c m held live st'" using s by (simp add: c_def Direct)
  have st1: "st' ?r = as @ xs" using st by (simp add: Direct)
  obtain ctx' m' where d: "buxn_jit_stack_cache_discard ?r ?f c = Some ctx'"
    "sim ctx' m' held live (st'(?r := xs))" "steps_to step live c m ctx' m'" "cached_total ctx' \<le> cached_total c"
    by (rule exec_discard [OF s1 st1 len])
  have "steps_to step live ctx m c m" by (rule steps_to_refl) (simp_all add: c_def)
  from steps_to_trans [OF this d(3)] have t: "steps_to step live ctx m ctx' m'" by simp
  have "cached_total c = cached_total ctx" by (simp add: c_def)
  moreover have "buxn_jit_POP ctx = Some ctx'"
    using d(1) k by (cases ?r) (simp_all add: buxn_jit_POP_def Let_def c_def Direct)
  ultimately show ?thesis using d(4) by (intro that [OF _ d(2) _ t]) (simp_all add: Direct)
qed

lemma exec_NIP:
  assumes s: "vsim ctx m h [] V" and k: "buxn_jit_op_flag_k ctx = keep_view V"
    and st: "vtop V (buxn_jit_op_flag_r ctx) = bs @ as @ xs"
    and len: "length bs = opsize (buxn_jit_op_flag_2 ctx)" "length as = opsize (buxn_jit_op_flag_2 ctx)"
    and room: "cached_total ctx + length h \<le> 5" and fit: "length (bs @ kept V (buxn_jit_op_flag_r ctx) xs) \<le> 256"
  obtains ctx' m' held V' where "buxn_jit_NIP ctx = Some ctx'" and "vsim ctx' m' held [] V'"
    and "vreal V' = (vreal V)(buxn_jit_op_flag_r ctx := bs @ kept V (buxn_jit_op_flag_r ctx) xs)"
    and "steps_to step [] ctx m ctx' m'"
proof -
  let ?r = "buxn_jit_op_flag_r ctx" and ?f = "buxn_jit_op_flag_2 ctx"
  have room0: "cached_total ctx + length h < 6" using room by simp
  obtain b c1 m1 where p: "buxn_jit_pop ctx = Some (b, c1)" "is_short b = ?f"
    "vsim c1 m1 (oreg b # h) [oreg b] (vpop ?r (length bs) V)" "reg m1 (oreg b) = bytes_val bs"
    "steps_to step [] ctx m c1 m1"
    by (rule exec_pop_view [OF s st len(1) room0])
  have fl: "buxn_jit_op_flag_2 c1 = ?f" "buxn_jit_op_flag_r c1 = ?r" "buxn_jit_op_flag_k c1 = keep_view (vpop ?r (length bs) V)"
    using same_env_flags [OF steps_toD(2) [OF p(5)]] k by simp_all
  have st1: "vtop (vpop ?r (length bs) V) (buxn_jit_op_flag_r c1) = as @ xs" and len1: "length as = opsize (buxn_jit_op_flag_2 c1)"
    using len(2) st by (simp_all add: fl)
  obtain c2 m2 U where p2: "buxn_jit_POP c1 = Some c2" "vsim c2 m2 (oreg b # h) [oreg b] U"
    "vreal U = (vreal (vpop ?r (length bs) V))(buxn_jit_op_flag_r c1 := kept (vpop ?r (length bs) V) (buxn_jit_op_flag_r c1) xs)"
    "steps_to step [oreg b] c1 m1 c2 m2"
    by (rule exec_POP [OF p(3) fl(3) st1 len1])
  have rU: "vreal U = (vreal V)(?r := kept V ?r xs)"
    using p2(3) vreal_vpop [OF st] by (simp add: fl kept_def)
  have t2: "steps_to step [] ctx m c2 m2" by (rule steps_to_trans [OF p(5) p2(4)]) simp
  have v2: "reg m2 (oreg b) = bytes_val bs" using steps_toD(3) [OF p2(4)] p(4) by simp
  have fit2: "length (bs @ vreal U ?r) \<le> 256" and lb: "length bs = opsize (is_short b)"
    using fit len p(2) by (simp_all add: rU)
  obtain ctx' m' where p3: "buxn_jit_push b c2 = Some ctx'" "vsim ctx' m' (oreg b # h) [] (vpush ?r bs U)"
    "steps_to step [] ctx m ctx' m'"
    by (rule exec_push_last [OF p2(2) list.set_intros(1) v2 lb fit2 t2 refl])
  show ?thesis
    by (rule that [OF _ p3(2) _ p3(3)]) (use p(1) p2(1) p3(1) rU in \<open>simp_all add: buxn_jit_NIP_def\<close>)
qed

lemma exec_SWP:
  assumes s: "vsim ctx m h [] V" and st: "vtop V (buxn_jit_op_flag_r ctx) = bs @ as @ xs"
    and len: "length bs = opsize (buxn_jit_op_flag_2 ctx)" "length as = opsize (buxn_jit_op_flag_2 ctx)"
    and room: "cached_total ctx + length h \<le> 4" and fit: "length (as @ bs @ kept V (buxn_jit_op_flag_r ctx) xs) \<le> 256"
  obtains ctx' m' held V' where "buxn_jit_SWP ctx = Some ctx'" and "vsim ctx' m' held [] V'"
    and "vreal V' = (vreal V)(buxn_jit_op_flag_r ctx := as @ bs @ kept V (buxn_jit_op_flag_r ctx) xs)"
    and "steps_to step [] ctx m ctx' m'"
proof -
  let ?r = "buxn_jit_op_flag_r ctx" and ?f = "buxn_jit_op_flag_2 ctx"
  obtain b c1 a c2 m2 where p: "buxn_jit_pop_ex ?f ?r ctx = Some (b, c1)" "buxn_jit_pop c1 = Some (a, c2)"
    "is_short b = ?f" "is_short a = ?f"
    "vsim c2 m2 (oreg a # oreg b # h) [oreg a, oreg b] (vpop ?r (length (bs @ as)) V)"
    "reg m2 (oreg a) = bytes_val as" "reg m2 (oreg b) = bytes_val bs" "steps_to step [] ctx m c2 m2"
    by (rule exec_pop2 [OF s st len room])
  let ?U = "vpop ?r (length (bs @ as)) V"
  have "vtop V ?r = (bs @ as) @ xs" using st by simp
  note rU = vreal_vpop [OF this]
  have ab: "oreg a \<noteq> oreg b" using vsimD(12) [OF p(5)] by auto
  have bl: "oreg b \<in> set [oreg a, oreg b]" and lb: "length bs = opsize (is_short b)" "length as = opsize (is_short a)"
    and f1: "length (bs @ vreal ?U ?r) \<le> 256" and f2: "length (as @ vreal (vpush ?r bs ?U) ?r) \<le> 256"
    using fit len p(3,4) by (simp_all add: rU del: length_append, simp_all)
  obtain c3 m3 where p3: "buxn_jit_push b c2 = Some c3"
    "vsim c3 m3 (oreg a # oreg b # h) (removeAll (oreg b) [oreg a, oreg b]) (vpush ?r bs ?U)"
    "steps_to step [] ctx m c3 m3" "\<forall>q \<in> set [oreg a, oreg b]. reg m3 q = reg m2 q"
    by (rule exec_push_result [OF p(5) bl p(7) lb(1) f1 p(8) refl])
  have al: "oreg a \<in> set (removeAll (oreg b) [oreg a, oreg b])" using ab by simp
  have v3: "reg m3 (oreg a) = bytes_val as" using p3(4) p(6) by simp
  obtain ctx' m' where p4: "buxn_jit_push a c3 = Some ctx'" "vsim ctx' m' (oreg a # oreg b # h) [] (vpush ?r as (vpush ?r bs ?U))"
    "steps_to step [] ctx m ctx' m'"
    by (rule exec_push_last [OF p3(2) al v3 lb(2) f2 p3(3) refl])
  show ?thesis
    by (rule that [OF _ p4(2) _ p4(3)])
      (use p(1,2) p3(1) p4(1) rU in \<open>simp_all add: buxn_jit_SWP_def buxn_jit_pop_def [of ctx]\<close>)
qed

lemma exec_ROT:
  assumes s: "vsim ctx m h [] V" and st: "vtop V (buxn_jit_op_flag_r ctx) = cs @ bs @ as @ xs"
    and len: "length cs = opsize (buxn_jit_op_flag_2 ctx)" "length bs = opsize (buxn_jit_op_flag_2 ctx)"
      "length as = opsize (buxn_jit_op_flag_2 ctx)"
    and room: "cached_total ctx + length h \<le> 3"
    and fit: "length (as @ cs @ bs @ kept V (buxn_jit_op_flag_r ctx) xs) \<le> 256"
  obtains ctx' m' held V' where "buxn_jit_ROT ctx = Some ctx'" and "vsim ctx' m' held [] V'"
    and "vreal V' = (vreal V)(buxn_jit_op_flag_r ctx := as @ cs @ bs @ kept V (buxn_jit_op_flag_r ctx) xs)"
    and "steps_to step [] ctx m ctx' m'"
proof -
  let ?r = "buxn_jit_op_flag_r ctx" and ?f = "buxn_jit_op_flag_2 ctx"
  have room4: "cached_total ctx + length h \<le> 4" using room by simp
  obtain c c1 b c2 m2 where p: "buxn_jit_pop_ex ?f ?r ctx = Some (c, c1)" "buxn_jit_pop c1 = Some (b, c2)"
    "is_short c = ?f" "is_short b = ?f"
    "vsim c2 m2 (oreg b # oreg c # h) [oreg b, oreg c] (vpop ?r (length (cs @ bs)) V)"
    "reg m2 (oreg b) = bytes_val bs" "reg m2 (oreg c) = bytes_val cs"
    "steps_to step [] ctx m c2 m2" "cached_total c2 \<le> cached_total ctx"
    by (rule exec_pop2 [OF s st len(1,2) room4])
  have fl: "buxn_jit_op_flag_2 c2 = ?f" "buxn_jit_op_flag_r c2 = ?r"
    using same_env_flags [OF steps_toD(2) [OF p(8)]] by simp_all
  have st2: "vtop (vpop ?r (length (cs @ bs)) V) (buxn_jit_op_flag_r c2) = as @ xs"
    and len2: "length as = opsize (buxn_jit_op_flag_2 c2)" and room2: "cached_total c2 + length (oreg b # oreg c # h) < 6"
    using len(3) room p(9) st by (simp_all add: fl)
  obtain a c3 m3 where q: "buxn_jit_pop c2 = Some (a, c3)" "is_short a = buxn_jit_op_flag_2 c2"
    "vsim c3 m3 (oreg a # oreg b # oreg c # h) [oreg a, oreg b, oreg c]
      (vpop (buxn_jit_op_flag_r c2) (length as) (vpop ?r (length (cs @ bs)) V))"
    "reg m3 (oreg a) = bytes_val as" "steps_to step [oreg b, oreg c] c2 m2 c3 m3"
    by (rule exec_pop_view [OF p(5) st2 len2 room2])
  let ?U = "vpop ?r (length (cs @ bs @ as)) V" and ?h = "oreg a # oreg b # oreg c # h"
  have s3: "vsim c3 m3 ?h [oreg a, oreg b, oreg c] ?U" using q(3) by (simp add: fl add.assoc)
  have "vtop V ?r = (cs @ bs @ as) @ xs" using st by simp
  note rU = vreal_vpop [OF this]
  have v3: "reg m3 (oreg b) = bytes_val bs" "reg m3 (oreg c) = bytes_val cs"
    using steps_toD(3) [OF q(5)] p(6,7) by simp_all
  have t3: "steps_to step [] ctx m c3 m3" by (rule steps_to_trans [OF p(8) q(5)]) simp
  have ne: "oreg a \<noteq> oreg b" "oreg a \<noteq> oreg c" "oreg b \<noteq> oreg c" using vsimD(12) [OF s3] by auto
  have bl: "oreg b \<in> set [oreg a, oreg b, oreg c]" and cl: "oreg c \<in> set (removeAll (oreg b) [oreg a, oreg b, oreg c])"
    and al: "oreg a \<in> set (removeAll (oreg c) (removeAll (oreg b) [oreg a, oreg b, oreg c]))"
    using ne by auto
  have lb: "length bs = opsize (is_short b)" "length as = opsize (is_short a)" "length cs = opsize (is_short c)"
    using len p(3,4) q(2) by (simp_all add: fl)
  have f1: "length (bs @ vreal ?U ?r) \<le> 256" and f2: "length (cs @ vreal (vpush ?r bs ?U) ?r) \<le> 256"
    and f3: "length (as @ vreal (vpush ?r cs (vpush ?r bs ?U)) ?r) \<le> 256"
    using fit by (simp_all add: rU del: length_append, simp_all)
  obtain c4 m4 where p4: "buxn_jit_push b c3 = Some c4"
    "vsim c4 m4 ?h (removeAll (oreg b) [oreg a, oreg b, oreg c]) (vpush ?r bs ?U)"
    "steps_to step [] ctx m c4 m4" "\<forall>q \<in> set [oreg a, oreg b, oreg c]. reg m4 q = reg m3 q"
    by (rule exec_push_result [OF s3 bl v3(1) lb(1) f1 t3 refl])
  have v4: "reg m4 (oreg a) = bytes_val as" "reg m4 (oreg c) = bytes_val cs" using p4(4) v3 q(4) by simp_all
  obtain c5 m5 where p5: "buxn_jit_push c c4 = Some c5"
    "vsim c5 m5 ?h (removeAll (oreg c) (removeAll (oreg b) [oreg a, oreg b, oreg c])) (vpush ?r cs (vpush ?r bs ?U))"
    "steps_to step [] ctx m c5 m5" "\<forall>q \<in> set (removeAll (oreg b) [oreg a, oreg b, oreg c]). reg m5 q = reg m4 q"
    by (rule exec_push_result [OF p4(2) cl v4(2) lb(3) f2 p4(3) refl])
  have v5: "reg m5 (oreg a) = bytes_val as" using p5(4) v4 ne by simp
  obtain ctx' m' where p6: "buxn_jit_push a c5 = Some ctx'" "vsim ctx' m' ?h [] (vpush ?r as (vpush ?r cs (vpush ?r bs ?U)))"
    "steps_to step [] ctx m ctx' m'"
    by (rule exec_push_last [OF p5(2) al v5 lb(2) f3 p5(3) refl])
  show ?thesis
    by (rule that [OF _ p6(2) _ p6(3)])
      (use p(1,2) q(1) p4(1) p5(1) p6(1) rU in \<open>simp_all add: buxn_jit_ROT_def buxn_jit_pop_def [of ctx]\<close>)
qed

section \<open>Handlers that push an operand more than once\<close>

text \<open>After \<^verbatim>\<open>DUP\<close> and \<^verbatim>\<open>OVR\<close> two cells share a register, so only \<open>vwsim\<close> holds.\<close>

lemma exec_push_w:
  assumes s: "vwsim ctx m held V" and v: "oreg v \<in> set held" and val: "reg m (oreg v) = bytes_val cs"
    and len: "length cs = opsize (is_short v)" and fit: "length (cs @ vreal V r) \<le> 256"
    and t: "steps_to step [] ctx0 m0 ctx m" and r: "buxn_jit_op_flag_r ctx0 = r"
  obtains ctx' m' where "buxn_jit_push v ctx = Some ctx'" and "vwsim ctx' m' held (vpush r cs V)"
    and "steps_to step [] ctx0 m0 ctx' m'" and "\<forall>q \<in> set held. reg m' q = reg m q"
proof -
  have fl: "buxn_jit_op_flag_r ctx = r" using same_env_flags [OF steps_toD(2) [OF t]] r by simp
  obtain ctx' m' where p: "buxn_jit_push_ex v r ctx = Some ctx'"
    "vwsim ctx' m' held (vpush r cs V)" "steps_to step held ctx m ctx' m'"
    using exec_push_ex_w [OF s v val len fit] by metis
  show ?thesis
    by (rule that [OF _ p(2) steps_to_trans [OF t p(3)]])
      (use p(1) steps_toD(3) [OF p(3)] in \<open>simp_all add: buxn_jit_push_def fl\<close>)
qed

lemma exec_DUP:
  assumes s: "vsim ctx m h [] V" and st: "vtop V (buxn_jit_op_flag_r ctx) = as @ xs"
    and len: "length as = opsize (buxn_jit_op_flag_2 ctx)" and room: "cached_total ctx + length h \<le> 5"
    and fit: "length (as @ as @ kept V (buxn_jit_op_flag_r ctx) xs) \<le> 256"
  obtains ctx' m' held V' where "buxn_jit_DUP ctx = Some ctx'" and "vwsim ctx' m' held V'"
    and "vreal V' = (vreal V)(buxn_jit_op_flag_r ctx := as @ as @ kept V (buxn_jit_op_flag_r ctx) xs)"
    and "steps_to step [] ctx m ctx' m'"
proof -
  let ?r = "buxn_jit_op_flag_r ctx"
  have room0: "cached_total ctx + length h < 6" using room by simp
  obtain a c1 m1 where p: "buxn_jit_pop ctx = Some (a, c1)" "is_short a = buxn_jit_op_flag_2 ctx"
    "vsim c1 m1 (oreg a # h) [oreg a] (vpop ?r (length as) V)" "reg m1 (oreg a) = bytes_val as" "steps_to step [] ctx m c1 m1"
    by (rule exec_pop_view [OF s st len room0])
  let ?U = "vpop ?r (length as) V" and ?h = "oreg a # h"
  note rU = vreal_vpop [OF st]
  have la: "length as = opsize (is_short a)" and ia: "oreg a \<in> set ?h" using len p(2) by simp_all
  have w1: "vwsim c1 m1 ?h ?U" using p(3) by (simp add: vsim_vwsim)
  have f1: "length (as @ vreal ?U ?r) \<le> 256" and f2: "length (as @ vreal (vpush ?r as ?U) ?r) \<le> 256"
    using fit by (simp_all add: rU del: length_append, simp_all)
  obtain c2 m2 where p2: "buxn_jit_push a c1 = Some c2" "vwsim c2 m2 ?h (vpush ?r as ?U)"
    "steps_to step [] ctx m c2 m2" "\<forall>q \<in> set ?h. reg m2 q = reg m1 q"
    by (rule exec_push_w [OF w1 ia p(4) la f1 p(5) refl])
  have v2: "reg m2 (oreg a) = bytes_val as" using p2(4) p(4) by simp
  obtain ctx' m' where p3: "buxn_jit_push a c2 = Some ctx'" "vwsim ctx' m' ?h (vpush ?r as (vpush ?r as ?U))"
    "steps_to step [] ctx m ctx' m'"
    by (rule exec_push_w [OF p2(2) ia v2 la f2 p2(3) refl])
  show ?thesis
    by (rule that [OF _ p3(2) _ p3(3)]) (use p(1) p2(1) p3(1) rU in \<open>simp_all add: buxn_jit_DUP_def\<close>)
qed

lemma exec_OVR:
  assumes s: "vsim ctx m h [] V" and st: "vtop V (buxn_jit_op_flag_r ctx) = bs @ as @ xs"
    and len: "length bs = opsize (buxn_jit_op_flag_2 ctx)" "length as = opsize (buxn_jit_op_flag_2 ctx)"
    and room: "cached_total ctx + length h \<le> 4" and fit: "length (as @ bs @ as @ kept V (buxn_jit_op_flag_r ctx) xs) \<le> 256"
  obtains ctx' m' held V' where "buxn_jit_OVR ctx = Some ctx'" and "vwsim ctx' m' held V'"
    and "vreal V' = (vreal V)(buxn_jit_op_flag_r ctx := as @ bs @ as @ kept V (buxn_jit_op_flag_r ctx) xs)"
    and "steps_to step [] ctx m ctx' m'"
proof -
  let ?r = "buxn_jit_op_flag_r ctx" and ?f = "buxn_jit_op_flag_2 ctx"
  obtain b c1 a c2 m2 where p: "buxn_jit_pop_ex ?f ?r ctx = Some (b, c1)" "buxn_jit_pop c1 = Some (a, c2)"
    "is_short b = ?f" "is_short a = ?f"
    "vsim c2 m2 (oreg a # oreg b # h) [oreg a, oreg b] (vpop ?r (length (bs @ as)) V)"
    "reg m2 (oreg a) = bytes_val as" "reg m2 (oreg b) = bytes_val bs" "steps_to step [] ctx m c2 m2"
    by (rule exec_pop2 [OF s st len room])
  let ?h = "oreg a # oreg b # h" and ?U = "vpop ?r (length (bs @ as)) V"
  have "vtop V ?r = (bs @ as) @ xs" using st by simp
  note rU = vreal_vpop [OF this]
  have la: "length as = opsize (is_short a)" and lb: "length bs = opsize (is_short b)" using len p(3,4) by simp_all
  have ia: "oreg a \<in> set ?h" and ib: "oreg b \<in> set ?h" by simp_all
  have w2: "vwsim c2 m2 ?h ?U" using p(5) by (simp add: vsim_vwsim)
  have f1: "length (as @ vreal ?U ?r) \<le> 256" and f2: "length (bs @ vreal (vpush ?r as ?U) ?r) \<le> 256"
    and f3: "length (as @ vreal (vpush ?r bs (vpush ?r as ?U)) ?r) \<le> 256"
    using fit by (simp_all add: rU del: length_append, simp_all)
  obtain c3 m3 where p3: "buxn_jit_push a c2 = Some c3" "vwsim c3 m3 ?h (vpush ?r as ?U)"
    "steps_to step [] ctx m c3 m3" "\<forall>q \<in> set ?h. reg m3 q = reg m2 q"
    by (rule exec_push_w [OF w2 ia p(6) la f1 p(8) refl])
  have v3: "reg m3 (oreg b) = bytes_val bs" using p3(4) p(7) by simp
  obtain c4 m4 where p4: "buxn_jit_push b c3 = Some c4" "vwsim c4 m4 ?h (vpush ?r bs (vpush ?r as ?U))"
    "steps_to step [] ctx m c4 m4" "\<forall>q \<in> set ?h. reg m4 q = reg m3 q"
    by (rule exec_push_w [OF p3(2) ib v3 lb f2 p3(3) refl])
  have v4: "reg m4 (oreg a) = bytes_val as" using p4(4) p3(4) p(6) by simp
  obtain ctx' m' where p5: "buxn_jit_push a c4 = Some ctx'" "vwsim ctx' m' ?h (vpush ?r as (vpush ?r bs (vpush ?r as ?U)))"
    "steps_to step [] ctx m ctx' m'"
    by (rule exec_push_w [OF p4(2) ia v4 la f3 p4(3) refl])
  show ?thesis
    by (rule that [OF _ p5(2) _ p5(3)])
      (use p(1,2) p3(1) p4(1) p5(1) rU in \<open>simp_all add: buxn_jit_OVR_def buxn_jit_pop_def [of ctx]\<close>)
qed

lemma exec_STH:
  assumes s: "vsim ctx m h [] V" and st: "vtop V (buxn_jit_op_flag_r ctx) = as @ xs"
    and len: "length as = opsize (buxn_jit_op_flag_2 ctx)" and room: "cached_total ctx + length h \<le> 5"
    and fit: "length (as @ vreal V (\<not> buxn_jit_op_flag_r ctx)) \<le> 256"
  obtains ctx' m' held V' where "buxn_jit_STH ctx = Some ctx'" and "vsim ctx' m' held [] V'"
    and "vreal V' = (vreal V)(buxn_jit_op_flag_r ctx := kept V (buxn_jit_op_flag_r ctx) xs,
      \<not> buxn_jit_op_flag_r ctx := as @ vreal V (\<not> buxn_jit_op_flag_r ctx))"
    and "steps_to step [] ctx m ctx' m'"
proof -
  let ?r = "buxn_jit_op_flag_r ctx"
  have room0: "cached_total ctx + length h < 6" using room by simp
  obtain a c1 m1 where p: "buxn_jit_pop ctx = Some (a, c1)" "is_short a = buxn_jit_op_flag_2 ctx"
    "vsim c1 m1 (oreg a # h) [oreg a] (vpop ?r (length as) V)" "reg m1 (oreg a) = bytes_val as" "steps_to step [] ctx m c1 m1"
    by (rule exec_pop_view [OF s st len room0])
  note rU = vreal_vpop [OF st]
  have fl: "buxn_jit_op_flag_r c1 = ?r" using same_env_flags [OF steps_toD(2) [OF p(5)]] by simp
  have f1: "length (as @ vreal (vpop ?r (length as) V) (\<not> ?r)) \<le> 256" using fit by (simp add: rU)
  have la: "length as = opsize (is_short a)" using len p(2) by simp
  obtain ctx' m' where q: "buxn_jit_push_ex a (\<not> ?r) c1 = Some ctx'"
    "vsim ctx' m' (oreg a # h) (removeAll (oreg a) [oreg a]) (vpush (\<not> ?r) as (vpop ?r (length as) V))"
    "steps_to step [oreg a] c1 m1 ctx' m'"
    by (rule exec_push_vsim [OF p(3) list.set_intros(1) p(4) la f1])
  have s2: "vsim ctx' m' (oreg a # h) [] (vpush (\<not> ?r) as (vpop ?r (length as) V))" using q(2) by simp
  have r2: "vreal (vpush (\<not> ?r) as (vpop ?r (length as) V)) =
      (vreal V)(?r := kept V ?r xs, \<not> ?r := as @ vreal V (\<not> ?r))"
    by (simp only: vreal_simps rU) (simp add: fun_upd_def)
  have "steps_to step [] ctx m ctx' m'" by (rule steps_to_trans [OF p(5) q(3)]) simp
  moreover have "buxn_jit_STH ctx = Some ctx'" using p(1) q(1) by (simp add: buxn_jit_STH_def fl)
  ultimately show ?thesis by (intro that [OF _ s2 r2])
qed

end

end
