(* ===== verification/Sim_Mem.thy ===== *)
theory Sim_Mem
  imports Sim_Ops
begin

text \<open>
  Loads, stores and literals: the memory of the virtual machine is the field \<^verbatim>\<open>memory\<close> of \<^verbatim>\<open>buxn_vm_t\<close>,
  which the emitted code reaches through the base register. \<open>ram\<close> is its contents.
\<close>

definition ram :: "buxn_jit_ctx \<Rightarrow> mach \<Rightarrow> u16 \<Rightarrow> u8" where
  "ram ctx m a = mem m (vm_addr (vm_offset (jit ctx)) (reg m BUXN_JIT_S_VM) F_memory (ucast a))"

text \<open>All memory but the stacks: that of the virtual machine, the device page, and what lies outside.\<close>

definition vm_holds :: "(vm_field \<Rightarrow> uw) \<Rightarrow> mach \<Rightarrow> uxn_state \<Rightarrow> bool" where
  "vm_holds offs m u \<longleftrightarrow>
     (\<forall>a. mem m (vm_addr offs (reg m BUXN_JIT_S_VM) F_memory (ucast a)) = uram u a) \<and>
     (\<forall>a. mem m (vm_addr offs (reg m BUXN_JIT_S_VM) F_device (ucast a)) = udev u a) \<and>
     (\<forall>a. outside_vm offs (reg m BUXN_JIT_S_VM) a \<longrightarrow> mem m a = uhost u a)"

abbreviation mem_holds :: "buxn_jit_ctx \<Rightarrow> mach \<Rightarrow> uxn_state \<Rightarrow> bool" where
  "mem_holds ctx \<equiv> vm_holds (vm_offset (jit ctx))"

lemma vm_holds_simps [simp]:
  "vm_holds offs m (u\<lparr>ustk := st\<rparr>) = vm_holds offs m u" "vm_holds offs m (u\<lparr>upc := p\<rparr>) = vm_holds offs m u"
  "vm_holds offs m (u\<lparr>ustk := st, uram := r\<rparr>) = vm_holds offs m (u\<lparr>uram := r\<rparr>)"
  by (simp_all add: vm_holds_def)

lemma vm_holds_cong:
  "mem m' = mem m \<Longrightarrow> reg m' (S 0) = reg m (S 0) \<Longrightarrow> vm_holds offs m' u = vm_holds offs m u"
  by (simp add: vm_holds_def jit_reg_defs)

lemma mem_holds_ram: "mem_holds ctx m u \<Longrightarrow> ram ctx m = uram u"
  by (simp add: vm_holds_def ram_def fun_eq_iff)

lemma mem_holds_same:
  assumes "mem_same F ctx m m'" and "F_memory \<notin> F" and "F_device \<notin> F" and "reg m' (S 0) = reg m (S 0)" and "jit ctx' = jit ctx"
  shows "mem_holds ctx' m' u = mem_holds ctx m u"
proof -
  have "unat (ucast a :: uw) < field_size F_memory" "unat (ucast b :: uw) < field_size F_device" for a :: u16 and b :: u8
    using unsigned_less [of a, where 'a = nat] unsigned_less [of b, where 'a = nat] by simp_all
  then show ?thesis using assms by (simp add: vm_holds_def mem_same_def jit_reg_defs)
qed

lemma mem_holds_steps: "steps_to step live ctx m ctx' m' \<Longrightarrow> mem_holds ctx' m' u = mem_holds ctx m u"
  by (rule mem_holds_same [where F = "{F_ws, F_rs}"]) (simp_all add: steps_to_def same_env_def)

lemma ram_steps: "steps_to step live ctx m ctx' m' \<Longrightarrow> ram ctx' m' = ram ctx m"
  by (auto simp: steps_to_def ram_def fun_eq_iff same_env_def mem_same_def jit_reg_defs)

lemma ram_emit_all [simp]: "ram (emit_all is ctx) = ram ctx"
  by (simp add: ram_def emit_all_eq fun_eq_iff)

lemma ram_addr:
  assumes "reg m (R 0) = reg m (S 0) + vm_offset (jit ctx) F_memory"
  shows "mem m (reg m (R 0) + ucast a) = ram ctx m a"
  using assms by (simp add: ram_def vm_addr_def jit_reg_defs)

lemma ucast_and_0xff: "(ucast (a :: u16) + 1 :: uw) AND 0xff = ucast ((a + 1) AND 0xff)"
proof (rule bit_word_eqI)
  fix n assume "n < LENGTH(64)"
  have eq: "a + 1 = ucast (ucast a + 1 :: uw)" by simp
  have "bit (ucast a + 1 :: uw) n \<longleftrightarrow> bit (a + 1) n" if "n < 16"
    using that unfolding eq by (simp add: bit_simps del: ucast_uw_ring)
  moreover have "bit (0xff :: uw) n \<longleftrightarrow> n < 8" "bit (0xff :: u16) n \<longleftrightarrow> n < 8"
    unfolding mask_bytes using \<open>n < LENGTH(64)\<close> by (auto simp: bit_simps)
  ultimately show "bit ((ucast a + 1 :: uw) AND 0xff) n = bit (ucast ((a + 1) AND 0xff :: u16) :: uw) n"
    using \<open>n < LENGTH(64)\<close> by (auto simp: bit_simps)
qed

lemma next_addr_word:
  "(ucast (a :: u16) + 1 :: uw) AND (if s then 0xffff else 0xff) = ucast (next_addr s a)"
  by (simp add: next_addr_def and_0xffff ucast_and_0xff)

lemma ucast_u8_u16 [simp]: "(ucast (ucast (b :: u8) :: uw) :: u16) = ucast b"
  by (rule bit_word_eqI) (auto simp: bit_simps dest: bit_imp_le_length)

lemma ucast_scast_u8 [simp]: "(ucast (scast (b :: u8) :: uw) :: u16) = scast b"
  by (rule bit_word_eqI) (auto simp: bit_simps)

text \<open>The three loads have the same shape.\<close>

definition load_address :: "addr_mode \<Rightarrow> buxn_jit_ctx \<Rightarrow> (buxn_jit_operand \<times> buxn_jit_ctx) option" where
  "load_address mode ctx =
     do {
       (addr, ctx) \<leftarrow> buxn_jit_pop_ex (mode = Absolute) (buxn_jit_op_flag_r ctx) ctx;
       Some (if mode = Relative
             then (addr\<lparr>is_short := True\<rparr>, emit_all (relative_addr_code (oreg addr) (pc ctx)) ctx)
             else (addr, ctx))
     }"

definition load_opcode :: "addr_mode \<Rightarrow> buxn_jit_ctx \<Rightarrow> buxn_jit_ctx option" where
  "load_opcode mode ctx =
     do {
       (addr, ctx) \<leftarrow> load_address mode ctx;
       (r, ctx) \<leftarrow> buxn_jit_alloc_reg ctx;
       let (value, ctx) = buxn_jit_load r addr ctx;
       buxn_jit_push value ctx
     }"

lemma load_handlers:
  "buxn_jit_LDZ ctx = load_opcode Zero_page ctx"
  "buxn_jit_LDR ctx = load_opcode Relative ctx"
  "buxn_jit_LDA ctx = load_opcode Absolute ctx"
  by (cases "buxn_jit_pop_ex False (buxn_jit_op_flag_r ctx) ctx";
      cases "buxn_jit_pop_ex True (buxn_jit_op_flag_r ctx) ctx";
      auto simp: buxn_jit_LDZ_def buxn_jit_LDR_def buxn_jit_LDA_def load_opcode_def load_address_def Let_def)+

context sljit_exec
begin

lemma exec_load_code:
  assumes q: "op_reg q" "op_reg a" "q \<noteq> a" and r0: "reg m (R 0) = reg m (S 0) + vm_offset (jit ctx) F_memory"
  obtains m' where "exec step (load_code q a as short) m = m'" and "mem m' = mem m"
    and "reg m' q = bytes_val (peek as short (ram ctx m) (ucast (reg m a)))"
    and "regs_same {R 1, R 2, q} m m'"
proof -
  note ad = ram_addr [OF r0]
  let ?p = "ucast (reg m a) :: u16"
  show ?thesis
  proof (rule that [OF refl])
    show "mem (exec step (load_code q a as short) m) = mem m"
      using q by (simp add: load_code_def step_simps BUXN_JIT_MEM_def jit_reg_defs)
    show "regs_same {R 1, R 2, q} m (exec step (load_code q a as short) m)"
      using q by (simp add: load_code_def step_simps BUXN_JIT_MEM_def jit_reg_defs regs_same_def)
    show "reg (exec step (load_code q a as short) m) q = bytes_val (peek as short (ram ctx m) ?p)"
      using q by (cases short) (simp_all add: load_code_def step_simps BUXN_JIT_MEM_def jit_reg_defs peek_def ad
          next_addr_word short_of_word del: ucast_uw_ring split del: if_split cong: if_cong)
  qed
qed

section \<open>Loads\<close>

lemma length_peek: "length (peek s f rm a) = opsize f"
  by (simp add: peek_def)

lemma exec_load:
  assumes s: "vsim ctx m held live V" and l: "q \<in> set live" "oreg addr \<in> set live" "q \<noteq> oreg addr"
  obtains c' m' where
    "buxn_jit_load q addr ctx =
      (\<lparr>semantics = {}, is_short = buxn_jit_op_flag_2 ctx, const_value = 0, oreg = q\<rparr>, c')"
    and "vsim c' m' held live V" and "steps_to step [] ctx m c' m'"
    and "reg m' q = bytes_val (peek (is_short addr) (buxn_jit_op_flag_2 ctx) (ram ctx m) (ucast (reg m (oreg addr))))"
proof -
  let ?f = "buxn_jit_op_flag_2 ctx" and ?c = "buxn_jit_set_mem_base F_memory ctx"
  obtain m1 where s1: "vsim ?c m1 held live V" and t1: "steps_to step live ctx m ?c m1"
    and r0: "reg m1 (R 0) = reg m (S 0) + vm_offset (jit ctx) F_memory" and rs: "regs_same {R 0} m m1"
    by (rule exec_set_mem_base_vsim [OF s])
  have op: "op_reg q" "op_reg (oreg addr)" using vsimD(7) [OF s] l by simp_all
  have jit: "jit ?c = jit ctx" using steps_toD(2) [OF t1] by (simp add: same_env_def)
  have r0': "reg m1 (R 0) = reg m1 (S 0) + vm_offset (jit ?c) F_memory"
    using r0 rs by (simp add: regs_same_def jit)
  have ad: "reg m1 (oreg addr) = reg m (oreg addr)" by (rule steps_toD(3) [OF t1 l(2)])
  let ?is = "load_code q (oreg addr) (is_short addr) ?f"
  obtain m2 where ex: "exec step ?is m1 = m2" and mm: "mem m2 = mem m1"
    and val: "reg m2 q = bytes_val (peek (is_short addr) ?f (ram ?c m1) (ucast (reg m1 (oreg addr))))"
    and rs2: "regs_same {R 1, R 2, q} m1 m2"
    by (rule exec_load_code [OF op l(3) r0'])
  have "regs_same (own_regs live) m1 m2" using rs2 l(1) by (auto simp: regs_same_def own_regs_def)
  then have s2: "vsim (emit_all ?is ?c) m2 held live V" using vsim_own [OF s1 mm] by simp
  have "steps_to step [] ?c m1 (emit_all ?is ?c) m2"
    using emits_emit_all [of step ?c m1 ?is] regs_sameD [OF rs2, of "S 0"] op mm by (auto simp: steps_to_def ex)
  then have t2: "steps_to step [] ctx m (emit_all ?is ?c) m2"
    by (rule steps_to_trans [OF steps_to_mono [OF t1], rotated]) simp_all
  show ?thesis
    by (rule that [OF _ s2 t2]) (use val ram_steps [OF t1] in \<open>simp_all add: buxn_jit_load_def ad Let_def\<close>)
qed

lemma exec_load_tail:
  assumes s: "vsim c1 m1 (oreg addr # h) [oreg addr] V" and hl: "length h \<le> 2" and t: "steps_to step [] ctx m c1 m1"
    and fit: "length (peek (is_short addr) (buxn_jit_op_flag_2 ctx) (ram ctx m) (ucast (reg m1 (oreg addr))) @
        vreal V (buxn_jit_op_flag_r ctx)) \<le> 256"
  obtains ctx' m' held V' where
    "do { (r, c) \<leftarrow> buxn_jit_alloc_reg c1; let (value, c) = buxn_jit_load r addr c; buxn_jit_push value c } = Some ctx'"
    and "vsim ctx' m' held [] V'"
    and "vreal V' = (vreal V)(buxn_jit_op_flag_r ctx :=
      peek (is_short addr) (buxn_jit_op_flag_2 ctx) (ram ctx m) (ucast (reg m1 (oreg addr))) @ vreal V (buxn_jit_op_flag_r ctx))"
    and "steps_to step [] ctx m ctx' m'"
proof -
  let ?r = "buxn_jit_op_flag_r ctx" and ?f = "buxn_jit_op_flag_2 ctx" and ?U = "vseal V"
  let ?bs = "peek (is_short addr) ?f (ram ctx m) (ucast (reg m1 (oreg addr)))"
  have n: "length (oreg addr # h) < 6" using hl by simp
  obtain q c2 m2 where al: "buxn_jit_alloc_reg c1 = Some (q, c2)"
    and s2: "vsim c2 m2 (q # oreg addr # h) [q, oreg addr] ?U" and t2: "steps_to step [oreg addr] c1 m1 c2 m2"
    by (rule exec_alloc_vsim [OF s n])
  have t02: "steps_to step [] ctx m c2 m2" by (rule steps_to_trans [OF t t2]) simp
  have fl: "buxn_jit_op_flag_2 c2 = ?f" using same_env_flags [OF steps_toD(2) [OF t02]] by simp
  have ad: "reg m2 (oreg addr) = reg m1 (oreg addr)" by (rule steps_toD(3) [OF t2]) simp
  have l: "q \<in> set [q, oreg addr]" "oreg addr \<in> set [q, oreg addr]" "q \<noteq> oreg addr"
    using vsimD(12) [OF s2] by auto
  let ?v = "\<lparr>semantics = {} :: sem_flag set, is_short = buxn_jit_op_flag_2 c2, const_value = 0 :: u16, oreg = q\<rparr>"
  obtain c3 m3 where ld: "buxn_jit_load q addr c2 = (?v, c3)" and s3: "vsim c3 m3 (q # oreg addr # h) [q, oreg addr] ?U"
    and t3: "steps_to step [] c2 m2 c3 m3"
    and val: "reg m3 q = bytes_val (peek (is_short addr) (buxn_jit_op_flag_2 c2) (ram c2 m2) (ucast (reg m2 (oreg addr))))"
    by (rule exec_load [OF s2 l])
  have t03: "steps_to step [] ctx m c3 m3" by (rule steps_to_trans [OF t02 t3]) simp
  have vl: "oreg ?v \<in> set [q, oreg addr]" and v3: "reg m3 (oreg ?v) = bytes_val ?bs"
    and lv: "length ?bs = opsize (is_short ?v)" and fit3: "length (?bs @ vreal ?U ?r) \<le> 256"
    using val ram_steps [OF t02] fit by (simp_all add: fl ad length_peek)
  obtain ctx' m' where pu: "buxn_jit_push ?v c3 = Some ctx'"
    and s4: "vsim ctx' m' (q # oreg addr # h) [] (vpush ?r ?bs ?U)" and t4: "steps_to step [] ctx m ctx' m'"
    by (rule exec_push_last [OF s3 vl v3 lv fit3 t03 refl])
  show ?thesis by (rule that [OF _ s4 _ t4]) (simp_all add: al ld pu)
qed

text \<open>The address operand of a load: popped, and made absolute for \<^verbatim>\<open>LDR\<close>.\<close>

lemma exec_relative:
  assumes "op_reg q"
  shows "exec step (relative_addr_code q p) m = set_reg q (scast (ucast (reg m q) :: u8) + ucast p) m"
  by (simp add: relative_addr_code_def step_simps)

lemma exec_load_address:
  assumes s: "vsim ctx m h [] V" and st: "vtop V (buxn_jit_op_flag_r ctx) = bs @ xs"
    and len: "length bs = opsize (mode = Absolute)" and room: "cached_total ctx + length h \<le> 5"
  obtains v c1 m1 where "load_address mode ctx = Some (v, c1)" and "is_short v = (mode \<noteq> Zero_page)"
    and "vsim c1 m1 (oreg v # h) [oreg v] (vpop (buxn_jit_op_flag_r ctx) (length bs) V)"
    and "ucast (reg m1 (oreg v)) = addr_of mode (pc ctx) bs" and "steps_to step [] ctx m c1 m1"
proof -
  let ?r = "buxn_jit_op_flag_r ctx" and ?U = "vpop (buxn_jit_op_flag_r ctx) (length bs) V"
  have room0: "cached_total ctx + length h < 6" using room by simp
  obtain v c1 m1 where p: "buxn_jit_pop_ex (mode = Absolute) ?r ctx = Some (v, c1)" "is_short v = (mode = Absolute)"
    "vsim c1 m1 (oreg v # h) [oreg v] ?U" "reg m1 (oreg v) = bytes_val bs" "steps_to step [] ctx m c1 m1"
    by (rule exec_pop_vsim [OF s st len room0]) (rule that, simp_all add: len)
  show ?thesis
  proof (cases mode)
    case Zero_page
    then obtain b where "bs = [b]" using len by (auto simp: length_Suc_conv)
    then show ?thesis using Zero_page p by (intro that [OF _ _ p(3) _ p(5)]) (simp_all add: load_address_def addr_of_def)
  next
    case Absolute
    then obtain l h where "bs = [l, h]" using len by (auto simp: length_Suc_conv numeral_2_eq_2)
    then show ?thesis using Absolute p by (intro that [OF _ _ p(3) _ p(5)]) (simp_all add: load_address_def addr_of_def)
  next
    case Relative
    then obtain b where b: "bs = [b]" using len by (auto simp: length_Suc_conv)
    let ?is = "relative_addr_code (oreg v) (pc c1)"
    have op: "op_reg (oreg v)" using vsimD(7) [OF p(3)] by simp
    have pc: "pc c1 = pc ctx" using steps_toD(2) [OF p(5)] by (simp add: same_env_def)
    have s2: "vsim (emit_all ?is c1) (exec step ?is m1) (oreg v # h) [oreg v] ?U"
      unfolding exec_relative [OF op] vsim_emit_all by (rule vsim_set_reg [OF p(3)]) simp
    have "steps_to step [] c1 m1 (emit_all ?is c1) (exec step ?is m1)"
      using emits_emit_all [of step c1 m1 ?is] op by (auto simp: steps_to_def exec_relative [OF op])
    then have t2: "steps_to step [] ctx m (emit_all ?is c1) (exec step ?is m1)"
      by (rule steps_to_trans [OF p(5)]) simp
    show ?thesis
      by (rule that [OF _ _ _ _ t2, of "v\<lparr>is_short := True\<rparr>"])
        (use Relative p s2 b in \<open>simp_all add: load_address_def addr_of_def exec_relative [OF op] pc add.commute\<close>)
  qed
qed

lemma exec_load_opcode:
  assumes s: "vsim ctx m h [] V" and hl: "length h \<le> 2" and st: "vtop V (buxn_jit_op_flag_r ctx) = bs @ xs"
    and len: "length bs = opsize (mode = Absolute)" and room: "cached_total ctx + length h \<le> 5"
    and fit: "length (peek (mode \<noteq> Zero_page) (buxn_jit_op_flag_2 ctx) (ram ctx m) (addr_of mode (pc ctx) bs) @
      kept V (buxn_jit_op_flag_r ctx) xs) \<le> 256"
  obtains ctx' m' held V' where "load_opcode mode ctx = Some ctx'" and "vsim ctx' m' held [] V'"
    and "vreal V' = (vreal V)(buxn_jit_op_flag_r ctx :=
      peek (mode \<noteq> Zero_page) (buxn_jit_op_flag_2 ctx) (ram ctx m) (addr_of mode (pc ctx) bs) @
      kept V (buxn_jit_op_flag_r ctx) xs)"
    and "steps_to step [] ctx m ctx' m'"
proof -
  let ?r = "buxn_jit_op_flag_r ctx" and ?U = "vpop (buxn_jit_op_flag_r ctx) (length bs) V"
  obtain v c1 m1 where p: "load_address mode ctx = Some (v, c1)" "is_short v = (mode \<noteq> Zero_page)"
    "vsim c1 m1 (oreg v # h) [oreg v] ?U" "ucast (reg m1 (oreg v)) = addr_of mode (pc ctx) bs"
    "steps_to step [] ctx m c1 m1"
    by (rule exec_load_address [OF s st len room])
  note rU = vreal_vpop [OF st]
  have f1: "length (peek (is_short v) (buxn_jit_op_flag_2 ctx) (ram ctx m) (ucast (reg m1 (oreg v))) @ vreal ?U ?r) \<le> 256"
    using fit by (simp only: p(2,4) rU fun_upd_same)
  obtain ctx' m' held V' where q:
    "do { (r, c) \<leftarrow> buxn_jit_alloc_reg c1; let (value, c) = buxn_jit_load r v c; buxn_jit_push value c } = Some ctx'"
    "vsim ctx' m' held [] V'"
    "vreal V' = (vreal ?U)(?r :=
      peek (is_short v) (buxn_jit_op_flag_2 ctx) (ram ctx m) (ucast (reg m1 (oreg v))) @ vreal ?U ?r)"
    "steps_to step [] ctx m ctx' m'"
    by (rule exec_load_tail [OF p(3) hl p(5) f1])
  have vr: "vreal V' = (vreal V)(?r :=
      peek (mode \<noteq> Zero_page) (buxn_jit_op_flag_2 ctx) (ram ctx m) (addr_of mode (pc ctx) bs) @ kept V ?r xs)"
    using q(3) by (simp only: p(2,4) rU fun_upd_same fun_upd_upd)
  have "load_opcode mode ctx = Some ctx'" using q(1) p(1) by (simp add: load_opcode_def)
  then show ?thesis by (rule that [OF _ q(2) vr q(4)])
qed

end

section \<open>Stores\<close>

lemma ram_upd:
  assumes "layout_ok (vm_offset (jit ctx)) (reg m BUXN_JIT_S_VM)"
    and "mem m' = (mem m)(vm_addr (vm_offset (jit ctx)) (reg m BUXN_JIT_S_VM) F_memory (ucast p) := x)"
    and "reg m' BUXN_JIT_S_VM = reg m BUXN_JIT_S_VM"
  shows "ram ctx m' = (ram ctx m)(p := x)"
  using assms vm_addr_eq_iff [OF assms(1)] by (auto simp: ram_def fun_eq_iff)

definition store_opcode :: "addr_mode \<Rightarrow> buxn_jit_ctx \<Rightarrow> buxn_jit_ctx option" where
  "store_opcode mode ctx =
     do {
       (addr, ctx) \<leftarrow> buxn_jit_pop_ex (mode = Absolute) (buxn_jit_op_flag_r ctx) ctx;
       (value, ctx) \<leftarrow> buxn_jit_pop ctx;
       Some (if mode = Relative
             then buxn_jit_store (addr\<lparr>is_short := True\<rparr>) value (emit_all (relative_addr_code (oreg addr) (pc ctx)) ctx)
             else buxn_jit_store addr value ctx)
     }"

lemma store_handlers:
  "buxn_jit_STZ ctx = store_opcode Zero_page ctx"
  "buxn_jit_STR ctx = store_opcode Relative ctx"
  "buxn_jit_STA ctx = store_opcode Absolute ctx"
  by (simp_all add: buxn_jit_STZ_def buxn_jit_STR_def buxn_jit_STA_def store_opcode_def Let_def)

text \<open>What a store does to the machine: the memory of the virtual machine is updated, nothing else outside
  the stacks.\<close>

definition stored ::
  "(lir \<Rightarrow> mach \<Rightarrow> mach) \<Rightarrow> bool \<Rightarrow> u16 \<Rightarrow> u8 list \<Rightarrow> buxn_jit_ctx \<Rightarrow> mach \<Rightarrow> buxn_jit_ctx \<Rightarrow> mach \<Rightarrow> bool" where
  "stored step as a bs ctx m ctx' m' \<longleftrightarrow>
     emits step ctx m ctx' m' \<and> same_env ctx ctx' \<and> reg m' (S 0) = reg m (S 0) \<and>
     mem_same {F_memory, F_ws, F_rs} ctx m m' \<and> ram ctx' m' = poke as (ram ctx m) a bs"

lemma stored_holds:
  assumes "stored step as a bs ctx m ctx' m'" and "mem_holds ctx m u"
  shows "mem_holds ctx' m' (u\<lparr>uram := poke as (uram u) a bs\<rparr>)"
proof -
  have d: "unat (ucast b :: uw) < field_size F_device" for b :: u8 using unsigned_less [of b, where 'a = nat] by simp
  have "ram ctx' m' = poke as (uram u) a bs" using assms mem_holds_ram [OF assms(2)] by (simp add: stored_def)
  moreover have "ram ctx' m' = (\<lambda>i. mem m' (vm_addr (vm_offset (jit ctx)) (reg m (S 0)) F_memory (ucast i)))"
    using assms(1) by (simp add: ram_def [abs_def] stored_def same_env_def jit_reg_defs)
  ultimately show ?thesis
    using assms d by (simp add: vm_holds_def stored_def mem_same_def same_env_def jit_reg_defs fun_eq_iff)
qed

lemma stored_trans:
  assumes t: "steps_to step live ctx0 m0 ctx m" and s: "stored step as a bs ctx m ctx' m'"
  shows "stored step as a bs ctx0 m0 ctx' m'"
proof -
  have "mem_same {F_memory, F_ws, F_rs} ctx0 m0 m'"
    using t s mem_same_jit [of ctx ctx0] mem_same_trans [of "{F_memory, F_ws, F_rs}" ctx0 m0 m m']
      mem_same_mono [of "{F_ws, F_rs}" ctx0 m0 m "{F_memory, F_ws, F_rs}"]
    by (auto simp: stored_def steps_to_def same_env_def jit_reg_defs)
  then show ?thesis
    using t s ram_steps [OF t] emits_trans [of step ctx0 m0 ctx m ctx' m'] same_env_trans [of ctx0 ctx ctx']
    by (auto simp: stored_def steps_to_def)
qed

context sljit_exec
begin

lemma exec_store_code:
  assumes q: "op_reg v" "op_reg a" and r0: "reg m (R 0) = reg m (S 0) + vm_offset (jit ctx) F_memory"
    and lay: "layout_ok (vm_offset (jit ctx)) (reg m (S 0))"
    and val: "reg m v = bytes_val bs" and len: "length bs = opsize short"
  obtains m' where "exec step (store_code a as v short) m = m'"
    and "ram ctx m' = poke as (ram ctx m) (ucast (reg m a)) bs"
    and "regs_same {R 1, R 2} m m'" and "mem_same {F_memory} ctx m m'"
proof -
  define m' where "m' = exec step (store_code a as v short) m"
  let ?p = "ucast (reg m a) :: u16"
  let ?A = "\<lambda>i :: u16. vm_addr (vm_offset (jit ctx)) (reg m BUXN_JIT_S_VM) F_memory (ucast i)"
  have ad: "reg m (R 0) + ucast i = ?A i" for i using r0 by (simp add: vm_addr_def jit_reg_defs)
  have lay': "layout_ok (vm_offset (jit ctx)) (reg m BUXN_JIT_S_VM)" using lay by (simp add: jit_reg_defs)
  have "ram ctx m' = poke as (ram ctx m) ?p bs \<and> regs_same {R 1, R 2} m m' \<and> mem_same {F_memory} ctx m m'"
  proof (cases rule: opsize_cases [OF len])
    case (1 x)
    have m'_eq: "m' = m\<lparr>reg := (reg m)(R 1 := ucast ?p), mem := (mem m)(?A ?p := x)\<rparr>"
      using 1 q val by (simp add: m'_def store_code_def step_simps BUXN_JIT_MEM_def jit_reg_defs ad [unfolded jit_reg_defs])
    show ?thesis
      using ram_upd [OF lay', of m' ?p x] mem_same_upd [OF lay', of "ucast ?p" F_memory "{F_memory}" m' x] 1
      by (simp add: m'_eq poke_def regs_same_def jit_reg_defs)
  next
    case (2 l h)
    have hv: "(ucast (drop_bit 8 (ucast (short_of h l) :: uw)) :: u8) = h" "(ucast (ucast (short_of h l) :: uw) :: u8) = l"
      by (rule bit_word_eqI, auto simp: short_of_def bit_simps dest: bit_imp_le_length)+
    let ?n = "next_addr as ?p"
    let ?m1 = "m\<lparr>mem := (mem m)(?A ?p := h)\<rparr>"
    have m'_eq: "m' = m\<lparr>reg := (reg m)(R 1 := ucast ?n, R 2 := drop_bit 8 (ucast (short_of h l))),
        mem := (mem m)(?A ?p := h, ?A ?n := l)\<rparr>"
      using 2 q val r0 by (cases m) (simp add: m'_def store_code_def step_simps BUXN_JIT_MEM_def jit_reg_defs
          vm_addr_def next_addr_word hv fun_upd_twist del: ucast_uw_ring split del: if_split cong: if_cong)
    have "ram ctx ?m1 = (ram ctx m)(?p := h)" "mem_same {F_memory} ctx m ?m1"
      using ram_upd [OF lay', of ?m1 ?p h] mem_same_upd [OF lay', of "ucast ?p" F_memory "{F_memory}" ?m1 h] by simp_all
    moreover have "ram ctx m' = (ram ctx ?m1)(?n := l)"
      by (rule ram_upd) (use lay' in \<open>simp_all add: m'_eq jit_reg_defs\<close>)
    moreover have "mem_same {F_memory} ctx ?m1 m'"
      by (rule mem_same_upd [of _ _ "ucast ?n" F_memory _ _ l]) (use lay' in \<open>simp_all add: m'_eq jit_reg_defs\<close>)
    ultimately show ?thesis
      using 2 mem_same_trans [of "{F_memory}" ctx m ?m1 m'] by (simp add: poke_def m'_eq regs_same_def)
  qed
  then show ?thesis using that [of m'] by (simp add: m'_def)
qed

lemma exec_store:
  assumes s: "vsim ctx m held live V" and l: "oreg addr \<in> set live" "oreg v \<in> set live"
    and val: "reg m (oreg v) = bytes_val bs" and len: "length bs = opsize (is_short v)"
  obtains m' where "vsim (buxn_jit_store addr v ctx) m' held live V"
    and "stored step (is_short addr) (ucast (reg m (oreg addr))) bs ctx m (buxn_jit_store addr v ctx) m'"
proof -
  let ?c = "buxn_jit_set_mem_base F_memory ctx"
  obtain m1 where s1: "vsim ?c m1 held live V" and t1: "steps_to step live ctx m ?c m1"
    and r0: "reg m1 (R 0) = reg m (S 0) + vm_offset (jit ctx) F_memory" and rs: "regs_same {R 0} m m1"
    by (rule exec_set_mem_base_vsim [OF s])
  have op: "op_reg (oreg v)" "op_reg (oreg addr)" using vsimD(7) [OF s] l by simp_all
  have jit: "jit ?c = jit ctx" using steps_toD(2) [OF t1] by (simp add: same_env_def)
  have r0': "reg m1 (R 0) = reg m1 (S 0) + vm_offset (jit ?c) F_memory"
    using r0 rs by (simp add: regs_same_def jit)
  have lay: "layout_ok (vm_offset (jit ?c)) (reg m1 (S 0))"
    using vsimD(4) [OF s1] by (simp add: base_ok_def jit_reg_defs)
  have ad: "reg m1 (oreg addr) = reg m (oreg addr)" "reg m1 (oreg v) = bytes_val bs"
    using steps_toD(3) [OF t1] l val by simp_all
  let ?is = "store_code (oreg addr) (is_short addr) (oreg v) (is_short v)"
  obtain m2 where ex: "exec step ?is m1 = m2"
    and rm: "ram ?c m2 = poke (is_short addr) (ram ?c m1) (ucast (reg m1 (oreg addr))) bs"
    and rs2: "regs_same {R 1, R 2} m1 m2" and ms2: "mem_same {F_memory} ?c m1 m2"
    by (rule exec_store_code [OF op r0' lay ad(2) len])
  have s1': "vsim ?c (m1\<lparr>mem := mem m2\<rparr>) held live V"
    by (rule vsim_mem [OF s1, of _ "{F_memory}"]) (use ms2 in \<open>simp_all add: mem_same_def\<close>)
  have "regs_same (own_regs live) (m1\<lparr>mem := mem m2\<rparr>) m2" using rs2 by (simp add: regs_same_def own_regs_def)
  then have s2: "vsim (emit_all ?is ?c) m2 held live V" using vsim_own [OF s1'] by simp
  have "stored step (is_short addr) (ucast (reg m (oreg addr))) bs ?c m1 (emit_all ?is ?c) m2"
    using emits_emit_all [of step ?c m1 ?is] rm ad(1) regs_sameD [OF rs2, of "S 0"] mem_same_mono [OF ms2]
    by (auto simp: stored_def ex ram_emit_all)
  from stored_trans [OF t1 this] s2 show ?thesis
    by (intro that [of m2]) (simp_all add: buxn_jit_store_def)
qed

lemma exec_store_opcode:
  assumes s: "vsim ctx m h [] V" and st: "vtop V (buxn_jit_op_flag_r ctx) = as @ bs @ xs"
    and len: "length as = opsize (mode = Absolute)" "length bs = opsize (buxn_jit_op_flag_2 ctx)"
    and room: "cached_total ctx + length h \<le> 4"
  obtains ctx' m' held V' where "store_opcode mode ctx = Some ctx'" and "vsim ctx' m' held [] V'"
    and "vreal V' = (vreal V)(buxn_jit_op_flag_r ctx := kept V (buxn_jit_op_flag_r ctx) xs)"
    and "stored step (mode \<noteq> Zero_page) (addr_of mode (pc ctx) as) bs ctx m ctx' m'"
proof -
  let ?r = "buxn_jit_op_flag_r ctx" and ?U = "vpop (buxn_jit_op_flag_r ctx) (length (as @ bs)) V"
  obtain a c1 v c2 m2 where p: "buxn_jit_pop_ex (mode = Absolute) ?r ctx = Some (a, c1)" "buxn_jit_pop c1 = Some (v, c2)"
    "is_short a = (mode = Absolute)" "is_short v = buxn_jit_op_flag_2 ctx"
    "vsim c2 m2 (oreg v # oreg a # h) [oreg v, oreg a] ?U"
    "reg m2 (oreg v) = bytes_val bs" "reg m2 (oreg a) = bytes_val as" "steps_to step [] ctx m c2 m2"
    by (rule exec_pop2 [OF s st len room])
  let ?h = "oreg v # oreg a # h" and ?l = "[oreg v, oreg a]"
  have "vtop V ?r = (as @ bs) @ xs" using st by simp
  note rU = vreal_vpop [OF this]
  have lv: "length bs = opsize (is_short v)" and ia: "oreg a \<in> set ?l" and iv: "oreg v \<in> set ?l"
    using len(2) p(4) by simp_all
  have pc: "pc c2 = pc ctx" using steps_toD(2) [OF p(8)] by (simp add: same_env_def)
  have ne: "oreg v \<noteq> oreg a" using vsimD(12) [OF p(5)] by simp
  show ?thesis
  proof (cases "mode = Relative")
    case True
    then obtain b where b: "as = [b]" using len by (auto simp: length_Suc_conv)
    let ?is = "relative_addr_code (oreg a) (pc c2)"
    have op: "op_reg (oreg a)" using vsimD(7) [OF p(5)] by simp
    have s3: "vsim (emit_all ?is c2) (exec step ?is m2) ?h ?l ?U"
      unfolding exec_relative [OF op] vsim_emit_all by (rule vsim_set_reg [OF p(5)]) simp
    have "steps_to step [] c2 m2 (emit_all ?is c2) (exec step ?is m2)"
      using emits_emit_all [of step c2 m2 ?is] op by (auto simp: steps_to_def exec_relative [OF op])
    then have t3: "steps_to step [] ctx m (emit_all ?is c2) (exec step ?is m2)"
      by (rule steps_to_trans [OF p(8)]) simp
    have v3: "reg (exec step ?is m2) (oreg v) = bytes_val bs" using p(6) ne by (simp add: exec_relative [OF op])
    have ia': "oreg (a\<lparr>is_short := True\<rparr>) \<in> set ?l" by simp
    have ad: "ucast (reg (exec step ?is m2) (oreg (a\<lparr>is_short := True\<rparr>))) = addr_of mode (pc ctx) as"
      using True p(7) by (simp add: exec_relative [OF op] b addr_of_def pc add.commute)
    obtain m' where q: "vsim (buxn_jit_store (a\<lparr>is_short := True\<rparr>) v (emit_all ?is c2)) m' ?h ?l ?U"
      "stored step (is_short (a\<lparr>is_short := True\<rparr>)) (ucast (reg (exec step ?is m2) (oreg (a\<lparr>is_short := True\<rparr>)))) bs
        (emit_all ?is c2) (exec step ?is m2) (buxn_jit_store (a\<lparr>is_short := True\<rparr>) v (emit_all ?is c2)) m'"
      by (rule exec_store [OF s3 ia' iv v3 lv])
    show ?thesis
      by (rule that [OF _ vsim_weaken [OF q(1)] rU stored_trans [OF t3]])
        (use True p(1,2) q(2) ad in \<open>simp_all add: store_opcode_def\<close>)
  next
    case False
    have ad: "ucast (reg m2 (oreg a)) = addr_of mode (pc ctx) as" "is_short a = (mode \<noteq> Zero_page)"
      using False p(3,7) len(1) by (cases mode; auto simp: addr_of_def length_Suc_conv numeral_2_eq_2)+
    obtain m' where q: "vsim (buxn_jit_store a v c2) m' ?h ?l ?U"
      "stored step (is_short a) (ucast (reg m2 (oreg a))) bs c2 m2 (buxn_jit_store a v c2) m'"
      by (rule exec_store [OF p(5) ia iv p(6) lv])
    show ?thesis
      by (rule that [OF _ vsim_weaken [OF q(1)] rU stored_trans [OF p(8) q(2) [unfolded ad]]])
        (use False p(1,2) in \<open>simp_all add: store_opcode_def\<close>)
  qed
qed

end

end
