(* ===== verification/Sim_Step.thy ===== *)
theory Sim_Step
  imports Sim_Mem
begin

text \<open>
  From one opcode to the next: literals, and the start of \<^verbatim>\<open>buxn_jit_next_opcode\<close>, which drops flushed
  cells, counts the references of the remaining ones afresh and fetches the opcode. \<open>boundary\<close> is what
  holds between two opcodes; \<open>linear\<close> adds that pending operands have registers of their own.
\<close>

section \<open>Literals\<close>

lemma ucast_Suc_short: "a < 0xffff \<Longrightarrow> (ucast (a :: u16) + 1 :: uw) = ucast (a + 1)"
proof -
  assume "a < 0xffff"
  then have "unat a < 65535" by (simp add: word_less_nat_alt)
  then show ?thesis by (simp add: word_unat_eq_iff unat_word_ariths)
qed

context sljit_exec
begin

lemma exec_immediate_code:
  assumes q: "op_reg q" and r0: "reg m (R 0) = reg m (S 0) + vm_offset (jit ctx) F_memory"
  obtains m' where "exec step (immediate_code le a q short) m = m'" and "mem m' = mem m"
    and "reg m' q = bytes_val (peek True short (ram ctx m) a)"
    and "regs_same {R 1, R 2, q} m m'"
proof -
  define m' where "m' = exec step (immediate_code le a q short) m"
  note ad = ram_addr [OF r0]
  have ad1: "mem m (reg m (R 0) + ucast a + 1) = ram ctx m (a + 1)" if "a < 0xffff"
    unfolding add.assoc ucast_Suc_short [OF that] by (rule ad)
  have up: "(ucast (ucast (ucast a + 1 :: uw) :: u16) :: uw) = ucast (a + 1)" by simp
  have "mem m' = mem m \<and> reg m' q = bytes_val (peek True short (ram ctx m) a) \<and> regs_same {R 1, R 2, q} m m'"
  proof (cases "short \<and> a < 0xffff")
    case True
    then show ?thesis
      using q by (cases le) (simp_all add: m'_def immediate_code_def step_simps step_load_u16 BUXN_JIT_MEM_def jit_reg_defs
          peek_def next_addr_def ad ad1 regs_same_def Let_def)
  next
    case False
    then show ?thesis
      using q by (auto simp: m'_def immediate_code_def step_simps BUXN_JIT_MEM_def jit_reg_defs
          peek_def next_addr_def ad up regs_same_def short_of_word simp del: ucast_uw_ring)
  qed
  then show ?thesis using that [of m'] by (simp add: m'_def)
qed

end

lemma vsim_pc [simp]: "vsim (ctx\<lparr>pc := p\<rparr>) m held live V = vsim ctx m held live V"
  by (rule vsim_ctx_cong) (simp_all add: cache_of_def)

context sljit_exec
begin

lemma exec_LIT:
  assumes s: "vsim ctx m h [] V" and hl: "length h \<le> 2" and en: "little_endian (jit ctx) = le"
    and fit: "length (peek True (buxn_jit_op_flag_2 ctx) (ram ctx m) (pc ctx) @ vreal V (buxn_jit_op_flag_r ctx)) \<le> 256"
  obtains ctx' m' held V' where "buxn_jit_LIT ctx = Some ctx'" and "vsim ctx' m' held [] V'"
    and "vreal V' = (vreal V)(buxn_jit_op_flag_r ctx :=
      peek True (buxn_jit_op_flag_2 ctx) (ram ctx m) (pc ctx) @ vreal V (buxn_jit_op_flag_r ctx))"
    and "steps_to step [] (ctx\<lparr>pc := pc ctx + (if buxn_jit_op_flag_2 ctx then 2 else 1)\<rparr>) m ctx' m'"
proof -
  let ?r = "buxn_jit_op_flag_r ctx" and ?f = "buxn_jit_op_flag_2 ctx" and ?U = "vseal V"
  let ?bs = "peek True ?f (ram ctx m) (pc ctx)"
  let ?ctx = "ctx\<lparr>pc := pc ctx + (if ?f then 2 else 1)\<rparr>"
  have n: "length h < 6" using hl by simp
  obtain q c1 m1 where al: "buxn_jit_alloc_reg ctx = Some (q, c1)" and s1: "vsim c1 m1 (q # h) [q] ?U"
    and t1: "steps_to step [] ctx m c1 m1"
    by (rule exec_alloc_vsim [OF s n])
  let ?c = "buxn_jit_set_mem_base F_memory c1"
  obtain m2 where s2: "vsim ?c m2 (q # h) [q] ?U" and t2: "steps_to step [q] c1 m1 ?c m2"
    and r0: "reg m2 (R 0) = reg m1 (S 0) + vm_offset (jit c1) F_memory" and rs: "regs_same {R 0} m1 m2"
    by (rule exec_set_mem_base_vsim [OF s1])
  have t02: "steps_to step [] ctx m ?c m2" by (rule steps_to_trans [OF t1 t2]) simp
  have env: "jit ?c = jit ctx" "jit c1 = jit ctx" "pc c1 = pc ctx" "pc ?c = pc ctx"
    using steps_toD(2) [OF t02] steps_toD(2) [OF t1] by (simp_all add: same_env_def)
  have op: "op_reg q" using vsimD(7) [OF s1] by simp
  have r0': "reg m2 (R 0) = reg m2 (S 0) + vm_offset (jit ?c) F_memory"
    using r0 rs by (simp add: regs_same_def env)
  let ?is = "immediate_code le (pc ctx) q ?f"
  obtain m3 where ex: "exec step ?is m2 = m3" and mm: "mem m3 = mem m2"
    and val: "reg m3 q = bytes_val (peek True ?f (ram ?c m2) (pc ctx))" and rs3: "regs_same {R 1, R 2, q} m2 m3"
    by (rule exec_immediate_code [OF op r0'])
  have "regs_same (own_regs [q]) m2 m3" using rs3 by (auto simp: regs_same_def own_regs_def)
  then have s3: "vsim (emit_all ?is ?c) m3 (q # h) [q] ?U" using vsim_own [OF s2 mm] by simp
  have "steps_to step [] ?c m2 (emit_all ?is ?c) m3"
    using emits_emit_all [of step ?c m2 ?is] regs_sameD [OF rs3, of "S 0"] op mm by (auto simp: steps_to_def ex)
  then have t3: "steps_to step [] ctx m (emit_all ?is ?c) m3" by (rule steps_to_trans [OF t02]) simp
  let ?c4 = "(emit_all ?is ?c)\<lparr>pc := pc ctx + (if ?f then 2 else 1)\<rparr>"
  have s4: "vsim ?c4 m3 (q # h) [q] ?U" using s3 by simp
  have t4: "steps_to step [] ?ctx m ?c4 m3"
    using t3 by (auto simp: steps_to_def same_env_def emits_def mem_same_def)
  define v where "v = \<lparr>semantics = {SEM_CONST}, is_short = ?f,
    const_value = (if ?f then mem_short (vm_memory (jit ctx)) (pc ctx) else ucast (vm_memory (jit ctx) (pc ctx))), oreg = q\<rparr>"
  have vl: "oreg v \<in> set [q]" and v3: "reg m3 (oreg v) = bytes_val ?bs" and lv: "length ?bs = opsize (is_short v)"
    and fit4: "length (?bs @ vreal ?U ?r) \<le> 256"
    using val ram_steps [OF t02] fit by (simp_all add: v_def length_peek)
  have fr: "buxn_jit_op_flag_r ?ctx = ?r" by (simp add: buxn_jit_op_flag_r_def)
  obtain ctx' m' where pu: "buxn_jit_push v ?c4 = Some ctx'"
    and s5: "vsim ctx' m' (q # h) [] (vpush ?r ?bs ?U)" and t5: "steps_to step [] ?ctx m ctx' m'"
    by (rule exec_push_last [OF s4 vl v3 lv fit4 t4 fr])
  have "buxn_jit_LIT ctx = Some ctx'"
    using al pu by (cases ?f) (simp_all add: buxn_jit_LIT_def buxn_jit_immediate_def Let_def env en v_def)
  then show ?thesis by (rule that [OF _ s5 _ t5]) simp
qed

end

section \<open>Between opcodes\<close>

definition boundary :: "buxn_jit_ctx \<Rightarrow> mach \<Rightarrow> (bool \<Rightarrow> u8 list) \<Rightarrow> bool" where
  "boundary ctx m st \<longleftrightarrow>
     shape_ok ctx \<and> base_ok ctx m \<and> (\<forall>r. flushed_first r ctx) \<and>
     (\<forall>r. \<forall>v \<in> set (ops_new r ctx). op_reg (oreg v) \<and> fits m v) \<and> (\<forall>r. rview ctx m r (st r))"

definition linear :: "buxn_jit_ctx \<Rightarrow> bool" where
  "linear ctx \<longleftrightarrow> distinct (map oreg (ops_new False ctx) @ map oreg (ops_new True ctx))"

lemma vwsim_boundary:
  assumes s: "vwsim ctx m held V"
  shows "boundary ctx m (vreal V)"
proof -
  have "flushed_first r ctx" for r
  proof (cases V)
    case (Direct st)
    then have "\<forall>c \<in> set (act r ctx). need_flush c" using vwsimD(6) [OF s] by (simp add: vview_def pending_def)
    then show ?thesis by (simp add: flushed_first_def filter_empty_conv)
  next
    case (Keep k st po)
    then show ?thesis using vwsimD(6) [OF s] by (simp add: vview_def)
  qed
  moreover have "op_reg (oreg v) \<and> fits m v" if "v \<in> set (ops_new r ctx)" for r v
    using that core_op_regs [OF vwsimD(1) [OF s], of v r] vwsimD(1) [OF s] set_ops_new [of r ctx]
    by (auto simp: core_def)
  ultimately show ?thesis using vwsimD(2,4,5) [OF s] by (simp add: boundary_def)
qed

text \<open>The pending cells are some of the cached ones.\<close>

lemma distinct_filter_cells:
  assumes "distinct (map (\<lambda>c. oreg (cval c)) (xs @ ys))"
  shows "distinct (map (\<lambda>c. oreg (cval c)) (filter P xs @ filter P ys))"
  using assms distinct_map_filter [of "\<lambda>c. oreg (cval c)" "xs @ ys" P] by simp

lemma vsim_boundary: "vsim ctx m held live V \<Longrightarrow> boundary ctx m (vreal V) \<and> linear ctx"
proof -
  assume s: "vsim ctx m held live V"
  then have "boundary ctx m (vreal V)" using vwsim_boundary [of ctx m held V] by (simp add: vsim_vwsim)
  moreover have "distinct (map (\<lambda>c. oreg (cval c)) (act False ctx @ act True ctx))"
    using vsimD(9) [OF s] by (auto simp: cached_regs_def ops_all_def comp_def)
  then have "linear ctx"
    using distinct_filter_cells [of "act False ctx" "act True ctx" need_flush]
    by (simp add: linear_def ops_new_def comp_def)
  ultimately show ?thesis by simp
qed

text \<open>Retaining a list of cells adds one reference for each.\<close>

lemma retain_cells_counts:
  assumes "\<forall>c \<in> set cs. op_reg (oreg (cval c))" and "length (reg_ref_counts ctx) = 6"
  shows "\<exists>rc. retain_cells cs ctx = Some (ctx\<lparr>reg_ref_counts := rc\<rparr>) \<and> length rc = 6 \<and>
    (\<forall>i < 6. rc ! i = reg_ref_counts ctx ! i + count_list (map (\<lambda>c. oreg (cval c)) cs) (R (3 + i)))"
  using assms
proof (induction cs arbitrary: ctx)
  case Nil
  then show ?case by (intro exI [of _ "reg_ref_counts ctx"]) simp
next
  case (Cons c cs)
  obtain j where j: "j < 6" "oreg (cval c) = R (3 + j)" using Cons.prems(1) by (auto simp: op_reg_iff)
  define rc1 where "rc1 = (reg_ref_counts ctx)[j := reg_ref_counts ctx ! j + 1]"
  have r1: "buxn_jit_retain_reg (oreg (cval c)) ctx = Some (ctx\<lparr>reg_ref_counts := rc1\<rparr>)"
    using retain_reg_ok [OF j(1)] j(2) by (simp add: rc1_def)
  have "length (reg_ref_counts (ctx\<lparr>reg_ref_counts := rc1\<rparr>)) = 6" using Cons.prems(2) by (simp add: rc1_def)
  from Cons.IH [OF _ this] Cons.prems(1) obtain rc where rc: "retain_cells cs (ctx\<lparr>reg_ref_counts := rc1\<rparr>) =
      Some ((ctx\<lparr>reg_ref_counts := rc1\<rparr>)\<lparr>reg_ref_counts := rc\<rparr>)" "length rc = 6"
    "\<forall>i < 6. rc ! i = rc1 ! i + count_list (map (\<lambda>c. oreg (cval c)) cs) (R (3 + i))"
    by auto
  have "rc1 ! i = reg_ref_counts ctx ! i + (if R (3 + j) = R (3 + i) then 1 else 0)" if "i < 6" for i
    using Cons.prems(2) j(1) that by (auto simp: rc1_def nth_list_update)
  then show ?case
    using rc j(2) r1 by (intro exI [of _ rc]) auto
qed

text \<open>\<^verbatim>\<open>buxn_jit_stack_cache_retain\<close> drops as many cells from the bottom as are flushed and counts the rest.\<close>

lemma retain_static:
  assumes sh: "shape_ok ctx" and k: "k = length (filter (\<lambda>c. \<not> need_flush c) (act r ctx))"
    and op: "\<forall>c \<in> set (drop k (act r ctx)). op_reg (oreg (cval c))"
  obtains ctx' where "buxn_jit_stack_cache_retain r ctx = Some ctx'"
    and "act r ctx' = drop k (act r ctx)" and "act (\<not> r) ctx' = act (\<not> r) ctx" and "shape_ok ctx'"
    and "\<forall>i < 6. reg_ref_counts ctx' ! i = reg_ref_counts ctx ! i +
      count_list (map (\<lambda>c. oreg (cval c)) (drop k (act r ctx))) (R (3 + i))"
    and "ctx_frame ctx ctx'" and "code ctx' = code ctx" and "mem_base ctx' = mem_base ctx"
proof -
  let ?ca = "cache_of r ctx"
  define n where "n = clen ?ca - k"
  have cl: "clen ?ca = length (act r ctx)" using length_act [OF sh] by simp
  have len: "length (cells ?ca) = 4" "clen ?ca \<le> 4" using sh by (auto simp: shape_ok_def BUXN_JIT_CACHE_SIZE_def)
  have kn: "k \<le> clen ?ca" unfolding cl k by simp
  define cs where "cs = shift_cells k n (cells ?ca)"
  have nk: "n + k \<le> length (cells ?ca)" using kn len by (simp add: n_def)
  have lcs: "length cs = 4" and tk: "take n cs = take n (drop k (cells ?ca))"
    using shift_cells_props [OF nk] len by (simp_all add: cs_def)
  have "take n (drop k (cells ?ca)) = drop k (act r ctx)"
    using kn by (simp add: act_def n_def take_drop)
  then have tcs: "take n cs = drop k (act r ctx)" using tk by simp
  define c where "c = set_cache r (?ca\<lparr>clen := n, cells := cs\<rparr>) ctx"
  have rl: "length (reg_ref_counts c) = 6" using sh by (simp add: c_def shape_ok_def)
  obtain rc where rc: "retain_cells (take n cs) c = Some (c\<lparr>reg_ref_counts := rc\<rparr>)" "length rc = 6"
    "\<forall>i < 6. rc ! i = reg_ref_counts c ! i + count_list (map (\<lambda>c. oreg (cval c)) (take n cs)) (R (3 + i))"
    using retain_cells_counts [OF op rl] unfolding tcs by blast
  let ?c' = "c\<lparr>reg_ref_counts := rc\<rparr>"
  have call: "buxn_jit_stack_cache_retain r ctx = Some ?c'"
    using rc(1) by (simp add: buxn_jit_stack_cache_retain_def Let_def act_def [symmetric] k [symmetric]
        n_def [symmetric] cs_def [symmetric] c_def [symmetric])
  have act': "act r ?c' = drop k (act r ctx)" "act (\<not> r) ?c' = act (\<not> r) ctx"
    using tcs by (simp_all add: act_def c_def)
  have "n \<le> 4" using len(2) by (simp add: n_def)
  then have "length (cells (cache_of q ?c')) = 4 \<and> clen (cache_of q ?c') \<le> 4" for q
    using sh lcs by (cases "q = r") (simp_all add: c_def shape_ok_def BUXN_JIT_CACHE_SIZE_def)
  then have sh': "shape_ok ?c'" using rc(2) by (simp add: shape_ok_def BUXN_JIT_CACHE_SIZE_def)
  have cnt: "\<forall>i < 6. reg_ref_counts ?c' ! i = reg_ref_counts ctx ! i +
      count_list (map (\<lambda>c. oreg (cval c)) (drop k (act r ctx))) (R (3 + i))"
    using rc(3) by (simp add: tcs c_def)
  show ?thesis
    by (rule that [OF call act' sh' cnt]) (simp_all add: c_def ctx_frame_def)
qed

text \<open>When the flushed cells are at the bottom, the pending ones stay.\<close>

lemma retain_cache:
  assumes sh: "shape_ok ctx" and ff: "flushed_first r ctx" and op: "\<forall>v \<in> set (ops_new r ctx). op_reg (oreg v)"
  obtains ctx' where "buxn_jit_stack_cache_retain r ctx = Some ctx'"
    and "act r ctx' = filter need_flush (act r ctx)" and "act (\<not> r) ctx' = act (\<not> r) ctx" and "shape_ok ctx'"
    and "\<forall>i < 6. reg_ref_counts ctx' ! i = reg_ref_counts ctx ! i + count_list (map oreg (ops_new r ctx)) (R (3 + i))"
    and "ctx_frame ctx ctx'" and "code ctx' = code ctx" and "mem_base ctx' = mem_base ctx"
proof -
  define k where "k = length (filter (\<lambda>c. \<not> need_flush c) (act r ctx))"
  have d: "drop k (act r ctx) = filter need_flush (act r ctx)"
    using ff unfolding flushed_first_def k_def by (metis append_eq_conv_conj)
  have op': "\<forall>c \<in> set (drop k (act r ctx)). op_reg (oreg (cval c))"
    unfolding d using op by (auto simp: ops_new_def)
  have m: "map (\<lambda>c. oreg (cval c)) (drop k (act r ctx)) = map oreg (ops_new r ctx)"
    by (simp add: d ops_new_def comp_def)
  show ?thesis
    by (rule retain_static [OF sh k_def op']) (erule that, simp_all add: d m [unfolded d])
qed

text \<open>Fetching: the references are those of the pending cells, the views are untouched.\<close>

lemma fetch_opcode_sim:
  assumes b: "boundary ctx m st"
  obtains ctx' where "fetch_opcode ctx = Some ctx'"
    and "\<And>r. act r ctx' = filter need_flush (act r ctx)"
    and "core ctx' m []" and "pending ctx'" and "\<And>r. rview ctx' m r (st r)"
    and "code ctx' = code ctx" and "jit ctx' = jit ctx" and "pc ctx' = pc ctx + 1"
    and "current_opcode ctx' = vm_memory (jit ctx) (pc ctx)" and "compiler ctx' = compiler ctx"
    and "wsp_reg ctx' = wsp_reg ctx" and "rsp_reg ctx' = rsp_reg ctx" and "cached_total ctx' \<le> cached_total ctx"
proof -
  have sh: "shape_ok ctx" and ff: "flushed_first r ctx" and ops: "\<forall>v \<in> set (ops_new r ctx). op_reg (oreg v)"
    and fts: "\<forall>v \<in> set (ops_new r ctx). fits m v" for r
    using b by (auto simp: boundary_def)
  define c0 where "c0 = ctx\<lparr>reg_ref_counts := replicate 6 0\<rparr>"
  have act0: "act r c0 = act r ctx" for r by (rule act_cong) (simp add: c0_def)
  have new0: "ops_new r c0 = ops_new r ctx" for r by (simp add: ops_new_def act0)
  have sh0: "shape_ok c0" using sh by (simp add: c0_def shape_ok_def)
  have ff0: "flushed_first r c0" for r using ff [of r] by (simp add: flushed_first_def act0)
  have op0: "\<forall>v \<in> set (ops_new False c0). op_reg (oreg v)" unfolding new0 by (rule ops)
  obtain c1 where r1: "buxn_jit_stack_cache_retain False c0 = Some c1"
    "act False c1 = filter need_flush (act False c0)" "act (\<not> False) c1 = act (\<not> False) c0" "shape_ok c1"
    "\<forall>i < 6. reg_ref_counts c1 ! i = reg_ref_counts c0 ! i + count_list (map oreg (ops_new False c0)) (R (3 + i))"
    "ctx_frame c0 c1" "code c1 = code c0" "mem_base c1 = mem_base c0"
    by (rule retain_cache [OF sh0 ff0 op0])
  have ff1: "flushed_first True c1" and new1: "ops_new True c1 = ops_new True ctx"
    using ff0 [of True] r1(3) act0 by (simp_all add: flushed_first_def ops_new_def)
  have op1: "\<forall>v \<in> set (ops_new True c1). op_reg (oreg v)" unfolding new1 by (rule ops)
  obtain c2 where r2: "buxn_jit_stack_cache_retain True c1 = Some c2"
    "act True c2 = filter need_flush (act True c1)" "act (\<not> True) c2 = act (\<not> True) c1" "shape_ok c2"
    "\<forall>i < 6. reg_ref_counts c2 ! i = reg_ref_counts c1 ! i + count_list (map oreg (ops_new True c1)) (R (3 + i))"
    "ctx_frame c1 c2" "code c2 = code c1" "mem_base c2 = mem_base c1"
    by (rule retain_cache [OF r1(4) ff1 op1])
  have act2: "act r c2 = filter need_flush (act r ctx)" for r
    using r1(2,3) r2(2,3) act0 by (cases r) simp_all
  define c3 where "c3 = c2\<lparr>current_opcode := vm_memory (jit c2) (pc c2), pc := pc c2 + 1\<rparr>"
  have fe: "fetch_opcode ctx = Some c3" using r1(1) r2(1) by (simp add: fetch_opcode_def c3_def c0_def)
  have ca3: "cache_of r c3 = cache_of r c2" for r by (simp add: c3_def cache_of_def)
  have act3: "act r c3 = filter need_flush (act r ctx)" for r
    using act2 by (simp add: act_cong [OF ca3])
  have fr: "ctx_frame c0 c2" by (rule ctx_frame_trans [OF r1(6) r2(6)])
  have env: "jit c3 = jit ctx" "pc c3 = pc ctx + 1" "current_opcode c3 = vm_memory (jit ctx) (pc ctx)"
    "compiler c3 = compiler ctx" "wsp_reg c3 = wsp_reg ctx" "rsp_reg c3 = rsp_reg ctx"
    "code c3 = code ctx" "mem_base c3 = mem_base ctx"
    using fr r1(7,8) r2(7,8) by (simp_all add: c3_def ctx_frame_def c0_def)
  have ops3: "ops_all r c3 = ops_new r ctx" "ops_new r c3 = ops_new r ctx" for r
    by (simp_all add: ops_all_def ops_new_def act3)
  have sh3: "shape_ok c3" using r2(4) by (simp add: shape_ok_def ca3) (simp add: c3_def)
  have "reg_ref_counts c3 = reg_ref_counts c2" "reg_ref_counts c0 = replicate 6 0"
    by (simp_all add: c3_def c0_def)
  then have "count_list (cached_regs c3 @ []) (R (3 + i)) = reg_ref_counts c3 ! i" if "i < 6" for i
    using r1(5) r2(5) that by (simp add: cached_regs_def ops3 new0 new1)
  then have rf: "refs_ok c3 []" using ops by (auto simp: refs_ok_def cached_regs_def ops3)
  have "base_ok c3 m" using b by (simp add: boundary_def base_ok_def env)
  then have co: "core c3 m []" using sh3 rf fts by (simp add: core_def ops3)
  have pe: "pending c3" by (simp add: pending_def act3)
  have "rview c3 m r = rview ctx m r" for r
    using stack_arr_same [OF refl refl env(1)] by (intro rview_cong) (simp_all add: ops3)
  then have vw: "rview c3 m r (st r)" for r using b by (simp add: boundary_def)
  have "length (act r c3) \<le> length (act r ctx)" for r by (simp add: act3)
  then have "cached_total c3 \<le> cached_total ctx"
    using length_act [OF sh] length_act [OF sh3] by (simp add: cached_total_eq [of _ False] add_mono)
  then show ?thesis by (intro that [OF fe act3 co pe vw env(7,1-6)])
qed

text \<open>Outside keep mode nothing is emitted before the handler runs.\<close>

lemma fetch_plain:
  assumes b: "boundary ctx m st"
    and k: "\<And>c. current_opcode c = vm_memory (jit ctx) (pc ctx) \<Longrightarrow> \<not> buxn_jit_op_flag_k c"
  obtains ctx'' where "do { c \<leftarrow> fetch_opcode ctx; setup_shadow c } = Some ctx''"
    and "wsim ctx'' m [] st" and "linear ctx \<longrightarrow> sim ctx'' m [] [] st"
    and "code ctx'' = code ctx" and "jit ctx'' = jit ctx" and "pc ctx'' = pc ctx + 1"
    and "current_opcode ctx'' = vm_memory (jit ctx) (pc ctx)" and "compiler ctx'' = compiler ctx"
    and "cached_total ctx'' \<le> cached_total ctx"
proof -
  obtain c where c: "fetch_opcode ctx = Some c" "\<And>r. act r c = filter need_flush (act r ctx)"
    "core c m []" "pending c" "\<And>r. rview c m r (st r)" "code c = code ctx" "jit c = jit ctx" "pc c = pc ctx + 1"
    "current_opcode c = vm_memory (jit ctx) (pc ctx)" "compiler c = compiler ctx" "cached_total c \<le> cached_total ctx"
    using fetch_opcode_sim [OF b] by metis
  define c' where "c' = c\<lparr>eshadow := False, wsp_reg := BUXN_JIT_S_WSP, rsp_reg := BUXN_JIT_S_RSP\<rparr>"
  have ca: "cache_of r c' = cache_of r c" for r by (simp add: c'_def cache_of_def)
  have act: "act r c' = act r c" for r by (rule act_cong) (rule ca)
  have "rview c' m r = rview c m r" for r
    using stack_arr_same [OF refl refl, of c' c] by (intro rview_cong) (simp_all add: ops_new_def act, simp_all add: c'_def)
  moreover have "core c' m []"
    using c(3) by (simp add: core_def shape_ok_def refs_ok_def base_ok_def ca ops_all_def act cached_regs_cong [OF act])
      (simp add: c'_def)
  moreover have "pending c'" "direct c'" using c(4) by (simp_all add: pending_def act) (simp add: direct_def c'_def)
  ultimately have w: "wsim c' m [] st" using c(5) by (simp add: vwsim_def vview_def)
  have "distinct (cached_regs c' @ [])" if "linear ctx"
    using that c(2) by (simp add: cached_regs_def linear_def ops_all_def ops_new_def act)
  then have s: "linear ctx \<longrightarrow> sim c' m [] [] st" using w by (simp add: sim_wsim)
  have "do { c \<leftarrow> fetch_opcode ctx; setup_shadow c } = Some c'"
    using c(1) k [OF c(9)] by (simp add: setup_shadow_def c'_def)
  then show ?thesis
    by (rule that [OF _ w s]) (use c in \<open>simp_all add: c'_def cached_total_def\<close>)
qed

end
