(* ===== verification/Sim_Keep.thy ===== *)
theory Sim_Keep
  imports Sim_Step
begin

text \<open>
  The start of an opcode in keep mode: shadow copies of the two stack pointers are made, then the stack the
  opcode works on is flushed, so that its cells are in memory and can be read any number of times.
\<close>

section \<open>Flushing\<close>

text \<open>A flush under way: the first \<open>k\<close> cells are written, \<open>p\<close> is the pointer before the first of them.\<close>

definition flushing :: "bool \<Rightarrow> u8 \<Rightarrow> nat \<Rightarrow> buxn_jit_ctx \<Rightarrow> mach \<Rightarrow> u8 list \<Rightarrow> bool" where
  "flushing r p k ctx m ms \<longleftrightarrow>
     length (cbytes m (rev (ops_all r ctx)) @ ms) \<le> 256 \<and>
     (\<forall>c \<in> set (take k (act r ctx)). \<not> need_flush c) \<and> (\<forall>c \<in> set (drop k (act r ctx)). need_flush c) \<and>
     below (stack_arr ctx m r) (ucast (reg m (stack_reg r))) (cbytes m (rev (take k (ops_all r ctx))) @ ms) \<and>
     ucast (reg m (stack_reg r)) = p + of_nat (length (cbytes m (rev (take k (ops_all r ctx)))))"

text \<open>What flushing changes.\<close>

definition flushes :: "bool \<Rightarrow> (lir \<Rightarrow> mach \<Rightarrow> mach) \<Rightarrow> buxn_jit_ctx \<Rightarrow> mach \<Rightarrow> buxn_jit_ctx \<Rightarrow> mach \<Rightarrow> bool" where
  "flushes r step ctx m ctx' m' \<longleftrightarrow>
     emits step ctx m ctx' m' \<and> ctx_frame ctx ctx' \<and> regs_same {R 0, R 1, R 2, stack_reg r} m m' \<and>
     mem_same {stack_field r} ctx m m' \<and> (\<forall>q. ops_all q ctx' = ops_all q ctx) \<and>
     act (\<not> r) ctx' = act (\<not> r) ctx \<and> (\<forall>q. clen (cache_of q ctx') = clen (cache_of q ctx))"

lemma flushes_refl [simp]: "flushes r step ctx m ctx m"
  by (simp add: flushes_def)

lemma flushes_trans:
  assumes "flushes r step a m b m'" and "flushes r step b m' c m''"
  shows "flushes r step a m c m''"
proof -
  have "reg m' BUXN_JIT_S_VM = reg m BUXN_JIT_S_VM" using assms(1) by (simp add: flushes_def regs_same_def jit_reg_defs)
  moreover have "jit b = jit a" using assms(1) by (simp add: flushes_def ctx_frame_def)
  ultimately show ?thesis
    using assms emits_trans [of step a m b m' c m''] ctx_frame_trans [of a b c] mem_same_jit [of b a]
      mem_same_trans [of "{stack_field r}" a m m' m'']
      regs_same_trans [of "{R 0, R 1, R 2, stack_reg r}" m m' "{R 0, R 1, R 2, stack_reg r}" m'']
    by (simp add: flushes_def)
qed

lemma flush_cell_act:
  assumes "k < length (act r ctx)"
  shows "act r (buxn_jit_flush_cell r k ctx) = (act r ctx)[k := (act r ctx ! k)\<lparr>need_flush := False\<rparr>]"
    and "act (\<not> r) (buxn_jit_flush_cell r k ctx) = act (\<not> r) ctx"
    and "ops_all q (buxn_jit_flush_cell r k ctx) = ops_all q ctx"
    and "cells (cache_of r ctx) ! k = act r ctx ! k"
proof -
  have k: "k < clen (cache_of r ctx)" using assms by (simp add: act_def)
  show n: "cells (cache_of r ctx) ! k = act r ctx ! k" using k by (simp add: act_def)
  show a: "act r (buxn_jit_flush_cell r k ctx) = (act r ctx)[k := (act r ctx ! k)\<lparr>need_flush := False\<rparr>]"
    using k by (simp add: act_def take_update_swap)
  show b: "act (\<not> r) (buxn_jit_flush_cell r k ctx) = act (\<not> r) ctx" by (simp add: act_def)
  have "map cval ((act r ctx)[k := (act r ctx ! k)\<lparr>need_flush := False\<rparr>]) = map cval (act r ctx)"
    using assms by (auto simp: nth_list_update intro!: nth_equalityI)
  then show "ops_all q (buxn_jit_flush_cell r k ctx) = ops_all q ctx"
    using b by (cases "q = r") (auto simp: ops_all_def a not_True_eq_False)
qed

context sljit_exec
begin

lemma exec_do_push_ptr:
  assumes base: "base_ok ctx m" and v: "op_reg (oreg v)" and em: "emits step ctx m (buxn_jit_do_push v r ctx) m'"
  shows "ucast (reg m' (stack_reg r)) = (ucast (reg m (stack_reg r)) + of_nat (length (opbytes m v)) :: u8)"
proof -
  obtain m1 where e1: "emits step ctx m (buxn_jit_set_mem_base (stack_field r) ctx) m1" and rs: "regs_same {R 0} m m1"
    by (rule exec_set_mem_base [OF base])
  have "emits step ctx m (buxn_jit_do_push v r ctx) (exec step (push_code r v) m1)"
    unfolding buxn_jit_do_push_def by (rule emits_trans [OF e1 emits_emit_all])
  then have "m' = exec step (push_code r v) m1" by (rule emits_functional [OF em])
  then show ?thesis
    using regs_sameD [OF rs, of "stack_reg r"] v
    by (cases "is_short v") (simp_all add: exec_push_byte exec_push_short opbytes_def Let_def)
qed

lemma exec_flush_cell:
  assumes co: "core ctx m held" and fl: "flushing r p k ctx m ms" and k: "k < length (act r ctx)"
  obtains m' where "flushes r step ctx m (buxn_jit_flush_cell r k ctx) m'"
    and "core (buxn_jit_flush_cell r k ctx) m' held" and "flushing r p (Suc k) (buxn_jit_flush_cell r k ctx) m' ms"
proof -
  let ?c = "buxn_jit_flush_cell r k ctx" and ?v = "ops_all r ctx ! k"
  have sh: "shape_ok ctx" and rf: "refs_ok ctx held" and bs: "base_ok ctx m" using co by (simp_all add: core_def)
  note fa = flush_cell_act [OF k]
  have ko: "k < length (ops_all r ctx)" using k by (simp add: ops_all_def)
  then have v: "?v \<in> set (ops_all r ctx)" by simp
  note op = core_op_regs [OF co v]
  let ?w = "cbytes m (rev (take k (ops_all r ctx)))"
  have tk: "take (Suc k) (ops_all r ctx) = take k (ops_all r ctx) @ [?v]" using ko by (rule take_Suc_conv_app_nth)
  have fb: "below (stack_arr ctx m r) (ucast (reg m (stack_reg r))) (?w @ ms)"
    using fl unfolding flushing_def by blast
  have len: "length (opbytes m ?v @ ?w @ ms) \<le> 256"
  proof -
    have "ops_all r ctx = take (Suc k) (ops_all r ctx) @ drop (Suc k) (ops_all r ctx)" by simp
    then have "cbytes m (rev (ops_all r ctx)) = cbytes m (rev (drop (Suc k) (ops_all r ctx))) @ opbytes m ?v @ ?w"
      unfolding tk by (metis append.assoc cbytes_simps(2,3) rev.simps(2) rev_append rev_singleton_conv append_Cons append_Nil)
    then show ?thesis using fl by (simp add: flushing_def)
  qed
  obtain m' where em: "emits step ctx m (buxn_jit_do_push ?v r ctx) m'" and bs': "base_ok (buxn_jit_do_push ?v r ctx) m'"
    and bl: "below (stack_arr ctx m' r) (ucast (reg m' (stack_reg r))) (opbytes m ?v @ ?w @ ms)"
    and rs: "regs_same {R 0, R 1, R 2, stack_reg r} m m'" and ms: "mem_same {stack_field r} ctx m m'"
    by (rule exec_do_push [OF bs op fb len])
  have cv: "cval (cells (cache_of r ctx) ! k) = ?v" using k by (simp add: fa(4) ops_all_def)
  have cd: "code ?c = code (buxn_jit_do_push ?v r ctx)" "mem_base ?c = mem_base (buxn_jit_do_push ?v r ctx)"
    "reg_ref_counts ?c = reg_ref_counts ctx"
    by (simp_all add: buxn_jit_flush_cell_def Let_def cv)
  have jit: "jit ?c = jit ctx" "jit (buxn_jit_do_push ?v r ctx) = jit ctx"
    using ctx_frame_jit [of ctx ?c] ctx_frame_jit [of ctx "buxn_jit_do_push ?v r ctx"] by (simp_all add: buxn_jit_do_push_def)
  have same: "reg m' q = reg m q" if "op_reg q" for q by (rule op_reg_frame [OF rs that])
  have vals: "cbytes m' vs = cbytes m vs" if "set vs \<subseteq> set (ops_all r ctx)" for vs
    using that core_op_regs [OF co] by (intro cbytes_cong same) blast
  have "flushes r step ctx m ?c m'"
    using emits_code [OF em cd(1)] rs ms fa by (simp add: flushes_def)
  moreover have "core ?c m' held"
  proof (rule core_mono [OF co])
    show "shape_ok ?c" using sh by (simp add: shape_ok_def cd)
    show "refs_ok ?c held" using rf by (simp add: refs_ok_def cached_regs_def fa(3) cd)
    show "base_ok ?c m'" using bs' by (simp add: base_ok_def cd jit)
  qed (simp_all add: fa(3) same)
  moreover have "flushing r p (Suc k) ?c m' ms"
  proof -
    have al: "length (cbytes m' (rev (ops_all r ?c)) @ ms) \<le> 256" using fl vals by (simp add: flushing_def fa(3))
    have ft: "\<forall>c \<in> set (take (Suc k) (act r ?c)). \<not> need_flush c"
      using fl k by (simp add: flushing_def fa(1) take_Suc_conv_app_nth [of k])
    have "drop k (act r ctx) = act r ctx ! k # drop (Suc k) (act r ctx)"
      using Cons_nth_drop_Suc [OF k] by simp
    then have fd: "\<forall>c \<in> set (drop (Suc k) (act r ?c)). need_flush c"
      using fl by (simp add: flushing_def fa(1))
    have w: "cbytes m' (rev (take (Suc k) (ops_all r ?c))) = opbytes m ?v @ ?w"
    proof -
      have "cbytes m' (rev (take (Suc k) (ops_all r ctx))) = cbytes m (rev (take (Suc k) (ops_all r ctx)))"
        by (rule vals) (simp add: set_take_subset)
      then show ?thesis by (simp add: fa(3) tk)
    qed
    show ?thesis
      using al ft fd bl exec_do_push_ptr [OF bs op em] fl w
      by (simp add: flushing_def stack_arr_jit [OF jit(1)] ac_simps)
  qed
  ultimately show ?thesis by (rule that)
qed

lemma exec_flush_cells:
  assumes "core ctx m held" and "flushing r p k ctx m ms" and "k + n = length (act r ctx)"
  obtains m' where "flushes r step ctx m (flush_cells r [k..<k + n] ctx) m'"
    and "core (flush_cells r [k..<k + n] ctx) m' held" and "flushing r p (k + n) (flush_cells r [k..<k + n] ctx) m' ms"
  using assms
proof (induction n arbitrary: ctx m k thesis)
  case 0
  then show ?case by (intro 0(1) [of m]) simp_all
next
  case (Suc n)
  have k: "k < length (act r ctx)" using Suc.prems(4) by simp
  obtain m1 where f: "flushes r step ctx m (buxn_jit_flush_cell r k ctx) m1"
    "core (buxn_jit_flush_cell r k ctx) m1 held" "flushing r p (Suc k) (buxn_jit_flush_cell r k ctx) m1 ms"
    by (rule exec_flush_cell [OF Suc.prems(2,3) k])
  have "act r ctx ! k \<in> set (drop k (act r ctx))" using Cons_nth_drop_Suc [OF k] by (metis list.set_intros(1))
  then have nf: "need_flush (cells (cache_of r ctx) ! k)"
    using Suc.prems(3) unfolding flush_cell_act(4) [OF k] by (simp add: flushing_def)
  have eq: "flush_cells r [k..<k + Suc n] ctx = flush_cells r [Suc k..<Suc k + n] (buxn_jit_flush_cell r k ctx)"
    using nf upt_conv_Cons [of k "k + Suc n"] by (simp del: upt_Suc)
  have l: "Suc k + n = length (act r (buxn_jit_flush_cell r k ctx))"
    using Suc.prems(4) by (simp add: flush_cell_act(1) [OF k])
  obtain m' where g: "flushes r step (buxn_jit_flush_cell r k ctx) m1 (flush_cells r [k..<k + Suc n] ctx) m'"
    "core (flush_cells r [k..<k + Suc n] ctx) m' held" "flushing r p (k + Suc n) (flush_cells r [k..<k + Suc n] ctx) m' ms"
    unfolding eq by (rule Suc.IH [OF _ f(2,3) l]) simp
  show ?case by (rule Suc.prems(1) [OF flushes_trans [OF f(1) g(1)] g(2,3)])
qed

text \<open>After the flush the stack holds what it held, and the pops through the shadow pointer deliver all of it.\<close>

lemma exec_flush:
  assumes co: "core ctx m held" and pe: "\<forall>c \<in> set (act r ctx). need_flush c" and rv: "rview ctx m r xs"
    and sp: "op_reg (stack_ptr_reg r ctx)" and p: "(ucast (reg m (stack_ptr_reg r ctx)) :: u8) = ucast (reg m (stack_reg r))"
  obtains m' where "flushes r step ctx m (buxn_jit_stack_cache_flush r ctx) m'"
    and "core (buxn_jit_stack_cache_flush r ctx) m' held"
    and "\<forall>c \<in> set (act r (buxn_jit_stack_cache_flush r ctx)). \<not> need_flush c"
    and "rview (buxn_jit_stack_cache_flush r ctx) m' r xs" and "pview (buxn_jit_stack_cache_flush r ctx) m' r xs"
proof -
  let ?c = "buxn_jit_stack_cache_flush r ctx" and ?n = "clen (cache_of r ctx)" and ?p = "ucast (reg m (stack_reg r)) :: u8"
  have sh: "shape_ok ctx" using co by (simp add: core_def)
  have n: "0 + ?n = length (act r ctx)" using sh by simp
  have new: "ops_new r ctx = ops_all r ctx" using pe by (simp add: ops_new_def ops_all_def)
  from rv obtain ms where xs: "length xs \<le> 256" "xs = cbytes m (rev (ops_all r ctx)) @ ms" and bl: "below (stack_arr ctx m r) ?p ms"
    by (auto simp: rview_def stack_is_def new)
  have "flushing r ?p 0 ctx m ms" using xs bl pe by (simp add: flushing_def)
  from exec_flush_cells [OF co this n] obtain m' where f: "flushes r step ctx m ?c m'" "core ?c m' held" "flushing r ?p ?n ?c m' ms"
    by (auto simp: buxn_jit_stack_cache_flush_def)
  have ops: "ops_all r ?c = ops_all r ctx" "stack_ptr_reg r ?c = stack_ptr_reg r ctx"
    using f(1) by (simp add: flushes_def, cases r) (simp_all add: flushes_def ctx_frame_def stack_ptr_reg_def)
  have rs: "regs_same {R 0, R 1, R 2, stack_reg r} m m'" using f(1) by (simp add: flushes_def)
  have same: "reg m' q = reg m q" if "op_reg q" for q by (rule op_reg_frame [OF rs that])
  have vals: "cbytes m' (rev (ops_all r ctx)) = cbytes m (rev (ops_all r ctx))"
    using core_op_regs [OF co] by (intro cbytes_cong same) auto
  have "length (act r ?c) = ?n" using f(1,2) by (simp add: core_def flushes_def)
  then have tk: "take ?n (act r ?c) = act r ?c" "take ?n (ops_all r ctx) = ops_all r ctx" using n by (simp_all add: ops_all_def)
  note fl = f(3) [unfolded flushing_def tk ops vals, THEN conjunct2]
  note fin = fl [THEN conjunct1] fl [THEN conjunct2, THEN conjunct2, THEN conjunct1] fl [THEN conjunct2, THEN conjunct2, THEN conjunct2]
  have nn: "ops_new r ?c = []" using fin(1) by (simp add: ops_new_def filter_empty_conv)
  have "rview ?c m' r xs" using xs fin(2) by (simp add: rview_def nn stack_is_def)
  moreover have "below (stack_arr ?c m' r) ?p ms"
    using below_drop [OF fin(2), of "length (cbytes m (rev (ops_all r ctx)))"] unfolding fin(3) by simp
  then have "pview ?c m' r xs" using xs by (auto simp: pview_def ops vals same [OF sp] p stack_is_def)
  ultimately show ?thesis by (rule that [OF f(1,2) fin(1)])
qed

section \<open>The start of an opcode\<close>

text \<open>The two copies of the stack pointers.\<close>

definition shadow_code :: "sreg \<Rightarrow> sreg \<Rightarrow> lir list" where
  "shadow_code q1 q2 = [Op1 SLJIT_MOV_U8 (Reg q1) (Reg BUXN_JIT_S_WSP), Op1 SLJIT_MOV_U8 (Reg q2) (Reg BUXN_JIT_S_RSP)]"

lemma exec_shadow_code:
  assumes "op_reg q1" and "op_reg q2" and "q1 \<noteq> q2"
  shows "exec step (shadow_code q1 q2) m =
    m\<lparr>reg := (reg m)(q1 := ucast (ucast (reg m (S 1)) :: u8), q2 := ucast (ucast (reg m (S 2)) :: u8))\<rparr>"
  using assms by (simp add: shadow_code_def step_simps jit_reg_defs)

end

lemma core_frame:
  assumes "core ctx m held" and "\<And>q. q \<in> set (cached_regs ctx) \<union> {R 0, S 0} \<Longrightarrow> reg m' q = reg m q"
  shows "core ctx m' held"
proof -
  have "fits m' v = fits m v" if "v \<in> set (ops_all r ctx)" for v r
    using that assms(2) set_cached [of ctx r] by (intro fits_cong) auto
  then show ?thesis using assms by (simp add: core_def base_ok_def jit_reg_defs)
qed

lemma core_ctx_cong:
  assumes "\<And>r. cache_of r ctx' = cache_of r ctx" and "jit ctx' = jit ctx" and "mem_base ctx' = mem_base ctx"
    and "reg_ref_counts ctx' = reg_ref_counts ctx"
  shows "core ctx' m held = core ctx m held"
proof -
  have act: "act r ctx' = act r ctx" for r by (rule act_cong) (rule assms(1))
  show ?thesis
    by (simp add: core_def shape_ok_def refs_ok_def base_ok_def assms cached_regs_cong [OF act] ops_all_def act)
qed

lemma rview_ctx_cong:
  assumes "\<And>r. cache_of r ctx' = cache_of r ctx" and "jit ctx' = jit ctx"
  shows "rview ctx' m r = rview ctx m r"
proof -
  have act: "act r ctx' = act r ctx" for r by (rule act_cong) (rule assms(1))
  show ?thesis using stack_arr_same [OF refl refl assms(2)] by (intro rview_cong) (simp_all add: ops_new_def act)
qed

lemma quiet_act: "quiet step ctx m ctx' m' \<Longrightarrow> set (act q ctx') \<subseteq> set (act q ctx)"
  unfolding quiet_def by (metis in_set_dropD subsetI)

lemma quiet_cached: "quiet step ctx m ctx' m' \<Longrightarrow> set (cached_regs ctx') \<subseteq> set (cached_regs ctx)"
  using quiet_act [of step ctx m ctx' m' True] quiet_act [of step ctx m ctx' m' False]
  by (auto simp: cached_regs_def ops_all_def)

lemma quiet_total:
  assumes q: "quiet step ctx m ctx' m'" and "shape_ok ctx" and "shape_ok ctx'"
  shows "cached_total ctx' \<le> cached_total ctx"
proof -
  have "length (act r ctx') \<le> length (act r ctx)" for r
  proof -
    obtain k where "act r ctx' = drop k (act r ctx)" using q unfolding quiet_def by meson
    then show ?thesis by simp
  qed
  then show ?thesis using assms(2,3) by (simp add: cached_total_eq [of _ False] add_mono)
qed

context sljit_exec
begin

text \<open>Two registers for the copies, none of them in use.\<close>

lemma exec_shadow_regs:
  assumes co: "core ctx m []" and di: "distinct (cached_regs ctx)"
  obtains q1 c1 q2 c2 m' where "buxn_jit_alloc_reg ctx = Some (q1, c1)" and "buxn_jit_alloc_reg c1 = Some (q2, c2)"
    and "quiet step ctx m c2 m'" and "core c2 m' [q2, q1]" and "distinct (cached_regs c2 @ [q1, q2])"
    and "op_reg q1" and "op_reg q2"
proof -
  have n: "length [] < 6" by simp
  obtain q1 c1 m1 where 1: "buxn_jit_alloc_reg ctx = Some (q1, c1)" "quiet step ctx m c1 m1"
    "core c1 m1 [q1]" "op_reg q1" "q1 \<notin> set (cached_regs c1 @ [])"
    by (rule exec_alloc_reg [OF co n])
  have n1: "length [q1] < 6" by simp
  obtain q2 c2 m2 where 2: "buxn_jit_alloc_reg c1 = Some (q2, c2)" "quiet step c1 m1 c2 m2"
    "core c2 m2 [q2, q1]" "op_reg q2" "q2 \<notin> set (cached_regs c2 @ [q1])"
    by (rule exec_alloc_reg [OF 1(3) n1])
  have q: "quiet step ctx m c2 m2" by (rule quiet_trans [OF 1(2) 2(2)])
  have dr: "\<forall>q. \<exists>k. act q c2 = drop k (act q ctx)" using q by (simp add: quiet_def)
  have "distinct (cached_regs c2 @ [])" by (rule distinct_cached_drop [OF _ dr]) (simp add: di)
  then have "distinct (cached_regs c2 @ [q1, q2])" using 1(5) 2(5) quiet_cached [OF 2(2)] by auto
  then show ?thesis by (rule that [OF 1(1) 2(1) q 2(3) _ 1(4) 2(4)])
qed

lemma fetch_keep:
  assumes b: "boundary ctx m st" and l: "linear ctx"
    and k: "\<And>c. current_opcode c = vm_memory (jit ctx) (pc ctx) \<Longrightarrow> buxn_jit_op_flag_k c"
  obtains c m' h where "do { c \<leftarrow> fetch_opcode ctx; setup_shadow c } = Some c"
    and "vsim c m' h [] (Keep (buxn_jit_op_flag_r c) st (Some 0))" and "length h = 2"
    and "emits step ctx m c m'" and "reg m' (S 0) = reg m (S 0)" and "mem_same {F_ws, F_rs} ctx m m'"
    and "jit c = jit ctx" and "pc c = pc ctx + 1" and "current_opcode c = vm_memory (jit ctx) (pc ctx)"
    and "compiler c = compiler ctx" and "cached_total c \<le> cached_total ctx"
proof -
  obtain c1 where c1: "fetch_opcode ctx = Some c1" "\<And>r. act r c1 = filter need_flush (act r ctx)"
    "core c1 m []" "pending c1" "\<And>r. rview c1 m r (st r)" "code c1 = code ctx" "jit c1 = jit ctx" "pc c1 = pc ctx + 1"
    "current_opcode c1 = vm_memory (jit ctx) (pc ctx)" "compiler c1 = compiler ctx" "cached_total c1 \<le> cached_total ctx"
    using fetch_opcode_sim [OF b] by metis
  let ?r = "buxn_jit_op_flag_r c1"
  define c2 where "c2 = c1\<lparr>shadow_wsp := wsp c1, shadow_rsp := rsp c1, eshadow := True\<rparr>"
  have ca2: "cache_of r c2 = cache_of r c1" for r by (simp add: c2_def cache_of_def)
  have act2: "act r c2 = act r c1" for r by (rule act_cong) (rule ca2)
  have "core c2 m [] = core c1 m []" by (rule core_ctx_cong) (simp_all add: ca2, simp_all add: c2_def)
  then have co2: "core c2 m []" using c1(3) by simp
  have "distinct (cached_regs c2)"
    using l by (simp add: linear_def cached_regs_def ops_all_def ops_new_def act2 c1(2))
  then obtain q1 c3 q2 c4 m4 where al: "buxn_jit_alloc_reg c2 = Some (q1, c3)" "buxn_jit_alloc_reg c3 = Some (q2, c4)"
    and qu: "quiet step c2 m c4 m4" and co4: "core c4 m4 [q2, q1]" and di: "distinct (cached_regs c4 @ [q1, q2])"
    and op: "op_reg q1" "op_reg q2"
    by (rule exec_shadow_regs [OF co2])
  define m5 where "m5 = exec step (shadow_code q1 q2) m4"
  define c5 where "c5 = (emit_all (shadow_code q1 q2) c4)\<lparr>wsp_reg := q1, rsp_reg := q2\<rparr>"
  have ne: "q1 \<noteq> q2" using di by simp
  have m5: "m5 = m4\<lparr>reg := (reg m4)(q1 := ucast (ucast (reg m4 (S 1)) :: u8), q2 := ucast (ucast (reg m4 (S 2)) :: u8))\<rparr>"
    unfolding m5_def by (rule exec_shadow_code [OF op ne])
  have ca5: "cache_of r c5 = cache_of r c4" for r by (simp add: c5_def cache_of_def emit_all_eq)
  have act5: "act r c5 = act r c4" for r by (rule act_cong) (rule ca5)
  have j5: "jit c5 = jit c4" by (simp add: c5_def emit_all_eq)
  have same: "reg m5 q = reg m4 q" if "q \<noteq> q1" "q \<noteq> q2" for q using that by (simp add: m5)
  have co5: "core c5 m5 [q2, q1]"
  proof -
    have "core c4 m5 [q2, q1]" using di op by (intro core_frame [OF co4] same) auto
    moreover have "core c5 m5 [q2, q1] = core c4 m5 [q2, q1]"
      by (rule core_ctx_cong) (simp_all add: ca5, simp_all add: c5_def emit_all_eq)
    ultimately show ?thesis by simp
  qed
  have rv5: "rview c5 m5 r (st r)" for r
  proof -
    have "rview c2 m r = rview c1 m r" by (rule rview_ctx_cong [OF ca2]) (simp add: c2_def)
    then have "rview c2 m r (st r)" using c1(5) [of r] by simp
    then have "rview c4 m4 r (st r)" by (rule quietD(7) [OF qu])
    moreover have "rview c5 m5 r = rview c4 m5 r" by (rule rview_ctx_cong) (simp_all add: ca5 j5)
    moreover have "rview c4 m5 r = rview c4 m4 r"
    proof (rule rview_cong)
      show "stack_arr c4 m5 r = stack_arr c4 m4 r"
        using stack_arr_same [of m5 m4 c4 c4] op same [of "S 0"] by (simp add: m5 jit_reg_defs)
      show "reg m5 (stack_reg r) = reg m4 (stack_reg r)" using op by (intro same) auto
      show "reg m5 (oreg v) = reg m4 (oreg v)" if "v \<in> set (ops_new r c4)" for v
        using that di set_ops_new [of r c4] set_cached [of c4 r] by (intro same) auto
    qed simp
    ultimately show ?thesis by simp
  qed
  have pe: "need_flush x" if "x \<in> set (act r c5)" for x r
    using that quiet_act [OF qu, of r] c1(4) by (auto simp: act5 act2 pending_def)
  have fr: "ctx_frame c2 c4" using qu by (simp add: quiet_def)
  have f5: "buxn_jit_op_flag_r c5 = ?r" "eshadow c5"
    using fr by (simp_all add: c5_def c2_def ctx_frame_def buxn_jit_op_flag_r_def emit_all_eq)
  have ptr: "stack_ptr_reg ?r c5 = (if ?r then q2 else q1)" by (simp add: stack_ptr_reg_def c5_def)
  have sp: "op_reg (stack_ptr_reg ?r c5)" and cp: "(ucast (reg m5 (stack_ptr_reg ?r c5)) :: u8) = ucast (reg m5 (stack_reg ?r))"
    using op ne same [of "S 1"] same [of "S 2"] by (auto simp: ptr m5 stack_reg_def jit_reg_defs)
  have pe': "\<forall>x \<in> set (act ?r c5). need_flush x" using pe by blast
  let ?c = "buxn_jit_stack_cache_flush ?r c5"
  obtain m' where f: "flushes ?r step c5 m5 ?c m'" "core ?c m' [q2, q1]" "\<forall>x \<in> set (act ?r ?c). \<not> need_flush x"
    "rview ?c m' ?r (st ?r)" "pview ?c m' ?r (st ?r)"
    by (rule exec_flush [OF co5 pe' rv5 sp cp])
  have call: "do { c \<leftarrow> fetch_opcode ctx; setup_shadow c } = Some ?c"
    using c1(1) al k [OF c1(9)] f5(1) by (simp add: setup_shadow_def Let_def c2_def c5_def shadow_code_def)
  have env: "ctx_frame c5 ?c" and rs: "regs_same {R 0, R 1, R 2, stack_reg ?r} m5 m'" and oa: "\<And>q. ops_all q ?c = ops_all q c5"
    and an: "act (\<not> ?r) ?c = act (\<not> ?r) c5" and ms: "mem_same {stack_field ?r} c5 m5 m'"
    using f(1) by (simp_all add: flushes_def)
  have e: "jit ?c = jit c5" "eshadow ?c = eshadow c5" "wsp_reg ?c = q1" "rsp_reg ?c = q2" "pc ?c = pc c5" "compiler ?c = compiler c5"
    "current_opcode ?c = current_opcode c5"
    using env by (simp_all add: ctx_frame_def c5_def)
  have e5: "pc c5 = pc ctx + 1" "compiler c5 = compiler ctx" "current_opcode c5 = vm_memory (jit ctx) (pc ctx)" "jit c5 = jit ctx"
    using fr c1(7-10) by (simp_all add: c5_def c2_def ctx_frame_def emit_all_eq)
  have fr': "buxn_jit_op_flag_r ?c = ?r" using e(7) c1(9) e5(3) by (simp add: buxn_jit_op_flag_r_def)
  have rv: "rview ?c m' q (st q)" for q
  proof (cases "q = ?r")
    case False
    then have q: "q = (\<not> ?r)" by auto
    have "stack_arr ?c m' q = stack_arr c5 m5 q"
      using stack_arr_frame [OF ms _ regs_sameD [OF rs], of q] stack_arr_jit [OF e(1)] by (simp add: q jit_reg_defs)
    moreover have "reg m' (oreg v) = reg m5 (oreg v)" if "v \<in> set (ops_new q c5)" for v
      using that core_op_regs [OF co5] set_ops_new [of q c5] by (intro op_reg_frame [OF rs]) blast
    ultimately have "rview ?c m' q = rview c5 m5 q"
      using regs_sameD [OF rs, of "stack_reg q"] an by (intro rview_cong) (simp_all add: q ops_new_def)
    then show ?thesis using rv5 [of q] by simp
  qed (simp add: f(4))
  have ff: "flushed_first q ?c" for q
  proof (cases "q = ?r")
    case True
    then show ?thesis using f(3) by (simp add: flushed_first_def filter_empty_conv)
  next
    case False
    then have "act q ?c = act q c5" using an by (cases "buxn_jit_op_flag_r c1") simp_all
    then show ?thesis using pe [of _ q] by (simp add: flushed_first_def filter_empty_conv)
  qed
  have "cached_regs ?c = cached_regs c4" by (simp add: cached_regs_def oa) (simp add: ops_all_def act5)
  then have sim: "vsim ?c m' [q2, q1] [] (Keep ?r st (Some 0))"
    using f(2,3,5) di rv ff f5(2) by (auto simp: vsim_def vview_def shadow_regs_def e)
  have "cached_total ?c = cached_total c4" using f(1) by (simp add: flushes_def cached_total_eq [of _ False] ca5)
  moreover have "cached_total c4 \<le> cached_total c2"
    using co2 co4 by (intro quiet_total [OF qu]) (simp_all add: core_def)
  moreover have "cached_total c2 = cached_total c1" by (simp add: cached_total_eq [of _ False] ca2)
  ultimately have ct: "cached_total ?c \<le> cached_total ctx" using c1(11) by simp
  have "emits step c2 m c4 m4" by (rule quietD(1) [OF qu])
  then have "emits step c2 m c5 m5"
    using emits_trans [OF _ emits_emit_all [of step c4 m4 "shadow_code q1 q2"]] by (simp add: c5_def m5_def emits_def)
  moreover have "emits step c5 m5 ?c m'" using f(1) by (simp add: flushes_def)
  ultimately have em: "emits step ctx m ?c m'"
    using emits_trans [of step c2 m c5 m5 ?c m'] c1(6) by (simp add: c2_def emits_def)
  have s0: "reg m5 (S 0) = reg m (S 0)" using same [of "S 0"] op quietD(5) [OF qu] by auto
  then have s0': "reg m' (S 0) = reg m (S 0)" using regs_sameD [OF rs, of "S 0"] by simp
  have "mem_same {F_ws, F_rs} ctx m m5"
    using quietD(6) [OF qu] mem_same_jit [of c2 ctx] c1(7) by (simp add: c2_def mem_same_def m5)
  moreover have "mem_same {F_ws, F_rs} ctx m5 m'"
    using mem_same_mono [OF ms, of "{F_ws, F_rs}"] mem_same_jit [of c5 ctx] e5(4) by (simp add: stack_field_def)
  ultimately have mm: "mem_same {F_ws, F_rs} ctx m m'" by (rule mem_same_trans) (simp add: s0 jit_reg_defs)
  show ?thesis
    by (rule that [OF call _ _ em s0' mm, of "[q2, q1]"]) (simp_all add: fr' sim e e5 ct)
qed

end

end
