(* ===== verification/Jit_Correct.thy ===== *)
theory Jit_Correct
  imports Sim_Keep
begin

text \<open>
  The compiled code of a sequence of opcodes does what the opcodes do.
\<close>

lemma flag_modes:
  "buxn_jit_op_flag_2 ctx = mode_2 (current_opcode ctx)"
  "buxn_jit_op_flag_r ctx = mode_r (current_opcode ctx)"
  "buxn_jit_op_flag_k ctx = mode_k (current_opcode ctx)"
  by (auto simp: buxn_jit_op_flag_2_def buxn_jit_op_flag_r_def buxn_jit_op_flag_k_def mode_2_def mode_r_def mode_k_def)

text \<open>How many registers the handler of an opcode holds beside the pending ones, the two shadow pointers of keep
  mode among them, and the opcodes covered below: all but jumps, device accesses, division and \<open>BRK\<close>.\<close>

definition operands :: "opname \<Rightarrow> nat" where
  "operands oper =
     (if oper = OP_LIT \<or> oper = OP_POP then 0
      else if oper \<in> {OP_INC, OP_NIP, OP_STH, OP_LDZ, OP_LDR, OP_LDA, OP_DUP} then 1
      else if oper = OP_ROT then 3 else 2)"

definition shadows :: "u8 \<Rightarrow> nat" where
  "shadows b = (if mode_k b then 2 else 0)"

definition covered :: "opname \<Rightarrow> bool" where
  "covered oper \<longleftrightarrow>
     oper \<notin> {OP_BRK, OP_JMP, OP_JCN, OP_JSR, OP_JCI, OP_JMI, OP_JSI, OP_DEI, OP_DEO, OP_DIV}"

text \<open>\<open>DUP\<close> and \<open>OVR\<close> push one register twice.\<close>

definition aliasing :: "opname \<Rightarrow> bool" where
  "aliasing oper \<longleftrightarrow> oper = OP_DUP \<or> oper = OP_OVR"

lemma uxn_step_covered: "uxn_step decode b u = Some u' \<Longrightarrow> covered (decode b)"
  by (cases "decode b") (auto simp: uxn_step_def uxn_instr_def covered_def uxn_stack_def is_arith_def is_compare_def Let_def)

lemma dispatch_covered: "covered oper \<Longrightarrow> BUXN_JIT_DISPATCH oper nxt = BUXN_JIT_DISPATCH oper nxt'"
  by (cases oper) (simp_all add: covered_def)

section \<open>Values\<close>

lemma masked_bytes:
  "masked False (ucast (a :: u8) + ucast b) = bytes_val [a + b]"
  "masked False (ucast (a :: u8) - ucast b) = bytes_val [a - b]"
  "masked False (ucast (a :: u8) * ucast b) = bytes_val [a * b]"
  by (simp_all add: masked_def)

lemma short_bytes_val: "bytes_val (short_bytes w) = ucast w"
  by (simp add: short_bytes_def)

lemma length_short_bytes [simp]: "length (short_bytes w) = 2"
  by (simp add: short_bytes_def)

lemma masked_shorts:
  "masked True (ucast (a :: u16) + ucast b) = bytes_val (short_bytes (a + b))"
  "masked True (ucast (a :: u16) - ucast b) = bytes_val (short_bytes (a - b))"
  "masked True (ucast (a :: u16) * ucast b) = bytes_val (short_bytes (a * b))"
  by (simp_all add: masked_def short_bytes_val)

lemma bitwise_bytes:
  "(ucast (a :: u8) :: uw) AND ucast b = ucast (a AND b)"
  "(ucast (a :: u8) :: uw) OR ucast b = ucast (a OR b)"
  "(ucast (a :: u8) :: uw) XOR ucast b = ucast (a XOR b)"
  "(ucast (x :: u16) :: uw) AND ucast y = ucast (x AND y)"
  "(ucast (x :: u16) :: uw) OR ucast y = ucast (x OR y)"
  "(ucast (x :: u16) :: uw) XOR ucast y = ucast (x XOR y)"
  by (rule bit_word_eqI, auto simp: bit_simps)+

lemma ucast_less:
  "(ucast (a :: u8) :: uw) < ucast b \<longleftrightarrow> a < b"
  "(ucast (x :: u16) :: uw) < ucast y \<longleftrightarrow> x < y"
  by (simp_all add: word_less_nat_alt)

lemma shift_amounts:
  "unat (drop_bit 4 (ucast (b :: u8) :: uw)) = unat (drop_bit 4 b)"
  "unat (ucast (b :: u8) AND (0x0f :: uw)) = unat (b AND 0x0f)"
proof -
  have "drop_bit 4 (ucast b :: uw) = ucast (drop_bit 4 b)"
    by (rule bit_word_eqI) (auto simp: bit_simps dest: bit_imp_le_length)
  then show "unat (drop_bit 4 (ucast b :: uw)) = unat (drop_bit 4 b)" by simp
  have "(0x0f :: uw) = ucast (0x0f :: u8)" by simp
  then show "unat (ucast b AND (0x0f :: uw)) = unat (b AND 0x0f)"
    by (metis bitwise_bytes(1) unat_ucast_widen(1))
qed

lemma shift_val:
  "masked False (push_bit (unat (drop_bit 4 (ucast b :: uw))) (drop_bit (unat (ucast b AND (0x0f :: uw))) (ucast (a :: u8)))) =
     bytes_val [uxn_shift a b]"
  "masked True (push_bit (unat (drop_bit 4 (ucast b :: uw))) (drop_bit (unat (ucast b AND (0x0f :: uw))) (ucast (x :: u16)))) =
     bytes_val (short_bytes (uxn_shift x b))"
  unfolding shift_amounts
  by (rule bit_word_eqI, auto simp: masked_def uxn_shift_def short_bytes_val bit_simps dest: bit_imp_le_length)+

lemma split_at_Some: "split_at n xs = Some (a, b) \<longleftrightarrow> xs = a @ b \<and> length a = n"
  by (auto simp: split_at_def)

lemma width_opsize: "width f = opsize f"
  by (simp add: width_def)

lemma uxn_lengths:
  assumes "length a = opsize f" and "length b = opsize f"
  shows "length (uxn_arith oper a b) = opsize f" and "length (uxn_inc a) = opsize f"
    and "length (uxn_sft a x) = opsize f"
    and "\<exists>y. uxn_compare oper a b = [y]"
  by (rule opsize_cases [OF assms(1)]; rule opsize_cases [OF assms(2)];
      simp add: uxn_arith_def uxn_inc_def uxn_sft_def uxn_compare_def)+

text \<open>The six arithmetic handlers compute the specified result.\<close>

lemma arith_value:
  assumes "is_arith oper" and len: "length a = opsize f" "length b = opsize f"
  obtains bop wrap g where "bop \<noteq> SLJIT_SHL" and "bop \<noteq> SLJIT_LSHR"
    and "\<forall>ctx. BUXN_JIT_DISPATCH oper nxt ctx = arith bop wrap g ctx"
    and "(if wrap then masked f (op2_val bop (bytes_val a) (bytes_val b))
      else op2_val bop (bytes_val a) (bytes_val b)) = bytes_val (uxn_arith oper a b)"
proof -
  from assms(1) consider "oper = OP_ADD" | "oper = OP_SUB" | "oper = OP_MUL" | "oper = OP_AND" | "oper = OP_ORA" | "oper = OP_EOR"
    by (auto simp: is_arith_def)
  then show ?thesis
  proof cases
    case 1
    then show ?thesis
      by (intro that [of SLJIT_ADD True "(+)"])
        (rule opsize_cases [OF len(1)]; rule opsize_cases [OF len(2)];
          simp add: arith_handlers uxn_arith_def uxn_alu_def masked_bytes masked_shorts)+
  next
    case 2
    then show ?thesis
      by (intro that [of SLJIT_SUB True "(-)"])
        (rule opsize_cases [OF len(1)]; rule opsize_cases [OF len(2)];
          simp add: arith_handlers uxn_arith_def uxn_alu_def masked_bytes masked_shorts)+
  next
    case 3
    then show ?thesis
      by (intro that [of SLJIT_MUL True "(*)"])
        (rule opsize_cases [OF len(1)]; rule opsize_cases [OF len(2)];
          simp add: arith_handlers uxn_arith_def uxn_alu_def masked_bytes masked_shorts)+
  next
    case 4
    then show ?thesis
      by (intro that [of SLJIT_AND False "(AND)"])
        (rule opsize_cases [OF len(1)]; rule opsize_cases [OF len(2)];
          simp add: arith_handlers uxn_arith_def uxn_alu_def bitwise_bytes short_bytes_val)+
  next
    case 5
    then show ?thesis
      by (intro that [of SLJIT_OR False "(OR)"])
        (rule opsize_cases [OF len(1)]; rule opsize_cases [OF len(2)];
          simp add: arith_handlers uxn_arith_def uxn_alu_def bitwise_bytes short_bytes_val)+
  next
    case 6
    then show ?thesis
      by (intro that [of SLJIT_XOR False "(XOR)"])
        (rule opsize_cases [OF len(1)]; rule opsize_cases [OF len(2)];
          simp add: arith_handlers uxn_arith_def uxn_alu_def bitwise_bytes short_bytes_val)+
  qed
qed

lemma inc_value: "length a = opsize f \<Longrightarrow> masked f (bytes_val a + 1) = bytes_val (uxn_inc a)"
  by (erule opsize_cases) (simp_all add: uxn_inc_def masked_def short_bytes_val)

lemma sft_value:
  "length a = opsize f \<Longrightarrow>
   masked f (push_bit (unat (drop_bit 4 (bytes_val [b]))) (drop_bit (unat (bytes_val [b] AND 0x0f)) (bytes_val a))) =
   bytes_val (uxn_sft a b)"
  by (erule opsize_cases) (simp_all only: bytes_val.simps shift_val uxn_sft_def list.case if_False)

text \<open>A value is compared as the number its bytes spell.\<close>

lemma compare_value:
  assumes "length a = opsize f" and "length b = opsize f"
  shows "uxn_compare OP_EQU a b = [bool_byte (bytes_val a = bytes_val b)]"
    and "uxn_compare OP_NEQ a b = [bool_byte (bytes_val a \<noteq> bytes_val b)]"
    and "uxn_compare OP_GTH a b = [bool_byte (bytes_val b < bytes_val a)]"
    and "uxn_compare OP_LTH a b = [bool_byte (bytes_val a < bytes_val b)]"
  by (rule opsize_cases [OF assms(1)]; rule opsize_cases [OF assms(2)];
      simp add: uxn_compare_def uxn_cmp_def ucast_less)+

section \<open>One opcode\<close>

text \<open>The context and the machine represent a state of the virtual machine.\<close>

definition represents :: "buxn_jit_ctx \<Rightarrow> mach \<Rightarrow> uxn_state \<Rightarrow> bool" where
  "represents ctx m u \<longleftrightarrow> boundary ctx m (ustk u) \<and> mem_holds ctx m u \<and> pc ctx = upc u"

definition advances ::
  "(lir \<Rightarrow> mach \<Rightarrow> mach) \<Rightarrow> buxn_jit_ctx \<Rightarrow> mach \<Rightarrow> buxn_jit_ctx \<Rightarrow> mach \<Rightarrow> bool" where
  "advances step ctx m ctx' m' \<longleftrightarrow>
     emits step ctx m ctx' m' \<and> jit ctx' = jit ctx \<and> compiler ctx' = compiler ctx \<and>
     reg m' BUXN_JIT_S_VM = reg m BUXN_JIT_S_VM"

lemma advances_trans [trans]:
  "advances step a m b m' \<Longrightarrow> advances step b m' c m'' \<Longrightarrow> advances step a m c m''"
  by (auto simp: advances_def intro: emits_trans)

lemma advances_steps: "steps_to step live ctx m ctx' m' \<Longrightarrow> advances step ctx m ctx' m'"
  by (simp add: advances_def steps_to_def same_env_def jit_reg_defs)

lemma set_stack_Some: "set_stack r s u = Some u' \<longleftrightarrow> length s \<le> 256 \<and> u' = u\<lparr>ustk := (ustk u)(r := s)\<rparr>"
  by (auto simp: set_stack_def)

lemma represents_vsim:
  assumes "vsim ctx' m' held live V" and "vreal V = ustk u'" and "steps_to step l ctx m ctx' m'"
    and "mem_holds ctx m u'" and "pc ctx = upc u'"
  shows "represents ctx' m' u'" and "linear ctx'" and "advances step ctx m ctx' m'"
  using vsim_boundary [OF assms(1)] assms(2-) mem_holds_steps [OF assms(3)] advances_steps [OF assms(3)]
  by (simp_all add: represents_def steps_to_def same_env_def)

lemma represents_vwsim:
  assumes "vwsim ctx' m' held V" and "vreal V = ustk u'" and "steps_to step l ctx m ctx' m'"
    and "mem_holds ctx m u'" and "pc ctx = upc u'"
  shows "represents ctx' m' u'" and "advances step ctx m ctx' m'"
  using vwsim_boundary [OF assms(1)] assms(2-) mem_holds_steps [OF assms(3)] advances_steps [OF assms(3)]
  by (simp_all add: represents_def steps_to_def same_env_def)

text \<open>A handler delivers the stacks \<open>st'\<close>.\<close>

definition handles ::
  "(lir \<Rightarrow> mach \<Rightarrow> mach) \<Rightarrow> (buxn_jit_ctx \<Rightarrow> buxn_jit_ctx option) \<Rightarrow> buxn_jit_ctx \<Rightarrow> mach \<Rightarrow> (bool \<Rightarrow> u8 list) \<Rightarrow> bool" where
  "handles step handler ctx m st' \<longleftrightarrow>
     (\<exists>ctx' m' held V'. handler ctx = Some ctx' \<and> vsim ctx' m' held [] V' \<and> vreal V' = st' \<and> steps_to step [] ctx m ctx' m')"

lemma handlesI:
  "handler ctx = Some ctx' \<Longrightarrow> vsim ctx' m' held [] V' \<Longrightarrow> vreal V' = st' \<Longrightarrow> steps_to step [] ctx m ctx' m' \<Longrightarrow>
   handles step handler ctx m st'"
  by (auto simp: handles_def)

lemma kept_remaining: "kept V r xs = remaining (keep_view V) (vreal V r) xs"
  by (simp add: kept_def remaining_def)

lemma bind_split_Some:
  "split_at n xs \<bind> f = Some y \<longleftrightarrow> (\<exists>a b. xs = a @ b \<and> length a = n \<and> f (a, b) = Some y)"
proof (cases "n \<le> length xs")
  case True
  then have "\<exists>a b. xs = a @ b \<and> length a = n \<and> f (a, b) = Some y" if "f (take n xs, drop n xs) = Some y"
    using that by (intro exI [of _ "take n xs"] exI [of _ "drop n xs"]) simp
  then show ?thesis using True by (auto simp: split_at_def)
qed (auto simp: split_at_def)

context sljit_exec
begin

lemma compare_handlers:
  assumes "is_compare oper" and "length a = opsize f" and "length b = opsize f"
  obtains fs c P where "\<forall>ctx. BUXN_JIT_DISPATCH oper nxt ctx = compare_op fs c ctx"
    and "\<forall>a b m. is_value a \<longrightarrow> is_value b \<longrightarrow>
      (\<exists>f. step (Op2u SLJIT_SUB fs a b) m = m\<lparr>flag := f\<rparr> \<and> f c = P (rd m a) (rd m b))"
    and "uxn_compare oper a b = [bool_byte (P (bytes_val a) (bytes_val b))]"
proof -
  note defs = buxn_jit_EQU_def buxn_jit_NEQ_def buxn_jit_GTH_def buxn_jit_LTH_def
  note val = compare_value [OF assms(2,3)]
  from assms(1) consider "oper = OP_EQU" | "oper = OP_NEQ" | "oper = OP_GTH" | "oper = OP_LTH"
    by (auto simp: is_compare_def)
  then show ?thesis
  proof cases
    case 1
    then show ?thesis
      using step_sub_z val(1) by (intro that [of SLJIT_SET_Z SLJIT_EQUAL "(=)"]) (simp_all add: defs, blast)
  next
    case 2
    then show ?thesis
      using step_sub_z val(2) by (intro that [of SLJIT_SET_Z SLJIT_NOT_EQUAL "(\<noteq>)"]) (simp_all add: defs, blast)
  next
    case 3
    then show ?thesis
      using step_sub_greater val(3)
      by (intro that [of SLJIT_SET_GREATER SLJIT_GREATER "\<lambda>x y. y < x"]) (auto simp: defs)
  next
    case 4
    then show ?thesis
      using step_sub_less val(4) by (intro that [of SLJIT_SET_LESS SLJIT_LESS "(<)"]) (auto simp: defs)
  qed
qed

text \<open>The opcodes that only move and combine bytes of one stack.\<close>

lemma exec_stack:
  assumes s: "vsim ctx m h [] V" and hl: "length h \<le> 2" and k: "buxn_jit_op_flag_k ctx = keep_view V"
    and na: "\<not> aliasing oper" and room: "cached_total ctx + length h + operands oper \<le> 6"
    and fit: "length (out @ kept V (buxn_jit_op_flag_r ctx) xs) \<le> 256"
    and us: "uxn_stack oper (buxn_jit_op_flag_2 ctx) (vtop V (buxn_jit_op_flag_r ctx)) = Some (out, xs)"
  shows "handles step (BUXN_JIT_DISPATCH oper nxt) ctx m
    ((vreal V)(buxn_jit_op_flag_r ctx := out @ kept V (buxn_jit_op_flag_r ctx) xs))"
proof -
  let ?f = "buxn_jit_op_flag_2 ctx" and ?r = "buxn_jit_op_flag_r ctx"
  note split = Let_def bind_split_Some width_opsize
  consider "oper = OP_INC" | "oper = OP_POP" | "oper = OP_NIP" | "oper = OP_SWP" | "oper = OP_ROT" | "oper = OP_SFT"
    | "is_arith oper" | "is_compare oper"
    using us na by (auto simp: uxn_stack_def aliasing_def Let_def split: if_splits)
  then show ?thesis
  proof cases
    case 1
    from us 1 obtain a where a: "vtop V ?r = a @ xs" "length a = opsize ?f" "out = uxn_inc a"
      by (auto simp: uxn_stack_def split)
    have rm: "cached_total ctx + length h \<le> 5" using room 1 by (simp add: operands_def)
    show ?thesis
      by (rule exec_INC [OF s a(1,2) rm uxn_lengths(2) [OF a(2,2)] fit [unfolded a(3)] inc_value [OF a(2)]])
        (rule handlesI, simp_all add: 1 a(3))
  next
    case 2
    from us 2 obtain a where a: "vtop V ?r = a @ xs" "length a = opsize ?f" "out = []"
      by (auto simp: uxn_stack_def split)
    show ?thesis by (rule exec_POP [OF s k a(1,2)]) (rule handlesI, simp_all add: 2 a(3))
  next
    case 3
    from us 3 obtain a where a: "vtop V ?r = out @ a @ xs" "length out = opsize ?f" "length a = opsize ?f"
      by (auto simp: uxn_stack_def split)
    have rm: "cached_total ctx + length h \<le> 5" using room 3 by (simp add: operands_def)
    show ?thesis by (rule exec_NIP [OF s k a rm fit]) (rule handlesI, simp_all add: 3)
  next
    case 4
    from us 4 obtain a b where a: "vtop V ?r = b @ a @ xs" "length b = opsize ?f" "length a = opsize ?f" "out = a @ b"
      by (auto simp: uxn_stack_def split)
    have rm: "cached_total ctx + length h \<le> 4" using room 4 by (simp add: operands_def)
    have ft: "length (a @ b @ kept V ?r xs) \<le> 256" using fit a(4) by simp
    show ?thesis by (rule exec_SWP [OF s a(1-3) rm ft]) (rule handlesI, simp_all add: 4 a(4))
  next
    case 5
    from us 5 obtain a b c where a: "vtop V ?r = c @ b @ a @ xs" "length c = opsize ?f" "length b = opsize ?f"
      "length a = opsize ?f" "out = a @ c @ b"
      by (auto simp: uxn_stack_def split)
    have rm: "cached_total ctx + length h \<le> 3" using room 5 by (simp add: operands_def)
    have ft: "length (a @ c @ b @ kept V ?r xs) \<le> 256" using fit a(5) by simp
    show ?thesis by (rule exec_ROT [OF s a(1-4) rm ft]) (rule handlesI, simp_all add: 5 a(5))
  next
    case 6
    from us 6 obtain a b where a: "vtop V ?r = [b] @ a @ xs" "length a = opsize ?f" "out = uxn_sft a b"
      by (auto simp: uxn_stack_def split length_Suc_conv)
    have rm: "cached_total ctx + length h \<le> 4" using room 6 by (simp add: operands_def)
    show ?thesis
      by (rule exec_SFT [OF s hl a(1,2) rm uxn_lengths(3) [OF a(2,2)] fit [unfolded a(3)] sft_value [OF a(2)]])
        (rule handlesI, simp_all add: 6 a(3))
  next
    case 7
    from us 7 obtain a b where a: "vtop V ?r = b @ a @ xs" "length b = opsize ?f" "length a = opsize ?f"
      "out = uxn_arith oper a b"
      by (auto simp: uxn_stack_def split is_arith_def)
    obtain bop wrap g where h: "bop \<noteq> SLJIT_SHL" "bop \<noteq> SLJIT_LSHR"
      "\<forall>ctx. BUXN_JIT_DISPATCH oper nxt ctx = arith bop wrap g ctx"
      "(if wrap then masked ?f (op2_val bop (bytes_val a) (bytes_val b))
        else op2_val bop (bytes_val a) (bytes_val b)) = bytes_val (uxn_arith oper a b)"
      by (rule arith_value [OF 7 a(3,2)])
    have rm: "cached_total ctx + length h \<le> 4" using room 7 by (auto simp: operands_def is_arith_def)
    show ?thesis
      by (rule exec_arith [OF s hl a(1-3) rm h(1,2) uxn_lengths(1) [OF a(3,2)] fit [unfolded a(4)] h(4)])
        (rule handlesI, simp_all add: h(3) a(4))
  next
    case 8
    from us 8 obtain a b where a: "vtop V ?r = b @ a @ xs" "length b = opsize ?f" "length a = opsize ?f"
      "out = uxn_compare oper a b"
      by (auto simp: uxn_stack_def split is_compare_def is_arith_def)
    have rm: "cached_total ctx + length h \<le> 4" using room 8 by (auto simp: operands_def is_compare_def)
    obtain fs c P where h: "\<forall>ctx. BUXN_JIT_DISPATCH oper nxt ctx = compare_op fs c ctx"
      "\<And>a b m. is_value a \<Longrightarrow> is_value b \<Longrightarrow> \<exists>f. step (Op2u SLJIT_SUB fs a b) m = m\<lparr>flag := f\<rparr> \<and> f c = P (rd m a) (rd m b)"
      "uxn_compare oper a b = [bool_byte (P (bytes_val a) (bytes_val b))]"
      by (rule compare_handlers [OF 8 a(3,2)]) blast
    have ft: "length (bool_byte (P (bytes_val a) (bytes_val b)) # kept V ?r xs) \<le> 256" using fit a(4) h(3) by simp
    show ?thesis
      by (rule exec_compare [OF s hl a(1-3) rm ft h(2) refl]) (assumption, assumption, rule handlesI, simp_all add: h(1,3) a(4))
  qed
qed

text \<open>\<open>DUP\<close> and \<open>OVR\<close> leave the right bytes, but with a register shared by two pending cells.\<close>

lemma exec_aliasing:
  assumes s: "vsim ctx m h [] V" and al: "aliasing oper"
    and room: "cached_total ctx + length h + operands oper \<le> 6"
    and fit: "length (out @ kept V (buxn_jit_op_flag_r ctx) xs) \<le> 256"
    and us: "uxn_stack oper (buxn_jit_op_flag_2 ctx) (vtop V (buxn_jit_op_flag_r ctx)) = Some (out, xs)"
  obtains ctx' m' held V' where "BUXN_JIT_DISPATCH oper nxt ctx = Some ctx'" and "vwsim ctx' m' held V'"
    and "vreal V' = (vreal V)(buxn_jit_op_flag_r ctx := out @ kept V (buxn_jit_op_flag_r ctx) xs)"
    and "steps_to step [] ctx m ctx' m'"
proof -
  let ?f = "buxn_jit_op_flag_2 ctx" and ?r = "buxn_jit_op_flag_r ctx"
  note split = Let_def bind_split_Some width_opsize
  consider "oper = OP_DUP" | "oper = OP_OVR" using al by (auto simp: aliasing_def)
  then show ?thesis
  proof cases
    case 1
    from us 1 obtain a where a: "vtop V ?r = a @ xs" "length a = opsize ?f" "out = a @ a"
      by (auto simp: uxn_stack_def split)
    have rm: "cached_total ctx + length h \<le> 5" using room 1 by (simp add: operands_def)
    have ft: "length (a @ a @ kept V ?r xs) \<le> 256" using fit a(3) by simp
    show ?thesis by (rule exec_DUP [OF s a(1,2) rm ft]) (rule that, simp_all add: 1 a(3))
  next
    case 2
    from us 2 obtain a b where a: "vtop V ?r = b @ a @ xs" "length b = opsize ?f" "length a = opsize ?f"
      "out = a @ b @ a"
      by (auto simp: uxn_stack_def split)
    have rm: "cached_total ctx + length h \<le> 4" using room 2 by (simp add: operands_def)
    have ft: "length (a @ b @ a @ kept V ?r xs) \<le> 256" using fit a(4) by simp
    show ?thesis by (rule exec_OVR [OF s a(1-3) rm ft]) (rule that, simp_all add: 2 a(4))
  qed
qed

text \<open>What holds when a handler starts: the relation, and in keep mode all of the stack can be popped.\<close>

definition starts :: "buxn_jit_ctx \<Rightarrow> mach \<Rightarrow> sreg list \<Rightarrow> view \<Rightarrow> uxn_state \<Rightarrow> bool" where
  "starts ctx m h V u \<longleftrightarrow>
     vsim ctx m h [] V \<and> length h = shadows (current_opcode ctx) \<and> keep_view V = mode_k (current_opcode ctx) \<and>
     vreal V = ustk u \<and> vtop V (mode_r (current_opcode ctx)) = ustk u (mode_r (current_opcode ctx)) \<and>
     mem_holds ctx m u \<and> pc ctx = upc u"

lemma startsD:
  assumes "starts ctx m h V u"
  shows "vsim ctx m h [] V" and "length h \<le> 2" and "length h = shadows (current_opcode ctx)"
    and "buxn_jit_op_flag_k ctx = keep_view V" and "vreal V = ustk u"
    and "vtop V (buxn_jit_op_flag_r ctx) = ustk u (buxn_jit_op_flag_r ctx)"
    and "kept V r xs = remaining (mode_k (current_opcode ctx)) (ustk u r) xs"
    and "mem_holds ctx m u" and "pc ctx = upc u" and "ram ctx m = uram u"
  using assms by (auto simp: starts_def shadows_def flag_modes kept_remaining mem_holds_ram)

lemma represents_handled:
  assumes s: "starts ctx m h V u" and h: "handles step handler ctx m (ustk u')"
    and u: "\<And>offs. vm_holds offs m u' = vm_holds offs m u" "upc u' = upc u"
  obtains ctx' m' where "handler ctx = Some ctx'" and "represents ctx' m' u'" and "linear ctx'" and "advances step ctx m ctx' m'"
proof -
  obtain ctx' m' held V' where 1: "handler ctx = Some ctx'" "vsim ctx' m' held [] V'" "vreal V' = ustk u'"
    "steps_to step [] ctx m ctx' m'"
    using h unfolding handles_def by (elim exE conjE)
  have e: "mem_holds ctx m u'" "pc ctx = upc u'" using startsD(8,9) [OF s] u by simp_all
  show ?thesis by (rule that [OF 1(1) represents_vsim [OF 1(2,3,4) e]])
qed

lemma exec_uxn_load:
  assumes s: "starts ctx m h V u" and room: "cached_total ctx + length h \<le> 5"
    and fl: "f = buxn_jit_op_flag_2 ctx" "r = buxn_jit_op_flag_r ctx" "k = mode_k (current_opcode ctx)"
    and us: "uxn_load mode f r k u = Some u'"
  obtains ctx' m' where "load_opcode mode ctx = Some ctx'" and "represents ctx' m' u'" and "linear ctx'" and "advances step ctx m ctx' m'"
proof -
  note d = startsD [OF s]
  from us obtain a xs where a: "ustk u r = a @ xs" "length a = opsize (mode = Absolute)"
    "length (peek (mode \<noteq> Zero_page) f (uram u) (addr_of mode (upc u) a) @ remaining k (ustk u r) xs) \<le> 256"
    "u' = u\<lparr>ustk := (ustk u)(r := peek (mode \<noteq> Zero_page) f (uram u) (addr_of mode (upc u) a) @ remaining k (ustk u r) xs)\<rparr>"
    by (auto simp: uxn_load_def bind_split_Some width_opsize set_stack_Some)
  have st: "vtop V (buxn_jit_op_flag_r ctx) = a @ xs" using a(1) d(6) fl(2) by simp
  have ft: "length (peek (mode \<noteq> Zero_page) (buxn_jit_op_flag_2 ctx) (ram ctx m) (addr_of mode (pc ctx) a) @
      kept V (buxn_jit_op_flag_r ctx) xs) \<le> 256"
    using a(3) unfolding d(7,9,10) fl .
  have h: "handles step (load_opcode mode) ctx m (ustk u')"
    by (rule exec_load_opcode [OF d(1,2) st a(2) room ft]) (rule handlesI, simp_all add: a(4) d(5,7,9,10) fl)
  show ?thesis by (rule represents_handled [OF s h]) (use a(4) that in simp_all)
qed

lemma exec_uxn_store:
  assumes s: "starts ctx m h V u" and room: "cached_total ctx + length h \<le> 4"
    and fl: "f = buxn_jit_op_flag_2 ctx" "r = buxn_jit_op_flag_r ctx" "k = mode_k (current_opcode ctx)"
    and us: "uxn_store mode f r k u = Some u'"
  obtains ctx' m' where "store_opcode mode ctx = Some ctx'" and "represents ctx' m' u'" and "linear ctx'" and "advances step ctx m ctx' m'"
proof -
  note d = startsD [OF s]
  from us obtain a b xs where a: "ustk u r = a @ b @ xs" "length a = opsize (mode = Absolute)" "length b = opsize f"
    "u' = u\<lparr>ustk := (ustk u)(r := remaining k (ustk u r) xs), uram := poke (mode \<noteq> Zero_page) (uram u) (addr_of mode (upc u) a) b\<rparr>"
    by (auto simp: uxn_store_def bind_split_Some width_opsize)
  have st: "vtop V (buxn_jit_op_flag_r ctx) = a @ b @ xs" using a(1) d(6) fl(2) by simp
  obtain ctx' m' held V' where 1: "store_opcode mode ctx = Some ctx'" "vsim ctx' m' held [] V'"
    "vreal V' = (vreal V)(buxn_jit_op_flag_r ctx := kept V (buxn_jit_op_flag_r ctx) xs)"
    "stored step (mode \<noteq> Zero_page) (addr_of mode (pc ctx) a) b ctx m ctx' m'"
    by (rule exec_store_opcode [OF d(1) st a(2) a(3) [unfolded fl] room])
  have v: "vreal V' = ustk u'" using 1(3) a(4) by (simp add: d(5,7) fl)
  have "represents ctx' m' u'" "linear ctx'" "advances step ctx m ctx' m'"
    using vsim_boundary [OF 1(2)] v 1(4) stored_holds [OF 1(4) d(8)] d(9) a(4)
    by (simp_all add: represents_def advances_def stored_def same_env_def jit_reg_defs)
  with 1(1) show ?thesis by (rule that)
qed

lemma exec_uxn_stash:
  assumes s: "starts ctx m h V u" and room: "cached_total ctx + length h \<le> 5"
    and fl: "f = buxn_jit_op_flag_2 ctx" "r = buxn_jit_op_flag_r ctx" "k = mode_k (current_opcode ctx)"
    and us: "uxn_stash f r k u = Some u'"
  obtains ctx' m' where "buxn_jit_STH ctx = Some ctx'" and "represents ctx' m' u'" and "linear ctx'" and "advances step ctx m ctx' m'"
proof -
  note d = startsD [OF s]
  from us obtain a xs where a: "ustk u r = a @ xs" "length a = opsize f" "length (a @ ustk u (\<not> r)) \<le> 256"
    "u' = u\<lparr>ustk := (ustk u)(r := remaining k (ustk u r) xs, \<not> r := a @ ustk u (\<not> r))\<rparr>"
    by (auto simp: uxn_stash_def bind_split_Some width_opsize set_stack_Some)
  have st: "vtop V (buxn_jit_op_flag_r ctx) = a @ xs" using a(1) d(6) fl(2) by simp
  have ft: "length (a @ vreal V (\<not> buxn_jit_op_flag_r ctx)) \<le> 256" using a(3) by (simp add: d(5) fl)
  have h: "handles step buxn_jit_STH ctx m (ustk u')"
    by (rule exec_STH [OF d(1) st a(2) [unfolded fl] room ft]) (rule handlesI, simp_all add: a(4) d(5,7) fl)
  show ?thesis by (rule represents_handled [OF s h]) (use a(4) that in simp_all)
qed

lemma exec_uxn_lit:
  assumes s: "starts ctx m h V u" and en: "little_endian (jit ctx) = le"
    and fl: "f = buxn_jit_op_flag_2 ctx" "r = buxn_jit_op_flag_r ctx"
    and us: "uxn_lit f r u = Some u'"
  obtains ctx' m' where "buxn_jit_LIT ctx = Some ctx'" and "represents ctx' m' u'" and "linear ctx'" and "advances step ctx m ctx' m'"
proof -
  note d = startsD [OF s]
  let ?p = "upc u + (if f then 2 else 1)" and ?bs = "peek True f (uram u) (upc u)"
  from us have a: "length (?bs @ ustk u r) \<le> 256"
    "u' = u\<lparr>upc := ?p, ustk := (ustk u)(r := ?bs @ ustk u r)\<rparr>"
    by (auto simp: uxn_lit_def set_stack_Some)
  have ft: "length (peek True (buxn_jit_op_flag_2 ctx) (ram ctx m) (pc ctx) @ vreal V (buxn_jit_op_flag_r ctx)) \<le> 256"
    using a(1) by (simp add: d(5,9,10) fl)
  obtain ctx' m' held V' where 1: "buxn_jit_LIT ctx = Some ctx'" "vsim ctx' m' held [] V'"
    "vreal V' = (vreal V)(buxn_jit_op_flag_r ctx :=
      peek True (buxn_jit_op_flag_2 ctx) (ram ctx m) (pc ctx) @ vreal V (buxn_jit_op_flag_r ctx))"
    "steps_to step [] (ctx\<lparr>pc := pc ctx + (if buxn_jit_op_flag_2 ctx then 2 else 1)\<rparr>) m ctx' m'"
    by (rule exec_LIT [OF d(1,2) en ft])
  let ?c = "ctx\<lparr>pc := pc ctx + (if buxn_jit_op_flag_2 ctx then 2 else 1)\<rparr>"
  have v: "vreal V' = ustk u'" using 1(3) a(2) by (simp add: d(5,9,10) fl)
  have e: "mem_holds ?c m u'" "pc ?c = upc u'" using d(8,9) a(2) fl by simp_all
  note rp = represents_vsim [OF 1(2) v 1(4) e]
  have "advances step ctx m ctx' m'" using rp(3) by (simp add: advances_def emits_def)
  then show ?thesis by (rule that [OF 1(1) rp(1,2)])
qed

lemma exec_instr:
  assumes s: "starts ctx m h V u" and en: "little_endian (jit ctx) = le"
    and room: "cached_total ctx + length h + operands oper \<le> 6" and us: "uxn_instr oper (current_opcode ctx) u = Some u'"
  obtains ctx' m' where "BUXN_JIT_DISPATCH oper nxt ctx = Some ctx'" and "represents ctx' m' u'"
    and "linear ctx' \<or> aliasing oper" and "advances step ctx m ctx' m'"
proof -
  note d = startsD [OF s]
  note fl = flag_modes(1,2) [of ctx, symmetric]
  have five: "cached_total ctx + length h \<le> 5" if "oper \<in> {OP_LDZ, OP_LDR, OP_LDA, OP_STH}"
    using room that by (auto simp: operands_def)
  have four: "cached_total ctx + length h \<le> 4" if "oper \<in> {OP_STZ, OP_STR, OP_STA}" using room that by (auto simp: operands_def)
  show ?thesis
  proof (cases "oper \<in> {OP_LDZ, OP_LDR, OP_LDA, OP_STZ, OP_STR, OP_STA, OP_STH, OP_LIT}")
    case True
    let ?b = "current_opcode ctx"
    from True consider mode where "oper \<in> {OP_LDZ, OP_LDR, OP_LDA}"
        "uxn_load mode (mode_2 ?b) (mode_r ?b) (mode_k ?b) u = Some u'"
        "BUXN_JIT_DISPATCH oper nxt ctx = load_opcode mode ctx"
      | mode where "oper \<in> {OP_STZ, OP_STR, OP_STA}"
        "uxn_store mode (mode_2 ?b) (mode_r ?b) (mode_k ?b) u = Some u'"
        "BUXN_JIT_DISPATCH oper nxt ctx = store_opcode mode ctx"
      | "oper = OP_STH" "uxn_stash (mode_2 ?b) (mode_r ?b) (mode_k ?b) u = Some u'"
      | "oper = OP_LIT" "uxn_lit (mode_2 ?b) (mode_r ?b) u = Some u'"
      using us by (elim insertE emptyE) (simp_all add: uxn_instr_def load_handlers store_handlers)
    then show ?thesis
    proof cases
      case 1
      have rm: "cached_total ctx + length h \<le> 5" by (rule five) (use 1(1) in auto)
      show ?thesis by (rule exec_uxn_load [OF s rm fl refl 1(2)]) (rule that, simp_all add: 1(3))
    next
      case 2
      show ?thesis by (rule exec_uxn_store [OF s four [OF 2(1)] fl refl 2(2)]) (rule that, simp_all add: 2(3))
    next
      case 3
      have rm: "cached_total ctx + length h \<le> 5" by (rule five) (simp add: 3(1))
      show ?thesis by (rule exec_uxn_stash [OF s rm fl refl 3(2)]) (rule that, simp_all add: 3(1))
    next
      case 4
      show ?thesis by (rule exec_uxn_lit [OF s en fl 4(2)]) (rule that, simp_all add: 4(1))
    qed
  next
    case False
    let ?r = "buxn_jit_op_flag_r ctx"
    obtain out xs where us': "uxn_stack oper (buxn_jit_op_flag_2 ctx) (vtop V ?r) = Some (out, xs)"
      and ft: "length (out @ kept V ?r xs) \<le> 256" and u': "u' = u\<lparr>ustk := (vreal V)(?r := out @ kept V ?r xs)\<rparr>"
      using us False d(5,6,7)
      by (cases oper) (auto simp: uxn_instr_def flag_modes set_stack_Some Option.bind_eq_Some_conv)
    show ?thesis
    proof (cases "aliasing oper")
      case True
      obtain ctx' m' held V' where 1: "BUXN_JIT_DISPATCH oper nxt ctx = Some ctx'" "vwsim ctx' m' held V'"
        "vreal V' = (vreal V)(?r := out @ kept V ?r xs)" "steps_to step [] ctx m ctx' m'"
        by (rule exec_aliasing [OF d(1) True room ft us'])
      have v: "vreal V' = ustk u'" "mem_holds ctx m u'" "pc ctx = upc u'" using 1(3) u' d(8,9) by simp_all
      note rp = represents_vwsim [OF 1(2) v(1) 1(4) v(2,3)]
      show ?thesis by (rule that [OF 1(1) rp(1) _ rp(2)]) (simp add: True)
    next
      case False
      have "handles step (BUXN_JIT_DISPATCH oper nxt) ctx m (ustk u')"
        using exec_stack [OF d(1,2,4) False room ft us'] by (simp add: u')
      then show ?thesis by (rule represents_handled [OF s]) (use u' that in simp_all)
    qed
  qed
qed

text \<open>Fetching an opcode, in both modes.\<close>

lemma fetch_starts:
  assumes rp: "represents ctx m u" and l: "linear ctx"
  obtains c m' h V where "do { c \<leftarrow> fetch_opcode ctx; setup_shadow c } = Some c"
    and "starts c m' h V (u\<lparr>upc := upc u + 1\<rparr>)" and "advances step ctx m c m'" and "jit c = jit ctx"
    and "current_opcode c = vm_memory (jit ctx) (pc ctx)" and "cached_total c \<le> cached_total ctx"
proof -
  let ?b = "vm_memory (jit ctx) (pc ctx)"
  have bd: "boundary ctx m (ustk u)" and e: "mem_holds ctx m u" "pc ctx = upc u" using rp by (simp_all add: represents_def)
  show ?thesis
  proof (cases "mode_k ?b")
    case True
    have k: "buxn_jit_op_flag_k c" if "current_opcode c = ?b" for c using that True by (simp add: flag_modes)
    obtain c m' h where c: "do { c \<leftarrow> fetch_opcode ctx; setup_shadow c } = Some c"
      "vsim c m' h [] (Keep (buxn_jit_op_flag_r c) (ustk u) (Some 0))" "length h = 2" "emits step ctx m c m'"
      "reg m' (S 0) = reg m (S 0)" "mem_same {F_ws, F_rs} ctx m m'" "jit c = jit ctx" "pc c = pc ctx + 1"
      "current_opcode c = ?b" "compiler c = compiler ctx" "cached_total c \<le> cached_total ctx"
      by (rule fetch_keep [OF bd l k])
    have "starts c m' h (Keep (buxn_jit_op_flag_r c) (ustk u) (Some 0)) (u\<lparr>upc := upc u + 1\<rparr>)"
      using c(2,3,8,9) True e mem_holds_same [OF c(6) _ _ c(5,7)] by (simp add: starts_def shadows_def flag_modes)
    moreover have "advances step ctx m c m'" using c(4,5,7,10) by (simp add: advances_def jit_reg_defs)
    ultimately show ?thesis by (rule that [OF c(1) _ _ c(7,9,11)])
  next
    case False
    have nk: "\<not> buxn_jit_op_flag_k c" if "current_opcode c = ?b" for c using that False by (simp add: flag_modes)
    obtain c where c: "do { c \<leftarrow> fetch_opcode ctx; setup_shadow c } = Some c"
      "linear ctx \<longrightarrow> sim c m [] [] (ustk u)" "code c = code ctx" "jit c = jit ctx" "pc c = pc ctx + 1"
      "current_opcode c = ?b" "compiler c = compiler ctx" "cached_total c \<le> cached_total ctx"
      by (rule fetch_plain [OF bd nk])
    have "starts c m [] (Direct (ustk u)) (u\<lparr>upc := upc u + 1\<rparr>)"
      using c(2,4,5,6) l False e by (simp add: starts_def shadows_def)
    moreover have "advances step ctx m c m" using c(3,4,7) by (simp add: advances_def)
    ultimately show ?thesis by (rule that [OF c(1) _ _ c(4,6,8)])
  qed
qed

text \<open>Compiling one opcode between two opcode boundaries.\<close>

lemma exec_next_opcode:
  assumes rp: "represents ctx m u" and l: "linear ctx" and p: "256 \<le> pc ctx"
    and b: "vm_memory (jit ctx) (pc ctx) = b" and en: "little_endian (jit ctx) = le"
    and room: "cached_total ctx + shadows b + operands (decode b) \<le> 6" and us: "uxn_step decode b u = Some u'"
  shows "\<exists>ctx' m'. (\<forall>n. buxn_jit_next_opcode decode (Suc n) ctx = Some ctx') \<and> represents ctx' m' u' \<and>
    (linear ctx' \<or> aliasing (decode b)) \<and> advances step ctx m ctx' m'"
proof -
  obtain c m1 h V where c: "do { c \<leftarrow> fetch_opcode ctx; setup_shadow c } = Some c"
    "starts c m1 h V (u\<lparr>upc := upc u + 1\<rparr>)" "advances step ctx m c m1" "jit c = jit ctx"
    "current_opcode c = vm_memory (jit ctx) (pc ctx)" "cached_total c \<le> cached_total ctx"
    by (rule fetch_starts [OF rp l])
  have us': "uxn_instr (decode b) (current_opcode c) (u\<lparr>upc := upc u + 1\<rparr>) = Some u'"
    using us b c(5) by (simp add: uxn_step_def)
  have room': "cached_total c + length h + operands (decode b) \<le> 6" and en': "little_endian (jit c) = le"
    using room c(4,6) en startsD(3) [OF c(2)] b c(5) by simp_all
  obtain ctx' m' where 1: "BUXN_JIT_DISPATCH (decode b) (\<lambda>_. None) c = Some ctx'"
    "represents ctx' m' u'" "linear ctx' \<or> aliasing (decode b)" "advances step c m1 ctx' m'"
    by (rule exec_instr [OF c(2) en' room' us'])
  have "buxn_jit_next_opcode decode (Suc n) ctx = Some ctx'" for n
    using c(1) 1(1) p b c(5) dispatch_covered [OF uxn_step_covered [OF us], of "buxn_jit_next_opcode decode n" "\<lambda>_. None"]
    by (auto simp: Option.bind_eq_Some_conv)
  moreover have "advances step ctx m ctx' m'" by (rule advances_trans [OF c(3) 1(4)])
  ultimately show ?thesis using 1(2,3) by blast
qed

end

end
