(* ===== verification/Jit_Block.thy ===== *)
theory Jit_Block
  imports Jit_Correct
begin

text \<open>
  From one opcode to a block: the opcodes that \<^verbatim>\<open>buxn_jit_compile\<close> translates one after another run as the
  virtual machine runs them, and at the \<open>BRK\<close> that ends the block both stacks are back in memory. The
  room and aliasing conditions on the compile-time caches are the executable predicate \<open>safe_run\<close>.
\<close>

section \<open>The end of a block\<close>

text \<open>The stacks and the memory of the virtual machine, none of it in a register but the two stack pointers.\<close>

definition in_memory :: "buxn_jit \<Rightarrow> mach \<Rightarrow> uxn_state \<Rightarrow> bool" where
  "in_memory j m u \<longleftrightarrow>
     (\<forall>r. length (ustk u r) \<le> 256 \<and>
        below (\<lambda>p. mem m (vm_addr (vm_offset j) (reg m BUXN_JIT_S_VM) (stack_field r) (ucast p)))
          (ucast (reg m (stack_reg r))) (ustk u r)) \<and>
     vm_holds (vm_offset j) m u"

lemma in_memory_empty:
  assumes "\<forall>r. act r ctx = []" and "\<And>r. rview ctx m r (ustk u r)" and "mem_holds ctx m u"
  shows "in_memory (jit ctx) m u"
proof -
  have "ops_new r ctx = []" for r using assms(1) by (simp add: ops_new_def)
  then show ?thesis
    using assms(2,3) by (auto simp: in_memory_def rview_def stack_is_def stack_arr_def [abs_def])
qed

text \<open>A context with empty caches represents what is in memory.\<close>

lemma represents_fresh:
  assumes im: "in_memory (jit ctx) m u" and lay: "layout_ok (vm_offset (jit ctx)) (reg m BUXN_JIT_S_VM)"
    and caches: "\<And>r. cache_of r ctx = empty_cache" and rest: "reg_ref_counts ctx = replicate 6 0" "mem_base ctx = 0"
    and p: "pc ctx = upc u"
  shows "represents ctx m u" and "linear ctx"
proof -
  have act: "act r ctx = []" for r by (simp add: act_def caches empty_cache_def)
  have sh: "shape_ok ctx" by (simp add: shape_ok_def caches empty_cache_def rest)
  have "rview ctx m r (ustk u r)" for r
    using im by (simp add: in_memory_def rview_def ops_new_def act stack_is_def stack_arr_def [abs_def])
  moreover have "mem_holds ctx m u" using im by (simp add: in_memory_def)
  ultimately show "represents ctx m u"
    using sh lay p rest by (simp add: represents_def boundary_def base_ok_def flushed_first_def ops_new_def act)
  show "linear ctx" by (simp add: linear_def ops_new_def act)
qed

context sljit_exec
begin

lemma exec_BRK:
  assumes rp: "represents ctx m u" and p: "256 \<le> pc ctx"
    and b: "decode (vm_memory (jit ctx) (pc ctx)) = OP_BRK" and k: "\<not> mode_k (vm_memory (jit ctx) (pc ctx))"
  shows "\<exists>ctx' is m'. (\<forall>n. buxn_jit_next_opcode decode (Suc n) ctx = Some ctx') \<and> \<not> compiler ctx' \<and>
    code ctx' = code ctx @ is @ [Return (Imm 0x10000)] \<and> exec step is m = m' \<and>
    in_memory (jit ctx) m' u \<and> reg m' BUXN_JIT_S_VM = reg m BUXN_JIT_S_VM"
proof -
  have bd: "boundary ctx m (ustk u)" using rp by (simp add: represents_def)
  have nk: "\<not> buxn_jit_op_flag_k c" if "current_opcode c = vm_memory (jit ctx) (pc ctx)" for c
    using flag_modes(3) [of c] k that by auto
  obtain c where c: "do { c \<leftarrow> fetch_opcode ctx; setup_shadow c } = Some c" "wsim c m [] (ustk u)"
    "code c = code ctx" "jit c = jit ctx" "current_opcode c = vm_memory (jit ctx) (pc ctx)"
    using fetch_plain [OF bd nk] by metis
  obtain c' m' where 1: "buxn_jit_clear_stack_caches c = Some c'" "quiet step c m c' m'" "\<forall>r. act r c' = []"
    using exec_clear_stack_caches [OF wsimD(1) [OF c(2)]] by metis
  have j: "jit c' = jit ctx" using quietD(3) [OF 1(2)] c(4) by simp
  have rm: "mem_holds c' m' u"
    using rp mem_holds_same [OF quietD(6) [OF 1(2)] _ _ quietD(5,3) [OF 1(2)]] c(4) by (simp add: represents_def)
  have "rview c' m' r (ustk u r)" for r using quietD(7) [OF 1(2)] wsimD(5) [OF c(2)] by blast
  then have im: "in_memory (jit ctx) m' u" using in_memory_empty [OF 1(3) _ rm] j by simp
  obtain "is" where "code c' = code ctx @ is" "exec step is m = m'"
    using quietD(1) [OF 1(2)] c(3) by (auto simp: emits_def)
  moreover have "buxn_jit_next_opcode decode (Suc n) ctx =
      Some (buxn_jit_finalize (emit (Return (Imm 0x10000)) c'))" for n
    using c(1,5) 1(1) p b by (auto simp: Option.bind_eq_Some_conv buxn_jit_BRK_def)
  ultimately show ?thesis
    using im quietD(5) [OF 1(2)] by (auto simp: buxn_jit_finalize_def emit_def jit_reg_defs)
qed

end

section \<open>A sequence of opcodes\<close>

text \<open>The virtual machine on \<open>n\<close> instructions of the program \<open>prog\<close>.\<close>

fun uxn_run :: "(u8 \<Rightarrow> opname) \<Rightarrow> (u16 \<Rightarrow> u8) \<Rightarrow> nat \<Rightarrow> uxn_state \<Rightarrow> uxn_state option" where
  "uxn_run decode prog 0 u = Some u"
| "uxn_run decode prog (Suc n) u = do { u' \<leftarrow> uxn_step decode (prog (upc u)) u; uxn_run decode prog n u' }"

text \<open>What is asked of the opcodes compiled from \<open>ctx\<close> on: registers for the handler beside the cached ones, two more
  in keep mode, and no register pending twice.\<close>

fun safe_run :: "(u8 \<Rightarrow> opname) \<Rightarrow> nat \<Rightarrow> buxn_jit_ctx \<Rightarrow> bool" where
  "safe_run decode 0 ctx \<longleftrightarrow> True"
| "safe_run decode (Suc n) ctx \<longleftrightarrow>
     (let b = vm_memory (jit ctx) (pc ctx) in
      256 \<le> pc ctx \<and> linear ctx \<and> cached_total ctx + shadows b + operands (decode b) \<le> 6 \<and>
      (case buxn_jit_next_opcode decode (Suc 0) ctx of None \<Rightarrow> False | Some ctx' \<Rightarrow> safe_run decode n ctx'))"

lemma compile_loop_step:
  "compiler ctx \<Longrightarrow> compile_loop decode (Suc n) ctx =
     do { ctx \<leftarrow> buxn_jit_next_opcode decode 65536 ctx; compile_loop decode n ctx }"
  by (simp add: compile_loop.simps [of decode "Suc n"])

lemma compile_loop_done: "\<not> compiler ctx \<Longrightarrow> compile_loop decode n ctx = Some ctx"
  by (simp add: compile_loop.simps)

text \<open>The compiled code of \<open>n\<close> opcodes simulates \<open>n\<close> instructions of the virtual machine.\<close>

context sljit_exec
begin

lemma exec_run:
  assumes "represents ctx m u" and "little_endian (jit ctx) = le" and "compiler ctx"
    and "safe_run decode n ctx" and "uxn_run decode (vm_memory (jit ctx)) n u = Some u'"
  shows "\<exists>ctx' m'. (\<forall>k. compile_loop decode (n + k) ctx = compile_loop decode k ctx') \<and>
    represents ctx' m' u' \<and> advances step ctx m ctx' m'"
  using assms
proof (induction n arbitrary: ctx m u)
  case 0
  then show ?case by (intro exI [of _ ctx] exI [of _ m]) (simp add: advances_def)
next
  case (Suc n)
  let ?b = "vm_memory (jit ctx) (upc u)"
  have p: "pc ctx = upc u" using Suc.prems(1) by (simp add: represents_def)
  obtain u1 where u1: "uxn_step decode ?b u = Some u1" "uxn_run decode (vm_memory (jit ctx)) n u1 = Some u'"
    using Suc.prems(5) by (auto simp: Option.bind_eq_Some_conv)
  obtain c where c: "256 \<le> pc ctx" "linear ctx" "cached_total ctx + shadows ?b + operands (decode ?b) \<le> 6"
    "buxn_jit_next_opcode decode (Suc 0) ctx = Some c" "safe_run decode n c"
    using Suc.prems(4) p by (auto simp: Let_def simp del: buxn_jit_next_opcode.simps split: option.splits)
  obtain ctx1 m1 where 1: "\<forall>k. buxn_jit_next_opcode decode (Suc k) ctx = Some ctx1" "represents ctx1 m1 u1"
    "advances step ctx m ctx1 m1"
    using exec_next_opcode [OF Suc.prems(1) c(2,1) _ Suc.prems(2) c(3) u1(1)] p by auto
  have env: "jit ctx1 = jit ctx" "compiler ctx1" using 1(3) Suc.prems(3) by (simp_all add: advances_def)
  have "c = ctx1" using c(4) 1(1) by simp
  then obtain ctx' m' where 2: "\<forall>k. compile_loop decode (n + k) ctx1 = compile_loop decode k ctx'"
    "represents ctx' m' u'" "advances step ctx1 m1 ctx' m'"
    using Suc.IH [OF 1(2) _ env(2)] Suc.prems(2) c(5) u1(2) env(1) by auto
  have "buxn_jit_next_opcode decode 65536 ctx = Some ctx1" using 1(1) by (simp only: eval_nat_numeral)
  then have "compile_loop decode (Suc n + k) ctx = compile_loop decode k ctx'" for k
    using compile_loop_step [OF Suc.prems(3), of decode "n + k"] 2(1) by simp
  then show ?case using 2 advances_trans [OF 1(3)] by blast
qed

lemma exec_block:
  assumes rp: "represents ctx m u" and en: "little_endian (jit ctx) = le" and cp: "compiler ctx"
    and sr: "safe_run decode n ctx" and us: "uxn_run decode (vm_memory (jit ctx)) n u = Some u'"
    and brk: "decode (vm_memory (jit ctx) (upc u')) = OP_BRK" "\<not> mode_k (vm_memory (jit ctx) (upc u'))" "256 \<le> upc u'"
    and fuel: "n < fuel"
  shows "\<exists>ctx' is m'. compile_loop decode fuel ctx = Some ctx' \<and> code ctx' = code ctx @ is @ [Return (Imm 0x10000)] \<and>
    exec step is m = m' \<and> in_memory (jit ctx) m' u' \<and> reg m' BUXN_JIT_S_VM = reg m BUXN_JIT_S_VM"
proof -
  obtain c m1 where 1: "\<forall>k. compile_loop decode (n + k) ctx = compile_loop decode k c"
    "represents c m1 u'" "advances step ctx m c m1"
    using exec_run [OF rp en cp sr us] by blast
  have env: "jit c = jit ctx" "compiler c" "pc c = upc u'" using 1 cp by (simp_all add: advances_def represents_def)
  obtain ctx' js m' where 2: "\<forall>k. buxn_jit_next_opcode decode (Suc k) c = Some ctx'" "\<not> compiler ctx'"
    "code ctx' = code c @ js @ [Return (Imm 0x10000)]" "exec step js m1 = m'"
    "in_memory (jit ctx) m' u'" "reg m' BUXN_JIT_S_VM = reg m1 BUXN_JIT_S_VM"
    using exec_BRK [OF 1(2), of decode] env brk by auto
  obtain k where k: "fuel = n + Suc k" using fuel by (metis add_Suc_right less_imp_Suc_add)
  have "buxn_jit_next_opcode decode 65536 c = Some ctx'" using 2(1) by (simp only: eval_nat_numeral)
  then have "compile_loop decode fuel ctx = Some ctx'"
    using 1(1) compile_loop_step [OF env(2)] compile_loop_done [OF 2(2)] by (simp add: k del: add_Suc_right)
  then show ?thesis using 1(3) 2 by (auto simp: advances_def emits_def)
qed

end

section \<open>Blocks from their entry\<close>

definition entry_ctx :: "buxn_jit \<Rightarrow> nat \<Rightarrow> u16 \<Rightarrow> buxn_jit_ctx" where
  "entry_ctx j cid a = snd (prologue (initial_ctx j cid a))"

lemma entry_ctx_fields:
  "jit (entry_ctx j cid a) = j" "pc (entry_ctx j cid a) = a" "compiler (entry_ctx j cid a)"
  "mem_base (entry_ctx j cid a) = 0" "reg_ref_counts (entry_ctx j cid a) = replicate 6 0"
  "cache_of r (entry_ctx j cid a) = empty_cache"
  by (simp_all add: entry_ctx_def prologue_def initial_ctx_def Let_def emit_jump_def emit_label_def emit_def emit_all_eq
      set_label_def buxn_jit_load_state_def buxn_jit_save_state_def cache_of_def split: prod.splits)

section \<open>Correctness of the compiled code\<close>

text \<open>
  C2. For a straight-line run of \<open>n\<close> instructions up to a \<open>BRK\<close>, without jumps, device accesses and divisions and without stack
  under- or overflow, outside the zero page, its opcodes read from the memory that is compiled, and a block that is \<open>safe_run\<close>: whenever one of these instructions is
  compiled, no two cached operands share a register (they do after \<open>DUP\<close> or \<open>OVR\<close> outside keep mode), and the cached operands, the
  two shadow pointers in keep mode and the operands of the opcode need at most six registers. Then compiling the block succeeds
  within the loop bound, and running the code emitted between the block's body label and the final return
  leaves both stacks, their pointers and the memory exactly as the virtual machine's own semantics does.
\<close>

theorem block_correct:
  assumes "sljit_exec step (little_endian j)" and "layout_ok (vm_offset j) (reg m BUXN_JIT_S_VM)"
    and "in_memory j m u" and "upc u = a"
    and "safe_run decode n (entry_ctx j cid a)" and "n < 65536"
    and "uxn_run decode (vm_memory j) n u = Some u'"
    and "decode (vm_memory j (upc u')) = OP_BRK" and "\<not> mode_k (vm_memory j (upc u'))" and "256 \<le> upc u'"
  shows "\<exists>ctx' is. compile_loop decode 65536 (entry_ctx j cid a) = Some ctx' \<and>
    code ctx' = code (entry_ctx j cid a) @ is @ [Return (Imm 0x10000)] \<and> in_memory j (exec step is m) u'"
proof -
  have "represents (entry_ctx j cid a) m u"
    using assms(2-4) by (intro represents_fresh(1)) (simp_all add: entry_ctx_fields)
  from sljit_exec.exec_block [OF assms(1) this _ _ assms(5), of u' 65536] assms(6-) show ?thesis
    by (simp add: entry_ctx_fields) blast
qed

text \<open>
  C3. For an opcode in any of its modes that is no jump, device access, division or \<open>BRK\<close>, compiled outside the zero page in a context
  where no two cached operands share a register and where the cached operands, the two shadow pointers in keep mode and
  the operands of the opcode need at most six registers, and for a state of the virtual machine in which the instruction
  does not run a stack over or under: compiling it succeeds and emits code that takes every machine state that represents
  this state to one that represents the state after the instruction: stacks split between memory, registers and
  pending writes, memory, program counter. The pending operands keep registers of their own unless the opcode is \<open>DUP\<close> or \<open>OVR\<close>.
\<close>

theorem opcode_correct:
  assumes "sljit_exec step (little_endian (jit ctx))" and "represents ctx m u" and "linear ctx" and "256 \<le> pc ctx"
    and "vm_memory (jit ctx) (pc ctx) = b" and "cached_total ctx + shadows b + operands (decode b) \<le> 6"
    and "uxn_step decode b u = Some u'"
  shows "\<exists>ctx' is. buxn_jit_next_opcode decode (Suc n) ctx = Some ctx' \<and> code ctx' = code ctx @ is \<and>
    represents ctx' (exec step is m) u' \<and> (linear ctx' \<or> aliasing (decode b))"
  using sljit_exec.exec_next_opcode [OF assms(1-5) refl assms(6,7)] by (auto simp: advances_def emits_def)

text \<open>
  C10. A register can always be allocated while fewer than six are held by the running handler: the
  allocation spills cached operands until one is free, returns a register no cell and no handler uses, and
  the spilling code changes no stack.
\<close>

theorem alloc_reg_total:
  assumes "sljit_exec step le" and "core ctx m held" and "length held < 6"
  shows "\<exists>q ctx' is. buxn_jit_alloc_reg ctx = Some (q, ctx') \<and> op_reg q \<and> q \<notin> set (cached_regs ctx' @ held) \<and>
    code ctx' = code ctx @ is \<and> core ctx' (exec step is m) (q # held) \<and>
    (\<forall>r xs. rview ctx m r xs \<longrightarrow> rview ctx' (exec step is m) r xs)"
proof -
  obtain q ctx' m' where 1: "buxn_jit_alloc_reg ctx = Some (q, ctx')" "quiet step ctx m ctx' m'"
    "core ctx' m' (q # held)" "op_reg q" "q \<notin> set (cached_regs ctx' @ held)"
    using sljit_exec.exec_alloc_reg [OF assms] by metis
  then show ?thesis using quietD(1,7) [OF 1(2)] by (auto simp: emits_def)
qed

text \<open>
  C11. Clearing the stack caches empties both, emits code that writes every pending operand to its stack, and
  leaves each stack holding in memory the bytes it held before.
\<close>

theorem clear_writes_back:
  assumes "sljit_exec step le" and "core ctx m held"
  shows "\<exists>ctx' is. buxn_jit_clear_stack_caches ctx = Some ctx' \<and> cached_total ctx' = 0 \<and> code ctx' = code ctx @ is \<and>
    (\<forall>r xs. rview ctx m r xs \<longrightarrow>
      below (stack_arr ctx (exec step is m) r) (ucast (reg (exec step is m) (stack_reg r))) xs)"
proof -
  obtain ctx' m' where 1: "buxn_jit_clear_stack_caches ctx = Some ctx'" "quiet step ctx m ctx' m'"
    "core ctx' m' held" "\<forall>r. act r ctx' = []"
    by (rule sljit_exec.exec_clear_stack_caches [OF assms])
  have sh: "shape_ok ctx'" using 1(3) by (simp add: core_def)
  have "cached_total ctx' = 0" using length_act [OF sh] 1(4) by (simp add: cached_total_eq [of _ False])
  moreover have "below (stack_arr ctx m' r) (ucast (reg m' (stack_reg r))) xs" if "rview ctx m r xs" for r xs
    using quietD(7) [OF 1(2) that] 1(4) stack_arr_jit [OF quietD(3) [OF 1(2)]]
    by (simp add: rview_def ops_new_def stack_is_def)
  ultimately show ?thesis using 1(1) quietD(1) [OF 1(2)] by (auto simp: emits_def)
qed

text \<open>What a push records of a constant is what the next pop of the same width reads.\<close>

lemma pop_push_values:
  assumes "push_values v p st = (st', p')"
  shows "snd (pop_value (is_short v) p' st') = p"
    and "is_short (fst (pop_value (is_short v) p' st')) = is_short v"
    and "SEM_CONST \<in> semantics (fst (pop_value (is_short v) p' st')) \<longleftrightarrow> SEM_CONST \<in> semantics v"
    and "SEM_CONST \<in> semantics v \<Longrightarrow>
      const_value (fst (pop_value (is_short v) p' st')) = (if is_short v then const_value v else const_value v AND 0xff)"
proof -
  have sp: "p + 2 - 1 = p + 1" "p + 1 \<noteq> p" by simp_all
  have w: "push_bit 8 (ucast (ucast (drop_bit 8 c) :: u8)) OR ucast (ucast c :: u8) = (c :: u16)" for c
    by (rule bit_word_eqI) (auto simp: bit_simps)
  show "snd (pop_value (is_short v) p' st') = p" "is_short (fst (pop_value (is_short v) p' st')) = is_short v"
    "SEM_CONST \<in> semantics (fst (pop_value (is_short v) p' st')) \<longleftrightarrow> SEM_CONST \<in> semantics v"
    "SEM_CONST \<in> semantics v \<Longrightarrow>
      const_value (fst (pop_value (is_short v) p' st')) = (if is_short v then const_value v else const_value v AND 0xff)"
    using assms by (auto simp: push_values_def pop_value_def Let_def sp w and_0xff_u16 split: if_splits)
qed

context sljit_exec
begin

text \<open>A pushed operand is the top cell of its cache, whatever was spilled to make room for it.\<close>

lemma push_ex_top:
  assumes co: "core ctx m held" and p: "buxn_jit_push_ex v r ctx = Some c1"
  obtains cs st0 p0 where "act r c1 = cs @ [\<lparr>cval = v, need_flush = True\<rparr>]"
    and "push_values v p0 st0 = (if r then rst c1 else wst c1, if r then rsp c1 else wsp c1)"
proof -
  obtain c0 m0 where sp: "(if clen (cache_of r ctx) \<ge> BUXN_JIT_CACHE_SIZE
        then map_option snd (buxn_jit_stack_cache_spill r ctx) else Some ctx) = Some c0"
    and co0: "core c0 m0 held" and n: "clen (cache_of r c0) < BUXN_JIT_CACHE_SIZE"
    by (rule exec_make_room [OF co])
  obtain c where c: "buxn_jit_stack_cache_push r v ctx = Some c"
    and c1: "c1 = (if r then (let (sv, p) = push_values v (rsp c) (rst c) in c\<lparr>rst := sv, rsp := p\<rparr>)
      else (let (sv, p) = push_values v (wsp c) (wst c) in c\<lparr>wst := sv, wsp := p\<rparr>))"
    using p by (auto simp: buxn_jit_push_ex_def Option.bind_eq_Some_conv split: if_splits)
  have "buxn_jit_retain_reg (oreg v) (add_top r v c0) = Some c"
    using c sp by (simp add: buxn_jit_stack_cache_push_def Let_def add_top_def)
  then have "act r c = act r (add_top r v c0)"
    by (cases "op_index (oreg v)") (auto simp: buxn_jit_retain_reg_def act_def cache_of_def simp del: op_index.simps)
  moreover have "shape_ok c0" using co0 by (simp add: core_def)
  ultimately have "act r c = act r c0 @ [\<lparr>cval = v, need_flush = True\<rparr>]" using add_top_act(1) n by metis
  moreover have "act r c1 = act r c" by (simp add: c1 act_def cache_of_def split_beta)
  moreover have "push_values v (if r then rsp c else wsp c) (if r then rst c else wst c) =
      (if r then rst c1 else wst c1, if r then rsp c1 else wsp c1)"
    by (simp add: c1 split_beta)
  ultimately show ?thesis using that by metis
qed

text \<open>Popping an operand of the width of the top cell takes over its register without emitting code.\<close>

lemma pop_ex_top:
  assumes co: "core c m held" and a: "act r c = cs @ [\<lparr>cval = v, need_flush = True\<rparr>]" and d: "direct c"
    and pv: "pv = pop_value (is_short v) (if r then rsp c else wsp c) (if r then rst c else wst c)"
  shows "buxn_jit_pop_ex (is_short v) r c = Some ((fst pv)\<lparr>oreg := oreg v\<rparr>, drop_top r (set_esp r (snd pv) c))"
proof -
  let ?c = "set_esp r (snd pv) c"
  have ca: "cache_of q ?c = cache_of q c" for q by (simp add: set_esp_def cache_of_def)
  have sh: "shape_ok c" using co by (simp add: core_def)
  note sn = act_snoc [OF sh a]
  have "buxn_jit_stack_cache_pop r (is_short v) ?c = Some (oreg v, drop_top r ?c)"
    using sn by (simp add: buxn_jit_stack_cache_pop_def stack_cache_pop_short_def stack_cache_pop_byte_def Let_def drop_top_def ca)
  moreover have "esp r c = (if r then rsp c else wsp c)" using d by (simp add: esp_def direct_def)
  ultimately show ?thesis by (simp add: buxn_jit_pop_ex_def split_beta pv)
qed

lemma push_pop_top:
  assumes s: "wsim ctx m held st" and v: "oreg v \<in> set held"
    and val: "reg m (oreg v) = bytes_val bs" and len: "length bs = opsize (is_short v)"
    and fit: "length (bs @ st r) \<le> 256"
  obtains ctx1 w ctx' m' where "buxn_jit_push_ex v r ctx = Some ctx1"
    and "buxn_jit_pop_ex (is_short v) r ctx1 = Some (w, ctx')" and "emits step ctx m ctx' m'"
    and "oreg w = oreg v" and "is_short w = is_short v" and "SEM_CONST \<in> semantics w \<longleftrightarrow> SEM_CONST \<in> semantics v"
    and "SEM_CONST \<in> semantics v \<longrightarrow> const_value w = (if is_short v then const_value v else const_value v AND 0xff)"
    and "wsim ctx' m' (oreg v # held) st" and "\<forall>q \<in> set held. reg m' q = reg m q"
proof -
  have fit': "length (bs @ vreal (Direct st) r) \<le> 256" using fit by simp
  obtain c1 m1 where 1: "buxn_jit_push_ex v r ctx = Some c1" "vwsim c1 m1 held (vpush r bs (Direct st))"
    "steps_to step held ctx m c1 m1"
    by (rule exec_push_ex_w [OF s v val len fit'])
  then have s1: "wsim c1 m1 held (st(r := bs @ st r))" by simp
  obtain cs st0 p0 where top: "act r c1 = cs @ [\<lparr>cval = v, need_flush = True\<rparr>]"
    and pv: "push_values v p0 st0 = (if r then rst c1 else wst c1, if r then rsp c1 else wsp c1)"
    by (rule push_ex_top [OF wsimD(1) [OF s] 1(1)])
  define x where "x = pop_value (is_short v) (if r then rsp c1 else wsp c1) (if r then rst c1 else wst c1)"
  define c2 where "c2 = set_esp r (snd x) c1"
  note pop = pop_ex_top [OF wsimD(1) [OF s1] top wsimD(7) [OF s1] x_def]
  have s2: "wsim c2 m1 held (st(r := bs @ st r))"
    using s1 unfolding c2_def by (subst vwsim_ctx_cong [of _ c1]) (simp_all add: set_esp_def cache_of_def)
  have top2: "act r c2 = cs @ [\<lparr>cval = v, need_flush = True\<rparr>]"
    using top by (cases r) (simp_all add: c2_def act_def set_esp_def cache_of_def)
  note d = drop_top_core [OF wsimD(1) [OF s2] top2]
  have ob: "opbytes m1 v = bs"
    using steps_toD(3) [OF 1(3) v] val len by (intro opbytes_val) simp_all
  have arr: "stack_arr (drop_top r c2) m1 = stack_arr c2 m1" by (rule stack_arr_same) (simp_all add: drop_top_def)
  have pt: "stack_ptr_reg r (drop_top r c2) = stack_ptr_reg r c2" by (simp add: stack_ptr_reg_def drop_top_def)
  have "vview (drop_top r c2) m1 (vpop r (length bs) (Direct (st(r := bs @ st r))))"
  proof (rule vview_pop [OF _ _ _ _ _ _ _ _ _ d(6)])
    show "vview c2 m1 (Direct (st(r := bs @ st r)))" by (rule vwsimD(6) [OF s2])
    show "vtop (Direct (st(r := bs @ st r))) r \<noteq> []" using len by (cases "is_short v") auto
    show "pview (drop_top r c2) m1 r (drop (length bs) xs)" if "pview c2 m1 r xs" for xs
      using that stack_is_append [of _ _ "opbytes m1 v" "cbytes m1 (rev (ops_all r (drop_top r c2)))" xs]
      by (simp add: pview_def d(10) arr ob pt)
  qed (simp_all add: d(5) top2, simp_all add: drop_top_def)
  then have w: "wsim (drop_top r c2) m1 (oreg v # held) st"
    using d(1) by (simp add: vwsim_def)
  have "emits step ctx m (drop_top r c2) m1"
    using 1(3) d(8) by (auto simp: steps_to_def emits_def c2_def)
  moreover have "\<forall>q \<in> set held. reg m1 q = reg m q" using steps_toD(3) [OF 1(3)] by blast
  ultimately show ?thesis
    using that [OF 1(1) pop, folded c2_def] pop_push_values [OF pv, folded x_def] w by (simp add: x_def)
qed

end

text \<open>
  C12. Outside keep mode, with an operand in a register the handler holds and at most 256 bytes on the stack after the push,
  and however full the caches are (a full cache spills) and whether or not cached operands share registers:
  pushing the operand and popping one of its width gives back the same register with the same contents and
  the same knowledge of its constant; no register the handler holds has changed, and both stacks are as they
  were.
\<close>

theorem push_pop_roundtrip:
  assumes "sljit_exec step le" and "wsim ctx m held st" and "oreg v \<in> set held"
    and "reg m (oreg v) = bytes_val bs" and "length bs = opsize (is_short v)" and "length (bs @ st r) \<le> 256"
  shows "\<exists>ctx1 w ctx' is. buxn_jit_push_ex v r ctx = Some ctx1 \<and>
    buxn_jit_pop_ex (is_short v) r ctx1 = Some (w, ctx') \<and> code ctx' = code ctx @ is \<and>
    oreg w = oreg v \<and> is_short w = is_short v \<and> (SEM_CONST \<in> semantics w \<longleftrightarrow> SEM_CONST \<in> semantics v) \<and>
    (SEM_CONST \<in> semantics v \<longrightarrow> const_value w = (if is_short v then const_value v else const_value v AND 0xff)) \<and>
    (\<forall>q \<in> set held. reg (exec step is m) q = reg m q) \<and> wsim ctx' (exec step is m) (oreg v # held) st"
proof -
  obtain ctx1 w ctx' m' where "buxn_jit_push_ex v r ctx = Some ctx1"
    "buxn_jit_pop_ex (is_short v) r ctx1 = Some (w, ctx')" "emits step ctx m ctx' m'"
    "oreg w = oreg v" "is_short w = is_short v" "SEM_CONST \<in> semantics w \<longleftrightarrow> SEM_CONST \<in> semantics v"
    "SEM_CONST \<in> semantics v \<longrightarrow> const_value w = (if is_short v then const_value v else const_value v AND 0xff)"
    "wsim ctx' m' (oreg v # held) st" "\<forall>q \<in> set held. reg m' q = reg m q"
    by (rule sljit_exec.push_pop_top [OF assms])
  then show ?thesis by (auto simp: emits_def)
qed

end
