(* ===== verification/Examples.thy ===== *)
theory Examples
  imports Jit_Block
begin

text \<open>
  Concrete instances for the parameters of the model: an opcode table, a runtime over a given program and
  a machine with that program in memory. The witnesses of the properties evaluate them.
\<close>

definition op_table :: "opname list" where
  "op_table = [OP_BRK, OP_INC, OP_POP, OP_NIP, OP_SWP, OP_ROT, OP_DUP, OP_OVR,
     OP_EQU, OP_NEQ, OP_GTH, OP_LTH, OP_JMP, OP_JCN, OP_JSR, OP_STH,
     OP_LDZ, OP_STZ, OP_LDR, OP_STR, OP_LDA, OP_STA, OP_DEI, OP_DEO,
     OP_ADD, OP_SUB, OP_MUL, OP_DIV, OP_AND, OP_ORA, OP_EOR, OP_SFT]"

definition example_decode :: "u8 \<Rightarrow> opname" where
  "example_decode b =
     (if b = 0x20 then OP_JCI else if b = 0x40 then OP_JMI else if b = 0x60 then OP_JSI
      else if b AND 0x9f = 0x80 then OP_LIT
      else op_table ! unat (b AND 0x1f))"

fun load_rom :: "u16 \<Rightarrow> u8 list \<Rightarrow> u16 \<Rightarrow> u8" where
  "load_rom a [] = (\<lambda>_. 0)"
| "load_rom a (b # bs) = (load_rom (a + 1) bs)(a := b)"

abbreviation rom :: "u8 list \<Rightarrow> u16 \<Rightarrow> u8" where
  "rom \<equiv> load_rom 0x100"

definition example_jit :: "u8 list \<Rightarrow> buxn_jit" where
  "example_jit prog =
     buxn_jit_init 0x5000 (rom prog) example_offs True
       (\<lambda>_. \<lparr>enext = None, link_type = LINK_TO_HEAD, eblock = 0, ecompiler = 0, etarget = Pc_target 0\<rparr>)
       (\<lambda>_. \<lparr>bpc = 0, fn = 0, head_addr = 0, body_addr = 0, executable_offset = 0, bnext = None\<rparr>)"

definition example_mach :: "u8 list \<Rightarrow> mach" where
  "example_mach prog =
     \<lparr>reg = (\<lambda>r. if r = S 0 then 0x1000 else 0),
      mem = (\<lambda>a. if 0x1400 \<le> a \<and> a < 0x11400 then rom prog (ucast (a - 0x1400)) else 0),
      flag = (\<lambda>_. False)\<rparr>"

definition example_state :: "u8 list \<Rightarrow> uxn_state" where
  "example_state prog = \<lparr>ustk = (\<lambda>_. []), uram = rom prog, udev = (\<lambda>_. 0), uhost = (\<lambda>_. 0), upc = 256\<rparr>"

section \<open>Evaluating the compiler\<close>

lemmas jit_eval =
    buxn_jit_init_def buxn_jit_dequeue_def buxn_jit_enqueue_def buxn_jit_alloc_entry_def buxn_jit_queue_block_def
  buxn_jit_cleanup_def new_block_def enqueue_compile_def enqueue_link_def enqueue_cleanup_def enqueue_pool_def
  update_entry_def BUXN_JIT_CACHE_SIZE_def BUXN_JIT_MEM_def BUXN_JIT_S_VM_def BUXN_JIT_S_WSP_def BUXN_JIT_S_RSP_def
  BUXN_JIT_R_MEM_BASE_def BUXN_JIT_MEM_OFFSET_def BUXN_JIT_TMP_def BUXN_JIT_R_OP_MIN_def BUXN_JIT_R_OP_MAX_def
  buxn_jit_op_flag_2_def buxn_jit_op_flag_k_def buxn_jit_op_flag_r_def buxn_jit_find_free_reg_def
  buxn_jit_retain_reg_def buxn_jit_release_reg_def buxn_jit_alloc_reg_def buxn_jit_set_mem_base_def buxn_jit_do_push_def
  buxn_jit_flush_cell_def buxn_jit_stack_cache_spill_def push_code_def shift_cells_def spill_any_def
  buxn_jit_stack_cache_push_def buxn_jit_pop_from_mem_def buxn_jit_stack_cache_pop_def buxn_jit_discard_from_mem_def
  buxn_jit_stack_cache_discard_def buxn_jit_stack_cache_flush_def buxn_jit_clear_stack_caches_def
  buxn_jit_stack_cache_retain_def pop_code_def stack_cache_pop_byte_def stack_cache_pop_short_def
  stack_cache_discard_byte_def stack_cache_discard_short_def buxn_jit_push_ex_def buxn_jit_pop_ex_def buxn_jit_push_def
  buxn_jit_pop_def buxn_jit_load_def buxn_jit_store_def buxn_jit_load_state_def buxn_jit_save_state_def
  buxn_jit_jump_abs_def buxn_jit_jump_def buxn_jit_conditional_jump_def buxn_jit_finalize_def buxn_jit_immediate_def
  buxn_jit_immediate_jump_target_def buxn_jit_wrap_around_def push_values_def esp_def set_esp_def pop_value_def
  load_code_def store_code_def queue_link_def mem_short_def immediate_code_def buxn_jit_BRK_def buxn_jit_INC_def
  buxn_jit_POP_def buxn_jit_NIP_def buxn_jit_SWP_def buxn_jit_ROT_def buxn_jit_DUP_def buxn_jit_OVR_def buxn_jit_EQU_def
  buxn_jit_NEQ_def buxn_jit_GTH_def buxn_jit_LTH_def buxn_jit_JMP_def buxn_jit_JCN_def buxn_jit_JSR_def buxn_jit_STH_def
  buxn_jit_LDZ_def buxn_jit_STZ_def buxn_jit_LDR_def buxn_jit_STR_def buxn_jit_LDA_def buxn_jit_STA_def buxn_jit_DEI_def
  buxn_jit_DEO_def buxn_jit_ADD_def buxn_jit_SUB_def buxn_jit_MUL_def buxn_jit_DIV_def buxn_jit_AND_def buxn_jit_ORA_def
  buxn_jit_EOR_def buxn_jit_SFT_def buxn_jit_JCI_def buxn_jit_JMI_def buxn_jit_JSI_def buxn_jit_LIT_def compare_op_def
  push_return_addr_def relative_addr_code_def host_call_code_def device_store_code_def const_result_def shift_code_def
  buxn_jit_compile_def buxn_jit_translate_jump_addr_def buxn_jit_execute_def fetch_opcode_def setup_shadow_def
  empty_cache_def initial_ctx_def prologue_def buxn_jit_main_def link_event_def   emit_def emit_label_def emit_jump_def
  set_label_def emit_all_eq cache_of_def set_cache_def stack_field_def stack_reg_def stack_ptr_reg_def Let_def
  example_decode_def op_table_def example_jit_def

lemma small_lists:
  "(x # xs)[numeral v := y] = x # xs[pred_numeral v := y]"
  "replicate 6 (0 :: nat) = [0, 0, 0, 0, 0, 0]"
  "replicate 4 z = [z, z, z, z]"
  by (simp_all add: numeral_eq_Suc)

lemma alloc_eval:
  "buxn_jit_find_free_reg ctx = Some r \<Longrightarrow> alloc_reg_loop ctx = Some (Some r, ctx)"
  "buxn_jit_find_free_reg ctx = None \<Longrightarrow> 0 < cached_total ctx \<Longrightarrow> spill_any ctx = Some ctx' \<Longrightarrow>
   alloc_reg_loop ctx = alloc_reg_loop ctx'"
  by (simp_all add: alloc_reg_loop.simps [of ctx])

lemmas safe_eval = mode_k_def shadows_def linear_def operands_def cached_total_def ops_new_def act_def

lemma bind_weak_cong: "m = m' \<Longrightarrow> m \<bind> f = m' \<bind> (f :: 'a \<Rightarrow> 'b option)"
  by simp

lemma clear_eval:
  "buxn_jit_stack_cache_spill r ctx = Some (True, ctx') \<Longrightarrow>
   buxn_jit_stack_cache_clear r ctx = buxn_jit_stack_cache_clear r ctx'"
  "buxn_jit_stack_cache_spill r ctx = Some (False, ctx') \<Longrightarrow> buxn_jit_stack_cache_clear r ctx = Some ctx'"
  by (simp_all add: buxn_jit_stack_cache_clear.simps [of r ctx])

section \<open>The example machine\<close>

abbreviation example_ctx :: "u8 list \<Rightarrow> buxn_jit_ctx" where
  "example_ctx prog \<equiv> entry_ctx (example_jit prog) 0 0x100"

lemma example_fields [simp]:
  "vm_offset (example_jit prog) = example_offs" "little_endian (example_jit prog)"
  "vm_memory (example_jit prog) = rom prog"
  "reg (example_mach prog) BUXN_JIT_S_VM = 0x1000" "reg (example_mach prog) (stack_reg r) = 0"
  "upc (example_state prog) = 0x100"
  by (simp_all add: example_jit_def buxn_jit_init_def example_mach_def example_state_def jit_reg_defs stack_reg_def)

lemma example_holds: "vm_holds example_offs (example_mach prog) (example_state prog)"
proof -
  have "mem (example_mach prog) (vm_addr example_offs 0x1000 F_memory (ucast a)) = rom prog a" for a :: u16
  proof -
    have a: "unat a < 65536" using unsigned_less [of a, where 'a = nat] by simp
    have "(5120 + unat a) mod 18446744073709551616 = 5120 + unat a"
      by (rule mod_less) (use a in linarith)
    then have "unat (0x1400 + ucast a :: uw) = 0x1400 + unat a" by (simp add: unat_word_ariths)
    then have "0x1400 \<le> (0x1400 + ucast a :: uw) \<and> (0x1400 + ucast a :: uw) < 0x11400"
      using a by (simp add: word_le_nat_alt word_less_nat_alt)
    then show ?thesis by (simp add: example_mach_def vm_addr_def)
  qed
  moreover have "mem (example_mach prog) (vm_addr example_offs 0x1000 F_device (ucast a)) = 0" for a :: u8
  proof -
    have a: "unat a < 256" using unsigned_less [of a, where 'a = nat] by simp
    have "(4864 + unat a) mod 18446744073709551616 = 4864 + unat a"
      by (rule mod_less) (use a in linarith)
    then have "unat (0x1300 + ucast a :: uw) = 0x1300 + unat a" by (simp add: unat_word_ariths)
    then have "unat (0x1300 + ucast a :: uw) < 5120" using a by linarith
    then have "\<not> 0x1400 \<le> (0x1300 + ucast a :: uw)" unfolding word_le_nat_alt by simp
    then show ?thesis by (simp add: example_mach_def vm_addr_def)
  qed
  moreover have "mem (example_mach prog) a = 0" if out: "outside_vm example_offs 0x1000 a" for a
  proof -
    have "\<not> (0x1400 \<le> a \<and> a < 0x11400)"
    proof
      assume r: "0x1400 \<le> a \<and> a < 0x11400"
      then have "unat (a - 0x1400) < field_size F_memory"
        by (simp add: word_le_nat_alt word_less_nat_alt unat_sub) linarith
      moreover have "a = vm_addr example_offs 0x1000 F_memory (a - 0x1400)" by (simp add: vm_addr_def)
      ultimately show False using out unfolding outside_vm_def by blast
    qed
    then show ?thesis by (auto simp: example_mach_def)
  qed
  ultimately show ?thesis by (simp add: vm_holds_def) (simp add: example_state_def)
qed

lemma example_in_memory: "in_memory (example_jit prog) (example_mach prog) (example_state prog)"
  using example_holds [of prog] by (simp add: in_memory_def) (simp add: example_state_def)

lemma example_represents: "represents (example_ctx prog) (example_mach prog) (example_state prog)"
  and example_linear: "linear (example_ctx prog)"
  using represents_fresh [of "example_ctx prog" "example_mach prog" "example_state prog"]
    example_in_memory [of prog] layout_ok_example
  by (simp_all add: entry_ctx_fields)

text \<open>A context in which the running handler holds the first operand register.\<close>

lemma example_sim:
  "sim ((example_ctx prog)\<lparr>reg_ref_counts := [Suc 0, 0, 0, 0, 0, 0]\<rparr>) (example_mach prog) [R 3] [R 3] (\<lambda>_. [])"
  (is "sim ?c ?m _ _ _")
proof -
  have ca: "cache_of r ?c = empty_cache" for r by (simp add: entry_ctx_fields)
  have act: "act r ?c = []" for r unfolding act_def ca by (simp add: empty_cache_def)
  have "cached_regs ?c = []" by (simp add: cached_regs_def ops_all_def act)
  then have "refs_ok ?c [R 3]"
    by (auto simp: refs_ok_def op_reg_iff nth_Cons' intro: exI [of _ 0])
  moreover have "shape_ok ?c" unfolding shape_ok_def ca by (simp add: empty_cache_def)
  moreover have "base_ok ?c ?m" using layout_ok_example by (simp add: base_ok_def entry_ctx_fields)
  moreover have "rview ?c ?m r []" for r by (simp add: rview_def stack_is_def ops_new_def act)
  moreover have "direct ?c"
    by (simp add: direct_def entry_ctx_def jit_eval)
  ultimately show ?thesis using \<open>cached_regs ?c = []\<close>
    by (simp add: vsim_def vview_def shadow_regs_def core_def pending_def ops_all_def act)
qed

lemma example_core: "core ((example_ctx prog)\<lparr>reg_ref_counts := [Suc 0, 0, 0, 0, 0, 0]\<rparr>) (example_mach prog) [R 3]"
  by (rule simD(1) [OF example_sim])

section \<open>Witnesses\<close>

lemma ref_exec: "sljit_exec (lir_step True) True"
  by (rule ref_machine.sljit_exec_axioms)

text \<open>\<^verbatim>\<open>#03 #04 ADDk BRK\<close>.\<close>

definition sum_rom :: "u8 list" where
  "sum_rom = [0x80, 3, 0x80, 4, 0x98, 0]"

lemma sum_safe: "safe_run example_decode (Suc (Suc (Suc 0))) (example_ctx sum_rom)"
  by (simp add: jit_eval entry_ctx_def sum_rom_def small_lists alloc_eval safe_eval cong: bind_weak_cong let_weak_cong)

lemmas uxn_eval = uxn_step_def uxn_instr_def uxn_lit_def uxn_stack_def uxn_stash_def uxn_load_def uxn_store_def
  set_stack_def split_at_def width_def peek_def poke_def next_addr_def mode_2_def mode_r_def mode_k_def
  is_arith_def is_compare_def remaining_def uxn_arith_def uxn_alu_def uxn_inc_def example_decode_def op_table_def example_state_def

lemma sum_run:
  "uxn_run example_decode (rom sum_rom) (Suc (Suc (Suc 0))) (example_state sum_rom) =
     Some ((example_state sum_rom)\<lparr>ustk := (\<lambda>_. [])(False := [7, 4, 3]), upc := 0x105\<rparr>)"
  by (simp add: uxn_eval sum_rom_def)

theorem block_correct_witness:
  "\<exists>ctx' is. compile_loop example_decode 65536 (example_ctx sum_rom) = Some ctx' \<and>
    code ctx' = code (example_ctx sum_rom) @ is @ [Return (Imm 0x10000)] \<and>
    in_memory (example_jit sum_rom) (exec (lir_step True) is (example_mach sum_rom))
      ((example_state sum_rom)\<lparr>ustk := (\<lambda>_. [])(False := [7, 4, 3]), upc := 0x105\<rparr>)"
  using sum_run
  by (intro block_correct [OF _ _ example_in_memory _ sum_safe])
    (simp_all add: ref_exec layout_ok_example, simp_all add: sum_rom_def example_decode_def op_table_def mode_k_def)

theorem opcode_correct_witness:
  "\<exists>ctx' is. buxn_jit_next_opcode example_decode (Suc 0) (example_ctx sum_rom) = Some ctx' \<and>
    code ctx' = code (example_ctx sum_rom) @ is \<and>
    represents ctx' (exec (lir_step True) is (example_mach sum_rom))
      ((example_state sum_rom)\<lparr>ustk := (\<lambda>_. [])(False := [3]), upc := 0x102\<rparr>) \<and>
    (linear ctx' \<or> aliasing (example_decode 0x80))"
proof (rule opcode_correct [OF _ example_represents])
  show "linear (example_ctx sum_rom)" by (rule example_linear)
  show "uxn_step example_decode 0x80 (example_state sum_rom) =
    Some ((example_state sum_rom)\<lparr>ustk := (\<lambda>_. [])(False := [3]), upc := 0x102\<rparr>)"
    by (simp add: uxn_eval sum_rom_def)
qed (simp_all add: ref_exec entry_ctx_fields sum_rom_def mode_k_def shadows_def operands_def example_decode_def cached_total_eq [of _ False] empty_cache_def)

theorem alloc_reg_total_witness:
  "\<exists>q ctx' is. buxn_jit_alloc_reg ((example_ctx [])\<lparr>reg_ref_counts := [Suc 0, 0, 0, 0, 0, 0]\<rparr>) = Some (q, ctx') \<and>
    op_reg q \<and> q \<notin> set (cached_regs ctx' @ [R 3])"
  using alloc_reg_total [OF ref_exec example_core [of "[]"]] by auto

text \<open>A short waits in the cache of the working stack.\<close>

theorem clear_writes_back_witness:
  "\<exists>ctx m ctx' is. cached_total ctx = 1 \<and> buxn_jit_clear_stack_caches ctx = Some ctx' \<and> cached_total ctx' = 0 \<and>
    code ctx' = code ctx @ is \<and>
    below (stack_arr ctx (exec (lir_step True) is m) False) (ucast (reg (exec (lir_step True) is m) (stack_reg False))) [0, 0]"
proof -
  let ?v = "\<lparr>semantics = {}, is_short = True, const_value = 0, oreg = R 3\<rparr>"
  let ?c = "(example_ctx [])\<lparr>reg_ref_counts := [Suc 0, 0, 0, 0, 0, 0]\<rparr>"
  have s: "wsim ?c (example_mach []) [R 3] (\<lambda>_. [])" using example_sim [of "[]"] by (simp add: sim_wsim)
  have v: "oreg ?v \<in> set [R 3]" "reg (example_mach []) (oreg ?v) = bytes_val [0, 0]" "length [0, 0 :: u8] = opsize (is_short ?v)"
    "length ([0, 0] @ vreal (Direct (\<lambda>_. [])) False) \<le> 256"
    by (simp_all add: example_mach_def short_of_def)
  obtain c m where c: "buxn_jit_push_ex ?v False ?c = Some c" "wsim c m [R 3] ((\<lambda>_. [])(False := [0, 0]))"
    by (rule sljit_exec.exec_push_ex_w [OF ref_exec s v]) simp
  obtain cs where "act False c = cs @ [\<lparr>cval = ?v, need_flush = True\<rparr>]"
    by (rule sljit_exec.push_ex_top [OF ref_exec wsimD(1) [OF s] c(1)])
  moreover have "cached_total c \<le> 1"
    by (rule sljit_exec.exec_push_ex_w [OF ref_exec s v]) (use c(1) in \<open>simp add: cached_total_eq [of _ False] entry_ctx_fields empty_cache_def\<close>)
  ultimately have t: "cached_total c = 1"
    using length_act [OF wsimD(2) [OF c(2)], of False] by (simp add: cached_total_eq [of _ False])
  have "rview c m False [0, 0]" using wsimD(5) [OF c(2), of False] by simp
  with clear_writes_back [OF ref_exec wsimD(1) [OF c(2)]] t show ?thesis by metis
qed

theorem push_pop_roundtrip_witness:
  "\<exists>ctx1 w ctx' is. buxn_jit_push_ex \<lparr>semantics = {SEM_CONST}, is_short = True, const_value = 0x102, oreg = R 3\<rparr> False
      ((example_ctx [])\<lparr>reg_ref_counts := [Suc 0, 0, 0, 0, 0, 0]\<rparr>) = Some ctx1 \<and>
    buxn_jit_pop_ex True False ctx1 = Some (w, ctx') \<and> oreg w = R 3 \<and> const_value w = 0x102 \<and>
    wsim ctx' (exec (lir_step True) is (example_mach [])) [R 3, R 3] (\<lambda>_. [])"
proof -
  let ?v = "\<lparr>semantics = {SEM_CONST}, is_short = True, const_value = 0x102, oreg = R 3\<rparr>"
  have "reg (example_mach []) (oreg ?v) = bytes_val [0, 0]" by (simp add: example_mach_def short_of_def)
  moreover have "wsim ((example_ctx [])\<lparr>reg_ref_counts := [Suc 0, 0, 0, 0, 0, 0]\<rparr>) (example_mach []) [R 3] (\<lambda>_. [])"
    using example_sim [of "[]"] by (simp add: sim_wsim)
  ultimately show ?thesis
    using push_pop_roundtrip [OF ref_exec, of _ _ _ _ ?v "[0, 0]" False] by fastforce
qed

end
