(* ===== verification/Divergence.thy ===== *)
theory Divergence
  imports Examples
begin

text \<open>
  Programs whose compiled code does not do what the virtual machine does. Each lemma evaluates the model on
  one program: \<open>vm_stack\<close> is the working stack after \<open>n\<close> instructions of the virtual machine, \<open>jit_stack\<close> the
  one that running the code compiled for the same instructions and the final \<open>BRK\<close> leaves in memory (top
  first). They mark the limits of \<open>block_correct\<close>, whose condition \<open>safe_run\<close> each of them violates, and document the defects they show.
\<close>

fun compile_opcodes :: "nat \<Rightarrow> buxn_jit_ctx \<Rightarrow> buxn_jit_ctx option" where
  "compile_opcodes 0 ctx = Some ctx"
| "compile_opcodes (Suc n) ctx = do { ctx \<leftarrow> buxn_jit_next_opcode example_decode (Suc 0) ctx; compile_opcodes n ctx }"

definition stack_of :: "mach \<Rightarrow> u8 list" where
  "stack_of m = rev (map (\<lambda>i. mem m (0x1100 + of_nat i)) [0..<unat (ucast (reg m (S (Suc 0))) :: u8)])"

definition jit_run :: "nat \<Rightarrow> u8 list \<Rightarrow> mach \<Rightarrow> mach option" where
  "jit_run n prog m =
     map_option (\<lambda>ctx. exec (lir_step True) (drop (length (code (example_ctx prog))) (code ctx)) m)
       (compile_opcodes (Suc n) (example_ctx prog))"

definition jit_stack :: "nat \<Rightarrow> u8 list \<Rightarrow> u8 list option" where
  "jit_stack n prog = map_option stack_of (jit_run n prog (example_mach prog))"

definition vm_stack :: "nat \<Rightarrow> u8 list \<Rightarrow> u8 list option" where
  "vm_stack n prog = map_option (\<lambda>u. ustk u False) (uxn_run example_decode (rom prog) n (example_state prog))"

lemma upt_small:
  "[0..<1] = [0 :: nat]" "[0..<2] = [0, 1 :: nat]" "[0..<3] = [0, 1, 2 :: nat]" "[0..<4] = [0, 1, 2, 3 :: nat]"
  "[0..<9] = [0, 1, 2, 3, 4, 5, 6, 7, 8 :: nat]"
  by (simp_all add: upt_rec)

lemmas stack_eval = jit_stack_def jit_run_def jit_eval entry_ctx_def small_lists alloc_eval clear_eval stack_of_def
  example_mach_def upt_small short_of_def hi_byte_def lo_byte_def cached_total_def

text \<open>
  \<^verbatim>\<open>#05 DUP INC\<close>: the two copies share a register, and \<open>INC\<close> increments it in place, so the compiled code
  leaves 6 twice where the virtual machine leaves 5 and 6.
\<close>

lemma dup_shares_register:
  "vm_stack (Suc (Suc (Suc 0))) [0x80, 5, 0x06, 0x01, 0] = Some [6, 5] \<and>
   jit_stack (Suc (Suc (Suc 0))) [0x80, 5, 0x06, 0x01, 0] = Some [6, 6]"
proof
  show "vm_stack (Suc (Suc (Suc 0))) [0x80, 5, 0x06, 0x01, 0] = Some [6, 5]"
    by (simp add: vm_stack_def uxn_eval)
  show "jit_stack (Suc (Suc (Suc 0))) [0x80, 5, 0x06, 0x01, 0] = Some [6, 6]"
    by (simp add: stack_eval cong: bind_weak_cong let_weak_cong)
qed

text \<open>
  \<^verbatim>\<open>#1234 DUP2 POP\<close>: dropping the low byte of the shared register shifts it in place, so the first copy is
  damaged as well.
\<close>

lemma dup2_pop_shares_register:
  "vm_stack (Suc (Suc (Suc 0))) [0xa0, 0x12, 0x34, 0x26, 0x02, 0] = Some [0x12, 0x34, 0x12] \<and>
   jit_stack (Suc (Suc (Suc 0))) [0xa0, 0x12, 0x34, 0x26, 0x02, 0] = Some [0x12, 0x12, 0x00]"
proof
  show "vm_stack (Suc (Suc (Suc 0))) [0xa0, 0x12, 0x34, 0x26, 0x02, 0] = Some [0x12, 0x34, 0x12]"
    by (simp add: vm_stack_def uxn_eval short_bytes_def)
  show "jit_stack (Suc (Suc (Suc 0))) [0xa0, 0x12, 0x34, 0x26, 0x02, 0] = Some [0x12, 0x12, 0x00]"
    by (simp add: stack_eval cong: bind_weak_cong let_weak_cong)
qed

definition spill_rom :: "u8 list" where
  "spill_rom = [0xc0, 1, 0xc0, 2, 0xa0, 0x11, 0x11, 0xa0, 0x22, 0x22, 0xa0, 0x33, 0x33, 0xa0, 0x44, 0x55, 0x01, 0]"

text \<open>
  \<^verbatim>\<open>LITr 01 LITr 02 #1111 #2222 #3333 #4455 INC\<close>: popping the low byte of the top short needs a register, and
  the allocation spills the bottom cell; the cells move down, but the pop goes on with the slot it looked at
  before, so the short is halved and left below a second copy of itself.
\<close>

lemma pop_after_spill_uses_stale_slot:
  "vm_stack 7 spill_rom = Some [0x56, 0x44, 0x33, 0x33, 0x22, 0x22, 0x11, 0x11] \<and>
   jit_stack 7 spill_rom = Some [0x56, 0x44, 0x00, 0x33, 0x33, 0x22, 0x22, 0x11, 0x11]"
proof
  have seven: "7 = Suc (Suc (Suc (Suc (Suc (Suc (Suc 0))))))" by simp
  show "vm_stack 7 spill_rom = Some [0x56, 0x44, 0x33, 0x33, 0x22, 0x22, 0x11, 0x11]"
    unfolding seven by (simp add: vm_stack_def uxn_eval spill_rom_def)
  show "jit_stack 7 spill_rom = Some [0x56, 0x44, 0x00, 0x33, 0x33, 0x22, 0x22, 0x11, 0x11]"
    unfolding seven by (simp add: stack_eval spill_rom_def cong: bind_weak_cong let_weak_cong)
qed

definition base_rom :: "u8 list" where
  "base_rom = [0xc0, 1, 0xc0, 2, 0xc0, 3, 0xc0, 4, 0x05, 0]"

definition base_mach :: mach where
  "base_mach =
     (let m = example_mach base_rom
      in m\<lparr>reg := (reg m)(S (Suc 0) := 3), mem := (mem m)(0x1100 := 0x0a, 0x1101 := 0x0b, 0x1102 := 0x0c)\<rparr>)"

text \<open>
  \<^verbatim>\<open>LITr 01 LITr 02 LITr 03 LITr 04 ROT\<close> with the three operands of \<open>ROT\<close> in memory: the third pop sets the
  memory base to the working stack, then allocates a register; the allocation writes a cell of the return
  stack to memory and leaves the base there, so the pop reads from the return stack.
\<close>

lemma pop_reads_other_stack:
  "uxn_stack OP_ROT False (stack_of base_mach) = Some ([0x0a, 0x0c, 0x0b], []) \<and>
   map_option stack_of (jit_run 5 base_rom base_mach) = Some [0x01, 0x0c, 0x0b]"
proof
  show "uxn_stack OP_ROT False (stack_of base_mach) = Some ([0x0a, 0x0c, 0x0b], [])"
    by (simp add: uxn_eval stack_of_def base_mach_def example_mach_def upt_small)
  have five: "5 = Suc (Suc (Suc (Suc (Suc 0))))" by simp
  show "map_option stack_of (jit_run 5 base_rom base_mach) = Some [0x01, 0x0c, 0x0b]"
    unfolding five by (simp add: stack_eval base_rom_def base_mach_def cong: bind_weak_cong let_weak_cong)
qed

end
