(* ===== verification/Label_Map.thy ===== *)
theory Label_Map
  imports Buxn_Prelude
begin

text \<open>
  Labels of the compiled program: the lookup \<^verbatim>\<open>buxn_pc_to_label\<close> of \<^verbatim>\<open>include/buxn/jit/label_map.h\<close> and the
  part of \<^verbatim>\<open>boot\<close> in \<^verbatim>\<open>src/cli.c\<close> that reads the map from a symbol file. A name is the list of its bytes;
  its length is the field \<^verbatim>\<open>name_len\<close>.
\<close>

section \<open>The map\<close>

record buxn_label_map_entry =
  laddr :: u16
  lname :: "u8 list"

record buxn_label_map =
  lsize :: u16
  lentries :: "buxn_label_map_entry list"

text \<open>The conditions of the loop that do not depend on the entry found so far.\<close>

definition candidate :: "u16 \<Rightarrow> buxn_label_map_entry \<Rightarrow> bool" where
  "candidate pc entry \<longleftrightarrow>
     laddr entry > 0x00ff \<and> (lname entry \<noteq> [] \<and> hd (lname entry) \<noteq> 0x40) \<and> laddr entry \<le> pc"

fun closest_entry :: "u16 \<Rightarrow> buxn_label_map_entry list \<Rightarrow> buxn_label_map_entry option \<Rightarrow> buxn_label_map_entry option" where
  "closest_entry pc [] closest = closest"
| "closest_entry pc (entry # es) closest =
     closest_entry pc es
       (if candidate pc entry \<and> laddr entry > (case closest of Some c \<Rightarrow> laddr c | None \<Rightarrow> 0)
        then Some entry else closest)"

definition buxn_pc_to_label :: "buxn_label_map \<Rightarrow> u16 \<Rightarrow> buxn_label_map_entry option" where
  "buxn_pc_to_label label_map pc = closest_entry pc (take (unat (lsize label_map)) (lentries label_map)) None"

section \<open>Reading a symbol file\<close>

text \<open>The loop over the records of the file: two address bytes, the name up to a zero byte. The end of the
  file inside a record ends the loop without an entry.\<close>

function read_label_entries :: "u8 list \<Rightarrow> buxn_label_map_entry list" where
  "read_label_entries [] = []"
| "read_label_entries [hi] = []"
| "read_label_entries (hi # lo # bytes) =
     (case dropWhile (\<lambda>ch. ch \<noteq> 0) bytes of
        [] \<Rightarrow> []
      | _ # rest \<Rightarrow> \<lparr>laddr = short_of hi lo, lname = takeWhile (\<lambda>ch. ch \<noteq> 0) bytes\<rparr> # read_label_entries rest)"
  by pat_completeness auto
termination
proof (relation "measure length")
  fix hi lo z :: u8 and bytes rest :: "u8 list"
  assume "dropWhile (\<lambda>ch. ch \<noteq> 0) bytes = z # rest"
  then show "(rest, hi # lo # bytes) \<in> measure length"
    using length_dropWhile_le [of "\<lambda>ch. ch \<noteq> 0" bytes] by simp
qed simp

definition read_label_map :: "u8 list \<Rightarrow> buxn_label_map" where
  "read_label_map bytes =
     (let es = read_label_entries bytes in \<lparr>lsize = word_of_nat (length es), lentries = es\<rparr>)"

section \<open>The lookup finds the closest preceding label\<close>

lemma candidate_pos: "candidate pc e \<Longrightarrow> 0 < laddr e"
  by (auto simp: candidate_def intro: le_less_trans [of 0 "0xff"])

lemma closest_entry_Some:
  assumes "closest_entry pc es c = Some e"
  shows "(c = Some e \<and> (\<forall>e' \<in> set es. candidate pc e' \<longrightarrow> laddr e' \<le> laddr e)) \<or>
    (\<exists>i < length es. es ! i = e \<and> candidate pc e \<and>
       (\<forall>j < length es. candidate pc (es ! j) \<longrightarrow> laddr (es ! j) \<le> laddr e \<and> (j < i \<longrightarrow> laddr (es ! j) < laddr e)) \<and>
       (\<forall>c'. c = Some c' \<longrightarrow> laddr c' < laddr e))"
  using assms
proof (induction es arbitrary: c)
  case Nil
  then show ?case by simp
next
  case (Cons x xs)
  show ?case
  proof (cases "candidate pc x \<and> laddr x > (case c of Some c \<Rightarrow> laddr c | None \<Rightarrow> 0)")
    case True
    then have "closest_entry pc xs (Some x) = Some e" using Cons.prems by simp
    from Cons.IH [OF this] show ?thesis
    proof
      assume a: "Some x = Some e \<and> (\<forall>e' \<in> set xs. candidate pc e' \<longrightarrow> laddr e' \<le> laddr e)"
      then show ?thesis
        using True by (intro disjI2 exI [of _ 0]) (auto simp: nth_Cons split: nat.splits)
    next
      assume "\<exists>i < length xs. xs ! i = e \<and> candidate pc e \<and>
        (\<forall>j < length xs. candidate pc (xs ! j) \<longrightarrow> laddr (xs ! j) \<le> laddr e \<and> (j < i \<longrightarrow> laddr (xs ! j) < laddr e)) \<and>
        (\<forall>c'. Some x = Some c' \<longrightarrow> laddr c' < laddr e)"
      then obtain i where i: "i < length xs" "xs ! i = e" "candidate pc e" "laddr x < laddr e"
        "\<forall>j < length xs. candidate pc (xs ! j) \<longrightarrow> laddr (xs ! j) \<le> laddr e \<and> (j < i \<longrightarrow> laddr (xs ! j) < laddr e)"
        by auto
      then show ?thesis
        using True by (intro disjI2 exI [of _ "Suc i"]) (auto simp: nth_Cons split: nat.splits)
    qed
  next
    case False
    have "closest_entry pc xs c = Some e" using Cons.prems by (simp only: closest_entry.simps if_not_P [OF False])
    from Cons.IH [OF this] show ?thesis
    proof
      assume "c = Some e \<and> (\<forall>e' \<in> set xs. candidate pc e' \<longrightarrow> laddr e' \<le> laddr e)"
      then show ?thesis using False by auto
    next
      assume "\<exists>i < length xs. xs ! i = e \<and> candidate pc e \<and>
        (\<forall>j < length xs. candidate pc (xs ! j) \<longrightarrow> laddr (xs ! j) \<le> laddr e \<and> (j < i \<longrightarrow> laddr (xs ! j) < laddr e)) \<and>
        (\<forall>c'. c = Some c' \<longrightarrow> laddr c' < laddr e)"
      then obtain i where i: "i < length xs" "xs ! i = e" "candidate pc e" "\<forall>c'. c = Some c' \<longrightarrow> laddr c' < laddr e"
        "\<forall>j < length xs. candidate pc (xs ! j) \<longrightarrow> laddr (xs ! j) \<le> laddr e \<and> (j < i \<longrightarrow> laddr (xs ! j) < laddr e)"
        by auto
      have "laddr x < laddr e" if "candidate pc x"
        using False that i(3,4) candidate_pos [OF that] by (cases c) (auto simp: candidate_def)
      then show ?thesis
        using i by (intro disjI2 exI [of _ "Suc i"]) (auto simp: nth_Cons split: nat.splits)
    qed
  qed
qed

lemma closest_entry_None: "closest_entry pc es c = None \<Longrightarrow> c = None \<and> (\<forall>e \<in> set es. \<not> candidate pc e)"
proof (induction es arbitrary: c)
  case (Cons x xs)
  have "\<not> candidate pc x" if "c = None"
    using Cons that candidate_pos [of pc x] by (auto split: if_splits)
  with Cons show ?case by (auto split: if_splits)
qed simp

text \<open>
  C31. Among the first \<^verbatim>\<open>size\<close> entries, \<^verbatim>\<open>buxn_pc_to_label\<close> returns a named, non-anonymous label outside the zero
  page at or before the address, such that no other such label lies between it and the address, and the
  first one of those with the same address; it returns none exactly when there is no such label.
\<close>

theorem pc_to_label_closest:
  "let es = take (unat (lsize lm)) (lentries lm) in
   case buxn_pc_to_label lm pc of
     None \<Rightarrow> \<forall>e \<in> set es. \<not> candidate pc e
   | Some e \<Rightarrow> candidate pc e \<and> (\<exists>i < length es. es ! i = e \<and>
       (\<forall>j < length es. candidate pc (es ! j) \<longrightarrow>
         laddr (es ! j) \<le> laddr e \<and> (j < i \<longrightarrow> laddr (es ! j) < laddr e)))"
proof -
  define es where "es = take (unat (lsize lm)) (lentries lm)"
  have r: "buxn_pc_to_label lm pc = closest_entry pc es None" by (simp add: buxn_pc_to_label_def es_def)
  show ?thesis
    unfolding es_def [symmetric] Let_def r
    using closest_entry_None [of pc es None] closest_entry_Some [of pc es None] by (cases "closest_entry pc es None") auto
qed

theorem pc_to_label_closest_witness:
  "buxn_pc_to_label \<lparr>lsize = 2, lentries = [\<lparr>laddr = 0x100, lname = [0x61]\<rparr>, \<lparr>laddr = 0x200, lname = [0x40]\<rparr>]\<rparr> 0x210 =
     Some \<lparr>laddr = 0x100, lname = [0x61]\<rparr>"
  using pc_to_label_closest [where lm = "\<lparr>lsize = 2, lentries = [\<lparr>laddr = 0x100, lname = [0x61]\<rparr>, \<lparr>laddr = 0x200, lname = [0x40]\<rparr>]\<rparr>" and pc = "0x210"]
  by (simp add: buxn_pc_to_label_def candidate_def)

section \<open>Symbol files\<close>

text \<open>The format of a symbol file.\<close>

definition sym_record :: "buxn_label_map_entry \<Rightarrow> u8 list" where
  "sym_record e = hi_byte (laddr e) # lo_byte (laddr e) # lname e @ [0]"

definition sym_file :: "buxn_label_map_entry list \<Rightarrow> u8 list" where
  "sym_file es = concat (map sym_record es)"

lemma read_label_record:
  assumes "0 \<notin> set (lname e)"
  shows "read_label_entries (sym_record e @ bytes) = e # read_label_entries bytes"
proof -
  have "dropWhile (\<lambda>ch. ch \<noteq> 0) (lname e @ 0 # bytes) = 0 # bytes"
    and "takeWhile (\<lambda>ch. ch \<noteq> 0) (lname e @ 0 # bytes) = lname e"
    using assms by (subst dropWhile_append2, auto, subst takeWhile_append2, auto)
  then show ?thesis by (cases e) (simp add: sym_record_def)
qed

lemma read_label_part:
  assumes "0 \<notin> set (lname e)" and "k < length (sym_record e)"
  shows "read_label_entries (take k (sym_record e)) = []"
proof (cases "k < 2")
  case True
  then have "k = 0 \<or> k = 1" by auto
  then show ?thesis by (auto simp: sym_record_def)
next
  case False
  then have n: "k = Suc (Suc (k - 2))" by simp
  have k: "k - 2 \<le> length (lname e)" using assms(2) False by (simp add: sym_record_def)
  define bs where "bs = take (k - 2) (lname e)"
  have "\<forall>x \<in> set bs. x \<noteq> 0" using assms(1) in_set_takeD [of _ "k - 2" "lname e"] by (fastforce simp: bs_def)
  then have d: "dropWhile (\<lambda>ch. ch \<noteq> 0) bs = []" by (simp add: dropWhile_eq_Nil_conv)
  have "take k (sym_record e) = hi_byte (laddr e) # lo_byte (laddr e) # bs"
    using k by (subst n) (simp add: sym_record_def bs_def)
  then show ?thesis by (simp add: d)
qed

lemma read_sym_entries:
  assumes "\<forall>e \<in> set (es @ [l]). 0 \<notin> set (lname e)" and "k < length (sym_record l)"
  shows "read_label_entries (sym_file es @ take k (sym_record l)) = es"
  using assms
proof (induction es)
  case Nil
  then show ?case using read_label_part by (simp add: sym_file_def)
next
  case (Cons e es)
  then show ?case using read_label_record [of e "sym_file es @ take k (sym_record l)"] by (simp add: sym_file_def)
qed

text \<open>
  C32. Reading a symbol file gives back the entries it was written from, in order, when no name contains a
  zero byte; an incomplete record at the end is ignored.
\<close>

theorem read_sym_file:
  assumes "\<forall>e \<in> set (es @ [l]). 0 \<notin> set (lname e)" and "k < length (sym_record l)"
  shows "read_label_entries (sym_file es @ take k (sym_record l)) = es"
  using assms by (rule read_sym_entries)

theorem read_sym_file_witness:
  "read_label_entries (sym_file [\<lparr>laddr = 0x100, lname = [0x61, 0x62]\<rparr>] @ take 3 (sym_record \<lparr>laddr = 0x102, lname = [0x63]\<rparr>)) =
     [\<lparr>laddr = 0x100, lname = [0x61, 0x62]\<rparr>]"
  by (rule read_sym_file) (simp_all add: sym_record_def)

text \<open>
  C33. With fewer than 65536 entries, a lookup in the map read from a symbol file sees all of them. The size
  field has 16 bits, so with exactly 65536 entries it would be zero.
\<close>

theorem read_label_map_lookup:
  assumes "\<forall>e \<in> set es. 0 \<notin> set (lname e)" and "length es < 65536"
  shows "buxn_pc_to_label (read_label_map (sym_file es)) pc = closest_entry pc es None"
proof -
  have "read_label_entries (sym_file es) = es"
    using read_sym_entries [of es "\<lparr>laddr = 0, lname = []\<rparr>" 0] assms(1) by (simp add: sym_record_def)
  then show ?thesis using assms(2) by (simp add: buxn_pc_to_label_def read_label_map_def Let_def unat_of_nat)
qed

theorem read_label_map_lookup_witness:
  "buxn_pc_to_label (read_label_map (sym_file [\<lparr>laddr = 0x100, lname = [0x61]\<rparr>, \<lparr>laddr = 0x200, lname = [0x62]\<rparr>])) 0x180 =
     Some \<lparr>laddr = 0x100, lname = [0x61]\<rparr>"
  by (subst read_label_map_lookup) (simp_all add: candidate_def)

end
