(* ===== verification/Addr_Mapping.thy ===== *)
theory Addr_Mapping
  imports Buxn_Prelude
begin

text \<open>
  Address marks: the chunked list of \<^verbatim>\<open>src/addr_mapping.h\<close>, the code of \<^verbatim>\<open>buxn_jit_perf_jit_opcode\<close> and
  \<^verbatim>\<open>buxn_jit_gdb_jit_opcode\<close> that appends to it (the same in \<^verbatim>\<open>src/perf.c\<close> and \<^verbatim>\<open>src/gdb/hook.c\<close>), the loop of their
  \<open>end_block\<close> callbacks that empties it, and the symbol search \<^verbatim>\<open>buxn_dbg_find_symbol\<close>. Chunks live in a store;
  a pointer is an index into it or \<open>None\<close>. A mark is the label number the compiler returned.
\<close>

section \<open>Symbols\<close>

text \<open>The fields of \<^verbatim>\<open>buxn_dbg_sym_t\<close> (outside the repository) that the sources read.\<close>

record dbg_sym =
  sym_opcode :: bool
  addr_min :: u16
  addr_max :: u16
  sfile :: "u8 list"
  sline :: u32
  scol :: u32

definition covers :: "u16 \<Rightarrow> dbg_sym \<Rightarrow> bool" where
  "covers address s \<longleftrightarrow> addr_min s \<le> address \<and> address \<le> addr_max s"

text \<open>The loop both searches share: from \<open>index\<close> up to \<open>stop\<close>; the result is the index it stopped at and the
  symbol found.\<close>

function scan_symbols :: "dbg_sym list \<Rightarrow> u16 \<Rightarrow> nat \<Rightarrow> nat \<Rightarrow> nat \<times> dbg_sym option" where
  "scan_symbols symbols address index stop =
     (if index < stop then
        let s = symbols ! index in
        if \<not> sym_opcode s then scan_symbols symbols address (Suc index) stop
        else if covers address s then (index, Some s)
        else if addr_min s > address then (index, None)
        else scan_symbols symbols address (Suc index) stop
      else (index, None))"
  by pat_completeness auto
termination
  by (relation "measure (\<lambda>(symbols, address, index, stop). stop - index)") auto

declare scan_symbols.simps [simp del]

definition buxn_dbg_find_symbol :: "dbg_sym list \<Rightarrow> u16 \<Rightarrow> nat \<Rightarrow> dbg_sym option \<times> nat" where
  "buxn_dbg_find_symbol symbols address hint =
     (case scan_symbols symbols address hint (length symbols) of
        (index, Some s) \<Rightarrow> (Some s, index)
      | (_, None) \<Rightarrow> (case scan_symbols symbols address 0 hint of (index, s) \<Rightarrow> (s, index)))"

section \<open>The chunked list\<close>

definition BUXN_JIT_MAPPING_CHUNK_SIZE :: nat where
  "BUXN_JIT_MAPPING_CHUNK_SIZE = 16"

record addr_mapping =
  mmark :: nat
  maddr :: u16

record mapping_chunk =
  ch_next :: "nat option"
  ch_len :: nat
  mappings :: "addr_mapping list"

text \<open>The list, the pool and the chunks of a hook; \<open>chunk_count\<close> is the next chunk \<^verbatim>\<open>buxn_jit_alloc\<close> returns.\<close>

record mapping_list =
  mlen :: nat
  mfirst :: "nat option"
  mlast :: "nat option"
  mpool :: "nat option"
  chunk_store :: "nat \<Rightarrow> mapping_chunk"
  chunk_count :: nat

definition upd_chunk :: "nat \<Rightarrow> (mapping_chunk \<Rightarrow> mapping_chunk) \<Rightarrow> mapping_list \<Rightarrow> mapping_list" where
  "upd_chunk c f ml = ml\<lparr>chunk_store := (chunk_store ml)(c := f (chunk_store ml c))\<rparr>"

text \<open>A chunk from the pool or a new one, emptied and linked behind the last one.\<close>

definition new_chunk :: "mapping_list \<Rightarrow> nat \<times> mapping_list" where
  "new_chunk ml =
     (let (c, ml) =
        (case mpool ml of
           None \<Rightarrow> (chunk_count ml, ml\<lparr>chunk_count := Suc (chunk_count ml)\<rparr>)
         | Some c \<Rightarrow> (c, ml\<lparr>mpool := ch_next (chunk_store ml c)\<rparr>));
          ml = upd_chunk c (\<lambda>ch. ch\<lparr>ch_len := 0, ch_next := None\<rparr>) ml;
          ml = (case mfirst ml of
                  None \<Rightarrow> ml\<lparr>mfirst := Some c\<rparr>
                | Some _ \<Rightarrow> (case mlast ml of None \<Rightarrow> ml | Some l \<Rightarrow> upd_chunk l (\<lambda>ch. ch\<lparr>ch_next := Some c\<rparr>) ml))
      in (c, ml\<lparr>mlast := Some c\<rparr>))"

definition append_mapping :: "nat \<Rightarrow> u16 \<Rightarrow> mapping_list \<Rightarrow> mapping_list" where
  "append_mapping m p ml =
     (let (c, ml) =
        (case mlast ml of
           None \<Rightarrow> new_chunk ml
         | Some l \<Rightarrow> if ch_len (chunk_store ml l) = BUXN_JIT_MAPPING_CHUNK_SIZE then new_chunk ml else (l, ml));
          ml = upd_chunk c (\<lambda>ch. ch\<lparr>ch_len := Suc (ch_len ch),
                 mappings := (mappings ch)[ch_len ch := \<lparr>mmark = m, maddr = p\<rparr>]\<rparr>) ml
      in ml\<lparr>mlen := Suc (mlen ml)\<rparr>)"

text \<open>The loop of \<open>end_block\<close>: visit the chunks from \<open>itr\<close> on and put each into the pool. The first component
  of the result lists the mappings in the order of the visit.\<close>

partial_function (option) drain_chunks :: "nat option \<Rightarrow> mapping_list \<Rightarrow> (addr_mapping list \<times> mapping_list) option" where
  "drain_chunks itr ml =
     (case itr of
        None \<Rightarrow> Some ([], ml)
      | Some c \<Rightarrow>
          do {
            let ch = chunk_store ml c;
            (ms, ml) \<leftarrow> drain_chunks (ch_next ch) (upd_chunk c (\<lambda>ch. ch\<lparr>ch_next := mpool ml\<rparr>) ml\<lparr>mpool := Some c\<rparr>);
            Some (take (ch_len ch) (mappings ch) @ ms, ml)
          })"

definition drain_mappings :: "mapping_list \<Rightarrow> (addr_mapping list \<times> mapping_list) option" where
  "drain_mappings ml =
     do {
       (ms, ml) \<leftarrow> drain_chunks (mfirst ml) ml;
       Some (ms, ml\<lparr>mfirst := None, mlast := None, mlen := 0\<rparr>)
     }"

text \<open>A loop over the chunks that changes nothing, and the symbols of the mappings in turn, each search starting
  at the hint the previous one left. \<open>None\<close>: an address has no symbol, and its callers follow the null pointer.\<close>

partial_function (option) visit_chunks :: "nat option \<Rightarrow> mapping_list \<Rightarrow> addr_mapping list option" where
  "visit_chunks itr ml =
     (case itr of
        None \<Rightarrow> Some []
      | Some c \<Rightarrow>
          do {
            let ch = chunk_store ml c;
            ms \<leftarrow> visit_chunks (ch_next ch) ml;
            Some (take (ch_len ch) (mappings ch) @ ms)
          })"

fun mapping_symbols :: "dbg_sym list \<Rightarrow> nat \<Rightarrow> addr_mapping list \<Rightarrow> dbg_sym list option" where
  "mapping_symbols symbols hint [] = Some []"
| "mapping_symbols symbols hint (m # ms) =
     (case buxn_dbg_find_symbol symbols (maddr m) hint of
        (None, _) \<Rightarrow> None
      | (Some s, hint) \<Rightarrow> do { ss \<leftarrow> mapping_symbols symbols hint ms; Some (s # ss) })"

definition empty_mappings :: "(nat \<Rightarrow> mapping_chunk) \<Rightarrow> mapping_list" where
  "empty_mappings store = \<lparr>mlen = 0, mfirst = None, mlast = None, mpool = None, chunk_store = store, chunk_count = 0\<rparr>"

section \<open>The search does not depend on the hint\<close>

text \<open>The symbol table lists the opcodes by address, without overlap.\<close>

definition sorted_symbols :: "dbg_sym list \<Rightarrow> bool" where
  "sorted_symbols symbols \<longleftrightarrow>
     sorted_wrt (\<lambda>s t. addr_max s < addr_min t) (filter sym_opcode symbols) \<and>
     (\<forall>s \<in> set symbols. sym_opcode s \<longrightarrow> addr_min s \<le> addr_max s)"

abbreviation found :: "u16 \<Rightarrow> dbg_sym list \<Rightarrow> dbg_sym option" where
  "found address \<equiv> List.find (\<lambda>s. sym_opcode s \<and> covers address s)"

lemma sorted_symbols_Cons:
  "sorted_symbols (s # ss) \<longleftrightarrow> sorted_symbols ss \<and>
     (sym_opcode s \<longrightarrow> addr_min s \<le> addr_max s \<and> (\<forall>t \<in> set ss. sym_opcode t \<longrightarrow> addr_max s < addr_min t))"
  by (auto simp: sorted_symbols_def)

lemma sorted_symbols_append:
  "sorted_symbols (xs @ ys) \<Longrightarrow> sorted_symbols xs \<and> sorted_symbols ys \<and>
     (\<forall>s \<in> set xs. \<forall>t \<in> set ys. sym_opcode s \<longrightarrow> sym_opcode t \<longrightarrow> addr_max s < addr_min t)"
  by (auto simp: sorted_symbols_def sorted_wrt_append)

lemma found_None: "found address ss = None \<longleftrightarrow> (\<forall>s \<in> set ss. sym_opcode s \<longrightarrow> \<not> covers address s)"
  by (induction ss) auto

lemma found_append:
  "found address (xs @ ys) = (case found address xs of Some s \<Rightarrow> Some s | None \<Rightarrow> found address ys)"
  by (induction xs) auto

lemma scan_symbols_found:
  assumes "sorted_symbols (drop index symbols)" and "stop \<le> length symbols"
  shows "snd (scan_symbols symbols address index stop) = found address (take (stop - index) (drop index symbols))"
  using assms
proof (induction symbols address index stop rule: scan_symbols.induct)
  case (1 symbols address index stop)
  show ?case
  proof (cases "index < stop")
    case False
    then show ?thesis by (simp add: scan_symbols.simps)
  next
    case True
    let ?s = "symbols ! index"
    have d: "drop index symbols = ?s # drop (Suc index) symbols"
      using True 1(4) by (simp add: Cons_nth_drop_Suc)
    have t: "take (stop - index) (drop index symbols) = ?s # take (stop - Suc index) (drop (Suc index) symbols)"
      using True unfolding d by (simp add: take_Cons')
    have so: "sorted_symbols (drop (Suc index) symbols)"
      and later: "sym_opcode ?s \<longrightarrow> addr_min ?s \<le> addr_max ?s \<and>
        (\<forall>t \<in> set (drop (Suc index) symbols). sym_opcode t \<longrightarrow> addr_max ?s < addr_min t)"
      using 1(3) unfolding d sorted_symbols_Cons by blast+
    show ?thesis
    proof (cases "sym_opcode ?s \<and> \<not> covers address ?s \<and> addr_min ?s > address")
      case stop: True
      have "\<not> covers address u" if "u \<in> set (take (stop - Suc index) (drop (Suc index) symbols))" "sym_opcode u" for u
      proof -
        have "addr_max ?s < addr_min u" using later stop that in_set_takeD [OF that(1)] by blast
        moreover have "address < addr_max ?s" using later stop by (meson less_le_trans)
        ultimately show ?thesis by (auto simp: covers_def)
      qed
      then have "found address (take (stop - Suc index) (drop (Suc index) symbols)) = None"
        by (simp add: found_None)
      then show ?thesis
        using stop True unfolding t by (subst scan_symbols.simps) (simp add: Let_def)
    next
      case False
      show ?thesis
        using 1(1,2) [OF True refl] False True so 1(4) unfolding t
        by (subst scan_symbols.simps) (auto simp: Let_def)
    qed
  qed
qed

lemma scan_symbols_index:
  "index \<le> stop \<Longrightarrow> fst (scan_symbols symbols address index stop) \<le> stop"
proof (induction symbols address index stop rule: scan_symbols.induct)
  case (1 symbols address index stop)
  then show ?case by (subst scan_symbols.simps) (auto simp: Let_def)
qed

lemma find_symbol_found:
  assumes "sorted_symbols symbols" and "hint \<le> length symbols"
  shows "fst (buxn_dbg_find_symbol symbols address hint) = found address symbols \<and>
    snd (buxn_dbg_find_symbol symbols address hint) \<le> length symbols"
proof (rule conjI)
  have s: "sorted_symbols (take hint symbols @ drop hint symbols)" using assms(1) by simp
  note parts = sorted_symbols_append [OF s]
  have late: "snd (scan_symbols symbols address hint (length symbols)) = found address (drop hint symbols)"
    using scan_symbols_found [of hint symbols] parts by simp
  have early: "snd (scan_symbols symbols address 0 hint) = found address (take hint symbols)"
    using scan_symbols_found [of 0 symbols hint] assms by simp
  have split: "found address symbols =
      (case found address (take hint symbols) of Some s \<Rightarrow> Some s | None \<Rightarrow> found address (drop hint symbols))"
    by (subst append_take_drop_id [of hint symbols, symmetric]) (simp only: found_append)
  have excl: "found address (take hint symbols) = None" if "found address (drop hint symbols) \<noteq> None"
  proof -
    from that obtain t where t: "t \<in> set (drop hint symbols)" "sym_opcode t" "covers address t"
      by (auto simp: found_None)
    have "\<not> covers address u" if "u \<in> set (take hint symbols)" "sym_opcode u" for u
      using parts that t by (fastforce simp: covers_def)
    then show ?thesis by (simp add: found_None)
  qed
  show "fst (buxn_dbg_find_symbol symbols address hint) = found address symbols"
    using late early split excl
    by (cases "scan_symbols symbols address hint (length symbols)"; cases "scan_symbols symbols address 0 hint";
        cases "found address (drop hint symbols)"; cases "found address (take hint symbols)")
      (simp_all add: buxn_dbg_find_symbol_def)
  show "snd (buxn_dbg_find_symbol symbols address hint) \<le> length symbols"
    using scan_symbols_index [of hint "length symbols" symbols address] scan_symbols_index [of 0 hint symbols address] assms(2)
    by (auto simp: buxn_dbg_find_symbol_def split: prod.splits option.splits)
qed

text \<open>
  C30. In a symbol table that lists the opcodes by address without overlap, \<^verbatim>\<open>buxn_dbg_find_symbol\<close> returns what
  a search from the start would return, for every hint within the table, and leaves a hint within the table.
\<close>

theorem find_symbol_any_hint:
  assumes "sorted_symbols symbols" and "hint \<le> length symbols"
  shows "fst (buxn_dbg_find_symbol symbols address hint) = found address symbols \<and>
    snd (buxn_dbg_find_symbol symbols address hint) \<le> length symbols"
  using assms by (rule find_symbol_found)

section \<open>The list abstracts to the sequence of its mappings\<close>

text \<open>The chunks \<open>cs\<close> form a path from the pointer \<open>p\<close> to the pointer \<open>q\<close>.\<close>

fun path :: "(nat \<Rightarrow> mapping_chunk) \<Rightarrow> nat option \<Rightarrow> nat list \<Rightarrow> nat option \<Rightarrow> bool" where
  "path st p [] q \<longleftrightarrow> p = q"
| "path st p (c # cs) q \<longleftrightarrow> p = Some c \<and> path st (ch_next (st c)) cs q"

lemma path_append: "path st p (xs @ ys) q \<longleftrightarrow> (\<exists>r. path st p xs r \<and> path st r ys q)"
  by (induction xs arbitrary: p) auto

lemma path_frame: "(\<And>c. c \<in> set cs \<Longrightarrow> ch_next (st' c) = ch_next (st c)) \<Longrightarrow> path st' p cs q = path st p cs q"
  by (induction cs arbitrary: p) auto

definition linked :: "mapping_list \<Rightarrow> nat list \<Rightarrow> nat list \<Rightarrow> bool" where
  "linked ml cs ps \<longleftrightarrow>
     path (chunk_store ml) (mfirst ml) cs None \<and> path (chunk_store ml) (mpool ml) ps None \<and>
     distinct (cs @ ps) \<and> (\<forall>c \<in> set (cs @ ps). c < chunk_count ml) \<and>
     mlast ml = (if cs = [] then None else Some (last cs))"

abbreviation chunk_contents :: "mapping_chunk \<Rightarrow> addr_mapping list" where
  "chunk_contents ch \<equiv> take (ch_len ch) (mappings ch)"

definition contents :: "mapping_list \<Rightarrow> nat list \<Rightarrow> addr_mapping list" where
  "contents ml cs = concat (map (\<lambda>c. chunk_contents (chunk_store ml c)) cs)"

lemma contents_cong:
  "(\<And>c. c \<in> set cs \<Longrightarrow> chunk_contents (chunk_store ml' c) = chunk_contents (chunk_store ml c)) \<Longrightarrow>
   contents ml' cs = contents ml cs"
  unfolding contents_def by (rule arg_cong [where f = concat]) (rule map_cong [OF refl])

text \<open>All chunks before the last are full, none is empty, and \<^verbatim>\<open>len\<close> counts the mappings.\<close>

definition mapping_ok :: "mapping_list \<Rightarrow> nat list \<Rightarrow> nat list \<Rightarrow> bool" where
  "mapping_ok ml cs ps \<longleftrightarrow>
     linked ml cs ps \<and> (\<forall>c. length (mappings (chunk_store ml c)) = BUXN_JIT_MAPPING_CHUNK_SIZE) \<and>
     (\<forall>c \<in> set cs. 0 < ch_len (chunk_store ml c) \<and> ch_len (chunk_store ml c) \<le> BUXN_JIT_MAPPING_CHUNK_SIZE) \<and>
     (\<forall>c \<in> set (butlast cs). ch_len (chunk_store ml c) = BUXN_JIT_MAPPING_CHUNK_SIZE) \<and>
     mlen ml = length (contents ml cs)"

lemma mapping_ok_empty:
  "\<forall>c. length (mappings (st c)) = BUXN_JIT_MAPPING_CHUNK_SIZE \<Longrightarrow> mapping_ok (empty_mappings st) [] []"
  by (simp add: mapping_ok_def linked_def contents_def empty_mappings_def)

lemma take_chunk:
  assumes "linked ml cs ps"
  obtains c ps' where "(case mpool ml of None \<Rightarrow> (chunk_count ml, ml\<lparr>chunk_count := Suc (chunk_count ml)\<rparr>)
      | Some c \<Rightarrow> (c, ml\<lparr>mpool := ch_next (chunk_store ml c)\<rparr>)) =
      (c, ml\<lparr>mpool := (case ps of [] \<Rightarrow> None | _ # _ \<Rightarrow> ch_next (chunk_store ml c)),
             chunk_count := (case ps of [] \<Rightarrow> Suc (chunk_count ml) | _ # _ \<Rightarrow> chunk_count ml)\<rparr>)"
    and "path (chunk_store ml) (case ps of [] \<Rightarrow> None | _ # _ \<Rightarrow> ch_next (chunk_store ml c)) ps' None"
    and "c \<notin> set (cs @ ps')" and "distinct (cs @ ps')" and "set ps' \<subseteq> set ps"
    and "c < (case ps of [] \<Rightarrow> Suc (chunk_count ml) | _ # _ \<Rightarrow> chunk_count ml)"
proof (cases ps)
  case Nil
  then have "mpool ml = None" "chunk_count ml \<notin> set cs" using assms by (auto simp: linked_def)
  with Nil assms show ?thesis by (intro that [of "chunk_count ml" "[]"]) (auto simp: linked_def)
next
  case (Cons c ps')
  with assms show ?thesis by (intro that [of c ps']) (auto simp: linked_def)
qed

lemma new_chunk_linked:
  assumes l: "linked ml cs ps"
  obtains c ml' ps' where "new_chunk ml = (c, ml')" and "linked ml' (cs @ [c]) ps'" and "c \<notin> set cs"
    and "ch_len (chunk_store ml' c) = 0" and "mlen ml' = mlen ml"
    and "\<And>d. mappings (chunk_store ml' d) = mappings (chunk_store ml d)"
    and "\<And>d. d \<noteq> c \<Longrightarrow> ch_len (chunk_store ml' d) = ch_len (chunk_store ml d)"
proof -
  let ?pl = "\<lambda>c. case ps of [] \<Rightarrow> None | _ # _ \<Rightarrow> ch_next (chunk_store ml c)"
  let ?cc = "case ps of [] \<Rightarrow> Suc (chunk_count ml) | _ # _ \<Rightarrow> chunk_count ml"
  obtain c ps' where t: "(case mpool ml of None \<Rightarrow> (chunk_count ml, ml\<lparr>chunk_count := Suc (chunk_count ml)\<rparr>)
      | Some c \<Rightarrow> (c, ml\<lparr>mpool := ch_next (chunk_store ml c)\<rparr>)) = (c, ml\<lparr>mpool := ?pl c, chunk_count := ?cc\<rparr>)"
    and pp: "path (chunk_store ml) (?pl c) ps' None" and c: "c \<notin> set (cs @ ps')" "distinct (cs @ ps')"
    and sub: "set ps' \<subseteq> set ps" and lt: "c < ?cc"
    by (rule take_chunk [OF l])
  define st1 where "st1 = (chunk_store ml)(c := (chunk_store ml c)\<lparr>ch_len := 0, ch_next := None\<rparr>)"
  define st2 where "st2 = (if cs = [] then st1 else st1(last cs := (st1 (last cs))\<lparr>ch_next := Some c\<rparr>))"
  define ml' where "ml' = ml\<lparr>mpool := ?pl c, chunk_count := ?cc, chunk_store := st2,
    mfirst := (if cs = [] then Some c else mfirst ml), mlast := Some c\<rparr>"
  have lst: "mlast ml = (if cs = [] then None else Some (last cs))" using l by (simp add: linked_def)
  have fst: "mfirst ml = (if cs = [] then None else Some (hd cs))"
    using l by (cases cs) (auto simp: linked_def)
  have eq: "new_chunk ml = (c, ml')"
    unfolding new_chunk_def t using lst fst by (cases "cs = []") (simp_all add: upd_chunk_def ml'_def st1_def st2_def)
  have nin: "last cs \<noteq> c" if "cs \<noteq> []" using c(1) that by auto
  have ps2: "path st2 (?pl c) ps' None"
  proof -
    have "ch_next (st2 d) = ch_next (chunk_store ml d)" if "d \<in> set ps'" for d
    proof -
      have "d \<noteq> c" "d \<notin> set cs" using that c by auto
      moreover have "cs \<noteq> [] \<Longrightarrow> d \<noteq> last cs" using \<open>d \<notin> set cs\<close> last_in_set by blast
      ultimately show ?thesis by (simp add: st2_def st1_def)
    qed
    then show ?thesis using pp path_frame [of ps' st2 "chunk_store ml"] by simp
  qed
  have cs2: "path st2 (if cs = [] then Some c else mfirst ml) (cs @ [c]) None"
  proof (cases cs rule: rev_cases)
    case Nil
    then show ?thesis by (simp add: st2_def st1_def)
  next
    case (snoc ds d)
    have p: "path (chunk_store ml) (mfirst ml) (ds @ [d]) None" using l snoc by (simp add: linked_def)
    have "ch_next (st2 e) = ch_next (chunk_store ml e)" if "e \<in> set ds" for e
    proof -
      have "e \<noteq> c" "e \<noteq> d" using that c snoc by auto
      then show ?thesis using snoc by (simp add: st2_def st1_def)
    qed
    then have "path st2 (mfirst ml) ds = path (chunk_store ml) (mfirst ml) ds" by (intro ext path_frame)
    moreover have "ch_next (st2 d) = Some c" "ch_next (st2 c) = None"
      using nin snoc by (auto simp: st2_def st1_def)
    ultimately show ?thesis using p snoc by (simp add: path_append)
  qed
  have "d < ?cc" if "d \<in> set (cs @ ps')" for d
    using that sub l by (cases ps) (auto simp: linked_def)
  then have lk: "linked ml' (cs @ [c]) ps'"
    using ps2 cs2 c lt by (auto simp: linked_def ml'_def)
  show ?thesis
    by (rule that [OF eq lk]) (use c nin in \<open>auto simp: ml'_def st2_def st1_def\<close>)
qed

text \<open>Adding an element to the last, non-full chunk.\<close>

lemma fill_chunk:
  fixes m :: addr_mapping
  assumes l: "linked ml (cs @ [c]) ps" and n: "ch_len (chunk_store ml c) < BUXN_JIT_MAPPING_CHUNK_SIZE"
    and len: "\<forall>d. length (mappings (chunk_store ml d)) = BUXN_JIT_MAPPING_CHUNK_SIZE"
    and full: "\<forall>d \<in> set cs. ch_len (chunk_store ml d) = BUXN_JIT_MAPPING_CHUNK_SIZE"
    and cnt: "mlen ml = length (contents ml (cs @ [c]))"
  defines "ml' \<equiv> upd_chunk c (\<lambda>ch. ch\<lparr>ch_len := Suc (ch_len ch), mappings := (mappings ch)[ch_len ch := m]\<rparr>) ml
      \<lparr>mlen := Suc (mlen ml)\<rparr>"
  shows "mapping_ok ml' (cs @ [c]) ps" and "contents ml' (cs @ [c]) = contents ml (cs @ [c]) @ [m]"
proof -
  have nin: "c \<notin> set cs" using l by (auto simp: linked_def)
  have st: "chunk_store ml' = (chunk_store ml)(c := (chunk_store ml c)\<lparr>ch_len := Suc (ch_len (chunk_store ml c)),
      mappings := (mappings (chunk_store ml c))[ch_len (chunk_store ml c) := m]\<rparr>)"
    by (simp add: ml'_def upd_chunk_def)
  have "path (chunk_store ml') p xs q = path (chunk_store ml) p xs q" for p xs q
    by (rule path_frame) (simp add: st)
  then have lk: "linked ml' (cs @ [c]) ps" using l by (simp add: linked_def ml'_def upd_chunk_def)
  have "contents ml' cs = contents ml cs"
    by (rule contents_cong) (use nin in \<open>auto simp: st\<close>)
  moreover have "take (Suc k) (xs[k := m]) = take k xs @ [m]" if "k < length xs" for k and xs :: "addr_mapping list"
    using that by (simp add: take_Suc_conv_app_nth)
  ultimately show ct: "contents ml' (cs @ [c]) = contents ml (cs @ [c]) @ [m]"
    using n len by (simp add: contents_def st)
  show "mapping_ok ml' (cs @ [c]) ps"
    unfolding mapping_ok_def
  proof (intro conjI)
    show "mlen ml' = length (contents ml' (cs @ [c]))" using ct cnt by (simp add: ml'_def)
  qed (use lk len full n nin in \<open>auto simp: st BUXN_JIT_MAPPING_CHUNK_SIZE_def butlast_append\<close>)
qed

lemma append_mapping_ok:
  assumes "mapping_ok ml cs ps"
  shows "\<exists>cs' ps'. mapping_ok (append_mapping m p ml) cs' ps' \<and>
    contents (append_mapping m p ml) cs' = contents ml cs @ [\<lparr>mmark = m, maddr = p\<rparr>]"
proof -
  have l: "linked ml cs ps" and len: "\<forall>d. length (mappings (chunk_store ml d)) = BUXN_JIT_MAPPING_CHUNK_SIZE"
    and ch: "\<forall>c \<in> set cs. ch_len (chunk_store ml c) \<le> BUXN_JIT_MAPPING_CHUNK_SIZE"
    and full: "\<forall>c \<in> set (butlast cs). ch_len (chunk_store ml c) = BUXN_JIT_MAPPING_CHUNK_SIZE"
    and cnt: "mlen ml = length (contents ml cs)"
    using assms by (simp_all add: mapping_ok_def)
  show ?thesis
  proof (cases "cs \<noteq> [] \<and> ch_len (chunk_store ml (last cs)) \<noteq> BUXN_JIT_MAPPING_CHUNK_SIZE")
    case True
    then obtain ds d where cs: "cs = ds @ [d]" by (cases cs rule: rev_cases) auto
    have "ch_len (chunk_store ml d) < BUXN_JIT_MAPPING_CHUNK_SIZE" using True ch cs by auto
    note f = fill_chunk [OF l [unfolded cs] this len _ cnt [unfolded cs], of "\<lparr>mmark = m, maddr = p\<rparr>"]
    have "mlast ml = Some d" using l cs by (simp add: linked_def)
    then have "append_mapping m p ml = upd_chunk d (\<lambda>ch. ch\<lparr>ch_len := Suc (ch_len ch),
        mappings := (mappings ch)[ch_len ch := \<lparr>mmark = m, maddr = p\<rparr>]\<rparr>) ml\<lparr>mlen := Suc (mlen ml)\<rparr>"
      using True cs by (simp add: append_mapping_def upd_chunk_def)
    then show ?thesis using f full cs by auto
  next
    case False
    obtain c ml1 ps' where n: "new_chunk ml = (c, ml1)" "linked ml1 (cs @ [c]) ps'" "c \<notin> set cs"
      "ch_len (chunk_store ml1 c) = 0" "mlen ml1 = mlen ml"
      "\<And>d. mappings (chunk_store ml1 d) = mappings (chunk_store ml d)"
      "\<And>d. d \<noteq> c \<Longrightarrow> ch_len (chunk_store ml1 d) = ch_len (chunk_store ml d)"
      by (rule new_chunk_linked [OF l]) blast
    have full1: "\<forall>d \<in> set cs. ch_len (chunk_store ml1 d) = BUXN_JIT_MAPPING_CHUNK_SIZE"
    proof
      fix d assume d: "d \<in> set cs"
      then have "ch_len (chunk_store ml d) = BUXN_JIT_MAPPING_CHUNK_SIZE"
        using False full by (cases cs rule: rev_cases) auto
      then show "ch_len (chunk_store ml1 d) = BUXN_JIT_MAPPING_CHUNK_SIZE" using n(3) n(7) [of d] d by (cases "d = c") simp_all
    qed
    have "contents ml1 cs = contents ml cs"
      by (rule contents_cong) (use n(3,6,7) in \<open>metis\<close>)
    then have ct: "contents ml1 (cs @ [c]) = contents ml cs" using n(4) by (simp add: contents_def)
    have sz: "ch_len (chunk_store ml1 c) < BUXN_JIT_MAPPING_CHUNK_SIZE" using n(4) by (simp add: BUXN_JIT_MAPPING_CHUNK_SIZE_def)
    have len1: "\<forall>d. length (mappings (chunk_store ml1 d)) = BUXN_JIT_MAPPING_CHUNK_SIZE" using n(6) len by simp
    have cnt1: "mlen ml1 = length (contents ml1 (cs @ [c]))" using ct cnt n(5) by simp
    note f = fill_chunk [OF n(2) sz len1 full1 cnt1, of "\<lparr>mmark = m, maddr = p\<rparr>"]
    have "(case mlast ml of None \<Rightarrow> new_chunk ml
         | Some l \<Rightarrow> if ch_len (chunk_store ml l) = BUXN_JIT_MAPPING_CHUNK_SIZE then new_chunk ml else (l, ml)) = (c, ml1)"
      using False l n(1) by (auto simp: linked_def)
    then have "append_mapping m p ml = upd_chunk c (\<lambda>ch. ch\<lparr>ch_len := Suc (ch_len ch),
        mappings := (mappings ch)[ch_len ch := \<lparr>mmark = m, maddr = p\<rparr>]\<rparr>) ml1\<lparr>mlen := Suc (mlen ml1)\<rparr>"
      unfolding append_mapping_def by (simp add: upd_chunk_def)
    then show ?thesis using f ct by auto
  qed
qed

text \<open>
  C28. Recording the address of an opcode appends it to the sequence of mappings and keeps the structure: a
  list of chunks, all full but the last, and a pool of unused ones, no chunk in both, the count right.
\<close>

theorem append_mapping_appends:
  assumes "mapping_ok ml cs ps"
  shows "\<exists>cs' ps'. mapping_ok (append_mapping m p ml) cs' ps' \<and>
    contents (append_mapping m p ml) cs' = contents ml cs @ [\<lparr>mmark = m, maddr = p\<rparr>]"
  using assms by (rule append_mapping_ok)

lemma drain_chunks_path:
  assumes "path (chunk_store ml) itr cs None" and "path (chunk_store ml) (mpool ml) ps None" and "distinct (cs @ ps)"
  shows "\<exists>ml'. drain_chunks itr ml = Some (contents ml cs, ml') \<and> path (chunk_store ml') (mpool ml') (rev cs @ ps) None \<and>
    chunk_count ml' = chunk_count ml \<and> (\<forall>c. mappings (chunk_store ml' c) = mappings (chunk_store ml c))"
  using assms
proof (induction cs arbitrary: itr ml ps)
  case Nil
  then show ?case by (subst drain_chunks.simps) (simp add: contents_def)
next
  case (Cons c cs)
  let ?ml = "upd_chunk c (\<lambda>ch. ch\<lparr>ch_next := mpool ml\<rparr>) ml\<lparr>mpool := Some c\<rparr>"
  have st: "chunk_store ?ml = (chunk_store ml)(c := (chunk_store ml c)\<lparr>ch_next := mpool ml\<rparr>)"
    by (simp add: upd_chunk_def)
  have fr: "path (chunk_store ?ml) q xs None = path (chunk_store ml) q xs None" if "c \<notin> set xs" for q xs
    by (rule path_frame) (use that st in auto)
  have "path (chunk_store ?ml) (ch_next (chunk_store ml c)) cs None"
    using Cons.prems by (subst fr) auto
  moreover have "path (chunk_store ?ml) (mpool ?ml) (c # ps) None"
    using Cons.prems fr [of ps] by (simp add: st)
  ultimately obtain ml' where ih: "drain_chunks (ch_next (chunk_store ml c)) ?ml = Some (contents ?ml cs, ml')"
    "path (chunk_store ml') (mpool ml') (rev cs @ c # ps) None" "chunk_count ml' = chunk_count ?ml"
    "\<forall>d. mappings (chunk_store ml' d) = mappings (chunk_store ?ml d)"
    using Cons.IH [of ?ml "ch_next (chunk_store ml c)" "c # ps"] Cons.prems(3) by auto
  have "contents ?ml cs = contents ml cs" by (rule contents_cong) (simp add: st)
  then have "drain_chunks itr ml = Some (contents ml (c # cs), ml')"
    using ih(1) Cons.prems(1) by (subst drain_chunks.simps) (simp add: contents_def Let_def)
  with ih show ?case by (auto simp: st upd_chunk_def)
qed

lemma drain_mappings_ok:
  assumes "mapping_ok ml cs ps"
  shows "\<exists>ml'. drain_mappings ml = Some (contents ml cs, ml') \<and> mapping_ok ml' [] (rev cs @ ps) \<and> mlen ml' = 0"
proof -
  have l: "linked ml cs ps" and len: "\<forall>d. length (mappings (chunk_store ml d)) = BUXN_JIT_MAPPING_CHUNK_SIZE"
    using assms by (simp_all add: mapping_ok_def)
  obtain ml' where d: "drain_chunks (mfirst ml) ml = Some (contents ml cs, ml')"
    "path (chunk_store ml') (mpool ml') (rev cs @ ps) None" "chunk_count ml' = chunk_count ml"
    "\<forall>c. mappings (chunk_store ml' c) = mappings (chunk_store ml c)"
    using drain_chunks_path [of ml "mfirst ml" cs ps] l by (auto simp: linked_def)
  let ?ml = "ml'\<lparr>mfirst := None, mlast := None, mlen := 0\<rparr>"
  have "mapping_ok ?ml [] (rev cs @ ps)"
    using d l len by (auto simp: mapping_ok_def linked_def contents_def)
  then show ?thesis using d(1) by (auto simp: drain_mappings_def)
qed

text \<open>
  C29. At the end of a block the loop over the chunks terminates, visits the mappings in the order they were
  recorded, and leaves the list empty with every chunk in the pool, ready for the next block.
\<close>

theorem drain_mappings_visits:
  assumes "mapping_ok ml cs ps"
  shows "\<exists>ml'. drain_mappings ml = Some (contents ml cs, ml') \<and> mapping_ok ml' [] (rev cs @ ps) \<and> mlen ml' = 0"
  using assms by (rule drain_mappings_ok)

lemma mapping_ok_nonempty:
  assumes "mapping_ok ml cs ps" and "cs \<noteq> []"
  shows "contents ml cs \<noteq> []"
proof -
  obtain c cs' where cs: "cs = c # cs'" using assms(2) by (cases cs) auto
  then have "0 < ch_len (chunk_store ml c)" "length (mappings (chunk_store ml c)) = 16"
    using assms(1) by (simp_all add: mapping_ok_def BUXN_JIT_MAPPING_CHUNK_SIZE_def)
  then have "chunk_contents (chunk_store ml c) \<noteq> []" by auto
  then show ?thesis using cs by (simp add: contents_def)
qed

lemma visit_chunks_path:
  "path (chunk_store ml) itr cs None \<Longrightarrow> visit_chunks itr ml = Some (contents ml cs)"
proof (induction cs arbitrary: itr)
  case Nil
  then show ?case by (subst visit_chunks.simps) (simp add: contents_def)
next
  case (Cons c cs)
  then show ?case by (subst visit_chunks.simps) (simp add: contents_def Let_def)
qed

lemma visit_ok: "mapping_ok ml cs ps \<Longrightarrow> visit_chunks (mfirst ml) ml = Some (contents ml cs)"
  by (rule visit_chunks_path) (simp add: mapping_ok_def linked_def)

lemma mapping_symbols_found:
  assumes "sorted_symbols symbols" and "hint \<le> length symbols"
  shows "mapping_symbols symbols hint ms =
    (if \<forall>m \<in> set ms. found (maddr m) symbols \<noteq> None
     then Some (map (\<lambda>m. the (found (maddr m) symbols)) ms) else None)"
  using assms(2)
proof (induction ms arbitrary: hint)
  case (Cons m ms)
  obtain r h where r: "buxn_dbg_find_symbol symbols (maddr m) hint = (r, h)" by fastforce
  then have "r = found (maddr m) symbols" "h \<le> length symbols"
    using find_symbol_found [OF assms(1) Cons.prems, of "maddr m"] by auto
  then show ?case using Cons.IH [of h] r by (auto split: option.splits)
qed simp

lemma mapping_symbols_length: "mapping_symbols symbols hint ms = Some ss \<Longrightarrow> length ss = length ms"
  by (induction ms arbitrary: hint ss) (auto split: prod.splits option.splits simp: Option.bind_eq_Some_conv)

section \<open>Witnesses\<close>

definition example_symbols :: "dbg_sym list" where
  "example_symbols =
     [\<lparr>sym_opcode = True, addr_min = 0x100, addr_max = 0x100, sfile = [0x61], sline = 1, scol = 1\<rparr>,
      \<lparr>sym_opcode = False, addr_min = 0x101, addr_max = 0x101, sfile = [0x61], sline = 1, scol = 2\<rparr>,
      \<lparr>sym_opcode = True, addr_min = 0x102, addr_max = 0x102, sfile = [0x61], sline = 2, scol = 1\<rparr>]"

theorem find_symbol_any_hint_witness:
  "map_option sline (fst (buxn_dbg_find_symbol example_symbols 0x100 2)) = Some 1"
proof -
  have "sorted_symbols example_symbols" by (simp add: sorted_symbols_def example_symbols_def)
  from find_symbol_any_hint [OF this, of 2 "0x100"] show ?thesis
    by (simp add: example_symbols_def covers_def)
qed

definition example_chunks :: "nat \<Rightarrow> mapping_chunk" where
  "example_chunks _ = \<lparr>ch_next = None, ch_len = 0, mappings = replicate 16 \<lparr>mmark = 0, maddr = 0\<rparr>\<rparr>"

lemma example_mappings: "mapping_ok (empty_mappings example_chunks) [] []"
  by (rule mapping_ok_empty) (simp add: example_chunks_def BUXN_JIT_MAPPING_CHUNK_SIZE_def)

theorem append_mapping_appends_witness:
  "\<exists>cs ps. mapping_ok (append_mapping 7 0x100 (empty_mappings example_chunks)) cs ps \<and>
     contents (append_mapping 7 0x100 (empty_mappings example_chunks)) cs = [\<lparr>mmark = 7, maddr = 0x100\<rparr>]"
  using append_mapping_appends [OF example_mappings, of 7 "0x100"] by (simp add: contents_def)

theorem drain_mappings_visits_witness:
  "\<exists>ml. drain_mappings (append_mapping 7 0x100 (empty_mappings example_chunks)) = Some ([\<lparr>mmark = 7, maddr = 0x100\<rparr>], ml) \<and>
     mlen ml = 0"
proof -
  obtain cs ps where "mapping_ok (append_mapping 7 0x100 (empty_mappings example_chunks)) cs ps"
    "contents (append_mapping 7 0x100 (empty_mappings example_chunks)) cs = [\<lparr>mmark = 7, maddr = 0x100\<rparr>]"
    using append_mapping_ok [OF example_mappings, of 7 "0x100"] by (auto simp: contents_def)
  then show ?thesis using drain_mappings_visits by metis
qed

end
