(* ===== verification/Perf.thy ===== *)
theory Perf
  imports Label_Map Addr_Mapping
begin

text \<open>
  The perf hook of \<^verbatim>\<open>src/perf.c\<close>: the line it adds to \<^verbatim>\<open>/tmp/perf-PID.map\<close> and the records it appends to the
  jitdump file. A file is the list of the bytes written so far, \<open>None\<close> where \<^verbatim>\<open>fopen\<close> failed. The structures are
  written as they lie in memory on a little-endian 64-bit target. The clock, the thread id, the bytes of
  the generated code and the addresses of the labels are arguments. The result \<open>None\<close> of \<open>end_block\<close> is a read
  outside the name buffer or through a null symbol.
\<close>

section \<open>Structures in memory\<close>

definition le16 :: "u16 \<Rightarrow> u8 list" where
  "le16 w = [lo_byte w, hi_byte w]"

definition le32 :: "u32 \<Rightarrow> u8 list" where
  "le32 w = le16 (ucast w) @ le16 (ucast (drop_bit 16 w))"

definition le64 :: "uw \<Rightarrow> u8 list" where
  "le64 w = le32 (ucast w) @ le32 (ucast (drop_bit 32 w))"

definition perf_jitdump_hdr :: "u32 \<Rightarrow> u32 \<Rightarrow> uw \<Rightarrow> u8 list" where
  "perf_jitdump_hdr elf_mach pid timestamp =
     le32 0x4A695444 @ le32 1 @ le32 40 @ le32 elf_mach @ le32 0 @ le32 pid @ le64 timestamp @ le64 0"

datatype perf_jitdump_rec_id =
  JIT_CODE_LOAD | JIT_CODE_MOVE | JIT_CODE_DEBUG_INFO | JIT_CODE_CLOSE | JIT_CODE_UNWINDING_INFO

fun rec_id :: "perf_jitdump_rec_id \<Rightarrow> u32" where
  "rec_id JIT_CODE_LOAD = 0"
| "rec_id JIT_CODE_MOVE = 1"
| "rec_id JIT_CODE_DEBUG_INFO = 2"
| "rec_id JIT_CODE_CLOSE = 3"
| "rec_id JIT_CODE_UNWINDING_INFO = 4"

definition perf_jitdump_rec_hdr :: "perf_jitdump_rec_id \<Rightarrow> u32 \<Rightarrow> uw \<Rightarrow> u8 list" where
  "perf_jitdump_rec_hdr i total_size timestamp = le32 (rec_id i) @ le32 total_size @ le64 timestamp"

definition perf_jitdump_code_load :: "u32 \<Rightarrow> u32 \<Rightarrow> uw \<Rightarrow> uw \<Rightarrow> uw \<Rightarrow> uw \<Rightarrow> u8 list" where
  "perf_jitdump_code_load pid tid vma code_addr code_size code_index =
     le32 pid @ le32 tid @ le64 vma @ le64 code_addr @ le64 code_size @ le64 code_index"

definition perf_jitdump_debug_info :: "uw \<Rightarrow> uw \<Rightarrow> u8 list" where
  "perf_jitdump_debug_info code_addr nr_entry = le64 code_addr @ le64 nr_entry"

definition perf_jitdump_debug_entry :: "uw \<Rightarrow> u32 \<Rightarrow> u32 \<Rightarrow> u8 list" where
  "perf_jitdump_debug_entry code_addr ln discrim = le64 code_addr @ le32 ln @ le32 discrim"

section \<open>Names\<close>

fun hex_digits :: "nat \<Rightarrow> u8 list" where
  "hex_digits n = (if n < 16 then [hex_digit n] else hex_digits (n div 16) @ [hex_digit (n mod 16)])"

declare hex_digits.simps [simp del]

text \<open>\<^verbatim>\<open>"uxn:0x%04x%s%.*s"\<close>; the precision stops at a zero byte.\<close>

definition block_name :: "buxn_label_map option \<Rightarrow> u16 \<Rightarrow> u8 list" where
  "block_name label_map addr =
     (let (at_str, label) =
        (case label_map of
           None \<Rightarrow> ([0x40], [0x3f])
         | Some lm \<Rightarrow>
             (case buxn_pc_to_label lm addr of
                None \<Rightarrow> ([0x40], [0x3f])
              | Some closest \<Rightarrow> (if laddr closest = addr then [0x40] else [0x7e], lname closest)))
      in [0x75, 0x78, 0x6e, 0x3a, 0x30, 0x78] @ hex4 addr @ at_str @ takeWhile (\<lambda>ch. ch \<noteq> 0) label)"

definition NAME_SIZE :: nat where
  "NAME_SIZE = 512"

text \<open>\<^verbatim>\<open>snprintf\<close> cuts the text to the buffer and terminates it, but returns the full length.\<close>

definition name_buffer :: "u8 list \<Rightarrow> u8 list" where
  "name_buffer full = take (NAME_SIZE - 1) full @ [0]"

section \<open>The hook\<close>

record buxn_jit_perf_hook_data =
  map_file :: "u8 list option"
  dump_file :: "u8 list option"
  perf_pid :: u32
  code_index :: u32
  addr_mappings :: mapping_list
  label_map :: "buxn_label_map option"
  symtab :: "dbg_sym list option"

definition buxn_jit_perf_jit_opcode :: "nat \<Rightarrow> u16 \<Rightarrow> buxn_jit_perf_hook_data \<Rightarrow> buxn_jit_perf_hook_data" where
  "buxn_jit_perf_jit_opcode m p h = h\<lparr>addr_mappings := append_mapping m p (addr_mappings h)\<rparr>"

definition debug_entries :: "(nat \<Rightarrow> uw) \<Rightarrow> addr_mapping list \<Rightarrow> dbg_sym list \<Rightarrow> u8 list" where
  "debug_entries resolve ms syms =
     concat (map (\<lambda>(m, s). perf_jitdump_debug_entry (resolve (mmark m)) (sline s) (scol s) @ sfile s @ [0]) (zip ms syms))"

text \<open>The debug info record. The first loop adds up the size, the second writes the entries and empties the
  list.\<close>

definition debug_info_record ::
  "uw \<Rightarrow> (nat \<Rightarrow> uw) \<Rightarrow> uw \<Rightarrow> nat \<Rightarrow> buxn_jit_perf_hook_data \<Rightarrow> (u8 list \<times> buxn_jit_perf_hook_data) option" where
  "debug_info_record ts resolve code_start code_size h =
     (if mlen (addr_mappings h) = 0 then Some ([], h)
      else do {
        symbols \<leftarrow> symtab h;
        sized \<leftarrow> visit_chunks (mfirst (addr_mappings h)) (addr_mappings h);
        sized_symbols \<leftarrow> mapping_symbols symbols 0 sized;
        let total_size = foldl (\<lambda>n s. n + 16 + word_of_nat (length (sfile s) + 1)) (16 + 16 + 16 + 1) sized_symbols;
        (ms, ml) \<leftarrow> drain_mappings (addr_mappings h);
        syms \<leftarrow> mapping_symbols symbols 0 ms;
        Some (perf_jitdump_rec_hdr JIT_CODE_DEBUG_INFO total_size ts @
              perf_jitdump_debug_info code_start (word_of_nat (mlen (addr_mappings h) + 1)) @
              debug_entries resolve ms syms @
              perf_jitdump_debug_entry (code_start + word_of_nat code_size - 1) 0 0 @ [0],
              h\<lparr>addr_mappings := ml\<rparr>)
      })"

definition code_load_record ::
  "uw \<Rightarrow> u32 \<Rightarrow> u8 list \<Rightarrow> uw \<Rightarrow> u8 list \<Rightarrow> buxn_jit_perf_hook_data \<Rightarrow> (u8 list \<times> buxn_jit_perf_hook_data) option" where
  "code_load_record ts tid full code_start code h =
     (let name_len = length full in
      if name_len + 1 \<le> NAME_SIZE then
        Some (perf_jitdump_rec_hdr JIT_CODE_LOAD (word_of_nat (16 + 40 + (name_len + 1) + length code)) ts @
              perf_jitdump_code_load (perf_pid h) tid code_start code_start (word_of_nat (length code)) (ucast (code_index h)) @
              take (name_len + 1) (name_buffer full) @ code,
              h\<lparr>code_index := code_index h + 1\<rparr>)
      else None)"

definition buxn_jit_perf_end_block ::
  "uw \<Rightarrow> uw \<Rightarrow> u32 \<Rightarrow> (nat \<Rightarrow> uw) \<Rightarrow> u16 \<Rightarrow> uw \<Rightarrow> u8 list \<Rightarrow> buxn_jit_perf_hook_data \<Rightarrow> buxn_jit_perf_hook_data option" where
  "buxn_jit_perf_end_block ts1 ts2 tid resolve addr code_start code h =
     (let full = block_name (label_map h) addr;
          h = h\<lparr>map_file := map_option (\<lambda>f. f @ hex_digits (unat code_start) @ [0x20] @ hex_digits (length code) @ [0x20] @
                take (NAME_SIZE - 1) full @ [0x0a]) (map_file h)\<rparr>
      in case dump_file h of
           None \<Rightarrow> Some h
         | Some f \<Rightarrow>
             do {
               (dbg, h) \<leftarrow> debug_info_record ts1 resolve code_start (length code) h;
               (load, h) \<leftarrow> code_load_record ts2 tid full code_start code h;
               Some (h\<lparr>dump_file := Some (f @ dbg @ load)\<rparr>)
             })"

definition buxn_jit_init_perf_hook ::
  "bool \<Rightarrow> bool \<Rightarrow> u32 \<Rightarrow> u32 \<Rightarrow> uw \<Rightarrow> (nat \<Rightarrow> mapping_chunk) \<Rightarrow> buxn_label_map option \<Rightarrow> dbg_sym list option \<Rightarrow>
   buxn_jit_perf_hook_data" where
  "buxn_jit_init_perf_hook map_opens dump_opens elf_mach pid ts store lm syms =
     \<lparr>map_file = (if map_opens then Some [] else None),
      dump_file = (if dump_opens then Some (perf_jitdump_hdr elf_mach pid ts) else None),
      perf_pid = pid, code_index = 0, addr_mappings = empty_mappings store, label_map = lm, symtab = syms\<rparr>"

section \<open>Sizes\<close>

lemma length_le [simp]: "length (le16 w1) = 2" "length (le32 w) = 4" "length (le64 v) = 8"
  by (simp_all add: le16_def le32_def le64_def)

lemma length_structs [simp]:
  "length (perf_jitdump_hdr e p t) = 40" "length (perf_jitdump_rec_hdr i n t) = 16"
  "length (perf_jitdump_code_load a b c d e1 f) = 40" "length (perf_jitdump_debug_info x y) = 16"
  "length (perf_jitdump_debug_entry x l l') = 16"
  by (simp_all add: perf_jitdump_hdr_def perf_jitdump_rec_hdr_def perf_jitdump_code_load_def
      perf_jitdump_debug_info_def perf_jitdump_debug_entry_def)

lemma length_debug_entries:
  "length ms = length syms \<Longrightarrow>
   length (debug_entries resolve ms syms) = (\<Sum>s \<leftarrow> syms. 16 + (length (sfile s) + 1))"
  by (induction ms syms rule: list_induct2) (simp_all add: debug_entries_def)

lemma foldl_sizes:
  "foldl (\<lambda>n s. n + 16 + word_of_nat (length (sfile s) + 1)) (z :: u32) syms =
   z + word_of_nat (\<Sum>s \<leftarrow> syms. 16 + (length (sfile s) + 1))"
  by (induction syms arbitrary: z) (simp_all add: algebra_simps)

text \<open>A record as a reader of the file sees it: the size in its header is its length.\<close>

definition well_sized :: "u8 list \<Rightarrow> bool" where
  "well_sized r \<longleftrightarrow> 16 \<le> length r \<and> take 4 (drop 4 r) = le32 (word_of_nat (length r))"

lemma well_sized_rec:
  "n = word_of_nat (16 + length body) \<Longrightarrow> well_sized (perf_jitdump_rec_hdr i n t @ body)"
  by (simp add: well_sized_def perf_jitdump_rec_hdr_def)

lemma code_load_sized:
  assumes "code_load_record ts tid full code_start code h = Some (r, h')"
  shows "well_sized r"
  using assms
  by (auto simp: code_load_record_def Let_def name_buffer_def NAME_SIZE_def min_def
      intro!: well_sized_rec split: if_splits)

lemma debug_info_sized:
  assumes d: "debug_info_record ts resolve code_start code_size h = Some (r, h')"
    and ok: "mapping_ok (addr_mappings h) cs ps"
  shows "(r = [] \<or> well_sized r) \<and> (\<exists>ps'. mapping_ok (addr_mappings h') [] ps') \<and> (\<exists>ml. h' = h\<lparr>addr_mappings := ml\<rparr>)"
proof (cases "mlen (addr_mappings h) = 0")
  case True
  then have r: "r = []" "h' = h" using d by (simp_all add: debug_info_record_def)
  have "contents (addr_mappings h) cs = []" using ok True by (simp add: mapping_ok_def)
  then have "cs = []" using mapping_ok_nonempty [OF ok] by blast
  then have "mapping_ok (addr_mappings h') [] ps" using ok r(2) by simp
  moreover have "\<exists>ml. h' = h\<lparr>addr_mappings := ml\<rparr>" by (rule exI [of _ "addr_mappings h"]) (simp add: r(2))
  ultimately show ?thesis using r(1) by blast
next
  case False
  note v = visit_ok [OF ok]
  obtain ml where dr: "drain_mappings (addr_mappings h) = Some (contents (addr_mappings h) cs, ml)"
    "mapping_ok ml [] (rev cs @ ps)"
    using drain_mappings_ok [OF ok] by blast
  obtain symbols syms where s: "symtab h = Some symbols" "mapping_symbols symbols 0 (contents (addr_mappings h) cs) = Some syms"
    and r: "h' = h\<lparr>addr_mappings := ml\<rparr>"
    "r = perf_jitdump_rec_hdr JIT_CODE_DEBUG_INFO (foldl (\<lambda>n s. n + 16 + word_of_nat (length (sfile s) + 1)) 49 syms) ts @
        perf_jitdump_debug_info code_start (word_of_nat (mlen (addr_mappings h) + 1)) @
        debug_entries resolve (contents (addr_mappings h) cs) syms @
        perf_jitdump_debug_entry (code_start + word_of_nat code_size - 1) 0 0 @ [0]"
    using d False v dr(1)
    by (auto simp: debug_info_record_def Option.bind_eq_Some_conv Let_def split: if_splits)
  have "well_sized r"
    unfolding r(2) foldl_sizes
    by (rule well_sized_rec)
      (simp add: length_debug_entries mapping_symbols_length [OF s(2)])
  then show ?thesis using dr(2) r(1) by auto
qed

section \<open>The file is a header and a sequence of records\<close>

definition dump_ok :: "u8 list \<Rightarrow> bool" where
  "dump_ok f \<longleftrightarrow> (\<exists>h rs. f = h @ concat rs \<and> length h = 40 \<and> (\<forall>r \<in> set rs. well_sized r))"

lemma dump_ok_append: "dump_ok f \<Longrightarrow> \<forall>r \<in> set rs. well_sized r \<Longrightarrow> dump_ok (f @ concat rs)"
proof -
  assume "dump_ok f" and rs: "\<forall>r \<in> set rs. well_sized r"
  then obtain h qs where "f = h @ concat qs" "length h = 40" "\<forall>r \<in> set qs. well_sized r" by (auto simp: dump_ok_def)
  then show "dump_ok (f @ concat rs)"
    unfolding dump_ok_def using rs by (intro exI [of _ h] exI [of _ "qs @ rs"]) auto
qed

lemma dump_ok_header: "length h = 40 \<Longrightarrow> dump_ok h"
  unfolding dump_ok_def by (intro exI [of _ h] exI [of _ "[]"]) simp

definition perf_ok :: "buxn_jit_perf_hook_data \<Rightarrow> bool" where
  "perf_ok h \<longleftrightarrow> (\<exists>cs ps. mapping_ok (addr_mappings h) cs ps) \<and> (\<forall>f. dump_file h = Some f \<longrightarrow> dump_ok f)"

text \<open>
  C19. Opening the hook, recording an opcode and ending a block keep the jitdump file a header followed by
  records each of which carries its own length in its size field, and the chunk list well-formed.
\<close>

theorem perf_hook_invariant:
  "((\<forall>c. length (mappings (store c)) = BUXN_JIT_MAPPING_CHUNK_SIZE) \<longrightarrow>
      perf_ok (buxn_jit_init_perf_hook mo dm em p ts store lm syms)) \<and>
   (perf_ok h \<longrightarrow> perf_ok (buxn_jit_perf_jit_opcode m a h)) \<and>
   (perf_ok h \<longrightarrow> buxn_jit_perf_end_block ts1 ts2 tid resolve addr code_start code h = Some h' \<longrightarrow> perf_ok h')"
proof (intro conjI impI)
  assume "\<forall>c. length (mappings (store c)) = BUXN_JIT_MAPPING_CHUNK_SIZE"
  from mapping_ok_empty [OF this] show "perf_ok (buxn_jit_init_perf_hook mo dm em p ts store lm syms)"
    by (auto simp: perf_ok_def buxn_jit_init_perf_hook_def dump_ok_header)
next
  assume "perf_ok h"
  then show "perf_ok (buxn_jit_perf_jit_opcode m a h)"
    using append_mapping_ok by (fastforce simp: perf_ok_def buxn_jit_perf_jit_opcode_def)
next
  assume h: "perf_ok h" and e: "buxn_jit_perf_end_block ts1 ts2 tid resolve addr code_start code h = Some h'"
  let ?h = "h\<lparr>map_file := map_option (\<lambda>f. f @ hex_digits (unat code_start) @ [0x20] @ hex_digits (length code) @ [0x20] @
      take (NAME_SIZE - 1) (block_name (label_map h) addr) @ [0x0a]) (map_file h)\<rparr>"
  obtain cs ps where ml: "mapping_ok (addr_mappings ?h) cs ps" using h by (auto simp: perf_ok_def)
  show "perf_ok h'"
  proof (cases "dump_file h")
    case None
    then show ?thesis using e ml by (auto simp: buxn_jit_perf_end_block_def Let_def perf_ok_def)
  next
    case (Some f)
    obtain dbg h1 load h2 where d: "debug_info_record ts1 resolve code_start (length code) ?h = Some (dbg, h1)"
      and l: "code_load_record ts2 tid (block_name (label_map h) addr) code_start code h1 = Some (load, h2)"
      and h': "h' = h2\<lparr>dump_file := Some (f @ dbg @ load)\<rparr>"
      using e Some by (auto simp: buxn_jit_perf_end_block_def Let_def Option.bind_eq_Some_conv)
    have m2: "addr_mappings h2 = addr_mappings h1"
      using l by (auto simp: code_load_record_def Let_def split: if_splits)
    have "dump_ok (f @ dbg @ load)"
      using debug_info_sized [OF d ml] code_load_sized [OF l] h Some
        dump_ok_append [of f "[load]"] dump_ok_append [of f "[dbg, load]"]
      by (auto simp: perf_ok_def)
    then show ?thesis using debug_info_sized [OF d ml] m2 h' by (auto simp: perf_ok_def)
  qed
qed

text \<open>How a reader of the file takes it apart: skip the header, then cut records by their size field.\<close>

definition size_field :: "u8 list \<Rightarrow> nat" where
  "size_field r = unat (r ! 4) + 256 * unat (r ! 5) + 65536 * unat (r ! 6) + 16777216 * unat (r ! 7)"

function split_records :: "u8 list \<Rightarrow> u8 list list" where
  "split_records f =
     (if length f < 16 \<or> size_field f = 0 then []
      else take (size_field f) f # split_records (drop (size_field f) f))"
  by pat_completeness auto
termination
  by (relation "measure length") auto

declare split_records.simps [simp del]

lemma le32_bytes: "le32 w = [ucast w, ucast (drop_bit 8 w), ucast (drop_bit 16 w), ucast (drop_bit 24 w)]"
  by (simp add: le32_def le16_def lo_byte_def hi_byte_def; intro conjI; rule bit_word_eqI)
    (auto simp: bit_simps)

lemma le32_nth:
  "unat (le32 w ! 0) = unat w mod 256" "unat (le32 w ! 1) = unat w div 256 mod 256"
  "unat (le32 w ! 2) = unat w div 65536 mod 256" "unat (le32 w ! 3) = unat w div 16777216 mod 256"
  by (simp_all add: le32_bytes unsigned_ucast_eq take_bit_eq_mod unat_drop_bit_eq) (simp_all add: drop_bit_eq_div)

lemma base_256:
  fixes n :: nat
  assumes "n < 2 ^ 32"
  shows "n mod 256 + 256 * (n div 256 mod 256) + 65536 * (n div 65536 mod 256) + 16777216 * (n div 16777216 mod 256) = n"
proof -
  define a b c where "a = n div 256" and "b = a div 256" and "c = b div 256"
  have d: "n div 65536 = b" "n div 16777216 = c" by (simp_all add: a_def b_def c_def div_mult2_eq [symmetric])
  have "c < 256" using assms by (simp add: d(2) [symmetric] less_mult_imp_div_less)
  then have "c mod 256 = c" by simp
  moreover have "n = 256 * a + n mod 256" "a = 256 * b + a mod 256" "b = 256 * c + b mod 256"
    by (simp_all add: a_def b_def c_def)
  ultimately show ?thesis unfolding d a_def [symmetric] by linarith
qed

lemma size_field_ok:
  assumes "well_sized r" and "length r < 2 ^ 32"
  shows "size_field (r @ rest) = length r"
proof -
  let ?w = "word_of_nat (length r) :: u32"
  have l: "16 \<le> length r" and t: "take 4 (drop 4 r) = le32 ?w" using assms(1) by (simp_all add: well_sized_def)
  have at: "r ! (4 + i) = le32 ?w ! i" if "i < 4" for i
  proof -
    have "take 4 (drop 4 r) ! i = r ! (4 + i)" using that l by simp
    then show ?thesis using t by simp
  qed
  have "size_field (r @ rest) = size_field r" using l by (simp add: size_field_def nth_append)
  also have "\<dots> = unat ?w"
  proof -
    have "size_field r = unat (le32 ?w ! 0) + 256 * unat (le32 ?w ! 1) + 65536 * unat (le32 ?w ! 2) + 16777216 * unat (le32 ?w ! 3)"
      using at [of 0] at [of 1] at [of 2] at [of 3] by (simp add: size_field_def)
    also have "\<dots> = unat ?w"
      unfolding le32_nth by (rule base_256) (use unsigned_less [of ?w, where 'a = nat] in simp)
    finally show ?thesis .
  qed
  also have "unat ?w = length r" using assms(2) by (simp add: unat_of_nat)
  finally show ?thesis .
qed

lemma split_concat:
  assumes "\<forall>r \<in> set rs. well_sized r \<and> length r < 2 ^ 32"
  shows "split_records (concat rs) = rs"
  using assms
proof (induction rs)
  case Nil
  then show ?case by (simp add: split_records.simps)
next
  case (Cons r rs)
  then have "size_field (r @ concat rs) = length r" "16 \<le> length r"
    using size_field_ok by (auto simp: well_sized_def)
  then have "split_records (r @ concat rs) = r # split_records (concat rs)"
    by (subst split_records.simps) auto
  then show ?case using Cons by simp
qed

text \<open>What the end of a block has to write, byte for byte. The symbol of an address is none without a symbol table; the
  entries of a debug info record are followed by an empty one at the last byte of the code.\<close>

definition symbol_for :: "buxn_jit_perf_hook_data \<Rightarrow> u16 \<Rightarrow> dbg_sym option" where
  "symbol_for h a = (case symtab h of None \<Rightarrow> None | Some symbols \<Rightarrow> found a symbols)"

definition debug_bytes ::
  "uw \<Rightarrow> (nat \<Rightarrow> uw) \<Rightarrow> uw \<Rightarrow> nat \<Rightarrow> buxn_jit_perf_hook_data \<Rightarrow> addr_mapping list \<Rightarrow> u8 list" where
  "debug_bytes ts resolve code_start n h ms =
     (let entries = concat (map (\<lambda>m. let s = the (symbol_for h (maddr m)) in
        le64 (resolve (mmark m)) @ le32 (sline s) @ le32 (scol s) @ sfile s @ [0]) ms)
      in le32 2 @ le32 (word_of_nat (49 + length entries)) @ le64 ts @
         le64 code_start @ le64 (word_of_nat (length ms + 1)) @ entries @
         le64 (code_start + word_of_nat n - 1) @ le32 0 @ le32 0 @ [0])"

definition load_bytes :: "uw \<Rightarrow> u32 \<Rightarrow> u16 \<Rightarrow> uw \<Rightarrow> u8 list \<Rightarrow> buxn_jit_perf_hook_data \<Rightarrow> u8 list" where
  "load_bytes ts tid addr code_start code h =
     (let name = block_name (label_map h) addr
      in le32 0 @ le32 (word_of_nat (57 + length name + length code)) @ le64 ts @
         le32 (perf_pid h) @ le32 tid @ le64 code_start @ le64 code_start @ le64 (word_of_nat (length code)) @
         le64 (ucast (code_index h)) @ name @ [0] @ code)"

lemma debug_entries_bytes:
  "debug_entries resolve ms (map (\<lambda>m. the (symbol_for h (maddr m))) ms) =
    concat (map (\<lambda>m. let s = the (symbol_for h (maddr m)) in
      le64 (resolve (mmark m)) @ le32 (sline s) @ le32 (scol s) @ sfile s @ [0]) ms)"
  by (induction ms) (simp_all add: debug_entries_def perf_jitdump_debug_entry_def Let_def)

lemma debug_info_bytes:
  assumes d: "debug_info_record ts resolve code_start code_size h = Some (r, h')"
    and ok: "mapping_ok (addr_mappings h) cs ps"
    and so: "\<forall>symbols. symtab h = Some symbols \<longrightarrow> sorted_symbols symbols"
  shows "r = (if contents (addr_mappings h) cs = [] then []
    else debug_bytes ts resolve code_start code_size h (contents (addr_mappings h) cs))"
proof (cases "contents (addr_mappings h) cs = []")
  case True
  then show ?thesis using d ok by (simp add: debug_info_record_def mapping_ok_def)
next
  case False
  let ?ms = "contents (addr_mappings h) cs"
  let ?syms = "map (\<lambda>m. the (symbol_for h (maddr m))) ?ms"
  have len: "mlen (addr_mappings h) = length ?ms" "mlen (addr_mappings h) \<noteq> 0" using ok False by (simp_all add: mapping_ok_def)
  note v = visit_ok [OF ok]
  obtain ml where dr: "drain_mappings (addr_mappings h) = Some (?ms, ml)" using drain_mappings_ok [OF ok] by blast
  obtain symbols where sy: "symtab h = Some symbols" using d len by (auto simp: debug_info_record_def Option.bind_eq_Some_conv)
  have "mapping_symbols symbols 0 ?ms = Some ?syms"
  proof -
    have "mapping_symbols symbols 0 ?ms \<noteq> None" using d len v sy by (auto simp: debug_info_record_def Option.bind_eq_Some_conv)
    then show ?thesis
      using mapping_symbols_found [of symbols 0 ?ms] so sy by (auto simp: symbol_for_def split: if_splits)
  qed
  then have r: "r = perf_jitdump_rec_hdr JIT_CODE_DEBUG_INFO (foldl (\<lambda>n s. n + 16 + word_of_nat (length (sfile s) + 1)) 49 ?syms) ts @
      perf_jitdump_debug_info code_start (word_of_nat (length ?ms + 1)) @ debug_entries resolve ?ms ?syms @
      perf_jitdump_debug_entry (code_start + word_of_nat code_size - 1) 0 0 @ [0]"
    using d len v dr sy by (auto simp: debug_info_record_def Let_def)
  have l: "length (debug_entries resolve ?ms ?syms) = (\<Sum>s \<leftarrow> ?syms. 16 + (length (sfile s) + 1))"
    by (rule length_debug_entries) simp
  show ?thesis
    unfolding r foldl_sizes l [symmetric] unfolding debug_entries_bytes using False
    by (simp add: debug_bytes_def Let_def perf_jitdump_rec_hdr_def perf_jitdump_debug_info_def perf_jitdump_debug_entry_def)
qed

lemma end_block_records:
  assumes e: "buxn_jit_perf_end_block ts1 ts2 tid resolve addr code_start code h = Some h'"
    and f: "dump_file h = Some f" and ok: "mapping_ok (addr_mappings h) cs ps"
    and so: "\<forall>symbols. symtab h = Some symbols \<longrightarrow> sorted_symbols symbols"
    and rs: "rs = (let ms = contents (addr_mappings h) cs in
      (if ms = [] then [] else [debug_bytes ts1 resolve code_start (length code) h ms]) @ [load_bytes ts2 tid addr code_start code h])"
  shows "dump_file h' = Some (f @ concat rs) \<and> (\<forall>r \<in> set rs. well_sized r) \<and> code_index h' = code_index h + 1"
proof -
  let ?n = "block_name (label_map h) addr" and ?ms = "contents (addr_mappings h) cs"
  let ?h = "h\<lparr>map_file := map_option (\<lambda>f. f @ hex_digits (unat code_start) @ [0x20] @ hex_digits (length code) @ [0x20] @
      take (NAME_SIZE - 1) ?n @ [0x0a]) (map_file h)\<rparr>"
  obtain dbg h1 load h2 where d: "debug_info_record ts1 resolve code_start (length code) ?h = Some (dbg, h1)"
    and l: "code_load_record ts2 tid ?n code_start code h1 = Some (load, h2)"
    and h': "h' = h2\<lparr>dump_file := Some (f @ dbg @ load)\<rparr>"
    using e f by (auto simp: buxn_jit_perf_end_block_def Let_def Option.bind_eq_Some_conv)
  have ok': "mapping_ok (addr_mappings ?h) cs ps" and so': "\<forall>symbols. symtab ?h = Some symbols \<longrightarrow> sorted_symbols symbols"
    using ok so by simp_all
  note ds = debug_info_sized [OF d ok']
  then have h1: "perf_pid h1 = perf_pid h" "code_index h1 = code_index h" by auto
  have ld: "load = load_bytes ts2 tid addr code_start code h" and ci: "code_index h2 = code_index h + 1"
    using l h1 by (auto simp: load_bytes_def code_load_record_def Let_def name_buffer_def NAME_SIZE_def
        perf_jitdump_rec_hdr_def perf_jitdump_code_load_def split: if_splits)
  have "debug_bytes ts1 resolve code_start (length code) ?h ?ms = debug_bytes ts1 resolve code_start (length code) h ?ms"
    by (simp add: debug_bytes_def symbol_for_def)
  then have db: "dbg = (if ?ms = [] then [] else debug_bytes ts1 resolve code_start (length code) h ?ms)"
    using debug_info_bytes [OF d ok' so'] by (simp only: simp_thms select_convs update_convs surjective) simp
  have ne: "debug_bytes ts1 resolve code_start (length code) h ?ms \<noteq> []"
    by (simp add: debug_bytes_def Let_def)
  show ?thesis
    using ds code_load_sized [OF l] ne by (auto simp: h' ld ci rs db Let_def)
qed

text \<open>
  C20. Take a well-formed hook whose file is open and whose symbol table, if any, is sorted, and the end of a block that
  does not fail and leaves the file shorter than 4 GiB. A reader that skips the header and cuts the file by the size fields
  finds the records it found before, then, if opcodes were recorded, the debug info record with the source line
  of each of them, and then the code load record with the name of the block and the bytes of its code; the next
  block gets the next code index.
\<close>

theorem perf_records_roundtrip:
  assumes "perf_ok h" and "dump_file h = Some f" and "mapping_ok (addr_mappings h) cs ps"
    and "\<forall>symbols. symtab h = Some symbols \<longrightarrow> sorted_symbols symbols"
    and "buxn_jit_perf_end_block ts1 ts2 tid resolve addr code_start code h = Some h'"
    and "dump_file h' = Some f'" and "length f' < 2 ^ 32"
  shows "split_records (drop 40 f') = split_records (drop 40 f) @
      (let ms = contents (addr_mappings h) cs in
       if ms = [] then [] else [debug_bytes ts1 resolve code_start (length code) h ms]) @
      [load_bytes ts2 tid addr code_start code h] \<and>
    code_index h' = code_index h + 1"
proof -
  define new where "new = (let ms = contents (addr_mappings h) cs in
      (if ms = [] then [] else [debug_bytes ts1 resolve code_start (length code) h ms]) @ [load_bytes ts2 tid addr code_start code h])"
  obtain hd rs where f: "f = hd @ concat rs" "length hd = 40" "\<forall>r \<in> set rs. well_sized r"
    using assms(1,2) by (auto simp: perf_ok_def dump_ok_def)
  note r = end_block_records [OF assms(5,2-4) new_def]
  have f': "f' = hd @ concat (rs @ new)" using r assms(6) f(1) by simp
  have lt: "length r < 2 ^ 32" if "r \<in> set (rs @ new)" for r
  proof -
    have "length r \<le> length (concat (rs @ new))"
      unfolding length_concat by (rule member_le_sum_list) (use that in \<open>simp_all only: set_map imageI zero_le\<close>)
    then show ?thesis using assms(7) f' by simp
  qed
  have "split_records (concat (rs @ new)) = rs @ new"
    using f(3) r lt by (intro split_concat) auto
  moreover have "split_records (concat rs) = rs" using f(3) lt by (intro split_concat) auto
  ultimately show ?thesis using f f' r by (simp add: new_def Let_def)
qed

lemma debug_info_fails:
  assumes "mapping_ok (addr_mappings h) cs ps" and "\<forall>symbols. symtab h = Some symbols \<longrightarrow> sorted_symbols symbols"
  shows "debug_info_record ts resolve code_start code_size h = None \<longleftrightarrow>
    (\<exists>m \<in> set (contents (addr_mappings h) cs). symbol_for h (maddr m) = None)"
proof (cases "symtab h")
  case None
  have "mlen (addr_mappings h) = length (contents (addr_mappings h) cs)" using assms(1) by (simp add: mapping_ok_def)
  then show ?thesis using None by (auto simp: debug_info_record_def symbol_for_def ex_in_conv)
next
  case (Some symbols)
  have "mlen (addr_mappings h) = length (contents (addr_mappings h) cs)" using assms(1) by (simp add: mapping_ok_def)
  moreover obtain ml where "drain_mappings (addr_mappings h) = Some (contents (addr_mappings h) cs, ml)"
    using drain_mappings_ok [OF assms(1)] by blast
  ultimately show ?thesis
    using visit_ok [OF assms(1)] mapping_symbols_found [of symbols 0] assms(2) Some
    by (auto simp: debug_info_record_def symbol_for_def Let_def)
qed

lemma end_block_None:
  assumes "dump_file h = Some f"
    and "mapping_ok (addr_mappings h) cs ps" and "\<forall>symbols. symtab h = Some symbols \<longrightarrow> sorted_symbols symbols"
  shows "buxn_jit_perf_end_block ts1 ts2 tid resolve addr code_start code h = None \<longleftrightarrow>
    (\<exists>m \<in> set (contents (addr_mappings h) cs). symbol_for h (maddr m) = None) \<or>
    NAME_SIZE \<le> length (block_name (label_map h) addr)"
proof -
  let ?h = "h\<lparr>map_file := map_option (\<lambda>f. f @ hex_digits (unat code_start) @ [0x20] @ hex_digits (length code) @ [0x20] @
      take (NAME_SIZE - 1) (block_name (label_map h) addr) @ [0x0a]) (map_file h)\<rparr>"
  have "debug_info_record ts1 resolve code_start (length code) ?h = None \<longleftrightarrow>
      (\<exists>m \<in> set (contents (addr_mappings h) cs). symbol_for h (maddr m) = None)"
    using debug_info_fails [of ?h cs ps] assms(2,3) by (simp add: symbol_for_def)
  moreover have "code_load_record ts2 tid full code_start code g = None \<longleftrightarrow> NAME_SIZE \<le> length full" for full g
    by (auto simp: code_load_record_def Let_def)
  ultimately show ?thesis
    using assms(1)
    by (cases "debug_info_record ts1 resolve code_start (length code) ?h")
      (auto simp: buxn_jit_perf_end_block_def Let_def Option.bind_eq_None_conv split: prod.splits)
qed

text \<open>
  C21. For a well-formed list of mappings and a symbol table that, if there is one, is sorted: ending a block goes wrong
  exactly when the jitdump file is open and either a recorded address has no symbol, because there is no table
  or because none of its opcode symbols covers the address (the null pointer is followed), or the name of the
  block does not fit its buffer (the bytes behind it are written to the file). Without the file nothing
  goes wrong.
\<close>

theorem perf_end_block_fails:
  assumes "mapping_ok (addr_mappings h) cs ps" and "\<forall>symbols. symtab h = Some symbols \<longrightarrow> sorted_symbols symbols"
  shows "buxn_jit_perf_end_block ts1 ts2 tid resolve addr code_start code h = None \<longleftrightarrow>
    dump_file h \<noteq> None \<and>
    ((\<exists>m \<in> set (contents (addr_mappings h) cs).
        \<forall>symbols. symtab h = Some symbols \<longrightarrow> \<not> (\<exists>s \<in> set symbols. sym_opcode s \<and> covers (maddr m) s)) \<or>
     NAME_SIZE \<le> length (block_name (label_map h) addr))"
proof -
  have "symbol_for h a = None \<longleftrightarrow>
      (\<forall>symbols. symtab h = Some symbols \<longrightarrow> \<not> (\<exists>s \<in> set symbols. sym_opcode s \<and> covers a s))" for a
    by (auto simp: symbol_for_def find_None_iff split: option.splits)
  then show ?thesis
    using end_block_None [OF _ assms] by (cases "dump_file h") (simp_all add: buxn_jit_perf_end_block_def Let_def)
qed

section \<open>Witnesses\<close>

abbreviation example_perf :: buxn_jit_perf_hook_data where
  "example_perf \<equiv> buxn_jit_init_perf_hook True True 62 1 0 example_chunks None (Some example_symbols)"

lemma example_chunk_sizes: "\<forall>c. length (mappings (example_chunks c)) = BUXN_JIT_MAPPING_CHUNK_SIZE"
  by (simp add: example_chunks_def BUXN_JIT_MAPPING_CHUNK_SIZE_def)

lemma example_perf_fields [simp]:
  "addr_mappings example_perf = empty_mappings example_chunks" "symtab example_perf = Some example_symbols"
  "label_map example_perf = None" "dump_file example_perf = Some (perf_jitdump_hdr 62 1 0)"
  by (simp_all add: buxn_jit_init_perf_hook_def)

lemma example_perf_ok: "perf_ok example_perf"
  unfolding perf_ok_def
  by (intro conjI allI impI exI [of _ "[]"])
    (use mapping_ok_empty [OF example_chunk_sizes] in \<open>auto simp: dump_ok_header\<close>)

text \<open>A block at \<^verbatim>\<open>0x100\<close> with one byte of code, its first opcode recorded.\<close>

definition example_recorded :: buxn_jit_perf_hook_data where
  "example_recorded = buxn_jit_perf_jit_opcode 7 0x100 example_perf"

lemma example_recorded_mappings:
  obtains cs ps where "mapping_ok (addr_mappings example_recorded) cs ps"
    and "contents (addr_mappings example_recorded) cs = [\<lparr>mmark = 7, maddr = 0x100\<rparr>]"
  using append_mapping_ok [OF example_mappings, of 7 "0x100"]
  by (auto simp: example_recorded_def buxn_jit_perf_jit_opcode_def contents_def)

lemma example_recorded_fields [simp]:
  "symtab example_recorded = Some example_symbols" "label_map example_recorded = None"
  "dump_file example_recorded = Some (perf_jitdump_hdr 62 1 0)"
  by (simp_all add: example_recorded_def buxn_jit_perf_jit_opcode_def)

lemma example_symbols_sorted: "sorted_symbols example_symbols"
  by (simp add: sorted_symbols_def example_symbols_def)

theorem perf_records_roundtrip_witness:
  "\<exists>h f. buxn_jit_perf_end_block 0 0 1 (\<lambda>_. 0x7004) 0x100 0x7000 [0xc3] example_recorded = Some h \<and> dump_file h = Some f \<and>
    split_records (drop 40 f) =
      [le32 2 @ le32 67 @ le64 0 @ le64 0x7000 @ le64 2 @ (le64 0x7004 @ le32 1 @ le32 1 @ [0x61, 0]) @
         le64 0x7000 @ le32 0 @ le32 0 @ [0],
       load_bytes 0 1 0x100 0x7000 [0xc3] example_recorded]"
proof -
  let ?hdr = "perf_jitdump_hdr 62 1 0"
  obtain cs ps where m: "mapping_ok (addr_mappings example_recorded) cs ps"
    "contents (addr_mappings example_recorded) cs = [\<lparr>mmark = 7, maddr = 0x100\<rparr>]"
    by (rule example_recorded_mappings)
  have so: "\<forall>symbols. symtab example_recorded = Some symbols \<longrightarrow> sorted_symbols symbols"
    using example_symbols_sorted by simp
  have sym: "symbol_for example_recorded 0x100 =
      Some \<lparr>sym_opcode = True, addr_min = 0x100, addr_max = 0x100, sfile = [0x61], sline = 1, scol = 1\<rparr>"
    by (simp add: symbol_for_def example_symbols_def covers_def)
  have name: "length (block_name None 0x100) = 12" by (simp add: block_name_def)
  obtain h where h: "buxn_jit_perf_end_block 0 0 1 (\<lambda>_. 0x7004) 0x100 0x7000 [0xc3] example_recorded = Some h"
    using end_block_None [OF example_recorded_fields(3) m(1) so, of 0 0 1 "\<lambda>_. 0x7004" "0x100" "0x7000" "[0xc3]"] m(2) sym name
    by (auto simp: NAME_SIZE_def)
  let ?dbg = "debug_bytes 0 (\<lambda>_. 0x7004) 0x7000 1 example_recorded [\<lparr>mmark = 7, maddr = 0x100\<rparr>]"
  let ?load = "load_bytes 0 1 0x100 0x7000 [0xc3] example_recorded"
  have dbg: "?dbg = le32 2 @ le32 67 @ le64 0 @ le64 0x7000 @ le64 2 @ (le64 0x7004 @ le32 1 @ le32 1 @ [0x61, 0]) @
      le64 0x7000 @ le32 0 @ le32 0 @ [0]"
    by (simp add: debug_bytes_def sym)
  have f: "dump_file h = Some (?hdr @ concat [?dbg, ?load])"
    using end_block_records [OF h example_recorded_fields(3) m(1) so refl] m(2) by simp
  have ok: "perf_ok example_recorded"
    using m(1) by (auto simp: perf_ok_def dump_ok_header)
  have len: "length (?hdr @ concat [?dbg, ?load]) < 2 ^ 32"
    unfolding dbg by (simp add: load_bytes_def Let_def name)
  have e: "split_records (drop 40 ?hdr) = []" by (simp add: split_records.simps)
  have "split_records (drop 40 (?hdr @ concat [?dbg, ?load])) = [?dbg, ?load]"
    using perf_records_roundtrip [OF ok example_recorded_fields(3) m(1) so h f len] m(2) e
    by (simp only: Let_def append_Nil append_Cons list.distinct if_False list.size One_nat_def add_0)
  then show ?thesis using h f unfolding dbg by blast
qed

theorem perf_hook_invariant_witness:
  "perf_ok example_perf \<and> perf_ok example_recorded \<and>
    (\<exists>h. buxn_jit_perf_end_block 0 0 1 (\<lambda>_. 0x7004) 0x100 0x7000 [0xc3] example_recorded = Some h \<and> perf_ok h)"
proof -
  note inv = perf_hook_invariant [of example_chunks True True 62 1 0 None "Some example_symbols"]
  have 1: "perf_ok example_perf" using inv example_chunk_sizes by blast
  then have 2: "perf_ok example_recorded" unfolding example_recorded_def using inv by blast
  obtain cs ps where m: "mapping_ok (addr_mappings example_recorded) cs ps"
    "contents (addr_mappings example_recorded) cs = [\<lparr>mmark = 7, maddr = 0x100\<rparr>]"
    by (rule example_recorded_mappings)
  have so: "\<forall>symbols. symtab example_recorded = Some symbols \<longrightarrow> sorted_symbols symbols"
    using example_symbols_sorted by simp
  have "symbol_for example_recorded 0x100 \<noteq> None" "length (block_name None 0x100) = 12"
    by (simp_all add: symbol_for_def example_symbols_def covers_def block_name_def)
  then obtain h where h: "buxn_jit_perf_end_block 0 0 1 (\<lambda>_. 0x7004) 0x100 0x7000 [0xc3] example_recorded = Some h"
    using end_block_None [OF example_recorded_fields(3) m(1) so, of 0 0 1 "\<lambda>_. 0x7004" "0x100" "0x7000" "[0xc3]"] m(2)
    by (auto simp: NAME_SIZE_def)
  show ?thesis using 1 2 h inv by blast
qed

theorem perf_end_block_fails_witness:
  "buxn_jit_perf_end_block 0 0 1 (\<lambda>_. 0) 0x100 0x7000 [0xc3]
     (buxn_jit_perf_jit_opcode 7 0x200 example_perf) = None"
proof -
  let ?h = "buxn_jit_perf_jit_opcode 7 0x200 example_perf"
  obtain cs ps where m: "mapping_ok (addr_mappings ?h) cs ps" "contents (addr_mappings ?h) cs = [\<lparr>mmark = 7, maddr = 0x200\<rparr>]"
    using append_mapping_ok [OF example_mappings, of 7 "0x200"]
    by (auto simp: buxn_jit_perf_jit_opcode_def contents_def)
  have "symtab ?h = Some example_symbols" "dump_file ?h = Some (perf_jitdump_hdr 62 1 0)"
    by (simp_all add: buxn_jit_perf_jit_opcode_def)
  moreover have "\<not> (\<exists>s \<in> set example_symbols. sym_opcode s \<and> covers 0x200 s)" by (simp add: example_symbols_def covers_def)
  ultimately show ?thesis using perf_end_block_fails [OF m(1)] m(2) example_symbols_sorted by simp
qed

end
