(* ===== verification/Gdb_Hook.thy ===== *)
theory Gdb_Hook
  imports Label_Map Addr_Mapping
begin

text \<open>
  The gdb hook of \<^verbatim>\<open>src/gdb/hook.c\<close>: which opcodes it marks, the debug information of a block, and the doubly
  linked list of entries behind \<^verbatim>\<open>__jit_debug_descriptor\<close>, which all hooks of the process share. Blocks live
  in a store; the entry of a block is addressed by the block's number, as it is a field of the block. \<open>calls\<close>
  records what a debugger sees at \<^verbatim>\<open>__jit_debug_register_code\<close>: the action and the relevant entry. The mutex
  makes each operation one step.
\<close>

section \<open>The descriptor\<close>

datatype jit_actions = JIT_NOACTION | JIT_REGISTER_FN | JIT_UNREGISTER_FN

record dbg_line_mapping =
  lm_line :: u32
  lm_pc :: uw
  lm_file :: "u8 list"

record buxn_jit_dbg_info =
  dbg_addr :: u16
  dbg_start :: uw
  dbg_size :: uw
  dbg_name :: "u8 list"
  dbg_mappings :: "dbg_line_mapping list"

record gdb_info_block =
  blk_next :: "nat option"
  next_entry :: "nat option"
  prev_entry :: "nat option"
  debug_info :: buxn_jit_dbg_info

record gdb_world =
  blk_store :: "nat \<Rightarrow> gdb_info_block"
  blk_count :: nat
  action_flag :: jit_actions
  relevant_entry :: "nat option"
  first_entry :: "nat option"
  calls :: "(jit_actions \<times> nat option) list"

definition upd_block :: "nat \<Rightarrow> (gdb_info_block \<Rightarrow> gdb_info_block) \<Rightarrow> gdb_world \<Rightarrow> gdb_world" where
  "upd_block b f w = w\<lparr>blk_store := (blk_store w)(b := f (blk_store w b))\<rparr>"

definition jit_debug_register_code :: "gdb_world \<Rightarrow> gdb_world" where
  "jit_debug_register_code w = w\<lparr>calls := calls w @ [(action_flag w, relevant_entry w)]\<rparr>"

section \<open>The hook\<close>

record buxn_jit_dbg_hook_data =
  blocks :: "nat option"
  gdb_mappings :: mapping_list
  gdb_label_map :: "buxn_label_map option"
  gdb_symtab :: "dbg_sym list option"

text \<open>Only opcodes with a call and return pattern are recorded, and the first opcode of the block.\<close>

definition gdb_records :: "u16 \<Rightarrow> u16 \<Rightarrow> u8 \<Rightarrow> bool" where
  "gdb_records entry_addr p opcode \<longleftrightarrow>
     (let base_opcode = opcode AND 0x1f in
      p = entry_addr \<or> opcode = 0x60 \<or> base_opcode = 0x0e \<or> base_opcode = 0x16 \<or> base_opcode = 0x17)"

definition buxn_jit_gdb_jit_opcode ::
  "nat \<Rightarrow> u16 \<Rightarrow> u16 \<Rightarrow> u8 \<Rightarrow> buxn_jit_dbg_hook_data \<Rightarrow> buxn_jit_dbg_hook_data" where
  "buxn_jit_gdb_jit_opcode m entry_addr p opcode h =
     (if gdb_records entry_addr p opcode
      then h\<lparr>gdb_mappings := append_mapping m p (gdb_mappings h)\<rparr> else h)"

definition gdb_block_name :: "buxn_label_map option \<Rightarrow> u16 \<Rightarrow> u8 list" where
  "gdb_block_name lm addr =
     (case (case lm of None \<Rightarrow> None | Some m \<Rightarrow> buxn_pc_to_label m addr) of
        None \<Rightarrow> []
      | Some e \<Rightarrow> (if laddr e = addr then 0x40 else 0x7e) # lname e)"

definition gdb_line_mappings ::
  "(nat \<Rightarrow> uw) \<Rightarrow> buxn_jit_dbg_hook_data \<Rightarrow> (dbg_line_mapping list \<times> buxn_jit_dbg_hook_data) option" where
  "gdb_line_mappings resolve h =
     (if mlen (gdb_mappings h) = 0 then Some ([], h)
      else do {
        (ms, ml) \<leftarrow> drain_mappings (gdb_mappings h);
        symbols \<leftarrow> gdb_symtab h;
        syms \<leftarrow> mapping_symbols symbols 0 ms;
        Some (map (\<lambda>(m, s). \<lparr>lm_line = sline s, lm_pc = resolve (mmark m), lm_file = sfile s\<rparr>) (zip ms syms),
              h\<lparr>gdb_mappings := ml\<rparr>)
      })"

text \<open>Linking the entry of block \<open>b\<close> in front and telling the debugger.\<close>

definition register_entry :: "nat \<Rightarrow> gdb_world \<Rightarrow> gdb_world" where
  "register_entry b w =
     (let w = upd_block b (\<lambda>blk. blk\<lparr>next_entry := first_entry w\<rparr>) w;
          w = (case next_entry (blk_store w b) of
                 None \<Rightarrow> w
               | Some n \<Rightarrow> upd_block n (\<lambda>blk. blk\<lparr>prev_entry := Some b\<rparr>) w);
          w = w\<lparr>first_entry := Some b, action_flag := JIT_REGISTER_FN, relevant_entry := Some b\<rparr>
      in jit_debug_register_code w\<lparr>action_flag := JIT_NOACTION\<rparr>)"

definition buxn_jit_gdb_end_block ::
  "(nat \<Rightarrow> uw) \<Rightarrow> u16 \<Rightarrow> uw \<Rightarrow> uw \<Rightarrow> buxn_jit_dbg_hook_data \<Rightarrow> gdb_world \<Rightarrow> (buxn_jit_dbg_hook_data \<times> gdb_world) option" where
  "buxn_jit_gdb_end_block resolve addr start sz h w =
     (let b = blk_count w;
          w = w\<lparr>blk_count := Suc b\<rparr>;
          name = gdb_block_name (gdb_label_map h) addr
      in do {
        (lms, h) \<leftarrow> gdb_line_mappings resolve h;
        let w = upd_block b (\<lambda>_.
          \<lparr>blk_next = blocks h, next_entry = None, prev_entry = None,
           debug_info = \<lparr>dbg_addr = addr, dbg_start = start, dbg_size = sz, dbg_name = name, dbg_mappings = lms\<rparr>\<rparr>) w;
        Some (h\<lparr>blocks := Some b\<rparr>, register_entry b w)
      })"

definition unlink_entry :: "nat \<Rightarrow> gdb_world \<Rightarrow> gdb_world" where
  "unlink_entry b w =
     (let w = (case next_entry (blk_store w b) of
                 None \<Rightarrow> w
               | Some n \<Rightarrow> upd_block n (\<lambda>blk. blk\<lparr>prev_entry := prev_entry (blk_store w b)\<rparr>) w);
          w = (case prev_entry (blk_store w b) of
                 None \<Rightarrow> w
               | Some p \<Rightarrow> upd_block p (\<lambda>blk. blk\<lparr>next_entry := next_entry (blk_store w b)\<rparr>) w)
      in jit_debug_register_code (w\<lparr>relevant_entry := Some b\<rparr>))"

partial_function (option) cleanup_blocks :: "nat option \<Rightarrow> gdb_world \<Rightarrow> gdb_world option" where
  "cleanup_blocks itr w =
     (case itr of
        None \<Rightarrow> Some w
      | Some b \<Rightarrow> (let w = unlink_entry b w in cleanup_blocks (blk_next (blk_store w b)) w))"

definition buxn_jit_cleanup_gdb_hook :: "buxn_jit_dbg_hook_data \<Rightarrow> gdb_world \<Rightarrow> gdb_world option" where
  "buxn_jit_cleanup_gdb_hook h w =
     do {
       w \<leftarrow> cleanup_blocks (blocks h) (w\<lparr>action_flag := JIT_UNREGISTER_FN\<rparr>);
       Some (w\<lparr>action_flag := JIT_NOACTION\<rparr>)
     }"

definition buxn_jit_init_gdb_hook ::
  "(nat \<Rightarrow> mapping_chunk) \<Rightarrow> buxn_label_map option \<Rightarrow> dbg_sym list option \<Rightarrow> buxn_jit_dbg_hook_data" where
  "buxn_jit_init_gdb_hook store lm syms =
     \<lparr>blocks = None, gdb_mappings = empty_mappings store, gdb_label_map = lm, gdb_symtab = syms\<rparr>"

section \<open>The list of entries\<close>

text \<open>The entries \<open>xs\<close> form a doubly linked list from \<open>p\<close> on, the first one's predecessor being \<open>q\<close>.\<close>

fun dlist :: "(nat \<Rightarrow> gdb_info_block) \<Rightarrow> nat option \<Rightarrow> nat option \<Rightarrow> nat list \<Rightarrow> bool" where
  "dlist st q p [] \<longleftrightarrow> p = None"
| "dlist st q p (x # xs) \<longleftrightarrow> p = Some x \<and> prev_entry (st x) = q \<and> dlist st (Some x) (next_entry (st x)) xs"

definition entries :: "gdb_world \<Rightarrow> nat list \<Rightarrow> bool" where
  "entries w xs \<longleftrightarrow> dlist (blk_store w) None (first_entry w) xs \<and> distinct xs \<and> (\<forall>x \<in> set xs. x < blk_count w)"

text \<open>Entries linked to each other in this order, whatever the descriptor points to.\<close>

abbreviation chain_head :: "nat list \<Rightarrow> nat option" where
  "chain_head xs \<equiv> case xs of [] \<Rightarrow> None | x # _ \<Rightarrow> Some x"

definition entry_chain :: "gdb_world \<Rightarrow> nat list \<Rightarrow> bool" where
  "entry_chain w xs \<longleftrightarrow> dlist (blk_store w) None (chain_head xs) xs \<and> distinct xs \<and> (\<forall>x \<in> set xs. x < blk_count w)"

lemma entries_chain: "entries w xs \<longleftrightarrow> entry_chain w xs \<and> first_entry w = chain_head xs"
  by (cases xs) (auto simp: entries_def entry_chain_def)

text \<open>The blocks of one hook, newest first.\<close>

fun block_list :: "(nat \<Rightarrow> gdb_info_block) \<Rightarrow> nat option \<Rightarrow> nat list \<Rightarrow> bool" where
  "block_list st p [] \<longleftrightarrow> p = None"
| "block_list st p (b # bs) \<longleftrightarrow> p = Some b \<and> block_list st (blk_next (st b)) bs"

lemma block_list_unique: "block_list st p xs \<Longrightarrow> block_list st p ys \<Longrightarrow> xs = ys"
proof (induction xs arbitrary: p ys)
  case Nil
  then show ?case by (cases ys) auto
next
  case (Cons x xs)
  then show ?case by (cases ys) auto
qed

lemma block_list_suffix: "block_list st p (xs @ b # ys) \<Longrightarrow> block_list st (blk_next (st b)) ys"
  by (induction xs arbitrary: p) auto

lemma block_list_distinct: "block_list st p bs \<Longrightarrow> distinct bs"
proof (induction bs arbitrary: p)
  case (Cons b bs)
  have "b \<notin> set bs"
  proof
    assume "b \<in> set bs"
    then obtain us vs where bs: "bs = us @ b # vs" by (auto dest: split_list)
    have "block_list st (blk_next (st b)) bs" using Cons.prems by simp
    moreover from this have "block_list st (blk_next (st b)) vs" unfolding bs by (rule block_list_suffix)
    ultimately have "bs = vs" by (rule block_list_unique)
    then have "length bs = length vs" by simp
    then show False by (simp add: bs)
  qed
  then show ?case using Cons by auto
qed simp

lemma dlist_frame:
  "(\<And>x. x \<in> set xs \<Longrightarrow> next_entry (st' x) = next_entry (st x) \<and> prev_entry (st' x) = prev_entry (st x)) \<Longrightarrow>
   dlist st' q p xs = dlist st q p xs"
  by (induction xs arbitrary: q p) auto

lemma block_list_frame:
  "(\<And>x. x \<in> set xs \<Longrightarrow> blk_next (st' x) = blk_next (st x)) \<Longrightarrow> block_list st' p xs = block_list st p xs"
  by (induction xs arbitrary: p) auto

lemma dlist_upd [simp]: "b \<notin> set xs \<Longrightarrow> dlist (st(b := blk)) q p xs = dlist st q p xs"
  by (rule dlist_frame) auto

lemma dlist_prev:
  "dlist st q (Some x) (x # xs) \<Longrightarrow> x \<notin> set xs \<Longrightarrow>
   dlist (st(x := (st x)\<lparr>prev_entry := r\<rparr>)) r (Some x) (x # xs)"
  by simp

lemma register_entries:
  assumes "entries w xs" and "b \<notin> set xs" and "b < blk_count w" and "prev_entry (blk_store w b) = None"
  shows "entries (register_entry b w) (b # xs)"
    and "calls (register_entry b w) = calls w @ [(JIT_REGISTER_FN, Some b)]"
    and "action_flag (register_entry b w) = JIT_NOACTION" and "blk_count (register_entry b w) = blk_count w"
    and "blk_next (blk_store (register_entry b w) c) = blk_next (blk_store w c)"
    and "debug_info (blk_store (register_entry b w) c) = debug_info (blk_store w c)"
proof -
  let ?w1 = "upd_block b (\<lambda>blk. blk\<lparr>next_entry := first_entry w\<rparr>) w"
  let ?st1 = "blk_store ?w1"
  have st1: "?st1 = (blk_store w)(b := (blk_store w b)\<lparr>next_entry := first_entry w\<rparr>)" by (simp add: upd_block_def)
  have d1: "dlist ?st1 None (first_entry w) xs"
    using assms(1,2) by (simp add: st1 entries_def)
  define st2 where "st2 = (case first_entry w of None \<Rightarrow> ?st1 | Some n \<Rightarrow> ?st1(n := (?st1 n)\<lparr>prev_entry := Some b\<rparr>))"
  have reg: "register_entry b w = w\<lparr>blk_store := st2, first_entry := Some b, action_flag := JIT_NOACTION,
      relevant_entry := Some b, calls := calls w @ [(JIT_REGISTER_FN, Some b)]\<rparr>"
    by (auto simp: register_entry_def Let_def jit_debug_register_code_def st2_def upd_block_def split: option.splits)
  have "dlist st2 (Some b) (first_entry w) xs"
  proof (cases xs)
    case Nil
    then show ?thesis using d1 by simp
  next
    case (Cons n ns)
    then have n: "first_entry w = Some n" "n \<notin> set ns" using assms(1) by (auto simp: entries_def)
    with d1 Cons have "dlist ?st1 None (Some n) (n # ns)" by simp
    from dlist_prev [OF this n(2), of "Some b"] show ?thesis by (simp add: st2_def n(1) Cons)
  qed
  moreover have "prev_entry (st2 b) = None" "next_entry (st2 b) = first_entry w"
  proof -
    have "first_entry w \<noteq> Some b" using assms(1,2) by (cases xs) (auto simp: entries_def)
    then show "prev_entry (st2 b) = None" "next_entry (st2 b) = first_entry w"
      using assms(4) by (auto simp: st2_def upd_block_def split: option.splits)
  qed
  ultimately show "entries (register_entry b w) (b # xs)"
    using assms by (simp add: entries_def reg)
  show "calls (register_entry b w) = calls w @ [(JIT_REGISTER_FN, Some b)]"
    "action_flag (register_entry b w) = JIT_NOACTION" "blk_count (register_entry b w) = blk_count w"
    by (simp_all add: reg)
  show "blk_next (blk_store (register_entry b w) c) = blk_next (blk_store w c)"
    "debug_info (blk_store (register_entry b w) c) = debug_info (blk_store w c)"
    by (auto simp: reg st2_def upd_block_def split: option.splits)
qed

text \<open>Unlinking an entry that is not the first.\<close>

definition skip_entry :: "nat \<Rightarrow> nat option \<Rightarrow> (nat \<Rightarrow> gdb_info_block) \<Rightarrow> nat \<Rightarrow> gdb_info_block" where
  "skip_entry a n st =
     (case n of None \<Rightarrow> st | Some y \<Rightarrow> st(y := (st y)\<lparr>prev_entry := Some a\<rparr>))
       (a := (case n of None \<Rightarrow> st | Some y \<Rightarrow> st(y := (st y)\<lparr>prev_entry := Some a\<rparr>)) a\<lparr>next_entry := n\<rparr>)"

lemma dlist_links:
  "dlist st q p (xs @ a # b # ys) \<Longrightarrow>
   prev_entry (st b) = Some a \<and> next_entry (st b) = (case ys of [] \<Rightarrow> None | y # _ \<Rightarrow> Some y)"
  by (induction xs arbitrary: q p) (auto split: list.splits)

lemma dlist_skip:
  assumes "dlist st q p (xs @ a # b # ys)" and "distinct (xs @ a # b # ys)"
  shows "dlist (skip_entry a (case ys of [] \<Rightarrow> None | y # _ \<Rightarrow> Some y) st) q p (xs @ a # ys)"
  using assms
proof (induction xs arbitrary: q p)
  case Nil
  show ?case
  proof (cases ys)
    case Nil
    then show ?thesis using Nil.prems by (simp add: skip_entry_def)
  next
    case (Cons y zs)
    let ?st = "skip_entry a (Some y) st"
    have "dlist ?st q' p' zs = dlist st q' p' zs" for q' p'
      by (rule dlist_frame) (use Nil.prems Cons in \<open>auto simp: skip_entry_def\<close>)
    moreover have "prev_entry (?st a) = prev_entry (st a)" "next_entry (?st a) = Some y" "prev_entry (?st y) = Some a"
      "next_entry (?st y) = next_entry (st y)"
      using Nil.prems(2) Cons by (auto simp: skip_entry_def)
    ultimately show ?thesis using Nil.prems Cons by simp
  qed
next
  case (Cons x xs)
  then show ?case by (cases ys) (auto simp: skip_entry_def)
qed

lemma unlink_skips:
  assumes "entry_chain w (us @ b # vs)"
  shows "entry_chain (unlink_entry b w) (us @ vs)"
proof (cases us rule: rev_cases)
  case Nil
  have d: "prev_entry (blk_store w b) = None" "dlist (blk_store w) (Some b) (next_entry (blk_store w b)) vs"
    and dist: "b \<notin> set vs" "distinct vs" "\<forall>x \<in> set (b # vs). x < blk_count w"
    using assms Nil by (auto simp: entry_chain_def)
  show ?thesis
  proof (cases vs)
    case vs: Nil
    then show ?thesis using Nil by (simp add: entry_chain_def)
  next
    case (Cons y zs)
    then have n: "next_entry (blk_store w b) = Some y" "y \<notin> set zs" "y \<noteq> b" using d(2) dist by auto
    have st: "blk_store (unlink_entry b w) = (blk_store w)(y := (blk_store w y)\<lparr>prev_entry := None\<rparr>)"
      "blk_count (unlink_entry b w) = blk_count w"
      using n d(1) by (auto simp: unlink_entry_def Let_def jit_debug_register_code_def upd_block_def)
    have "dlist (blk_store w) (Some b) (Some y) (y # zs)" using d(2) Cons n by simp
    from dlist_prev [OF this n(2), of None] show ?thesis
      using dist Nil Cons by (simp add: entry_chain_def st)
  qed
next
  case (snoc xs a)
  let ?n = "chain_head vs" and ?p = "chain_head (xs @ [a])"
  have h: "chain_head (xs @ a # zs) = ?p" for zs by (cases xs) simp_all
  have d: "dlist (blk_store w) None ?p (xs @ a # b # vs)" and dist: "distinct (xs @ a # b # vs)"
    using assms snoc h [of "b # vs"] by (simp_all add: entry_chain_def)
  note links = dlist_links [OF d]
  have "blk_store (unlink_entry b w) = skip_entry a ?n (blk_store w)"
    using links dist
    by (cases vs) (auto simp: unlink_entry_def Let_def jit_debug_register_code_def upd_block_def skip_entry_def)
  moreover have "blk_count (unlink_entry b w) = blk_count w"
    by (auto simp: unlink_entry_def Let_def jit_debug_register_code_def upd_block_def split: option.splits)
  ultimately show ?thesis
    using dlist_skip [OF d dist] assms snoc h [of vs] by (auto simp: entry_chain_def)
qed

lemma unlink_frame:
  "calls (unlink_entry b w) = calls w @ [(action_flag w, Some b)]"
  "action_flag (unlink_entry b w) = action_flag w" "first_entry (unlink_entry b w) = first_entry w"
  "blk_count (unlink_entry b w) = blk_count w"
  "blk_next (blk_store (unlink_entry b w) c) = blk_next (blk_store w c)"
  by (auto simp: unlink_entry_def Let_def jit_debug_register_code_def upd_block_def split: option.splits)

section \<open>Registering and unregistering\<close>

definition hook_blocks :: "buxn_jit_dbg_hook_data \<Rightarrow> gdb_world \<Rightarrow> nat list \<Rightarrow> bool" where
  "hook_blocks h w bs \<longleftrightarrow> block_list (blk_store w) (blocks h) bs \<and> (\<forall>b \<in> set bs. b < blk_count w)"

text \<open>The symbol of an address; without a symbol table there is none.\<close>

definition symbol_of :: "buxn_jit_dbg_hook_data \<Rightarrow> u16 \<Rightarrow> dbg_sym option" where
  "symbol_of h a = (case gdb_symtab h of None \<Rightarrow> None | Some symbols \<Rightarrow> found a symbols)"

abbreviation source_lines :: "(nat \<Rightarrow> uw) \<Rightarrow> buxn_jit_dbg_hook_data \<Rightarrow> addr_mapping list \<Rightarrow> dbg_line_mapping list" where
  "source_lines resolve h ms \<equiv> map (\<lambda>m. let s = the (symbol_of h (maddr m))
     in \<lparr>lm_line = sline s, lm_pc = resolve (mmark m), lm_file = sfile s\<rparr>) ms"

text \<open>The line mappings of a block, which all have symbols or else the missing one is dereferenced.\<close>

lemma line_mappings_result:
  assumes m: "mapping_ok (gdb_mappings h) cs ps" and so: "\<forall>symbols. gdb_symtab h = Some symbols \<longrightarrow> sorted_symbols symbols"
  shows "if \<forall>m \<in> set (contents (gdb_mappings h) cs). symbol_of h (maddr m) \<noteq> None
    then \<exists>h1. gdb_line_mappings resolve h = Some (source_lines resolve h (contents (gdb_mappings h) cs), h1) \<and>
      blocks h1 = blocks h \<and> (\<exists>ps'. mapping_ok (gdb_mappings h1) [] ps')
    else gdb_line_mappings resolve h = None"
proof (cases "mlen (gdb_mappings h) = 0")
  case True
  then have e: "contents (gdb_mappings h) cs = []" using m by (simp add: mapping_ok_def)
  moreover have "cs = []" using mapping_ok_nonempty [OF m] e by blast
  ultimately show ?thesis using True m by (auto simp: gdb_line_mappings_def)
next
  case False
  let ?ms = "contents (gdb_mappings h) cs"
  have ne: "?ms \<noteq> []" using False m by (auto simp: mapping_ok_def)
  obtain ml where dr: "drain_mappings (gdb_mappings h) = Some (?ms, ml)" "mapping_ok ml [] (rev cs @ ps)"
    using drain_mappings_ok [OF m] by blast
  show ?thesis
  proof (cases "gdb_symtab h")
    case None
    then show ?thesis using False dr ne by (auto simp: gdb_line_mappings_def symbol_of_def)
  next
    case (Some symbols)
    have z: "map (\<lambda>(m, s). \<lparr>lm_line = sline s, lm_pc = resolve (mmark m), lm_file = sfile s\<rparr>)
        (zip ms (map (\<lambda>m. the (found (maddr m) symbols)) ms)) = source_lines resolve h ms" for ms
      by (induction ms) (simp_all add: Let_def symbol_of_def Some)
    have "mapping_symbols symbols 0 ?ms = (if \<forall>m \<in> set ?ms. symbol_of h (maddr m) \<noteq> None
        then Some (map (\<lambda>m. the (found (maddr m) symbols)) ?ms) else None)"
      using mapping_symbols_found [of symbols 0 ?ms] so Some by (simp add: symbol_of_def)
    then show ?thesis
      using False dr z [of ?ms] Some by (auto simp: gdb_line_mappings_def)
  qed
qed


lemma cleanup_blocks_calls:
  assumes "block_list (blk_store w) itr bs"
  shows "\<exists>w'. cleanup_blocks itr w = Some w' \<and> calls w' = calls w @ map (\<lambda>b. (action_flag w, Some b)) bs \<and>
    first_entry w' = first_entry w"
  using assms
proof (induction bs arbitrary: itr w)
  case Nil
  then show ?case by (subst cleanup_blocks.simps) simp
next
  case (Cons b bs)
  let ?w = "unlink_entry b w"
  have "block_list (blk_store ?w) (blk_next (blk_store ?w b)) bs"
    using Cons.prems block_list_frame [of bs "blk_store ?w" "blk_store w"] by (simp add: unlink_frame)
  from Cons.IH [OF this] Cons.prems show ?case by (subst cleanup_blocks.simps) (auto simp: unlink_frame Let_def)
qed

lemma cleanup_blocks_chain:
  assumes "block_list (blk_store w) itr bs" and "entry_chain w xs" and "set bs \<subseteq> set xs"
    and "cleanup_blocks itr w = Some w'"
  shows "entry_chain w' (filter (\<lambda>y. y \<notin> set bs) xs)"
  using assms
proof (induction bs arbitrary: itr w xs)
  case Nil
  then show ?case by (simp add: cleanup_blocks.simps)
next
  case (Cons b bs)
  let ?w = "unlink_entry b w"
  have bl: "block_list (blk_store ?w) (blk_next (blk_store ?w b)) bs"
    using Cons.prems(1) block_list_frame [of bs "blk_store ?w" "blk_store w"] by (simp add: unlink_frame)
  have cl: "cleanup_blocks (blk_next (blk_store ?w b)) ?w = Some w'"
    using Cons.prems(1,4) by (subst (asm) cleanup_blocks.simps) (simp add: Let_def)
  obtain us vs where xs: "xs = us @ b # vs" using Cons.prems(3) by (auto dest: split_list)
  have e': "entry_chain ?w (us @ vs)" using unlink_skips Cons.prems(2) unfolding xs .
  have dist: "distinct xs" "b \<notin> set bs"
    using Cons.prems(2) block_list_distinct [OF Cons.prems(1)] by (simp_all add: entry_chain_def)
  then have sub: "set bs \<subseteq> set (us @ vs)" using Cons.prems(3) xs by auto
  have "filter (\<lambda>y. y \<notin> set (b # bs)) zs = filter (\<lambda>y. y \<notin> set bs) zs" if "b \<notin> set zs" for zs
    using that by (intro filter_cong) auto
  then have fil: "filter (\<lambda>y. y \<notin> set (b # bs)) xs = filter (\<lambda>y. y \<notin> set bs) (us @ vs)"
    using dist(1) xs by simp
  show ?case using Cons.IH [OF bl e' sub cl] unfolding fil .
qed

text \<open>
  C23. Cleaning up a hook whose blocks are among the registered entries terminates and tells the debugger once per
  block, newest first, that it is gone. The entries of the other hooks stay doubly linked to each other, in their order, and
  none of them refers to a block of the hook any more. The head of the list is not touched: when another hook
  owns it, the list that starts there is exactly the list of the remaining entries.
\<close>

theorem gdb_cleanup_unlinks:
  assumes "entries w xs" and "hook_blocks h w bs" and "set bs \<subseteq> set xs"
  shows "\<exists>w'. buxn_jit_cleanup_gdb_hook h w = Some w' \<and> entry_chain w' (filter (\<lambda>y. y \<notin> set bs) xs) \<and>
    calls w' = calls w @ map (\<lambda>b. (JIT_UNREGISTER_FN, Some b)) bs \<and> action_flag w' = JIT_NOACTION \<and>
    first_entry w' = first_entry w \<and>
    ((\<forall>b \<in> set bs. first_entry w \<noteq> Some b) \<longrightarrow> entries w' (filter (\<lambda>y. y \<notin> set bs) xs))"
proof -
  let ?w = "w\<lparr>action_flag := JIT_UNREGISTER_FN\<rparr>" and ?ys = "filter (\<lambda>y. y \<notin> set bs) xs"
  have bl: "block_list (blk_store ?w) (blocks h) bs" using assms(2) by (simp add: hook_blocks_def)
  obtain w1 where w1: "cleanup_blocks (blocks h) ?w = Some w1" "calls w1 = calls w @ map (\<lambda>b. (JIT_UNREGISTER_FN, Some b)) bs"
    "first_entry w1 = first_entry w"
    using cleanup_blocks_calls [OF bl] by auto
  have "entry_chain ?w xs" using assms(1) by (simp add: entries_def entry_chain_def)
      (metis dlist.simps list.exhaust list.simps(4,5))
  from cleanup_blocks_chain [OF bl this assms(3) w1(1)]
  have c: "entry_chain (w1\<lparr>action_flag := JIT_NOACTION\<rparr>) ?ys" by (simp add: entry_chain_def)
  have "first_entry w = chain_head ?ys" if "\<forall>b \<in> set bs. first_entry w \<noteq> Some b"
    using that assms(1) by (cases xs) (auto simp: entries_def)
  then show ?thesis using c w1 by (auto simp: buxn_jit_cleanup_gdb_hook_def entries_chain)
qed

text \<open>
  C24. When the first entry belongs to the hook that is cleaned up, the descriptor still points to it afterwards,
  although the debugger was told that it is gone: the cleanup never updates \<^verbatim>\<open>first_entry\<close>.
\<close>

theorem gdb_cleanup_keeps_first_entry:
  assumes "hook_blocks h w (b # bs)" and "first_entry w = Some b"
  shows "\<exists>w'. buxn_jit_cleanup_gdb_hook h w = Some w' \<and> first_entry w' = Some b \<and>
    (JIT_UNREGISTER_FN, Some b) \<in> set (calls w')"
proof -
  let ?w = "w\<lparr>action_flag := JIT_UNREGISTER_FN\<rparr>"
  have "block_list (blk_store ?w) (blocks h) (b # bs)" using assms(1) by (simp add: hook_blocks_def)
  from cleanup_blocks_calls [OF this] assms(2) show ?thesis by (auto simp: buxn_jit_cleanup_gdb_hook_def)
qed

section \<open>Witnesses\<close>

abbreviation example_gdb :: buxn_jit_dbg_hook_data where
  "example_gdb \<equiv> buxn_jit_init_gdb_hook example_chunks None (Some example_symbols)"

definition example_world :: gdb_world where
  "example_world =
     \<lparr>blk_store = (\<lambda>_. \<lparr>blk_next = None, next_entry = None, prev_entry = None,
        debug_info = \<lparr>dbg_addr = 0, dbg_start = 0, dbg_size = 0, dbg_name = [], dbg_mappings = []\<rparr>\<rparr>),
      blk_count = 0, action_flag = JIT_NOACTION, relevant_entry = None, first_entry = None, calls = []\<rparr>"

lemma example_sorted: "sorted_symbols example_symbols"
  by (simp add: sorted_symbols_def example_symbols_def)


lemma example_two:
  "\<exists>w. entries w [1, 0] \<and> hook_blocks \<lparr>blocks = Some 0, gdb_mappings = empty_mappings example_chunks,
      gdb_label_map = None, gdb_symtab = None\<rparr> w [0] \<and> calls w = []"
  by (rule exI [of _ "example_world\<lparr>blk_count := 2, first_entry := Some 1,
        blk_store := (blk_store example_world)(1 := (blk_store example_world 1)\<lparr>next_entry := Some 0\<rparr>,
          0 := (blk_store example_world 0)\<lparr>prev_entry := Some 1\<rparr>)\<rparr>"])
    (simp add: entries_def hook_blocks_def example_world_def)

theorem gdb_cleanup_unlinks_witness:
  "\<exists>w w'. entries w [1, 0] \<and>
    buxn_jit_cleanup_gdb_hook \<lparr>blocks = Some 0, gdb_mappings = empty_mappings example_chunks,
      gdb_label_map = None, gdb_symtab = None\<rparr> w = Some w' \<and>
    entries w' [1] \<and> calls w' = [(JIT_UNREGISTER_FN, Some 0)]"
proof -
  obtain w where w: "entries w [1, 0]" "hook_blocks \<lparr>blocks = Some 0, gdb_mappings = empty_mappings example_chunks,
      gdb_label_map = None, gdb_symtab = None\<rparr> w [0]" "calls w = []"
    using example_two by blast
  obtain w' where "buxn_jit_cleanup_gdb_hook \<lparr>blocks = Some 0, gdb_mappings = empty_mappings example_chunks,
      gdb_label_map = None, gdb_symtab = None\<rparr> w = Some w'" "entries w' [1]" "calls w' = [(JIT_UNREGISTER_FN, Some 0)]"
    using gdb_cleanup_unlinks [OF w(1,2)] w(1,3) by (auto simp: entries_def)
  with w(1) show ?thesis by blast
qed

theorem gdb_cleanup_keeps_first_entry_witness:
  "\<exists>w'. buxn_jit_cleanup_gdb_hook \<lparr>blocks = Some 0, gdb_mappings = empty_mappings example_chunks,
      gdb_label_map = None, gdb_symtab = None\<rparr> (example_world\<lparr>blk_count := 1, first_entry := Some 0\<rparr>) = Some w' \<and>
    first_entry w' = Some 0"
proof -
  have "hook_blocks \<lparr>blocks = Some 0, gdb_mappings = empty_mappings example_chunks,
      gdb_label_map = None, gdb_symtab = None\<rparr> (example_world\<lparr>blk_count := 1, first_entry := Some 0\<rparr>) [0]"
    by (simp add: hook_blocks_def example_world_def)
  from gdb_cleanup_keeps_first_entry [OF this] show ?thesis by auto
qed

end
