(* ===== verification/Gdb_Reader.thy ===== *)
theory Gdb_Reader
  imports Buxn_Prelude
begin

text \<open>
  The gdb plugin of \<^verbatim>\<open>src/gdb/reader.c\<close> on x86-64: reading the debug information of a block, the lookup of a
  program counter, unwinding and frame ids. The debugged process is read through \<open>read_bytes\<close>
  (address and length, an \<^verbatim>\<open>int\<close>), \<open>read_mappings\<close> and \<open>read_word\<close>: \<^verbatim>\<open>target_read\<close> for a string, for an array of line
  mappings and for a word; \<open>None\<close> is a failed read. What the plugin tells gdb is the list of its callbacks.
\<close>

section \<open>Debug information in the debugged process\<close>

record dbg_str =
  slen :: uw
  sptr :: uw

record target_mapping =
  tline :: int
  tpc :: uw
  tfile :: dbg_str

record target_info =
  taddr :: u16
  tstart :: uw
  tsize :: uw
  tname :: dbg_str
  num_mappings :: int
  tmappings :: uw

datatype gdb_event =
    Object_open
  | Symtab_open "u8 list"
  | Line_mapping_add "(int \<times> uw) list"
  | Block_open uw uw "u8 list"
  | Symtab_close
  | Object_close

section \<open>Reading a block\<close>

definition uxn_name :: "u8 list" where
  "uxn_name = [0x75, 0x78, 0x6e]"

definition NAME_BUF :: nat where
  "NAME_BUF = 256"

text \<open>\<^verbatim>\<open>"uxn:0x%04x"\<close>.\<close>

definition addr_name :: "u16 \<Rightarrow> u8 list" where
  "addr_name addr = [0x75, 0x78, 0x6e, 0x3a, 0x30, 0x78] @ hex4 addr"

text \<open>The name read from the process behind the address. The terminating zero goes to the length of the name, which
  is cast to \<^verbatim>\<open>int\<close>; \<open>None\<close> is the zero written outside the buffer. Otherwise the result is the C string in
  the buffer; the zero added at the end of the list stands for the rest of the buffer, which is not read.\<close>

definition read_name :: "(uw \<Rightarrow> int \<Rightarrow> u8 list option) \<Rightarrow> u16 \<Rightarrow> dbg_str \<Rightarrow> u8 list option" where
  "read_name read_bytes addr nm =
     (let base = addr_name addr; l = length base in
      if slen nm > 0 then
        (case read_bytes (sptr nm) (int (min (NAME_BUF - 1 - l) (unat (slen nm)))) of
           None \<Rightarrow> Some base
         | Some bs \<Rightarrow>
             (let i = int l + int_of_size (slen nm) in
              if 0 \<le> i \<and> i < int NAME_BUF
              then Some (takeWhile (\<lambda>ch. ch \<noteq> 0) ((base @ bs @ [0])[nat i := 0])) else None))
      else Some base)"

definition flush_mappings :: "(int \<times> uw) list \<Rightarrow> gdb_event list" where
  "flush_mappings gdb_mappings = (if gdb_mappings = [] then [] else [Line_mapping_add gdb_mappings])"

text \<open>The code behind \<^verbatim>\<open>end_read_mapping\<close>.\<close>

definition end_read_mapping :: "u8 list \<Rightarrow> uw \<Rightarrow> uw \<Rightarrow> (int \<times> uw) list \<Rightarrow> gdb_event list" where
  "end_read_mapping name_buf code_start code_end gdb_mappings =
     flush_mappings gdb_mappings @ [Block_open code_start code_end name_buf, Symtab_close]"

text \<open>The loop over the mappings. A file name is a C string and ends at its first zero byte (file names are shorter
  than 2 GiB). One that cannot be read leaves the loop with the closed symbol table still in \<^verbatim>\<open>symtab\<close>.\<close>

fun mapping_loop ::
  "(uw \<Rightarrow> int \<Rightarrow> u8 list option) \<Rightarrow> u8 list \<Rightarrow> uw \<Rightarrow> uw \<Rightarrow> uw \<Rightarrow> (int \<times> uw) list \<Rightarrow> target_mapping list \<Rightarrow> gdb_event list" where
  "mapping_loop read_bytes name_buf code_end previous_file code_start gdb_mappings [] =
     end_read_mapping name_buf code_start code_end gdb_mappings"
| "mapping_loop read_bytes name_buf code_end previous_file code_start gdb_mappings (m # ms) =
     (if sptr (tfile m) \<noteq> previous_file then
        flush_mappings gdb_mappings @ [Block_open code_start (tpc m - 1) name_buf, Symtab_close] @
        (case read_bytes (sptr (tfile m)) (int_of_size (slen (tfile m))) of
           None \<Rightarrow> end_read_mapping name_buf code_start code_end []
         | Some fname \<Rightarrow>
             Symtab_open (takeWhile (\<lambda>ch. ch \<noteq> 0) fname) #
             mapping_loop read_bytes name_buf code_end (sptr (tfile m)) (tpc m) [(tline m, tpc m)] ms)
      else
        mapping_loop read_bytes name_buf code_end previous_file code_start (gdb_mappings @ [(tline m, tpc m)]) ms)"

definition buxn_jit_gdb_read ::
  "(uw \<Rightarrow> int \<Rightarrow> u8 list option) \<Rightarrow> (uw \<Rightarrow> int \<Rightarrow> target_mapping list option) \<Rightarrow>
   target_info \<Rightarrow> target_info list \<Rightarrow> (gdb_event list \<times> target_info list) option" where
  "buxn_jit_gdb_read read_bytes read_mappings info reader =
     do {
       name_buf \<leftarrow> read_name read_bytes (taddr info) (tname info);
       let code_end = tstart info + tsize info;
       let body =
         (if num_mappings info > 0 then
            Symtab_open uxn_name #
            (case read_mappings (tmappings info) (num_mappings info) of
               None \<Rightarrow> end_read_mapping name_buf (tstart info) code_end []
             | Some ms \<Rightarrow> mapping_loop read_bytes name_buf code_end 0 (tstart info) [] ms)
          else [Symtab_open uxn_name, Block_open (tstart info) code_end name_buf, Symtab_close]);
       Some (Object_open # body @ [Object_close], reader @ [info])
     }"

section \<open>Lookup and frames\<close>

definition buxn_jit_gdb_lookup_dbg_info :: "target_info list \<Rightarrow> uw \<Rightarrow> target_info option" where
  "buxn_jit_gdb_lookup_dbg_info reader p =
     List.find (\<lambda>info. tstart info \<le> p \<and> p \<le> tstart info + tsize info) reader"

text \<open>The previous stack pointer and program counter; \<open>None\<close> is \<^verbatim>\<open>GDB_FAIL\<close>.\<close>

definition buxn_jit_gdb_unwind :: "(uw \<Rightarrow> uw option) \<Rightarrow> target_info list \<Rightarrow> uw \<Rightarrow> uw \<Rightarrow> (uw \<times> uw) option" where
  "buxn_jit_gdb_unwind read_word reader sp p =
     do {
       prev_pc \<leftarrow> read_word (sp + 8);
       let prev_sp = sp + 8 * 2;
       if buxn_jit_gdb_lookup_dbg_info reader p \<noteq> None then do {
         prev_pc \<leftarrow> read_word (prev_sp + 8);
         Some (prev_sp + 8 * 2, prev_pc)
       } else Some (prev_sp, prev_pc)
     }"

text \<open>Code address and stack address.\<close>

definition buxn_jit_gdb_get_frame_id :: "target_info list \<Rightarrow> uw \<Rightarrow> uw \<Rightarrow> uw \<times> uw" where
  "buxn_jit_gdb_get_frame_id reader sp p =
     (case buxn_jit_gdb_lookup_dbg_info reader p of None \<Rightarrow> p | Some info \<Rightarrow> tstart info, sp)"

section \<open>The callbacks are well nested\<close>

text \<open>A symbol table is opened while none is open; mappings and blocks belong to the open one.\<close>

fun nested :: "bool \<Rightarrow> gdb_event list \<Rightarrow> bool" where
  "nested opened [] \<longleftrightarrow> \<not> opened"
| "nested opened (Symtab_open f # es) \<longleftrightarrow> \<not> opened \<and> nested True es"
| "nested opened (Line_mapping_add ms # es) \<longleftrightarrow> opened \<and> nested opened es"
| "nested opened (Block_open s e n # es) \<longleftrightarrow> opened \<and> nested opened es"
| "nested opened (Symtab_close # es) \<longleftrightarrow> opened \<and> nested False es"
| "nested opened (Object_open # es) \<longleftrightarrow> False"
| "nested opened (Object_close # es) \<longleftrightarrow> False"

definition object_ok :: "gdb_event list \<Rightarrow> bool" where
  "object_ok es \<longleftrightarrow> (\<exists>body. es = Object_open # body @ [Object_close] \<and> nested False body)"

text \<open>The line mappings gdb ends up with, each with the file it was given for.\<close>

fun given :: "u8 list \<Rightarrow> gdb_event list \<Rightarrow> (u8 list \<times> int \<times> uw) list" where
  "given f [] = []"
| "given f (Symtab_open g # es) = given g es"
| "given f (Line_mapping_add ms # es) = map (Pair f) ms @ given f es"
| "given f (_ # es) = given f es"

lemma flush_simps [simp]:
  "nested True (flush_mappings ms @ es) = nested True es"
  "given f (flush_mappings ms @ es) = map (Pair f) ms @ given f es"
  by (simp_all add: flush_mappings_def)

lemma end_read_simps [simp]:
  "nested True (end_read_mapping n s e ms)"
  "given f (end_read_mapping n s e ms) = map (Pair f) ms"
  using flush_simps(1) [of ms "[Block_open s e n, Symtab_close]"] flush_simps(2) [of f ms "[Block_open s e n, Symtab_close]"]
  by (simp_all add: end_read_mapping_def)

abbreviation read_file :: "(uw \<Rightarrow> int \<Rightarrow> u8 list option) \<Rightarrow> target_mapping \<Rightarrow> u8 list option" where
  "read_file read_bytes m \<equiv> read_bytes (sptr (tfile m)) (int_of_size (slen (tfile m)))"

text \<open>The C string of a file, given its bytes by address.\<close>

abbreviation file_name :: "(uw \<Rightarrow> u8 list) \<Rightarrow> target_mapping \<Rightarrow> u8 list" where
  "file_name file m \<equiv> takeWhile (\<lambda>ch. ch \<noteq> 0) (file (sptr (tfile m)))"

lemma mapping_loop_nested:
  assumes "\<forall>m \<in> set ms. read_file read_bytes m \<noteq> None"
  shows "nested True (mapping_loop read_bytes n e prev s acc ms)"
  using assms by (induction ms arbitrary: prev s acc) auto

lemma mapping_loop_given:
  assumes "\<forall>m \<in> set ms. read_file read_bytes m = Some (file (sptr (tfile m)))"
    and "acc \<noteq> [] \<or> prev = 0 \<and> (\<forall>m \<in> set ms. sptr (tfile m) \<noteq> 0)"
    and "acc \<noteq> [] \<Longrightarrow> f = takeWhile (\<lambda>ch. ch \<noteq> 0) (file prev)"
  shows "given f (mapping_loop read_bytes n e prev s acc ms) =
    map (Pair f) acc @ map (\<lambda>m. (file_name file m, tline m, tpc m)) ms"
  using assms
proof (induction ms arbitrary: f prev s acc)
  case Nil
  then show ?case by simp
next
  case (Cons m ms)
  show ?case
  proof (cases "sptr (tfile m) = prev")
    case True
    then have "acc \<noteq> []" using Cons.prems(2) by auto
    then show ?thesis using True Cons.IH [of "acc @ [(tline m, tpc m)]" prev f s] Cons.prems by simp
  next
    case False
    then show ?thesis
      using Cons.IH [of "[(tline m, tpc m)]" "sptr (tfile m)" "file_name file m" "tpc m"] Cons.prems by simp
  qed
qed

lemma addr_name_props [simp]: "length (addr_name addr) = 10" "takeWhile (\<lambda>ch. ch \<noteq> 0) (addr_name addr) = addr_name addr"
proof -
  have "0 \<notin> set (addr_name addr)" by (simp add: addr_name_def)
  then show "takeWhile (\<lambda>ch. ch \<noteq> 0) (addr_name addr) = addr_name addr" unfolding takeWhile_eq_all_conv by blast
qed (simp add: addr_name_def)

text \<open>A name that fits never ends outside the buffer.\<close>

lemma read_name_fits:
  assumes "10 + unat (slen nm) < NAME_BUF"
  shows "\<exists>n. read_name read_bytes addr nm = Some n"
proof -
  have "int_of_size (slen nm) = int (unat (slen nm))"
    using assms by (intro int_of_size_small) (simp add: NAME_BUF_def)
  moreover have "int (unat (slen nm)) < int 246"
    using assms unfolding of_nat_less_iff NAME_BUF_def by linarith
  ultimately show ?thesis
    using assms by (auto simp: read_name_def Let_def NAME_BUF_def split: option.splits)
qed

lemma given_append_close: "given f (es @ [Object_close]) = given f es"
  by (induction f es rule: given.induct) simp_all

text \<open>
  C25. When the name fits its buffer and every read of the process succeeds, reading a block opens one object,
  opens and closes its symbol tables one after the other, and gives gdb every line mapping of the block
  once, in order, under the name of the file it belongs to.
\<close>

theorem gdb_read_nested:
  assumes "10 + unat (slen (tname info)) < NAME_BUF"
    and "if 0 < num_mappings info then read_mappings (tmappings info) (num_mappings info) = Some ms else ms = []"
    and "\<forall>m \<in> set ms. sptr (tfile m) \<noteq> 0 \<and>
      read_bytes (sptr (tfile m)) (int_of_size (slen (tfile m))) = Some (file (sptr (tfile m)))"
  shows "\<exists>es. buxn_jit_gdb_read read_bytes read_mappings info reader = Some (es, reader @ [info]) \<and> object_ok es \<and>
    given [] es = map (\<lambda>m. (takeWhile (\<lambda>ch. ch \<noteq> 0) (file (sptr (tfile m))), tline m, tpc m)) ms"
proof -
  obtain n where n: "read_name read_bytes (taddr info) (tname info) = Some n"
    using read_name_fits [OF assms(1)] by blast
  let ?loop = "mapping_loop read_bytes n (tstart info + tsize info) 0 (tstart info) [] ms"
  have ne: "nested True ?loop" using assms(3) by (intro mapping_loop_nested) auto
  have "given uxn_name ?loop = map (Pair uxn_name) [] @ map (\<lambda>m. (file_name file m, tline m, tpc m)) ms"
    by (rule mapping_loop_given) (use assms(3) in auto)
  then show ?thesis
    using n ne assms(2) by (auto simp: buxn_jit_gdb_read_def Let_def object_ok_def given_append_close split: if_splits)
qed

text \<open>When the loop meets a file name that cannot be read, the table closed before gets a block and is closed again.\<close>

lemma mapping_loop_unreadable:
  assumes "\<forall>x \<in> set xs. sptr (tfile x) \<noteq> 0 \<and> read_file read_bytes x = Some (file (sptr (tfile x)))"
    and "sptr (tfile m) \<noteq> (if xs = [] then prev else sptr (tfile (last xs)))" and "read_file read_bytes m = None"
    and "acc \<noteq> [] \<or> prev = 0" and "acc \<noteq> [] \<Longrightarrow> f = takeWhile (\<lambda>ch. ch \<noteq> 0) (file prev)"
  shows "\<exists>front s'. mapping_loop read_bytes n e prev s acc (xs @ m # ys) =
      front @ [Block_open s' (tpc m - 1) n, Symtab_close, Block_open s' e n, Symtab_close] \<and>
    (\<forall>rest. nested True (front @ rest) = nested True rest) \<and>
    (\<forall>rest. given f (front @ Block_open s' (tpc m - 1) n # rest) =
      map (Pair f) acc @ map (\<lambda>x. (file_name file x, tline x, tpc x)) xs @
      given (if xs = [] then f else file_name file (last xs)) rest)"
  using assms
proof (induction xs arbitrary: prev s acc f)
  case Nil
  then show ?case
    by (intro exI [of _ "flush_mappings acc"] exI [of _ s]) (simp add: end_read_mapping_def flush_mappings_def)
next
  case (Cons x xs)
  show ?case
  proof (cases "sptr (tfile x) = prev")
    case True
    then have "acc \<noteq> []" using Cons.prems(1,4) by auto
    then show ?thesis
      using True Cons.IH [of prev "acc @ [(tline x, tpc x)]" f s] Cons.prems by (cases "xs = []") simp_all
  next
    case False
    have "sptr (tfile m) \<noteq> (if xs = [] then sptr (tfile x) else sptr (tfile (last xs)))"
      using Cons.prems(2) by (cases "xs = []") simp_all
    then obtain front s' where f: "mapping_loop read_bytes n e (sptr (tfile x)) (tpc x) [(tline x, tpc x)] (xs @ m # ys) =
        front @ [Block_open s' (tpc m - 1) n, Symtab_close, Block_open s' e n, Symtab_close]"
      "\<forall>rest. nested True (front @ rest) = nested True rest"
      "\<forall>rest. given (file_name file x) (front @ Block_open s' (tpc m - 1) n # rest) =
        map (Pair (file_name file x)) [(tline x, tpc x)] @ map (\<lambda>x. (file_name file x, tline x, tpc x)) xs @
        given (if xs = [] then file_name file x else file_name file (last xs)) rest"
      using Cons.IH [of "sptr (tfile x)" "[(tline x, tpc x)]" "file_name file x" "tpc x"] Cons.prems(1,3) by fastforce
    show ?thesis
      using f False Cons.prems(1)
      by (intro exI [of _ "flush_mappings acc @ [Block_open s (tpc x - 1) n, Symtab_close, Symtab_open (file_name file x)] @ front"]
          exI [of _ s']) simp
  qed
qed

text \<open>
  C26. Suppose the name fits its buffer and the line mappings of a block can be read, and the file names of the first
  of them can be read, but not that of a mapping \<open>m\<close> that names another file than the mapping before it. Then gdb is
  given the mappings in front of \<open>m\<close> and no others, and the symbol table that was closed in front of \<open>m\<close> gets another
  block and is closed again, so the callbacks are not well nested.
\<close>

theorem gdb_read_closes_twice:
  assumes "10 + unat (slen (tname info)) < NAME_BUF" and "0 < num_mappings info"
    and "read_mappings (tmappings info) (num_mappings info) = Some (xs @ m # ys)"
    and "\<forall>x \<in> set xs. sptr (tfile x) \<noteq> 0 \<and>
      read_bytes (sptr (tfile x)) (int_of_size (slen (tfile x))) = Some (file (sptr (tfile x)))"
    and "sptr (tfile m) \<noteq> (if xs = [] then 0 else sptr (tfile (last xs)))"
    and "read_bytes (sptr (tfile m)) (int_of_size (slen (tfile m))) = None"
  shows "\<exists>es front n s. buxn_jit_gdb_read read_bytes read_mappings info reader = Some (es, reader @ [info]) \<and>
    read_name read_bytes (taddr info) (tname info) = Some n \<and>
    es = front @ [Block_open s (tpc m - 1) n, Symtab_close, Block_open s (tstart info + tsize info) n, Symtab_close,
      Object_close] \<and>
    given [] es = map (\<lambda>x. (takeWhile (\<lambda>ch. ch \<noteq> 0) (file (sptr (tfile x))), tline x, tpc x)) xs \<and> \<not> object_ok es"
proof -
  obtain n where n: "read_name read_bytes (taddr info) (tname info) = Some n"
    using read_name_fits [OF assms(1)] by blast
  obtain front s' where f: "mapping_loop read_bytes n (tstart info + tsize info) 0 (tstart info) [] (xs @ m # ys) =
      front @ [Block_open s' (tpc m - 1) n, Symtab_close, Block_open s' (tstart info + tsize info) n, Symtab_close]"
    and ne: "\<forall>rest. nested True (front @ rest) = nested True rest"
    and g: "\<forall>rest. given uxn_name (front @ Block_open s' (tpc m - 1) n # rest) =
      map (Pair uxn_name) [] @ map (\<lambda>x. (file_name file x, tline x, tpc x)) xs @
      given (if xs = [] then uxn_name else file_name file (last xs)) rest"
    using mapping_loop_unreadable [where xs = xs and m = m and prev = 0 and acc = "[]" and f = uxn_name] assms(4-6)
    by blast
  show ?thesis
    using n f ne g assms(2,3)
    by (intro exI [of _ "Object_open # Symtab_open uxn_name # front @ [Block_open s' (tpc m - 1) n, Symtab_close,
          Block_open s' (tstart info + tsize info) n, Symtab_close, Object_close]"]
        exI [of _ "Object_open # Symtab_open uxn_name # front"] exI [of _ n] exI [of _ s'])
      (auto simp: buxn_jit_gdb_read_def Let_def object_ok_def append_eq_append_conv_if split: if_splits)
qed

text \<open>Reading the information of a block writes outside the name buffer exactly when the name can be read and its
  length, cast to \<^verbatim>\<open>int\<close>, puts the terminating zero there.\<close>

lemma gdb_read_overflows:
  "buxn_jit_gdb_read read_bytes read_mappings info reader = None \<longleftrightarrow>
     0 < slen (tname info) \<and> \<not> (0 \<le> 10 + int_of_size (slen (tname info)) \<and> 10 + int_of_size (slen (tname info)) < int NAME_BUF) \<and>
     read_bytes (sptr (tname info)) (int (min (NAME_BUF - 11) (unat (slen (tname info))))) \<noteq> None"
  by (auto simp: buxn_jit_gdb_read_def read_name_def Let_def split: option.splits)

section \<open>Finding the block of a program counter\<close>

text \<open>A program counter inside a block, its end excluded.\<close>

definition within :: "uw \<Rightarrow> target_info \<Rightarrow> bool" where
  "within p info \<longleftrightarrow> tstart info \<le> p \<and> p < tstart info + tsize info"

definition disjoint :: "target_info \<Rightarrow> target_info \<Rightarrow> bool" where
  "disjoint a b \<longleftrightarrow> tstart a + tsize a \<le> tstart b \<or> tstart b + tsize b \<le> tstart a"

lemma find_append_Cons:
  "P x \<Longrightarrow> List.find P (us @ x # vs) = (case List.find P us of None \<Rightarrow> Some x | Some a \<Rightarrow> Some a)"
  by (induction us) simp_all

text \<open>
  C27. The frame of a program counter inside a block, when the blocks read before are disjoint from that block and do
  not wrap around the address space: it is identified by the start of the block, unless the program counter is the
  start of the block and a block read before ends there; then the first such block is taken for it, the
  end of a block being counted as inside. In both cases unwinding skips the frame of the compiled code and
  fails when one of the two return addresses cannot be read.
\<close>

theorem gdb_frame_of_block:
  assumes "within p info" and "\<forall>a \<in> set us. disjoint a info \<and> tstart a \<le> tstart a + tsize a"
  shows "buxn_jit_gdb_get_frame_id (us @ info # vs) sp p =
      (tstart (case List.find (\<lambda>a. tstart a + tsize a = p) us of None \<Rightarrow> info | Some a \<Rightarrow> a), sp) \<and>
    buxn_jit_gdb_unwind read_word (us @ info # vs) sp p =
      do { _ \<leftarrow> read_word (sp + 8); ret \<leftarrow> read_word (sp + 24); Some (sp + 32, ret) }"
proof -
  have "List.find (\<lambda>a. tstart a \<le> p \<and> p \<le> tstart a + tsize a) us = List.find (\<lambda>a. tstart a + tsize a = p) us"
    using assms by (intro find_cong) (auto simp: disjoint_def within_def)
  then have "buxn_jit_gdb_lookup_dbg_info (us @ info # vs) p =
      Some (case List.find (\<lambda>a. tstart a + tsize a = p) us of None \<Rightarrow> info | Some a \<Rightarrow> a)"
    using assms(1)
    by (auto simp: buxn_jit_gdb_lookup_dbg_info_def within_def find_append_Cons split: option.splits)
  then show ?thesis
    by (simp add: buxn_jit_gdb_get_frame_id_def buxn_jit_gdb_unwind_def Let_def add.assoc)
qed

text \<open>The comparison with the end of a block is inclusive: the first instruction of a block that starts where the
  block read before it ends is attributed to the earlier one.\<close>

lemma gdb_lookup_end_inclusive:
  assumes "tstart a \<le> tstart a + tsize a" and "tstart b = tstart a + tsize a"
    and "tstart b < tstart b + tsize b"
  shows "within (tstart b) b \<and> \<not> within (tstart b) a \<and>
    buxn_jit_gdb_lookup_dbg_info (a # b # reader) (tstart b) = Some a"
  using assms by (simp add: within_def buxn_jit_gdb_lookup_dbg_info_def)

section \<open>A block of two files\<close>

definition example_info :: target_info where
  "example_info = \<lparr>taddr = 0x100, tstart = 0x4000, tsize = 0x80, tname = \<lparr>slen = 2, sptr = 0x10\<rparr>,
     num_mappings = 2, tmappings = 0x20\<rparr>"

definition example_lines :: "target_mapping list" where
  "example_lines =
     [\<lparr>tline = 7, tpc = 0x4000, tfile = \<lparr>slen = 3, sptr = 0x30\<rparr>\<rparr>,
      \<lparr>tline = 2, tpc = 0x4010, tfile = \<lparr>slen = 3, sptr = 0x34\<rparr>\<rparr>]"

definition example_file :: "uw \<Rightarrow> u8 list" where
  "example_file p = (if p = 0x30 then [0x61, 0x62, 0x63] else [0x64, 0x65, 0x66])"

definition example_bytes :: "uw \<Rightarrow> int \<Rightarrow> u8 list option" where
  "example_bytes p n = (if p = 0x10 then Some (take (nat n) [0x6d, 0x6e]) else Some (example_file p))"

lemma gdb_read_nested_witness:
  "\<exists>es. buxn_jit_gdb_read example_bytes (\<lambda>p n. Some example_lines) example_info [] = Some (es, [example_info]) \<and>
    object_ok es \<and> given [] es = [([0x61, 0x62, 0x63], 7, 0x4000), ([0x64, 0x65, 0x66], 2, 0x4010)]"
  using gdb_read_nested [of example_info "\<lambda>p n. Some example_lines" example_lines example_bytes example_file "[]"]
  by (simp add: example_info_def example_lines_def example_bytes_def example_file_def NAME_BUF_def)

text \<open>The second file of the block cannot be read.\<close>

lemma gdb_read_closes_twice_witness:
  "\<exists>es front n s. buxn_jit_gdb_read (\<lambda>p n. if p = 0x34 then None else example_bytes p n) (\<lambda>p n. Some example_lines)
      example_info [] = Some (es, [example_info]) \<and>
    read_name (\<lambda>p n. if p = 0x34 then None else example_bytes p n) 0x100 \<lparr>slen = 2, sptr = 0x10\<rparr> = Some n \<and>
    es = front @ [Block_open s 0x400f n, Symtab_close, Block_open s 0x4080 n, Symtab_close, Object_close] \<and>
    given [] es = [([0x61, 0x62, 0x63], 7, 0x4000)] \<and> \<not> object_ok es"
  using gdb_read_closes_twice [of example_info "\<lambda>p n. Some example_lines" "[hd example_lines]" "example_lines ! 1" "[]"
      "\<lambda>p n. if p = 0x34 then None else example_bytes p n" example_file "[]"]
  by (simp add: example_info_def example_lines_def example_bytes_def example_file_def NAME_BUF_def)

definition example_reader :: "target_info list" where
  "example_reader = [example_info, example_info\<lparr>tstart := 0x4080\<rparr>]"

text \<open>Inside the second block, and at its start, where the first one ends.\<close>

lemma gdb_frame_of_block_witness:
  "buxn_jit_gdb_get_frame_id example_reader 0x7000 0x4084 = (0x4080, 0x7000) \<and>
    buxn_jit_gdb_unwind (\<lambda>a. Some (a + 1)) example_reader 0x7000 0x4084 = Some (0x7020, 0x7019) \<and>
    buxn_jit_gdb_get_frame_id example_reader 0x7000 0x4080 = (0x4000, 0x7000)"
  using gdb_frame_of_block [of "0x4084" "example_info\<lparr>tstart := 0x4080\<rparr>" "[example_info]" "[]" "0x7000" "\<lambda>a. Some (a + 1)"]
    gdb_frame_of_block [of "0x4080" "example_info\<lparr>tstart := 0x4080\<rparr>" "[example_info]" "[]" "0x7000" "\<lambda>a. Some (a + 1)"]
  by (simp add: example_reader_def example_info_def within_def disjoint_def)

end
