(* ===== verification/Jit_Hook.thy ===== *)
theory Jit_Hook
  imports Jit_Compile Perf Gdb_Hook
begin

text \<open>
  The hook API of \<^verbatim>\<open>src/jit.c\<close> (\<^verbatim>\<open>buxn_jit_hook_mark_addr\<close> and its neighbours, the places where \<^verbatim>\<open>jit.c\<close> calls a
  hook), the composite hook of \<^verbatim>\<open>include/buxn/jit/composite_hook.h\<close>, and the hooks \<^verbatim>\<open>perf.c\<close> and \<^verbatim>\<open>gdb/hook.c\<close> hand
  out. A callback takes the data of its hook and the hook context and returns both; a null callback is
  \<open>None\<close>. The locale \<open>marking_hook\<close> is what the compiler relies on: a callback does nothing to the code but put one label
  there. It is interpreted on both hooks and on the composite.
\<close>

section \<open>The API\<close>

text \<open>\<open>hlabels\<close> gives the addresses of labels, which exist once the code is generated.\<close>

record hook_ctx =
  jit_ctx :: buxn_jit_ctx
  current_label :: "nat option"
  hlabels :: "nat \<Rightarrow> uw"

definition buxn_jit_hook_get_entry_addr :: "hook_ctx \<Rightarrow> u16" where
  "buxn_jit_hook_get_entry_addr hc = entry_pc (jit_ctx hc)"

definition buxn_jit_hook_mark_addr :: "hook_ctx \<Rightarrow> nat \<times> hook_ctx" where
  "buxn_jit_hook_mark_addr hc =
     (case current_label hc of
        Some l \<Rightarrow> (l, hc)
      | None \<Rightarrow> (let (l, ctx) = emit_label (jit_ctx hc) in (l, hc\<lparr>jit_ctx := ctx, current_label := Some l\<rparr>)))"

definition buxn_jit_hook_resolve_addr :: "hook_ctx \<Rightarrow> nat \<Rightarrow> uw" where
  "buxn_jit_hook_resolve_addr hc mark = hlabels hc mark"

type_synonym 'u opcode_callback = "'u \<Rightarrow> hook_ctx \<Rightarrow> u16 \<Rightarrow> u8 \<Rightarrow> 'u \<times> hook_ctx"

record 'u buxn_jit_hook =
  userdata :: 'u
  begin_block :: "('u \<Rightarrow> hook_ctx \<Rightarrow> 'u \<times> hook_ctx) option"
  jit_opcode :: "'u opcode_callback option"
  end_block :: "('u \<Rightarrow> hook_ctx \<Rightarrow> uw \<Rightarrow> nat \<Rightarrow> 'u option) option"

section \<open>Where \<open>jit.c\<close> calls a hook\<close>

definition hook_begin_block :: "'u buxn_jit_hook option \<Rightarrow> buxn_jit_ctx \<Rightarrow> 'u buxn_jit_hook option \<times> buxn_jit_ctx" where
  "hook_begin_block hook ctx =
     (case hook of
        None \<Rightarrow> (None, ctx)
      | Some h \<Rightarrow>
          (case begin_block h of
             None \<Rightarrow> (Some h, ctx)
           | Some f \<Rightarrow>
               (let (u, hc) = f (userdata h) \<lparr>jit_ctx = ctx, current_label = None, hlabels = (\<lambda>_. 0)\<rparr>
                in (Some (h\<lparr>userdata := u\<rparr>), jit_ctx hc))))"

definition hook_jit_opcode :: "'u buxn_jit_hook option \<Rightarrow> buxn_jit_ctx \<Rightarrow> 'u buxn_jit_hook option \<times> buxn_jit_ctx" where
  "hook_jit_opcode hook ctx =
     (case hook of
        None \<Rightarrow> (None, ctx)
      | Some h \<Rightarrow>
          (case jit_opcode h of
             None \<Rightarrow> (Some h, ctx)
           | Some f \<Rightarrow>
               (let (u, hc) = f (userdata h) \<lparr>jit_ctx = ctx, current_label = None, hlabels = (\<lambda>_. 0)\<rparr>
                      (pc ctx - 1) (current_opcode ctx)
                in (Some (h\<lparr>userdata := u\<rparr>), jit_ctx hc))))"

definition hook_end_block ::
  "'u buxn_jit_hook option \<Rightarrow> buxn_jit_ctx \<Rightarrow> (nat \<Rightarrow> uw) \<Rightarrow> uw \<Rightarrow> nat \<Rightarrow> 'u buxn_jit_hook option option" where
  "hook_end_block hook ctx labels start sz =
     (case hook of
        None \<Rightarrow> Some None
      | Some h \<Rightarrow>
          (case end_block h of
             None \<Rightarrow> Some (Some h)
           | Some f \<Rightarrow>
               do {
                 u \<leftarrow> f (userdata h) \<lparr>jit_ctx = ctx, current_label = None, hlabels = labels\<rparr> start sz;
                 Some (Some (h\<lparr>userdata := u\<rparr>))
               }))"

section \<open>The composite hook\<close>

text \<open>The null-terminated array of hooks is a list; the loops go through it in order.\<close>

fun buxn_jit_composite_hook_begin_block ::
  "'u buxn_jit_hook list \<Rightarrow> hook_ctx \<Rightarrow> 'u buxn_jit_hook list \<times> hook_ctx" where
  "buxn_jit_composite_hook_begin_block [] hc = ([], hc)"
| "buxn_jit_composite_hook_begin_block (h # hooks) hc =
     (let (h, hc) = (case begin_block h of
                       None \<Rightarrow> (h, hc)
                     | Some f \<Rightarrow> (let (u, hc) = f (userdata h) hc in (h\<lparr>userdata := u\<rparr>, hc)));
          (hooks, hc) = buxn_jit_composite_hook_begin_block hooks hc
      in (h # hooks, hc))"

fun buxn_jit_composite_hook_jit_opcode :: "'u buxn_jit_hook list opcode_callback" where
  "buxn_jit_composite_hook_jit_opcode [] hc p b = ([], hc)"
| "buxn_jit_composite_hook_jit_opcode (h # hooks) hc p b =
     (let (h, hc) = (case jit_opcode h of
                       None \<Rightarrow> (h, hc)
                     | Some f \<Rightarrow> (let (u, hc) = f (userdata h) hc p b in (h\<lparr>userdata := u\<rparr>, hc)));
          (hooks, hc) = buxn_jit_composite_hook_jit_opcode hooks hc p b
      in (h # hooks, hc))"

fun buxn_jit_composite_hook_end_block ::
  "'u buxn_jit_hook list \<Rightarrow> hook_ctx \<Rightarrow> uw \<Rightarrow> nat \<Rightarrow> 'u buxn_jit_hook list option" where
  "buxn_jit_composite_hook_end_block [] hc start sz = Some []"
| "buxn_jit_composite_hook_end_block (h # hooks) hc start sz =
     do {
       h \<leftarrow> (case end_block h of
               None \<Rightarrow> Some h
             | Some f \<Rightarrow> do { u \<leftarrow> f (userdata h) hc start sz; Some (h\<lparr>userdata := u\<rparr>) });
       hooks \<leftarrow> buxn_jit_composite_hook_end_block hooks hc start sz;
       Some (h # hooks)
     }"

definition buxn_jit_init_composite_hook :: "'u buxn_jit_hook list \<Rightarrow> 'u buxn_jit_hook list buxn_jit_hook" where
  "buxn_jit_init_composite_hook hooks =
     \<lparr>userdata = hooks,
      begin_block = Some buxn_jit_composite_hook_begin_block,
      jit_opcode = Some buxn_jit_composite_hook_jit_opcode,
      end_block = Some buxn_jit_composite_hook_end_block\<rparr>"

section \<open>The two hooks of the repository\<close>

text \<open>The data of either hook; the gdb hook works on the entries of the process as well. The bytes of the code
  and the clock readings of the perf hook are parameters.\<close>

datatype hook_data = Perf_data buxn_jit_perf_hook_data | Gdb_data buxn_jit_dbg_hook_data gdb_world

fun perf_callback :: "hook_data opcode_callback" where
  "perf_callback (Perf_data h) hc p b =
     (let (m, hc) = buxn_jit_hook_mark_addr hc in (Perf_data (buxn_jit_perf_jit_opcode m p h), hc))"
| "perf_callback d hc p b = (d, hc)"

fun gdb_callback :: "hook_data opcode_callback" where
  "gdb_callback (Gdb_data h w) hc p b =
     (if gdb_records (buxn_jit_hook_get_entry_addr hc) p b
      then (let (m, hc') = buxn_jit_hook_mark_addr hc in
            (Gdb_data (buxn_jit_gdb_jit_opcode m (buxn_jit_hook_get_entry_addr hc) p b h) w, hc'))
      else (Gdb_data h w, hc))"
| "gdb_callback d hc p b = (d, hc)"

fun perf_end_callback ::
  "(uw \<Rightarrow> uw \<times> uw \<times> u32) \<Rightarrow> (uw \<Rightarrow> nat \<Rightarrow> u8 list) \<Rightarrow> hook_data \<Rightarrow> hook_ctx \<Rightarrow> uw \<Rightarrow> nat \<Rightarrow> hook_data option" where
  "perf_end_callback now bytes (Perf_data h) hc start sz =
     (case now start of
        (ts1, ts2, tid) \<Rightarrow>
          map_option Perf_data (buxn_jit_perf_end_block ts1 ts2 tid (buxn_jit_hook_resolve_addr hc)
            (buxn_jit_hook_get_entry_addr hc) start (bytes start sz) h))"
| "perf_end_callback now bytes d hc start sz = Some d"

fun gdb_end_callback :: "hook_data \<Rightarrow> hook_ctx \<Rightarrow> uw \<Rightarrow> nat \<Rightarrow> hook_data option" where
  "gdb_end_callback (Gdb_data h w) hc start sz =
     map_option (\<lambda>(h, w). Gdb_data h w)
       (buxn_jit_gdb_end_block (buxn_jit_hook_resolve_addr hc) (buxn_jit_hook_get_entry_addr hc) start (word_of_nat sz) h w)"
| "gdb_end_callback d hc start sz = Some d"

text \<open>Without a symbol table neither hook asks for the opcodes.\<close>

definition perf_hook ::
  "(uw \<Rightarrow> uw \<times> uw \<times> u32) \<Rightarrow> (uw \<Rightarrow> nat \<Rightarrow> u8 list) \<Rightarrow> buxn_jit_perf_hook_data \<Rightarrow> hook_data buxn_jit_hook" where
  "perf_hook now bytes h =
     \<lparr>userdata = Perf_data h, begin_block = None,
      jit_opcode = (if symtab h \<noteq> None then Some perf_callback else None),
      end_block = Some (perf_end_callback now bytes)\<rparr>"

definition gdb_hook :: "buxn_jit_dbg_hook_data \<Rightarrow> gdb_world \<Rightarrow> hook_data buxn_jit_hook" where
  "gdb_hook h w =
     \<lparr>userdata = Gdb_data h w, begin_block = None,
      jit_opcode = (if gdb_symtab h \<noteq> None then Some gdb_callback else None),
      end_block = Some gdb_end_callback\<rparr>"

section \<open>The contract of a hook\<close>

text \<open>\<open>holds u r\<close> says that the data \<open>u\<close> stands for the abstract record \<open>r\<close>, \<open>wants\<close> which opcodes are marked
  and \<open>record_mark\<close> what a mark adds. A callback may emit nothing but the label of the mark.\<close>

locale marking_hook =
  fixes cb :: "'u opcode_callback" and holds :: "'u \<Rightarrow> 'r \<Rightarrow> bool"
    and wants :: "'r \<Rightarrow> u16 \<Rightarrow> u16 \<Rightarrow> u8 \<Rightarrow> bool" and record_mark :: "'r \<Rightarrow> nat \<Rightarrow> u16 \<Rightarrow> u16 \<Rightarrow> u8 \<Rightarrow> 'r"
  assumes callback: "holds u r \<Longrightarrow> cb u hc p b = (u', hc') \<Longrightarrow>
      hc' = (if wants r (buxn_jit_hook_get_entry_addr hc) p b then snd (buxn_jit_hook_mark_addr hc) else hc) \<and>
      holds u' (record_mark r (fst (buxn_jit_hook_mark_addr hc)) (buxn_jit_hook_get_entry_addr hc) p b)"
    and unmarked: "\<not> wants r e p b \<Longrightarrow> record_mark r m e p b = r"
begin

text \<open>One opcode, called from \<^verbatim>\<open>buxn_jit_next_opcode\<close>: at most one label is emitted.\<close>

lemma one_opcode:
  assumes "jit_opcode h = Some cb" and "holds (userdata h) r"
  shows "\<exists>u. hook_jit_opcode (Some h) ctx =
      (Some (h\<lparr>userdata := u\<rparr>), if wants r (entry_pc ctx) (pc ctx - 1) (current_opcode ctx) then emit Label ctx else ctx) \<and>
    holds u (record_mark r (length (code ctx)) (entry_pc ctx) (pc ctx - 1) (current_opcode ctx))"
proof -
  let ?hc = "\<lparr>jit_ctx = ctx, current_label = None, hlabels = (\<lambda>_. 0)\<rparr>"
  obtain u hc where c: "cb (userdata h) ?hc (pc ctx - 1) (current_opcode ctx) = (u, hc)" by (metis surj_pair)
  show ?thesis
    using callback [OF assms(2) c] assms(1) c
    by (auto simp: hook_jit_opcode_def buxn_jit_hook_get_entry_addr_def buxn_jit_hook_mark_addr_def emit_label_def)
qed

text \<open>The opcodes of a block, each with the context it is fetched in.\<close>

fun record_all :: "'r \<Rightarrow> buxn_jit_ctx list \<Rightarrow> 'r" where
  "record_all r [] = r"
| "record_all r (ctx # ctxs) =
     record_all (record_mark r (length (code ctx)) (entry_pc ctx) (pc ctx - 1) (current_opcode ctx)) ctxs"

lemma all_opcodes:
  assumes "jit_opcode h = Some cb" and "holds (userdata h) r"
  shows "\<exists>u. fold (\<lambda>ctx hook. fst (hook_jit_opcode hook ctx)) ctxs (Some h) = Some (h\<lparr>userdata := u\<rparr>) \<and>
    holds u (record_all r ctxs)"
  using assms
proof (induction ctxs arbitrary: h r)
  case Nil
  then show ?case by (intro exI [of _ "userdata h"]) simp
next
  case (Cons ctx ctxs)
  obtain u where u: "fst (hook_jit_opcode (Some h) ctx) = Some (h\<lparr>userdata := u\<rparr>)"
    "holds u (record_mark r (length (code ctx)) (entry_pc ctx) (pc ctx - 1) (current_opcode ctx))"
    using one_opcode [OF Cons.prems, of ctx] by fastforce
  then show ?case using Cons.IH [of "h\<lparr>userdata := u\<rparr>"] Cons.prems(1) by simp
qed

end

section \<open>Both hooks keep it\<close>

definition list_holds :: "mapping_list \<Rightarrow> addr_mapping list \<Rightarrow> bool" where
  "list_holds ml ms \<longleftrightarrow> (\<exists>cs ps. mapping_ok ml cs ps \<and> contents ml cs = ms)"

lemma list_holds_append: "list_holds ml ms \<Longrightarrow> list_holds (append_mapping m p ml) (ms @ [\<lparr>mmark = m, maddr = p\<rparr>])"
  using append_mapping_ok by (fastforce simp: list_holds_def)

fun perf_holds :: "hook_data \<Rightarrow> addr_mapping list \<Rightarrow> bool" where
  "perf_holds (Perf_data h) ms \<longleftrightarrow> list_holds (addr_mappings h) ms"
| "perf_holds _ ms \<longleftrightarrow> False"

fun gdb_holds :: "hook_data \<Rightarrow> addr_mapping list \<Rightarrow> bool" where
  "gdb_holds (Gdb_data h w) ms \<longleftrightarrow> list_holds (gdb_mappings h) ms"
| "gdb_holds _ ms \<longleftrightarrow> False"

definition perf_record :: "addr_mapping list \<Rightarrow> nat \<Rightarrow> u16 \<Rightarrow> u16 \<Rightarrow> u8 \<Rightarrow> addr_mapping list" where
  "perf_record ms m e p b = ms @ [\<lparr>mmark = m, maddr = p\<rparr>]"

definition gdb_record :: "addr_mapping list \<Rightarrow> nat \<Rightarrow> u16 \<Rightarrow> u16 \<Rightarrow> u8 \<Rightarrow> addr_mapping list" where
  "gdb_record ms m e p b = (if gdb_records e p b then ms @ [\<lparr>mmark = m, maddr = p\<rparr>] else ms)"

interpretation perf: marking_hook perf_callback perf_holds "\<lambda>_ _ _ _. True" perf_record
  by unfold_locales
    (auto elim!: perf_holds.elims simp: buxn_jit_perf_jit_opcode_def perf_record_def list_holds_append split: prod.splits)

interpretation gdb: marking_hook gdb_callback gdb_holds "\<lambda>_. gdb_records" gdb_record
  by unfold_locales
    (auto elim!: gdb_holds.elims simp: buxn_jit_gdb_jit_opcode_def gdb_record_def list_holds_append
      split: prod.splits if_splits)

section \<open>The composite keeps it\<close>

text \<open>What a hook of the array has recorded, by its kind; a hook without callback records nothing.\<close>

datatype hook_kind = Perf_kind | Gdb_kind | Silent

fun kind_wants :: "hook_kind \<Rightarrow> u16 \<Rightarrow> u16 \<Rightarrow> u8 \<Rightarrow> bool" where
  "kind_wants Perf_kind e p b = True"
| "kind_wants Gdb_kind e p b = gdb_records e p b"
| "kind_wants Silent e p b = False"

fun hook_holds :: "hook_data buxn_jit_hook \<Rightarrow> hook_kind \<times> addr_mapping list \<Rightarrow> bool" where
  "hook_holds h (Perf_kind, ms) \<longleftrightarrow> jit_opcode h = Some perf_callback \<and> perf_holds (userdata h) ms"
| "hook_holds h (Gdb_kind, ms) \<longleftrightarrow> jit_opcode h = Some gdb_callback \<and> gdb_holds (userdata h) ms"
| "hook_holds h (Silent, ms) \<longleftrightarrow> jit_opcode h = None"

definition composite_wants :: "(hook_kind \<times> addr_mapping list) list \<Rightarrow> u16 \<Rightarrow> u16 \<Rightarrow> u8 \<Rightarrow> bool" where
  "composite_wants rs e p b \<longleftrightarrow> (\<exists>(k, ms) \<in> set rs. kind_wants k e p b)"

definition composite_record ::
  "(hook_kind \<times> addr_mapping list) list \<Rightarrow> nat \<Rightarrow> u16 \<Rightarrow> u16 \<Rightarrow> u8 \<Rightarrow> (hook_kind \<times> addr_mapping list) list" where
  "composite_record rs m e p b =
     map (\<lambda>(k, ms). (k, if kind_wants k e p b then ms @ [\<lparr>mmark = m, maddr = p\<rparr>] else ms)) rs"

lemma mark_addr_again [simp]:
  "buxn_jit_hook_mark_addr (snd (buxn_jit_hook_mark_addr hc)) = buxn_jit_hook_mark_addr hc"
  "buxn_jit_hook_get_entry_addr (snd (buxn_jit_hook_mark_addr hc)) = buxn_jit_hook_get_entry_addr hc"
  by (simp_all add: buxn_jit_hook_mark_addr_def buxn_jit_hook_get_entry_addr_def emit_label_def emit_def
      split: option.splits)

text \<open>A hook of the array takes its turn.\<close>

lemma hook_turn:
  assumes "hook_holds h (k, ms)"
  shows "\<exists>u. (case jit_opcode h of
        None \<Rightarrow> (h, hc)
      | Some f \<Rightarrow> (let (u, hc) = f (userdata h) hc p b in (h\<lparr>userdata := u\<rparr>, hc))) =
      (h\<lparr>userdata := u\<rparr>, if kind_wants k (buxn_jit_hook_get_entry_addr hc) p b then snd (buxn_jit_hook_mark_addr hc) else hc) \<and>
    hook_holds (h\<lparr>userdata := u\<rparr>) (k, if kind_wants k (buxn_jit_hook_get_entry_addr hc) p b
      then ms @ [\<lparr>mmark = fst (buxn_jit_hook_mark_addr hc), maddr = p\<rparr>] else ms)"
proof (cases k)
  case Perf_kind
  then have "jit_opcode h = Some perf_callback" "perf_holds (userdata h) ms" using assms by simp_all
  then show ?thesis
    using perf.callback [of "userdata h" ms hc p b] Perf_kind
    by (auto simp: perf_record_def split: prod.splits)
next
  case Gdb_kind
  then have "jit_opcode h = Some gdb_callback" "gdb_holds (userdata h) ms" using assms by simp_all
  then show ?thesis
    using gdb.callback [of "userdata h" ms hc p b] Gdb_kind
    by (auto simp: gdb_record_def split: prod.splits if_splits)
next
  case Silent
  then show ?thesis using assms by (intro exI [of _ "userdata h"]) simp
qed

lemma composite_step:
  assumes "list_all2 hook_holds hooks rs" and "buxn_jit_composite_hook_jit_opcode hooks hc p b = (hooks', hc')"
  shows "hc' = (if composite_wants rs (buxn_jit_hook_get_entry_addr hc) p b then snd (buxn_jit_hook_mark_addr hc) else hc)"
    and "list_all2 hook_holds hooks'
      (composite_record rs (fst (buxn_jit_hook_mark_addr hc)) (buxn_jit_hook_get_entry_addr hc) p b)"
proof -
  have "hc' = (if composite_wants rs (buxn_jit_hook_get_entry_addr hc) p b then snd (buxn_jit_hook_mark_addr hc) else hc) \<and>
    list_all2 hook_holds hooks'
      (composite_record rs (fst (buxn_jit_hook_mark_addr hc)) (buxn_jit_hook_get_entry_addr hc) p b)"
    using assms
  proof (induction hooks rs arbitrary: hc hooks' hc' rule: list_all2_induct)
    case Nil
    then show ?case by (simp add: composite_wants_def composite_record_def)
  next
    case (Cons h hooks r rs)
    obtain k ms where r: "r = (k, ms)" by (cases r)
    let ?w = "kind_wants k (buxn_jit_hook_get_entry_addr hc) p b"
    let ?hc = "if ?w then snd (buxn_jit_hook_mark_addr hc) else hc"
    obtain u where u: "(case jit_opcode h of
          None \<Rightarrow> (h, hc)
        | Some f \<Rightarrow> (let (u, hc) = f (userdata h) hc p b in (h\<lparr>userdata := u\<rparr>, hc))) = (h\<lparr>userdata := u\<rparr>, ?hc)"
      "hook_holds (h\<lparr>userdata := u\<rparr>) (k, if ?w then ms @ [\<lparr>mmark = fst (buxn_jit_hook_mark_addr hc), maddr = p\<rparr>] else ms)"
      using hook_turn [of h k ms hc p b] Cons.hyps(1) r by metis
    obtain hs hc2 where t: "buxn_jit_composite_hook_jit_opcode hooks ?hc p b = (hs, hc2)" by (metis surj_pair)
    have same: "fst (buxn_jit_hook_mark_addr ?hc) = fst (buxn_jit_hook_mark_addr hc)"
      "snd (buxn_jit_hook_mark_addr ?hc) = snd (buxn_jit_hook_mark_addr hc)"
      "buxn_jit_hook_get_entry_addr ?hc = buxn_jit_hook_get_entry_addr hc" by simp_all
    have "hooks' = h\<lparr>userdata := u\<rparr> # hs" "hc' = hc2"
      using Cons.prems u(1) t by simp_all
    then show ?case
      using Cons.IH [OF t, unfolded same] u(2) by (auto simp: r composite_wants_def composite_record_def)
  qed
  then show "hc' = (if composite_wants rs (buxn_jit_hook_get_entry_addr hc) p b then snd (buxn_jit_hook_mark_addr hc) else hc)"
    "list_all2 hook_holds hooks'
      (composite_record rs (fst (buxn_jit_hook_mark_addr hc)) (buxn_jit_hook_get_entry_addr hc) p b)"
    by blast+
qed

interpretation composite: marking_hook buxn_jit_composite_hook_jit_opcode "list_all2 hook_holds" composite_wants composite_record
proof
  show "hc' = (if composite_wants r (buxn_jit_hook_get_entry_addr hc) p b then snd (buxn_jit_hook_mark_addr hc) else hc) \<and>
      list_all2 hook_holds u' (composite_record r (fst (buxn_jit_hook_mark_addr hc)) (buxn_jit_hook_get_entry_addr hc) p b)"
    if "list_all2 hook_holds u r" "buxn_jit_composite_hook_jit_opcode u hc p b = (u', hc')" for u r hc p b u' hc'
    using composite_step [OF that] by blast
  show "composite_record r m e p b = r" if "\<not> composite_wants r e p b" for r m e p b
    using that by (auto simp: composite_wants_def composite_record_def intro!: map_idI)
qed

section \<open>A block under the composite hook\<close>

text \<open>The marks a hook of kind \<open>k\<close> is to have recorded after the opcodes fetched in the contexts \<open>ctxs\<close>.\<close>

definition marks_of :: "hook_kind \<Rightarrow> buxn_jit_ctx list \<Rightarrow> addr_mapping list" where
  "marks_of k ctxs =
     map (\<lambda>ctx. \<lparr>mmark = length (code ctx), maddr = pc ctx - 1\<rparr>)
       (filter (\<lambda>ctx. kind_wants k (entry_pc ctx) (pc ctx - 1) (current_opcode ctx)) ctxs)"

lemma composite_record_all:
  "composite.record_all rs ctxs = map (\<lambda>(k, ms). (k, ms @ marks_of k ctxs)) rs"
  by (induction ctxs arbitrary: rs) (auto simp: marks_of_def composite_record_def)

text \<open>
  C34. Installed together in a composite hook, the hooks do not disturb each other or the compiler: fetching an opcode adds
  at most one label to the code, whatever the number of hooks that mark it, and over the opcodes of a block
  each hook records exactly the opcodes of its kind, in order, at the place of their code.
\<close>

theorem composite_records_block:
  assumes "list_all2 hook_holds hooks rs"
  shows "(\<exists>hooks'. fold (\<lambda>ctx hook. fst (hook_jit_opcode hook ctx)) ctxs (Some (buxn_jit_init_composite_hook hooks)) =
        Some (buxn_jit_init_composite_hook hooks') \<and>
      list_all2 hook_holds hooks' (map (\<lambda>(k, ms). (k, ms @ marks_of k ctxs)) rs)) \<and>
    snd (hook_jit_opcode (Some (buxn_jit_init_composite_hook hooks)) ctx) \<in> {ctx, emit Label ctx}"
proof
  have h: "jit_opcode (buxn_jit_init_composite_hook hooks) = Some buxn_jit_composite_hook_jit_opcode"
    "list_all2 hook_holds (userdata (buxn_jit_init_composite_hook hooks)) rs"
    using assms by (simp_all add: buxn_jit_init_composite_hook_def)
  show "\<exists>hooks'. fold (\<lambda>ctx hook. fst (hook_jit_opcode hook ctx)) ctxs (Some (buxn_jit_init_composite_hook hooks)) =
        Some (buxn_jit_init_composite_hook hooks') \<and>
      list_all2 hook_holds hooks' (map (\<lambda>(k, ms). (k, ms @ marks_of k ctxs)) rs)"
    using composite.all_opcodes [OF h, of ctxs] by (auto simp: composite_record_all buxn_jit_init_composite_hook_def)
  show "snd (hook_jit_opcode (Some (buxn_jit_init_composite_hook hooks)) ctx) \<in> {ctx, emit Label ctx}"
    using composite.one_opcode [OF h, of ctx] by auto
qed

definition example_hooks :: "hook_data buxn_jit_hook list" where
  "example_hooks =
     [gdb_hook (buxn_jit_init_gdb_hook example_chunks None (Some []))
        \<lparr>blk_store = (\<lambda>_. undefined), blk_count = 0, action_flag = JIT_NOACTION, relevant_entry = None,
         first_entry = None, calls = []\<rparr>,
      perf_hook (\<lambda>_. (0, 0, 0)) (\<lambda>_ _. []) (buxn_jit_init_perf_hook True True 62 1 0 example_chunks None (Some []))]"

lemma example_hooks_hold: "list_all2 hook_holds example_hooks [(Gdb_kind, []), (Perf_kind, [])]"
proof -
  have "list_holds (empty_mappings example_chunks) []"
    using example_mappings by (auto simp: list_holds_def contents_def intro!: exI [of _ "[]"])
  then show ?thesis
    by (simp add: example_hooks_def gdb_hook_def perf_hook_def buxn_jit_init_gdb_hook_def buxn_jit_init_perf_hook_def)
qed

text \<open>Two opcodes: the one at the entry is marked by both hooks, the second, an addition, by the perf hook only.\<close>

definition example_fetch :: "u16 \<Rightarrow> buxn_jit_ctx" where
  "example_fetch p =
     (initial_ctx (buxn_jit_init 0x1000 (\<lambda>_. 0x18) (\<lambda>_. 8) True (\<lambda>_. undefined) (\<lambda>_. undefined)) 0 0x100)
       \<lparr>pc := p, current_opcode := 0x18\<rparr>"

theorem composite_records_block_witness:
  "\<exists>hooks. fold (\<lambda>ctx hook. fst (hook_jit_opcode hook ctx)) [example_fetch 0x101, example_fetch 0x102]
        (Some (buxn_jit_init_composite_hook example_hooks)) = Some (buxn_jit_init_composite_hook hooks) \<and>
      list_all2 hook_holds hooks
        [(Gdb_kind, [\<lparr>mmark = 0, maddr = 0x100\<rparr>]),
         (Perf_kind, [\<lparr>mmark = 0, maddr = 0x100\<rparr>, \<lparr>mmark = 0, maddr = 0x101\<rparr>])]"
  using composite_records_block [OF example_hooks_hold, of "[example_fetch 0x101, example_fetch 0x102]"]
  by (simp add: marks_of_def example_fetch_def initial_ctx_def gdb_records_def)

end
