(* ===== verification/Cli.thy ===== *)
theory Cli
  imports Jit_Hook
begin

text \<open>
  The command line driver \<^verbatim>\<open>src/cli.c\<close>: reading the program into memory, feeding the console device, the exit code, and
  the functions the virtual machine calls back. The state \<open>'s\<close> of the virtual machine with its devices is opaque:
  \<open>execute\<close> is \<^verbatim>\<open>buxn_jit_execute\<close>, \<open>None\<close> where the program it runs never returns, \<open>console_init\<close> is
  \<^verbatim>\<open>buxn_console_init\<close> on the zeroed device, \<open>vector\<close> reads the console vector (\<^verbatim>\<open>buxn_vm_dev_load2(vm, 0x10)\<close>), \<open>exit_code\<close> is
  \<^verbatim>\<open>buxn_system_exit_code\<close> and \<open>wants_input\<close> \<^verbatim>\<open>buxn_console_should_send_input\<close>; they come from outside the file. A C string is
  the list of its characters without the final zero. Reading the symbol file is modelled in \<open>Label_Map\<close>.
\<close>

section \<open>The console\<close>

datatype console_type = BUXN_CONSOLE_STDIN | BUXN_CONSOLE_ARG | BUXN_CONSOLE_ARG_SEP | BUXN_CONSOLE_END

record buxn_console =
  ctype :: console_type
  cvalue :: u8
  argc :: nat
  argv :: "u8 list list"

record 's vm_host =
  execute :: "u16 \<Rightarrow> buxn_console \<times> 's \<Rightarrow> (buxn_console \<times> 's) option"
  console_init :: "nat \<Rightarrow> u8 list list \<Rightarrow> 's \<Rightarrow> buxn_console \<times> 's"
  vector :: "'s \<Rightarrow> u16"
  exit_code :: "'s \<Rightarrow> int"
  wants_input :: "'s \<Rightarrow> bool"

definition buxn_console_send_data_jit ::
  "'s vm_host \<Rightarrow> console_type \<Rightarrow> u8 \<Rightarrow> buxn_console \<times> 's \<Rightarrow> (buxn_console \<times> 's) option" where
  "buxn_console_send_data_jit host ty v st =
     (case st of (device, vm) \<Rightarrow> execute host (vector host vm) (device\<lparr>ctype := ty, cvalue := v\<rparr>, vm))"

definition buxn_console_send_input_jit :: "'s vm_host \<Rightarrow> u8 \<Rightarrow> buxn_console \<times> 's \<Rightarrow> (buxn_console \<times> 's) option" where
  "buxn_console_send_input_jit host c st = buxn_console_send_data_jit host BUXN_CONSOLE_STDIN c st"

definition buxn_console_send_input_end_jit :: "'s vm_host \<Rightarrow> buxn_console \<times> 's \<Rightarrow> (buxn_console \<times> 's) option" where
  "buxn_console_send_input_end_jit host st = buxn_console_send_data_jit host BUXN_CONSOLE_END 0 st"

text \<open>The inner loop over one argument, from the character \<^verbatim>\<open>ch\<close> on; the outer loop re-reads the count.\<close>

fun send_arg :: "'s vm_host \<Rightarrow> u8 list \<Rightarrow> buxn_console \<times> 's \<Rightarrow> (buxn_console \<times> 's) option" where
  "send_arg host (ch # chs) st =
     do {
       st \<leftarrow> buxn_console_send_data_jit host BUXN_CONSOLE_ARG ch st;
       send_arg host chs st
     }"
| "send_arg host [] st =
     do {
       st \<leftarrow> (if argc (fst st) = 1 then buxn_console_send_data_jit host BUXN_CONSOLE_END 0x0a st
             else buxn_console_send_data_jit host BUXN_CONSOLE_ARG_SEP 0x0a st);
       Some (case st of (device, vm) \<Rightarrow> (device\<lparr>argc := argc device - 1, argv := tl (argv device)\<rparr>, vm))
     }"

partial_function (option) buxn_console_send_args_jit ::
  "'s vm_host \<Rightarrow> buxn_console \<times> 's \<Rightarrow> (buxn_console \<times> 's) option" where
  "buxn_console_send_args_jit host st =
     (if argc (fst st) > 0 then
        do {
          st \<leftarrow> send_arg host (hd (argv (fst st))) st;
          buxn_console_send_args_jit host st
        }
      else Some st)"

text \<open>The loop over the standard input.\<close>

fun input_loop :: "'s vm_host \<Rightarrow> u8 list \<Rightarrow> buxn_console \<times> 's \<Rightarrow> (buxn_console \<times> 's) option" where
  "input_loop host [] st =
     (if exit_code host (snd st) < 0 \<and> wants_input host (snd st) then buxn_console_send_input_end_jit host st else Some st)"
| "input_loop host (ch # chs) st =
     (if exit_code host (snd st) < 0 \<and> wants_input host (snd st)
      then do {
        st \<leftarrow> buxn_console_send_input_jit host ch st;
        input_loop host chs st
      }
      else Some st)"

section \<open>The program\<close>

definition BUXN_RESET_VECTOR :: nat where
  "BUXN_RESET_VECTOR = 256"

text \<open>Reading in pieces of 1024 bytes while the position is inside the memory of \<open>sz\<close> bytes. \<^verbatim>\<open>fread\<close> delivers a full
  piece unless the file ends. The result \<open>None\<close> is a piece that does not fit, which \<^verbatim>\<open>fread\<close> stores all the same.\<close>

function read_rom :: "nat \<Rightarrow> u8 list \<Rightarrow> nat \<Rightarrow> (nat \<Rightarrow> u8) \<Rightarrow> (nat \<Rightarrow> u8) option" where
  "read_rom sz rom read_pos memory =
     (if read_pos < sz then
        let bytes = take 1024 rom; num_bytes = length bytes in
        if num_bytes = 0 then Some memory
        else if read_pos + num_bytes > sz then None
        else read_rom sz (drop 1024 rom) (read_pos + num_bytes)
               (\<lambda>a. if read_pos \<le> a \<and> a < read_pos + num_bytes then bytes ! (a - read_pos) else memory a)
      else Some memory)"
  by pat_completeness auto
termination by (relation "measure (\<lambda>(sz, rom, read_pos, memory). length rom)") auto

declare read_rom.simps [simp del]

text \<open>The part of \<^verbatim>\<open>boot\<close> from the first instruction to the exit code.\<close>

definition run_program ::
  "'s vm_host \<Rightarrow> u8 list \<Rightarrow> buxn_console \<times> 's \<Rightarrow> (int \<times> buxn_console \<times> 's) option" where
  "run_program host stdin st =
     do {
       st \<leftarrow> execute host 0x100 st;
       if exit_code host (snd st) > 0 then Some (exit_code host (snd st), st)
       else do {
         st \<leftarrow> buxn_console_send_args_jit host st;
         if exit_code host (snd st) > 0 then Some (exit_code host (snd st), st)
         else do {
           st \<leftarrow> input_loop host stdin st;
           let e = exit_code host (snd st);
           Some (if e < 0 then 0 else e, st)
         }
       }
     }"

text \<open>\<^verbatim>\<open>boot\<close>: \<open>load\<close> puts the memory into a fresh machine (\<^verbatim>\<open>buxn_vm_reset\<close>).\<close>

definition boot ::
  "'s vm_host \<Rightarrow> nat \<Rightarrow> ((nat \<Rightarrow> u8) \<Rightarrow> 's) \<Rightarrow> u8 list list \<Rightarrow> u8 list \<Rightarrow> u8 list \<Rightarrow> (int \<times> buxn_console \<times> 's) option" where
  "boot host sz load args rom stdin =
     do {
       memory \<leftarrow> read_rom sz rom BUXN_RESET_VECTOR (\<lambda>_. 0);
       run_program host stdin (console_init host (length args) args (load memory))
     }"

text \<open>\<^verbatim>\<open>main\<close>: the arguments include the name of the command; \<open>open_rom\<close> is \<^verbatim>\<open>fopen\<close> of the rom.\<close>

definition main ::
  "'s vm_host \<Rightarrow> nat \<Rightarrow> ((nat \<Rightarrow> u8) \<Rightarrow> 's) \<Rightarrow> (u8 list \<Rightarrow> u8 list option) \<Rightarrow> u8 list list \<Rightarrow> u8 list \<Rightarrow> int option" where
  "main host sz load open_rom args stdin =
     (if length args < 2 then Some 1
      else case open_rom (args ! 1) of
             None \<Rightarrow> Some 1
           | Some rom \<Rightarrow> map_option fst (boot host sz load (drop 2 args) rom stdin))"

section \<open>Hooks\<close>

text \<open>The debug file: \<open>None\<close> where it cannot be opened, otherwise whether its header and its table are readable, and the
  table.\<close>

definition read_symtab :: "(bool \<times> bool \<times> dbg_sym list) option \<Rightarrow> dbg_sym list option" where
  "read_symtab dbg_file =
     (case dbg_file of
        None \<Rightarrow> None
      | Some (header_ok, table_ok, symbols) \<Rightarrow> if \<not> header_ok then None else if table_ok then Some symbols else None)"

text \<open>The hooks \<^verbatim>\<open>boot\<close> installs, on Linux: gdb first, then perf. Both get the label map and the symbol table.\<close>

definition boot_hooks ::
  "(uw \<Rightarrow> uw \<times> uw \<times> u32) \<Rightarrow> (uw \<Rightarrow> nat \<Rightarrow> u8 list) \<Rightarrow> bool \<Rightarrow> bool \<Rightarrow> u32 \<Rightarrow> u32 \<Rightarrow> uw \<Rightarrow> (nat \<Rightarrow> mapping_chunk) \<Rightarrow>
   buxn_label_map \<Rightarrow> dbg_sym list option \<Rightarrow> gdb_world \<Rightarrow> hook_data buxn_jit_hook list" where
  "boot_hooks now bytes map_opens dump_opens elf_mach pid ts chunks lm symbols w =
     [gdb_hook (buxn_jit_init_gdb_hook chunks (Some lm) symbols) w,
      perf_hook now bytes (buxn_jit_init_perf_hook map_opens dump_opens elf_mach pid ts chunks (Some lm) symbols)]"

text \<open>At the end the code is freed before the gdb entries that name it are unlinked.\<close>

definition shutdown :: "buxn_jit \<Rightarrow> buxn_jit_dbg_hook_data \<Rightarrow> gdb_world \<Rightarrow> (uw list \<times> gdb_world) option" where
  "shutdown j h w =
     do {
       freed \<leftarrow> buxn_jit_cleanup j;
       w \<leftarrow> buxn_jit_cleanup_gdb_hook h w;
       Some (freed, w)
     }"

section \<open>Callbacks of the virtual machine\<close>

text \<open>The handlers of the devices and \<^verbatim>\<open>buxn_device_id\<close> are parameters.\<close>

datatype device_id = BUXN_DEVICE_SYSTEM | BUXN_DEVICE_CONSOLE | BUXN_DEVICE_DATETIME | Other_device u8

record 's devices =
  device_of :: "u8 \<Rightarrow> device_id"
  system_dei :: "'s \<Rightarrow> u8 \<Rightarrow> u8 \<times> 's"
  system_deo :: "'s \<Rightarrow> u8 \<Rightarrow> 's"
  console_dei :: "'s \<Rightarrow> u8 \<Rightarrow> u8 \<times> 's"
  console_deo :: "'s \<Rightarrow> u8 \<Rightarrow> 's"
  datetime_dei :: "'s \<Rightarrow> u8 \<Rightarrow> u8 \<times> 's"
  device_page :: "'s \<Rightarrow> u8 \<Rightarrow> u8"

definition buxn_vm_dei :: "'s devices \<Rightarrow> 's \<Rightarrow> u8 \<Rightarrow> u8 \<times> 's" where
  "buxn_vm_dei d vm address =
     (case device_of d address of
        BUXN_DEVICE_SYSTEM \<Rightarrow> system_dei d vm address
      | BUXN_DEVICE_CONSOLE \<Rightarrow> console_dei d vm address
      | BUXN_DEVICE_DATETIME \<Rightarrow> datetime_dei d vm address
      | Other_device _ \<Rightarrow> (device_page d vm address, vm))"

definition buxn_vm_deo :: "'s devices \<Rightarrow> 's \<Rightarrow> u8 \<Rightarrow> 's" where
  "buxn_vm_deo d vm address =
     (case device_of d address of
        BUXN_DEVICE_SYSTEM \<Rightarrow> system_deo d vm address
      | BUXN_DEVICE_CONSOLE \<Rightarrow> console_deo d vm address
      | _ \<Rightarrow> vm)"

text \<open>\<^verbatim>\<open>buxn_system_debug\<close>: the text it prints, \<open>w_len\<close> and \<open>r_len\<close> bytes of the stacks in hexadecimal.\<close>

definition upper_hex :: "nat \<Rightarrow> u8" where
  "upper_hex n = word_of_nat (if n < 10 then 0x30 + n else 0x37 + n)"

definition stack_line :: "u8 list \<Rightarrow> u8 \<Rightarrow> (u8 \<Rightarrow> u8) \<Rightarrow> u8 list" where
  "stack_line name sp stack =
     name @ concat (map (\<lambda>i. let b = stack (word_of_nat i) in
       [0x20, upper_hex (unat b div 16), upper_hex (unat b mod 16)]) [0..<unat sp]) @ [0x0a]"

definition buxn_system_debug :: "u8 \<Rightarrow> (u8 \<Rightarrow> u8) \<Rightarrow> u8 \<Rightarrow> (u8 \<Rightarrow> u8) \<Rightarrow> u8 \<Rightarrow> u8 list" where
  "buxn_system_debug w_len ws r_len rs v =
     (if v = 0 then [] else stack_line [0x57, 0x53, 0x54] w_len ws @ stack_line [0x52, 0x53, 0x54] r_len rs)"

section \<open>Loading the program\<close>

definition blit :: "nat \<Rightarrow> u8 list \<Rightarrow> (nat \<Rightarrow> u8) \<Rightarrow> nat \<Rightarrow> u8" where
  "blit pos bytes memory = (\<lambda>a. if pos \<le> a \<and> a < pos + length bytes then bytes ! (a - pos) else memory a)"

lemma blit_Nil [simp]: "blit pos [] memory = memory"
  by (auto simp: blit_def fun_eq_iff)

lemma blit_append: "blit (pos + length xs) ys (blit pos xs memory) = blit pos (xs @ ys) memory"
  by (auto simp: blit_def fun_eq_iff nth_append)

lemma read_rom_step:
  "read_rom sz rom pos memory =
     (if pos < sz \<and> rom \<noteq> [] then
        if sz < pos + min 1024 (length rom) then None
        else read_rom sz (drop 1024 rom) (pos + min 1024 (length rom)) (blit pos (take 1024 rom) memory)
      else Some memory)"
  by (subst read_rom.simps) (auto simp: Let_def blit_def min.commute)

lemma read_rom_Nil [simp]: "read_rom sz [] pos memory = Some memory"
  by (subst read_rom.simps) simp

text \<open>Whatever its length, a program that fits is copied; one that does not is stored beyond the end of the memory unless a
  piece ends exactly there.\<close>

lemma read_rom_result:
  assumes "pos \<le> sz"
  shows "read_rom sz rom pos memory =
    (if pos + length rom \<le> sz then Some (blit pos rom memory)
     else if (sz - pos) mod 1024 = 0 then Some (blit pos (take (sz - pos) rom) memory)
     else None)"
  using assms
proof (induction rom arbitrary: pos memory rule: length_induct)
  case (1 rom)
  consider (stop) "rom = [] \<or> pos = sz" | (last) "pos < sz" "rom \<noteq> []" "length rom \<le> 1024"
    | (over) "pos < sz" "1024 < length rom" "sz < pos + 1024" | (piece) "1024 < length rom" "pos + 1024 \<le> sz"
    using "1.prems" by fastforce
  then show ?case
  proof cases
    case stop
    then show ?thesis using "1.prems" by (subst read_rom_step) auto
  next
    case last
    have "(sz - pos) mod 1024 \<noteq> 0" if "sz < pos + length rom"
    proof -
      have "sz - pos < 1024" using that last(3) by linarith
      then show ?thesis using last(1) by simp
    qed
    then show ?thesis
      using last by (subst read_rom_step) (auto simp: min_def)
  next
    case over
    have "(sz - pos) mod 1024 = sz - pos" using over(3) by (intro mod_less) linarith
    then show ?thesis using over by (subst read_rom_step) (auto simp: min_def)
  next
    case piece
    have m: "(sz - pos) mod 1024 = (sz - (pos + 1024)) mod 1024"
      using piece(2) le_mod_geq [of 1024 "sz - pos"] by simp
    have t: "take 1024 rom @ take (sz - (pos + 1024)) (drop 1024 rom) = take (sz - pos) rom"
      using piece(2) take_add [of 1024 "sz - (pos + 1024)" rom] by simp
    have b: "blit (pos + 1024) ys (blit pos (take 1024 rom) memory) = blit pos (take 1024 rom @ ys) memory" for ys
      using piece(1) blit_append [of pos "take 1024 rom" ys memory] by (simp add: min_def)
    have "read_rom sz rom pos memory = read_rom sz (drop 1024 rom) (pos + 1024) (blit pos (take 1024 rom) memory)"
      using piece by (subst read_rom_step) (auto simp: min_def)
    also have "\<dots> =
      (if pos + 1024 + length (drop 1024 rom) \<le> sz
       then Some (blit (pos + 1024) (drop 1024 rom) (blit pos (take 1024 rom) memory))
       else if (sz - (pos + 1024)) mod 1024 = 0
       then Some (blit (pos + 1024) (take (sz - (pos + 1024)) (drop 1024 rom)) (blit pos (take 1024 rom) memory))
       else None)"
      using "1.IH" piece by simp
    finally show ?thesis using piece(1) by (simp add: m t b)
  qed
qed

text \<open>
  C36. A program that fits behind the reset vector is in memory, byte for byte, when the loop ends, and the rest of the
  memory is untouched. A longer one is stored beyond the end of the memory, for the memory sizes whose
  part behind the reset vector is not a multiple of the piece size, among them every multiple of 64 KiB.
\<close>

theorem read_rom_bounds:
  assumes "BUXN_RESET_VECTOR \<le> sz" and "(sz - BUXN_RESET_VECTOR) mod 1024 \<noteq> 0"
  shows "read_rom sz rom BUXN_RESET_VECTOR memory =
    (if length rom \<le> sz - BUXN_RESET_VECTOR
     then Some (\<lambda>a. if BUXN_RESET_VECTOR \<le> a \<and> a < BUXN_RESET_VECTOR + length rom
                    then rom ! (a - BUXN_RESET_VECTOR) else memory a)
     else None)"
  using assms by (auto simp: read_rom_result blit_def)

theorem read_rom_bounds_witness:
  "read_rom 65536 (replicate 65281 1) BUXN_RESET_VECTOR (\<lambda>_. 0) = None"
  using read_rom_bounds [of 65536 "replicate 65281 1" "\<lambda>_. 0"] by (simp add: BUXN_RESET_VECTOR_def)

section \<open>What the program is sent\<close>

text \<open>The arguments and the input as the events of the console device.\<close>

fun arg_events :: "u8 list list \<Rightarrow> (console_type \<times> u8) list" where
  "arg_events [] = []"
| "arg_events [a] = map (Pair BUXN_CONSOLE_ARG) a @ [(BUXN_CONSOLE_END, 0x0a)]"
| "arg_events (a # b # as) = map (Pair BUXN_CONSOLE_ARG) a @ (BUXN_CONSOLE_ARG_SEP, 0x0a) # arg_events (b # as)"

definition input_events :: "u8 list \<Rightarrow> (console_type \<times> u8) list" where
  "input_events stdin = map (Pair BUXN_CONSOLE_STDIN) stdin @ [(BUXN_CONSOLE_END, 0)]"

text \<open>What is known of the running program: it sees the type and the value of the event, may fail to return, and when it
  returns has not changed the console device.\<close>

definition runs_as :: "'s vm_host \<Rightarrow> (u16 \<Rightarrow> console_type \<Rightarrow> u8 \<Rightarrow> 's \<Rightarrow> 's option) \<Rightarrow> bool" where
  "runs_as host f \<longleftrightarrow> (\<forall>a c vm. execute host a (c, vm) = map_option (Pair c) (f a (ctype c) (cvalue c) vm))"

text \<open>The events one after the other; \<open>deliver_while\<close> stops where the program has set its exit code or wants no input.\<close>

fun deliver ::
  "'s vm_host \<Rightarrow> (u16 \<Rightarrow> console_type \<Rightarrow> u8 \<Rightarrow> 's \<Rightarrow> 's option) \<Rightarrow> (console_type \<times> u8) list \<Rightarrow> 's \<Rightarrow> 's option" where
  "deliver host f [] vm = Some vm"
| "deliver host f ((ty, v) # evs) vm = do { vm \<leftarrow> f (vector host vm) ty v vm; deliver host f evs vm }"

fun deliver_while ::
  "'s vm_host \<Rightarrow> (u16 \<Rightarrow> console_type \<Rightarrow> u8 \<Rightarrow> 's \<Rightarrow> 's option) \<Rightarrow> (console_type \<times> u8) list \<Rightarrow> 's \<Rightarrow> 's option" where
  "deliver_while host f [] vm = Some vm"
| "deliver_while host f ((ty, v) # evs) vm =
     (if exit_code host vm < 0 \<and> wants_input host vm
      then do { vm \<leftarrow> f (vector host vm) ty v vm; deliver_while host f evs vm } else Some vm)"

lemma deliver_append: "deliver host f (xs @ ys) vm = do { vm \<leftarrow> deliver host f xs vm; deliver host f ys vm }"
  by (induction host f xs vm rule: deliver.induct) (auto simp: bind_eq_None_conv split: Option.bind_splits)

lemma send_data_runs:
  "runs_as host f \<Longrightarrow> buxn_console_send_data_jit host ty v (c, vm) =
    map_option (Pair (c\<lparr>ctype := ty, cvalue := v\<rparr>)) (f (vector host vm) ty v vm)"
  by (simp add: buxn_console_send_data_jit_def runs_as_def)

text \<open>What the driver loops leave in the virtual machine, whatever they do to the console device.\<close>

lemma send_arg_runs:
  assumes "runs_as host f"
  shows "\<exists>c'. send_arg host a (c, vm) = map_option (Pair c') (deliver host f (map (Pair BUXN_CONSOLE_ARG) a @
      [(if argc c = 1 then BUXN_CONSOLE_END else BUXN_CONSOLE_ARG_SEP, 0x0a)]) vm) \<and>
    argc c' = argc c - 1 \<and> argv c' = tl (argv c)"
proof (induction a arbitrary: c vm)
  case Nil
  then show ?case
    by (intro exI [of _ "c\<lparr>ctype := if argc c = 1 then BUXN_CONSOLE_END else BUXN_CONSOLE_ARG_SEP, cvalue := 0x0a,
          argc := argc c - 1, argv := tl (argv c)\<rparr>"])
      (auto simp: send_data_runs [OF assms] split: Option.bind_splits)
next
  case (Cons ch chs)
  show ?case
  proof (cases "f (vector host vm) BUXN_CONSOLE_ARG ch vm")
    case None
    then show ?thesis
      by (intro exI [of _ "c\<lparr>argc := argc c - 1, argv := tl (argv c)\<rparr>"]) (simp add: send_data_runs [OF assms])
  next
    case (Some vm')
    then show ?thesis
      using Cons.IH [of "c\<lparr>ctype := BUXN_CONSOLE_ARG, cvalue := ch\<rparr>" vm'] by (simp add: send_data_runs [OF assms])
  qed
qed

lemma send_args_runs:
  assumes "runs_as host f" and "argc c = length (argv c)"
  shows "\<exists>c'. buxn_console_send_args_jit host (c, vm) = map_option (Pair c') (deliver host f (arg_events (argv c)) vm) \<and>
    argc c' = 0 \<and> argv c' = []"
  using assms(2)
proof (induction "argv c" arbitrary: c vm)
  case Nil
  then show ?case by (auto simp: buxn_console_send_args_jit.simps [of host "(c, vm)"])
next
  case (Cons a as)
  let ?evs = "map (Pair BUXN_CONSOLE_ARG) a @ [(if argc c = 1 then BUXN_CONSOLE_END else BUXN_CONSOLE_ARG_SEP, 0x0a)]"
  obtain c1 where c1: "send_arg host a (c, vm) = map_option (Pair c1) (deliver host f ?evs vm)"
    "argc c1 = argc c - 1" "argv c1 = tl (argv c)"
    using send_arg_runs [OF assms(1), of a c vm] by blast
  have v: "argv c = a # as" by (rule Cons.hyps(2) [symmetric])
  have n: "as = argv c1" "argc c1 = length (argv c1)" using c1(2,3) Cons.prems v by simp_all
  have e: "arg_events (argv c) = ?evs @ arg_events as"
    using Cons.prems v by (cases as) simp_all
  have s: "buxn_console_send_args_jit host (c, vm) =
      do { st \<leftarrow> send_arg host a (c, vm); buxn_console_send_args_jit host st }"
    using Cons.prems v by (subst buxn_console_send_args_jit.simps) simp
  show ?case
  proof (cases "deliver host f ?evs vm")
    case None
    then show ?thesis
      unfolding s e c1(1) deliver_append [of host f ?evs "arg_events as"] None
      by (intro exI [of _ "c\<lparr>argc := 0, argv := []\<rparr>"]) simp
  next
    case (Some vm1)
    obtain c2 where c2: "argc c2 = 0" "argv c2 = []"
      "buxn_console_send_args_jit host (c1, vm1) = map_option (Pair c2) (deliver host f (arg_events as) vm1)"
      using Cons.hyps(1) [OF n] n(1) by metis
    then show ?thesis
      unfolding s e c1(1) deliver_append [of host f ?evs "arg_events as"] Some by (intro exI [of _ c2]) simp
  qed
qed

lemma input_loop_runs:
  assumes "runs_as host f"
  shows "map_option snd (input_loop host stdin (c, vm)) = deliver_while host f (input_events stdin) vm"
  by (induction stdin arbitrary: c vm)
    (auto simp: input_events_def buxn_console_send_input_jit_def buxn_console_send_input_end_jit_def send_data_runs [OF assms]
      option.map_comp comp_def split: Option.bind_splits)

text \<open>
  C35. For a program whose executions see the event in the console device, leave the device as it is and may or may not
  return, and a device that holds as many arguments as it counts: the driver runs the program from its reset vector; unless
  it stopped with a positive exit code it is sent every character of the arguments, separated and ended as
  the console device prescribes; unless that stopped it, it gets the input character by character, and the end of
  the input, while it wants input and has set no exit code. The driver returns exactly when each of these executions
  returns, and then reports the exit code the program set, 0 when it set none.
\<close>

theorem run_program_delivers:
  assumes "runs_as host f" and "argc c = length (argv c)"
  shows "map_option (\<lambda>(e, c', vm'). (e, vm')) (run_program host stdin (c, vm)) =
    do {
      vm1 \<leftarrow> f 0x100 (ctype c) (cvalue c) vm;
      vm2 \<leftarrow> (if 0 < exit_code host vm1 then Some vm1 else deliver host f (arg_events (argv c)) vm1);
      vm3 \<leftarrow> (if 0 < exit_code host vm2 then Some vm2 else deliver_while host f (input_events stdin) vm2);
      Some (max 0 (exit_code host vm3), vm3)
    }"
proof (cases "f 0x100 (ctype c) (cvalue c) vm")
  case None
  then show ?thesis using assms(1) by (simp add: run_program_def runs_as_def)
next
  case (Some vm1)
  then have 1: "execute host 0x100 (c, vm) = Some (c, vm1)" using assms(1) by (simp add: runs_as_def)
  obtain c2 where 2: "buxn_console_send_args_jit host (c, vm1) = map_option (Pair c2) (deliver host f (arg_events (argv c)) vm1)"
    using send_args_runs [OF assms] by blast
  have 3: "map_option (\<lambda>(e, c', vm'). (e, vm')) (do { st \<leftarrow> input_loop host stdin (c2, vm2);
        let e = exit_code host (snd st); Some (if e < 0 then 0 else e, st) }) =
      do { vm3 \<leftarrow> deliver_while host f (input_events stdin) vm2; Some (max 0 (exit_code host vm3), vm3) }" for vm2
    unfolding input_loop_runs [OF assms(1), of stdin c2 vm2, symmetric]
    by (cases "input_loop host stdin (c2, vm2)") (auto simp: Let_def)
  show ?thesis
    using 3 by (cases "deliver host f (arg_events (argv c)) vm1") (auto simp: run_program_def 1 2 Some)
qed

text \<open>A program that only takes down what it is sent, in reverse, wants input until a zero arrives, and does not return from
  a character 13.\<close>

definition example_host :: "(console_type \<times> u8) list vm_host" where
  "example_host = \<lparr>execute = (\<lambda>a (c, evs). if cvalue c = 13 then None else Some (c, (ctype c, cvalue c) # evs)),
     console_init = (\<lambda>n as evs. (\<lparr>ctype = BUXN_CONSOLE_STDIN, cvalue = 0, argc = n, argv = as\<rparr>, evs)), vector = (\<lambda>_. 0x200),
     exit_code = (\<lambda>evs. if hd evs = (BUXN_CONSOLE_STDIN, 0) then 0 else -1), wants_input = (\<lambda>_. True)\<rparr>"

theorem run_program_delivers_witness:
  "map_option (\<lambda>(e, c, vm). (e, vm)) (run_program example_host [7, 0, 9]
      (\<lparr>ctype = BUXN_CONSOLE_STDIN, cvalue = 1, argc = 2, argv = [[5], [6]]\<rparr>, [])) =
    Some (0, [(BUXN_CONSOLE_STDIN, 0), (BUXN_CONSOLE_STDIN, 7), (BUXN_CONSOLE_END, 10), (BUXN_CONSOLE_ARG, 6),
      (BUXN_CONSOLE_ARG_SEP, 10), (BUXN_CONSOLE_ARG, 5), (BUXN_CONSOLE_STDIN, 1)]) \<and>
   run_program example_host [7, 13, 9] (\<lparr>ctype = BUXN_CONSOLE_STDIN, cvalue = 1, argc = 0, argv = []\<rparr>, []) = None"
proof -
  have "runs_as example_host (\<lambda>a ty v evs. if v = 13 then None else Some ((ty, v) # evs))"
    by (simp add: runs_as_def example_host_def)
  from run_program_delivers [where c = "\<lparr>ctype = BUXN_CONSOLE_STDIN, cvalue = 1, argc = 2, argv = [[5], [6]]\<rparr>"
      and vm = "[]" and stdin = "[7, 0, 9]", OF this]
    run_program_delivers [where c = "\<lparr>ctype = BUXN_CONSOLE_STDIN, cvalue = 1, argc = 0, argv = []\<rparr>"
      and vm = "[]" and stdin = "[7, 13, 9]", OF this]
  show ?thesis by (simp add: example_host_def input_events_def)
qed

section \<open>The hooks keep their contract from the start\<close>

lemma boot_hooks_hold:
  assumes "\<forall>c. length (mappings (chunks c)) = BUXN_JIT_MAPPING_CHUNK_SIZE"
  shows "list_all2 hook_holds (boot_hooks now bytes m d em pid ts chunks lm symbols w)
    (if symbols = None then [(Silent, []), (Silent, [])] else [(Gdb_kind, []), (Perf_kind, [])])"
proof -
  have "list_holds (empty_mappings chunks) []"
    using mapping_ok_empty [OF assms] by (auto simp: list_holds_def contents_def intro!: exI [of _ "[]"])
  then show ?thesis
    by (simp add: boot_hooks_def gdb_hook_def perf_hook_def buxn_jit_init_gdb_hook_def buxn_jit_init_perf_hook_def)
qed

end
