(* ===== verification/Registers.thy ===== *)
theory Registers
  imports Sim_Step
begin

text \<open>
  The assertions of the compiler (\<^verbatim>\<open>BUXN_JIT_ASSERT\<close> of \<^verbatim>\<open>src/jit.c\<close>) about operand registers. \<open>regs_ok ctx held\<close>
  says that the reference count of every operand register is the number of cached operands in it plus the
  number of times the running handler holds it. Under it no operation of the stack cache fails while the handler
  holds few enough registers, whatever the mode of the opcode and whatever the two pointers of a shadow stack
  are; every operation says which registers the handler holds afterwards.
\<close>

definition regs_ok :: "buxn_jit_ctx \<Rightarrow> sreg list \<Rightarrow> bool" where
  "regs_ok ctx held \<longleftrightarrow> shape_ok ctx \<and> refs_ok ctx held"

text \<open>What \<open>regs_ok\<close> looks at.\<close>

definition same_regs :: "buxn_jit_ctx \<Rightarrow> buxn_jit_ctx \<Rightarrow> bool" where
  "same_regs ctx ctx' \<longleftrightarrow>
     wst_cache ctx' = wst_cache ctx \<and> rst_cache ctx' = rst_cache ctx \<and> reg_ref_counts ctx' = reg_ref_counts ctx"

lemma regs_ok_cong: "same_regs ctx ctx' \<Longrightarrow> regs_ok ctx' held = regs_ok ctx held"
  by (simp add: regs_ok_def same_regs_def shape_ok_def refs_ok_def cached_regs_def ops_all_def act_def cache_of_def)

lemma regs_ok_simps [simp]:
  "regs_ok (emit i ctx) held = regs_ok ctx held"
  "regs_ok (emit_all is ctx) held = regs_ok ctx held"
  "regs_ok (set_label j l ctx) held = regs_ok ctx held"
  "regs_ok (buxn_jit_set_mem_base f ctx) held = regs_ok ctx held"
  "regs_ok (buxn_jit_do_push v r ctx) held = regs_ok ctx held"
  "regs_ok (set_esp r p ctx) held = regs_ok ctx held"
  "regs_ok (ctx\<lparr>mem_base := b\<rparr>) held = regs_ok ctx held"
  "regs_ok (ctx\<lparr>pc := a\<rparr>) held = regs_ok ctx held"
  "regs_ok (ctx\<lparr>call_fallback := l\<rparr>) held = regs_ok ctx held"
  "regs_ok (ctx\<lparr>current_opcode := i8\<rparr>) held = regs_ok ctx held"
  "regs_ok (ctx\<lparr>compiler := on\<rparr>) held = regs_ok ctx held"
  "regs_ok (ctx\<lparr>jit := j8\<rparr>) held = regs_ok ctx held"
  "regs_ok (ctx\<lparr>wsp := sp\<rparr>) held = regs_ok ctx held"
  "regs_ok (ctx\<lparr>rsp := sp\<rparr>) held = regs_ok ctx held"
  "regs_ok (ctx\<lparr>wst := st\<rparr>) held = regs_ok ctx held"
  "regs_ok (ctx\<lparr>rst := st\<rparr>) held = regs_ok ctx held"
  "regs_ok (ctx\<lparr>wsp_reg := q1\<rparr>) held = regs_ok ctx held"
  "regs_ok (ctx\<lparr>rsp_reg := q1\<rparr>) held = regs_ok ctx held"
  "regs_ok (ctx\<lparr>eshadow := on\<rparr>) held = regs_ok ctx held"
  "regs_ok (ctx\<lparr>shadow_wsp := sp\<rparr>) held = regs_ok ctx held"
  "regs_ok (ctx\<lparr>shadow_rsp := sp\<rparr>) held = regs_ok ctx held"
  by (rule regs_ok_cong; simp add: same_regs_def emit_def emit_all_eq set_label_def buxn_jit_set_mem_base_def
      buxn_jit_do_push_def set_esp_def Let_def)+

lemma regs_okD: "regs_ok ctx held \<Longrightarrow> shape_ok ctx" "regs_ok ctx held \<Longrightarrow> refs_ok ctx held"
  by (simp_all add: regs_ok_def)

lemma regs_ok_mset: "regs_ok ctx held \<Longrightarrow> mset held' = mset held \<Longrightarrow> regs_ok ctx held'"
  using refs_ok_mset [of ctx held ctx held'] by (simp add: regs_ok_def)

lemma regs_ok_op: "regs_ok ctx held \<Longrightarrow> q \<in> set held \<Longrightarrow> op_reg q"
  by (simp add: regs_ok_def refs_ok_def)

section \<open>Counting references\<close>

lemma release_ok:
  assumes "regs_ok ctx (q # held)"
  shows "\<exists>ctx'. buxn_jit_release_reg q ctx = Some ctx' \<and> regs_ok ctx' held"
proof -
  obtain i where i: "i < 6" "q = R (3 + i)" using regs_ok_op [OF assms] by (auto simp: op_reg_iff)
  let ?c = "ctx\<lparr>reg_ref_counts := (reg_ref_counts ctx)[i := reg_ref_counts ctx ! i - 1]\<rparr>"
  have len: "length (reg_ref_counts ctx) = 6" using regs_okD(1) [OF assms] by (simp add: shape_ok_def)
  have "count_list (cached_regs ctx @ q # held) q = reg_ref_counts ctx ! i"
    using regs_okD(2) [OF assms] i(1) unfolding refs_ok_def i(2) by blast
  then have "0 < reg_ref_counts ctx ! i" by simp
  from release_reg_ok [OF i(1) this] have "buxn_jit_release_reg q ctx = Some ?c" using i(2) by simp
  moreover have "cached_regs ?c = cached_regs ctx" by (simp add: cached_regs_def ops_all_def act_def)
  then have "refs_ok ?c held"
    using i by (intro refs_ok_release [OF len _ i(1) _ regs_okD(2) [OF assms]]) simp_all
  moreover have "shape_ok ?c" using regs_okD(1) [OF assms] by (simp add: shape_ok_def)
  ultimately show ?thesis by (simp add: regs_ok_def)
qed

lemma retain_regs:
  assumes "regs_ok ctx held" and "op_reg q"
  shows "\<exists>ctx'. buxn_jit_retain_reg q ctx = Some ctx' \<and> regs_ok ctx' (q # held)"
  using retain_ok [OF regs_okD [OF assms(1)] assms(2)] by (metis regs_ok_def)

text \<open>Taking the top cell off hands its register to the handler; changing the width of a cell hands nothing.\<close>

lemma cached_regs_set_cache:
  assumes "take (clen c) (map (\<lambda>x. oreg (cval x)) (cells c)) = map (\<lambda>x. oreg (cval x)) (act r ctx)"
  shows "cached_regs (set_cache r c ctx) = cached_regs ctx"
  using assms by (cases r) (simp_all add: cached_regs_def ops_all_def act_def set_cache_def cache_of_def comp_def take_map)

lemma act_last:
  assumes "shape_ok ctx" and "clen (cache_of r ctx) \<noteq> 0"
  obtains cs where "act r ctx = cs @ [cells (cache_of r ctx) ! (clen (cache_of r ctx) - 1)]"
    and "clen (cache_of r ctx) - 1 = length cs"
proof -
  have "act r ctx \<noteq> []" using act_empty [OF assms(1)] assms(2) by simp
  then have a: "act r ctx = butlast (act r ctx) @ [last (act r ctx)]" by simp
  note sn = act_snoc [OF assms(1) a]
  show ?thesis
  proof (rule that)
    show "clen (cache_of r ctx) - 1 = length (butlast (act r ctx))" using sn(1) by simp
    then show "act r ctx = butlast (act r ctx) @ [cells (cache_of r ctx) ! (clen (cache_of r ctx) - 1)]"
      using sn(2) a by simp
  qed
qed

lemma drop_top_regs:
  assumes "regs_ok ctx held" and "clen (cache_of r ctx) \<noteq> 0"
  shows "regs_ok (set_cache r ((cache_of r ctx)\<lparr>clen := clen (cache_of r ctx) - 1\<rparr>) ctx)
    (oreg (cval (cells (cache_of r ctx) ! (clen (cache_of r ctx) - 1))) # held)"
proof -
  let ?ca = "cache_of r ctx"
  let ?c' = "set_cache r (?ca\<lparr>clen := clen ?ca - 1\<rparr>) ctx" and ?v = "cval (cells ?ca ! (clen ?ca - 1))"
  obtain cs where a: "act r ctx = cs @ [cells ?ca ! (clen ?ca - 1)]" and n: "clen ?ca - 1 = length cs"
    by (rule act_last [OF regs_okD(1) [OF assms(1)] assms(2)])
  have "shape_ok (set_cache r (?ca\<lparr>cells := cells ?ca, clen := clen ?ca - 1\<rparr>) ctx)"
    by (rule shape_ok_cells [OF regs_okD(1) [OF assms(1)]]) simp_all
  then have sh: "shape_ok ?c'" by simp
  have a': "take (clen ?ca - 1) (cells ?ca) = cs"
    using act_snoc(3) [OF regs_okD(1) [OF assms(1)] a] n by simp
  have "mset (cached_regs ctx) = mset (oreg ?v # cached_regs ?c')"
    unfolding mset_cached [of _ r] mset.simps using a' by (simp add: ops_all_def a)
  then have "refs_ok ?c' (oreg ?v # held)"
    by (intro refs_ok_mset [OF regs_okD(2) [OF assms(1)]]) simp_all
  with sh show ?thesis by (simp add: regs_ok_def)
qed

lemma set_width_regs:
  assumes "regs_ok ctx held"
  shows "regs_ok (set_cache r ((cache_of r ctx)\<lparr>cells := (cells (cache_of r ctx))
      [i := (cells (cache_of r ctx) ! i)\<lparr>cval := (cval (cells (cache_of r ctx) ! i))\<lparr>is_short := s\<rparr>\<rparr>]\<rparr>) ctx) held"
    (is "regs_ok ?c' held")
proof -
  let ?ca = "cache_of r ctx"
  define cs where "cs = (cells ?ca)[i := (cells ?ca ! i)\<lparr>cval := (cval (cells ?ca ! i))\<lparr>is_short := s\<rparr>\<rparr>]"
  have "map (\<lambda>x. oreg (cval x)) cs = map (\<lambda>x. oreg (cval x)) (cells ?ca)"
    by (cases "i < length (cells ?ca)") (auto simp: cs_def nth_list_update list_update_beyond intro!: nth_equalityI)
  then have cr: "cached_regs (set_cache r (?ca\<lparr>cells := cs\<rparr>) ctx) = cached_regs ctx"
    by (intro cached_regs_set_cache) (simp add: act_def take_map)
  have "shape_ok (set_cache r (?ca\<lparr>cells := cs, clen := clen ?ca\<rparr>) ctx)"
    by (rule shape_ok_cells [OF regs_okD(1) [OF assms]]) (simp_all add: cs_def)
  then have "shape_ok (set_cache r (?ca\<lparr>cells := cs\<rparr>) ctx)" by simp
  moreover have "refs_ok (set_cache r (?ca\<lparr>cells := cs\<rparr>) ctx) held"
    by (rule refs_ok_mset [OF regs_okD(2) [OF assms]]) (simp_all add: cr)
  ultimately show ?thesis unfolding regs_ok_def cs_def by simp
qed

section \<open>Spilling and allocating\<close>

lemma spill_regs:
  assumes "regs_ok ctx held"
  shows "\<exists>ok ctx'. buxn_jit_stack_cache_spill r ctx = Some (ok, ctx') \<and> regs_ok ctx' held"
proof (cases "clen (cache_of r ctx) = 0")
  case True
  then show ?thesis using assms by (auto simp: spill_empty)
next
  case False
  then show ?thesis using spill_static [OF regs_okD [OF assms] False] by (metis regs_ok_def)
qed

lemma clear_regs:
  assumes "regs_ok ctx held"
  shows "\<exists>ctx'. buxn_jit_stack_cache_clear r ctx = Some ctx' \<and> regs_ok ctx' held"
  using assms
proof (induction "clen (cache_of r ctx)" arbitrary: ctx rule: less_induct)
  case less
  obtain ok c where sp: "buxn_jit_stack_cache_spill r ctx = Some (ok, c)" "regs_ok c held"
    using spill_regs [OF less.prems] by blast
  show ?case
  proof (cases ok)
    case True
    then have "clen (cache_of r c) < clen (cache_of r ctx)" using spill_result(1,3) [OF sp(1)] by auto
    from less.hyps [OF this sp(2)] show ?thesis
      using sp(1) True by (simp add: buxn_jit_stack_cache_clear.simps [of r ctx])
  qed (use sp in \<open>simp add: buxn_jit_stack_cache_clear.simps [of r ctx]\<close>)
qed

lemma clear_caches_regs:
  assumes "regs_ok ctx held"
  shows "\<exists>ctx'. buxn_jit_clear_stack_caches ctx = Some ctx' \<and> regs_ok ctx' held"
proof -
  obtain c where c: "buxn_jit_stack_cache_clear False ctx = Some c" "regs_ok c held"
    using clear_regs [OF assms] by blast
  then show ?thesis using clear_regs [OF c(2), of True] by (simp add: buxn_jit_clear_stack_caches_def)
qed

lemma spill_any_regs:
  assumes "regs_ok ctx held"
  shows "\<exists>ctx'. spill_any ctx = Some ctx' \<and> regs_ok ctx' held"
proof -
  obtain ok c where c: "buxn_jit_stack_cache_spill (buxn_jit_op_flag_r ctx) ctx = Some (ok, c)" "regs_ok c held"
    using spill_regs [OF assms] by blast
  obtain ok' c' where "buxn_jit_stack_cache_spill (\<not> buxn_jit_op_flag_r ctx) c = Some (ok', c')" "regs_ok c' held"
    using spill_regs [OF c(2)] by blast
  then show ?thesis using c by (simp add: spill_any_def)
qed

lemma alloc_loop_regs:
  assumes "regs_ok ctx held" and "length held < 6"
  shows "\<exists>q ctx'. alloc_reg_loop ctx = Some (Some q, ctx') \<and> regs_ok ctx' held \<and> op_reg q"
  using assms
proof (induction "cached_total ctx" arbitrary: ctx rule: less_induct)
  case less
  show ?case
  proof (cases "buxn_jit_find_free_reg ctx")
    case (Some q)
    have "op_reg q" by (rule find_free_reg_Some [OF regs_okD [OF less.prems(1)] Some]) (auto simp: op_reg_iff)
    then show ?thesis using Some less.prems(1) by (simp add: alloc_reg_loop.simps [of ctx])
  next
    case None
    have "6 \<le> cached_total ctx + length held"
      using find_free_reg_None [OF regs_okD [OF less.prems(1)] None] length_cached [OF regs_okD(1) [OF less.prems(1)]]
      by simp
    then have ne: "cached_total ctx \<noteq> 0" using less.prems(2) by simp
    obtain c where c: "spill_any ctx = Some c" "regs_ok c held" using spill_any_regs [OF less.prems(1)] by blast
    have "cached_total c < cached_total ctx" using spill_any_total [OF c(1)] ne by simp
    from less.hyps [OF this c(2) less.prems(2)] show ?thesis
      using None ne c(1) by (simp add: alloc_reg_loop.simps [of ctx])
  qed
qed

lemma alloc_regs:
  assumes "regs_ok ctx held" and "length held < 6"
  shows "\<exists>q ctx'. buxn_jit_alloc_reg ctx = Some (q, ctx') \<and> regs_ok ctx' (q # held)"
proof -
  obtain q c where c: "alloc_reg_loop ctx = Some (Some q, c)" "regs_ok c held" "op_reg q"
    using alloc_loop_regs [OF assms] by blast
  then show ?thesis using retain_regs [OF c(2,3)] by (auto simp: buxn_jit_alloc_reg_def)
qed

section \<open>Popping, pushing, discarding\<close>

lemma pop_mem_regs:
  assumes "regs_ok ctx held" and "length held < 6"
  shows "\<exists>q ctx'. buxn_jit_pop_from_mem f r ctx = Some (q, ctx') \<and> regs_ok ctx' (q # held)"
  using alloc_regs [of "buxn_jit_set_mem_base (stack_field r) ctx" held] assms
  by (auto simp: buxn_jit_pop_from_mem_def Let_def)

lemma pop_byte_regs:
  assumes "regs_ok ctx held" and "length held < 6"
  shows "\<exists>q ctx'. stack_cache_pop_byte r ctx = Some (q, ctx') \<and> regs_ok ctx' (q # held)"
proof (cases "clen (cache_of r ctx) = 0")
  case True
  then show ?thesis using pop_mem_regs [OF assms] by (simp add: stack_cache_pop_byte_def)
next
  case ne: False
  let ?top = "clen (cache_of r ctx) - 1"
  show ?thesis
  proof (cases "is_short (cval (cells (cache_of r ctx) ! ?top))")
    case False
    then show ?thesis
      using drop_top_regs [OF assms(1) ne] ne by (simp add: stack_cache_pop_byte_def Let_def)
  next
    case True
    obtain q c where c: "buxn_jit_alloc_reg ctx = Some (q, c)" "regs_ok c (q # held)"
      using alloc_regs [OF assms] by blast
    show ?thesis
    proof (cases "clen (cache_of r c) = 0")
      case True
      obtain c' where "buxn_jit_release_reg q c = Some c'" "regs_ok c' held" using release_ok [OF c(2)] by blast
      then show ?thesis
        using pop_mem_regs [OF _ assms(2), of c'] c(1) True ne \<open>is_short _\<close>
        by (simp add: stack_cache_pop_byte_def Let_def)
    next
      case False
      let ?is = "[Op1 SLJIT_MOV_U8 (Reg q) (Reg (oreg (cval (cells (cache_of r c) ! ?top)))),
        Op2 SLJIT_LSHR (Reg (oreg (cval (cells (cache_of r c) ! ?top))))
          (Reg (oreg (cval (cells (cache_of r c) ! ?top)))) (Imm 8)]"
      have "regs_ok (emit_all ?is c) (q # held)" using c(2) by simp
      from set_width_regs [OF this, of r ?top False] show ?thesis
        using c(1) False ne \<open>is_short _\<close> by (simp add: stack_cache_pop_byte_def Let_def)
    qed
  qed
qed

lemma pop_short_regs:
  assumes "regs_ok ctx held" and "length held < 5"
  shows "\<exists>q ctx'. stack_cache_pop_short r ctx = Some (q, ctx') \<and> regs_ok ctx' (q # held)"
proof (cases "clen (cache_of r ctx) = 0")
  case True
  then show ?thesis using pop_mem_regs [of ctx held True r] assms by (simp add: stack_cache_pop_short_def)
next
  case ne: False
  let ?ca = "cache_of r ctx" and ?lo = "oreg (cval (cells (cache_of r ctx) ! (clen (cache_of r ctx) - 1)))"
  let ?c = "set_cache r (?ca\<lparr>clen := clen ?ca - 1\<rparr>) ctx"
  note d = drop_top_regs [OF assms(1) ne]
  show ?thesis
  proof (cases "is_short (cval (cells ?ca ! (clen ?ca - 1)))")
    case True
    then show ?thesis using d ne by (simp add: stack_cache_pop_short_def Let_def)
  next
    case False
    obtain hi c1 where p: "stack_cache_pop_byte r ?c = Some (hi, c1)" "regs_ok c1 (hi # ?lo # held)"
      using pop_byte_regs [OF d, of r] assms(2) by auto
    let ?is = "[Op2 SLJIT_SHL (Reg hi) (Reg hi) (Imm 8), Op2 SLJIT_OR (Reg hi) (Reg hi) (Reg ?lo)]"
    have "regs_ok (emit_all ?is c1) (?lo # hi # held)"
      using regs_ok_mset [OF p(2), of "?lo # hi # held"] by simp
    from release_ok [OF this] show ?thesis
      using p(1) False ne by (auto simp: stack_cache_pop_short_def Let_def)
  qed
qed

lemma pop_ex_regs:
  assumes "regs_ok ctx held" and "length held < 5"
  shows "\<exists>v ctx'. buxn_jit_pop_ex f r ctx = Some (v, ctx') \<and> regs_ok ctx' (oreg v # held)"
proof -
  obtain v p where vp: "pop_value f (esp r ctx) (if r then rst ctx else wst ctx) = (v, p)" by fastforce
  have "regs_ok (set_esp r p ctx) held" using assms(1) by simp
  then obtain q c where "buxn_jit_stack_cache_pop r f (set_esp r p ctx) = Some (q, c)" "regs_ok c (q # held)"
    using pop_short_regs [of "set_esp r p ctx" held r] pop_byte_regs [of "set_esp r p ctx" held r] assms(2)
    by (cases f) (auto simp: buxn_jit_stack_cache_pop_def)
  then show ?thesis by (simp add: buxn_jit_pop_ex_def vp)
qed

lemma pop_regs:
  assumes "regs_ok ctx held" and "length held < 5"
  shows "\<exists>v ctx'. buxn_jit_pop ctx = Some (v, ctx') \<and> regs_ok ctx' (oreg v # held)"
  using pop_ex_regs [OF assms] by (simp add: buxn_jit_pop_def)

lemma counted:
  assumes "regs_ok ctx held" and "q \<in> set held"
  shows "\<exists>i. op_index q = Some i \<and> reg_ref_counts ctx ! i \<noteq> 0"
proof -
  obtain i where i: "i < 6" "q = R (3 + i)" using regs_ok_op [OF assms] by (auto simp: op_reg_iff)
  have "count_list (cached_regs ctx @ held) q = reg_ref_counts ctx ! i"
    using regs_okD(2) [OF assms(1)] i(1) unfolding refs_ok_def i(2) by blast
  moreover have "count_list held q \<noteq> 0" using assms(2) by (simp add: count_list_0_iff)
  ultimately show ?thesis using op_index_op [OF i(1)] i(2) by auto
qed

lemma make_room_regs:
  assumes "regs_ok ctx held"
  shows "\<exists>ctx'. (if clen (cache_of r ctx) \<ge> BUXN_JIT_CACHE_SIZE
      then map_option snd (buxn_jit_stack_cache_spill r ctx) else Some ctx) = Some ctx' \<and>
    regs_ok ctx' held \<and> clen (cache_of r ctx') < BUXN_JIT_CACHE_SIZE"
proof (cases "clen (cache_of r ctx) \<ge> BUXN_JIT_CACHE_SIZE")
  case True
  then have ne: "clen (cache_of r ctx) \<noteq> 0" by (simp add: BUXN_JIT_CACHE_SIZE_def)
  obtain ok c where c: "buxn_jit_stack_cache_spill r ctx = Some (ok, c)" "regs_ok c held"
    using spill_regs [OF assms] by blast
  have "clen (cache_of r ctx) \<le> BUXN_JIT_CACHE_SIZE" using regs_okD(1) [OF assms] by (simp add: shape_ok_def)
  then have "clen (cache_of r c) < BUXN_JIT_CACHE_SIZE" using spill_result(3) [OF c(1)] ne by simp
  then show ?thesis using True c by simp
qed (use assms in simp)

lemma push_cache_regs:
  assumes "regs_ok ctx held" and "oreg v \<in> set held"
  shows "\<exists>ctx'. buxn_jit_stack_cache_push r v ctx = Some ctx' \<and> regs_ok ctx' held"
proof -
  let ?q = "oreg v"
  obtain c where c: "(if clen (cache_of r ctx) \<ge> BUXN_JIT_CACHE_SIZE
      then map_option snd (buxn_jit_stack_cache_spill r ctx) else Some ctx) = Some c"
    "regs_ok c held" "clen (cache_of r c) < BUXN_JIT_CACHE_SIZE"
    using make_room_regs [OF assms(1)] by blast
  obtain c1 where c1: "buxn_jit_retain_reg ?q c = Some c1" "regs_ok c1 (?q # held)"
    using retain_regs [OF c(2) regs_ok_op [OF assms]] by blast
  have ca: "cache_of q c1 = cache_of q c" for q by (rule cache_retain [OF c1(1)])
  have len: "clen (cache_of r c1) < BUXN_JIT_CACHE_SIZE" using c(3) by (simp add: ca)
  note at = add_top_act [OF regs_okD(1) [OF c1(2)] len, of v]
  have "mset (cached_regs (add_top r v c1)) = mset (?q # cached_regs c1)"
    unfolding mset_cached [of _ r] mset.simps by (simp add: ops_all_def at)
  then have "refs_ok (add_top r v c1) held"
    by (intro refs_ok_mset [OF regs_okD(2) [OF c1(2)]]) (simp_all add: add_top_def)
  then have "regs_ok (add_top r v c1) held" using at(3) by (simp add: regs_ok_def)
  moreover have "buxn_jit_stack_cache_push r v ctx = Some (add_top r v c1)"
    using c(1) c1(1) by (simp add: buxn_jit_stack_cache_push_def retain_set_cache add_top_def ca Let_def split: if_splits)
  ultimately show ?thesis by simp
qed

lemma push_ex_regs:
  assumes "regs_ok ctx held" and "oreg v \<in> set held"
  shows "\<exists>ctx'. buxn_jit_push_ex v r ctx = Some ctx' \<and> regs_ok ctx' held"
proof -
  obtain i where i: "op_index (oreg v) = Some i" "reg_ref_counts ctx ! i \<noteq> 0" using counted [OF assms] by blast
  obtain c where "buxn_jit_stack_cache_push r v ctx = Some c" "regs_ok c held" using push_cache_regs [OF assms] by blast
  then show ?thesis using i by (simp add: buxn_jit_push_ex_def split_beta)
qed

lemma push_regs:
  assumes "regs_ok ctx held" and "oreg v \<in> set held"
  shows "\<exists>ctx'. buxn_jit_push v ctx = Some ctx' \<and> regs_ok ctx' held"
  unfolding buxn_jit_push_def by (rule push_ex_regs [OF assms])

lemma discard_byte_regs:
  assumes "regs_ok ctx held"
  shows "\<exists>ctx'. stack_cache_discard_byte r ctx = Some ctx' \<and> regs_ok ctx' held"
proof (cases "clen (cache_of r ctx) = 0")
  case True
  then show ?thesis using assms by (simp add: stack_cache_discard_byte_def buxn_jit_discard_from_mem_def Let_def)
next
  case ne: False
  let ?i = "clen (cache_of r ctx) - 1"
  let ?cell = "cells (cache_of r ctx) ! ?i"
  show ?thesis
  proof (cases "is_short (cval ?cell)")
    case True
    have "regs_ok (emit (Op2 SLJIT_LSHR (Reg (oreg (cval ?cell))) (Reg (oreg (cval ?cell))) (Imm 8)) ctx) held"
      using assms by simp
    from set_width_regs [OF this, of r ?i False] show ?thesis
      using True ne by (simp add: stack_cache_discard_byte_def Let_def)
  next
    case False
    then show ?thesis
      using release_ok [OF drop_top_regs [OF assms ne]] ne by (simp add: stack_cache_discard_byte_def Let_def)
  qed
qed

lemma discard_regs:
  assumes "regs_ok ctx held"
  shows "\<exists>ctx'. buxn_jit_stack_cache_discard r f ctx = Some ctx' \<and> regs_ok ctx' held"
proof (cases f)
  case False
  then show ?thesis using discard_byte_regs [OF assms] by (simp add: buxn_jit_stack_cache_discard_def)
next
  case True
  show ?thesis
  proof (cases "clen (cache_of r ctx) = 0")
    case True
    then show ?thesis
      using assms \<open>f\<close>
      by (simp add: buxn_jit_stack_cache_discard_def stack_cache_discard_short_def buxn_jit_discard_from_mem_def Let_def)
  next
    case ne: False
    let ?v = "cval (cells (cache_of r ctx) ! (clen (cache_of r ctx) - 1))"
    obtain c where c: "buxn_jit_release_reg (oreg ?v)
        (set_cache r ((cache_of r ctx)\<lparr>clen := clen (cache_of r ctx) - 1\<rparr>) ctx) = Some c" "regs_ok c held"
      using release_ok [OF drop_top_regs [OF assms ne]] by blast
    then show ?thesis
      using discard_byte_regs [OF c(2), of r] ne \<open>f\<close>
      by (simp add: buxn_jit_stack_cache_discard_def stack_cache_discard_short_def Let_def)
  qed
qed

section \<open>The start of an opcode\<close>

lemma flush_cell_regs: "regs_ok ctx held \<Longrightarrow> regs_ok (buxn_jit_flush_cell r i ctx) held"
proof -
  let ?ca = "cache_of r ctx"
  let ?cs = "(cells ?ca)[i := (cells ?ca ! i)\<lparr>need_flush := False\<rparr>]" and ?c = "buxn_jit_do_push (cval (cells ?ca ! i)) r ctx"
  assume "regs_ok ctx held"
  then have c: "regs_ok ?c held" by simp
  have "map (\<lambda>x. oreg (cval x)) ?cs = map (\<lambda>x. oreg (cval x)) (cells ?ca)"
    by (cases "i < length (cells ?ca)") (auto simp: nth_list_update list_update_beyond intro!: nth_equalityI)
  then have "cached_regs (set_cache r (?ca\<lparr>cells := ?cs\<rparr>) ?c) = cached_regs ?c"
    by (intro cached_regs_set_cache) (simp add: act_def take_map)
  then have "refs_ok (set_cache r (?ca\<lparr>cells := ?cs\<rparr>) ?c) held"
    by (intro refs_ok_mset [OF regs_okD(2) [OF c]]) simp_all
  moreover have "shape_ok (set_cache r ((cache_of r ?c)\<lparr>cells := ?cs, clen := clen ?ca\<rparr>) ?c)"
    by (rule shape_ok_cells [OF regs_okD(1) [OF c]]) simp_all
  ultimately show ?thesis by (simp add: regs_ok_def buxn_jit_flush_cell_def Let_def)
qed

lemma flush_regs: "regs_ok ctx held \<Longrightarrow> regs_ok (buxn_jit_stack_cache_flush r ctx) held"
proof -
  have "regs_ok c held \<Longrightarrow> regs_ok (flush_cells r is c) held" for "is" c
    by (induction "is" arbitrary: c) (auto intro: flush_cell_regs)
  then show "regs_ok ctx held \<Longrightarrow> ?thesis" by (simp add: buxn_jit_stack_cache_flush_def)
qed

lemma setup_shadow_regs:
  assumes "regs_ok ctx []"
  shows "\<exists>ctx' held. setup_shadow ctx = Some ctx' \<and> regs_ok ctx' held \<and> length held \<le> 2"
proof (cases "buxn_jit_op_flag_k ctx")
  case False
  then show ?thesis using assms by (intro exI [of _ "ctx\<lparr>eshadow := False, wsp_reg := BUXN_JIT_S_WSP, rsp_reg := BUXN_JIT_S_RSP\<rparr>"] exI [of _ "[]"]) (simp add: setup_shadow_def)
next
  case True
  let ?c = "ctx\<lparr>shadow_wsp := wsp ctx, shadow_rsp := rsp ctx, eshadow := True\<rparr>"
  obtain q1 c1 where c1: "buxn_jit_alloc_reg ?c = Some (q1, c1)" "regs_ok c1 [q1]"
    using alloc_regs [of ?c "[]"] assms by auto
  obtain q2 c2 where c2: "buxn_jit_alloc_reg c1 = Some (q2, c2)" "regs_ok c2 [q2, q1]"
    using alloc_regs [OF c1(2)] by auto
  define c3 where "c3 = (emit_all [Op1 SLJIT_MOV_U8 (Reg q1) (Reg BUXN_JIT_S_WSP),
    Op1 SLJIT_MOV_U8 (Reg q2) (Reg BUXN_JIT_S_RSP)] c2)\<lparr>wsp_reg := q1, rsp_reg := q2\<rparr>"
  have "regs_ok c3 [q2, q1]" unfolding c3_def using c2(2) by (simp only: regs_ok_simps)
  then have "regs_ok (buxn_jit_stack_cache_flush (buxn_jit_op_flag_r c3) c3) [q2, q1]" by (rule flush_regs)
  moreover have "setup_shadow ctx = Some (buxn_jit_stack_cache_flush (buxn_jit_op_flag_r c3) c3)"
    using True c1(1) c2(1) by (simp add: setup_shadow_def Let_def c3_def)
  ultimately show ?thesis by force
qed

text \<open>Fetching recounts the references from the caches.\<close>

lemma fetch_regs:
  assumes "regs_ok ctx held"
  shows "\<exists>ctx'. fetch_opcode ctx = Some ctx' \<and> regs_ok ctx' []"
proof -
  define c0 where "c0 = ctx\<lparr>reg_ref_counts := replicate 6 0\<rparr>"
  have act0: "act r c0 = act r ctx" for r by (rule act_cong) (simp add: c0_def)
  have op: "\<forall>c \<in> set (act r ctx). op_reg (oreg (cval c))" for r
    using op_reg_ops [OF regs_okD(2) [OF assms], of _ r] by (auto simp: ops_all_def)
  define k where "k r = length (filter (\<lambda>c. \<not> need_flush c) (act r ctx))" for r
  have k0: "k False = length (filter (\<lambda>c. \<not> need_flush c) (act False c0))" by (simp add: act0 k_def)
  have op0: "\<forall>c \<in> set (drop (k False) (act False c0)). op_reg (oreg (cval c))"
    using op by (auto simp: act0 dest: in_set_dropD)
  have sh0: "shape_ok c0" using regs_okD(1) [OF assms] by (simp add: c0_def shape_ok_def)
  obtain c1 where r1: "buxn_jit_stack_cache_retain False c0 = Some c1"
    "act False c1 = drop (k False) (act False ctx)" "act True c1 = act True ctx" "shape_ok c1"
    "\<forall>i < 6. reg_ref_counts c1 ! i = reg_ref_counts c0 ! i +
      count_list (map (\<lambda>c. oreg (cval c)) (drop (k False) (act False ctx))) (R (3 + i))"
    using retain_static [OF sh0 k0 op0] unfolding act0 by (metis not_False_eq_True)
  have k1: "k True = length (filter (\<lambda>c. \<not> need_flush c) (act True c1))" by (simp add: r1(3) k_def)
  have op1: "\<forall>c \<in> set (drop (k True) (act True c1)). op_reg (oreg (cval c))"
    using op by (auto simp: r1(3) dest: in_set_dropD)
  obtain c2 where r2: "buxn_jit_stack_cache_retain True c1 = Some c2"
    "act True c2 = drop (k True) (act True ctx)" "act False c2 = act False c1" "shape_ok c2"
    "\<forall>i < 6. reg_ref_counts c2 ! i = reg_ref_counts c1 ! i +
      count_list (map (\<lambda>c. oreg (cval c)) (drop (k True) (act True ctx))) (R (3 + i))"
    using retain_static [OF r1(4) k1 op1] unfolding r1(3) by (metis not_True_eq_False)
  have a2: "act r c2 = drop (k r) (act r ctx)" for r using r1(2) r2(2,3) by (cases r) simp_all
  have "count_list (cached_regs c2 @ []) (R (3 + i)) = reg_ref_counts c2 ! i" if "i < 6" for i
    using r1(5) r2(5) that by (simp add: cached_regs_def ops_all_def a2 c0_def comp_def)
  moreover have "\<forall>q \<in> set (cached_regs c2). op_reg q"
    using op by (auto simp: cached_regs_def ops_all_def a2 dest: in_set_dropD)
  ultimately have "regs_ok c2 []" using r2(4) by (simp add: regs_ok_def refs_ok_def)
  then show ?thesis using r1(1) r2(1) by (simp add: fetch_opcode_def c0_def [symmetric])
qed

end
