(* ===== verification/Compile_Total.thy ===== *)
theory Compile_Total
  imports Registers
begin

text \<open>
  Compiling an opcode never fails. \<open>returns m P\<close> says that \<open>m\<close> returns a result with \<open>P\<close>; the rules below go
  through a handler step by step. For every handler the program counter moves by at most two bytes, the
  state of the runtime changes by at most one queued jump, and the registers stay counted; only a jump through a
  boolean goes on with the next opcode.
\<close>

section \<open>Results that exist\<close>

definition returns :: "'a option \<Rightarrow> ('a \<Rightarrow> bool) \<Rightarrow> bool" where
  "returns m P \<longleftrightarrow> (\<exists>x. m = Some x \<and> P x)"

definition returns2 :: "('a \<times> 'b) option \<Rightarrow> ('a \<Rightarrow> 'b \<Rightarrow> bool) \<Rightarrow> bool" where
  "returns2 m P \<longleftrightarrow> (\<exists>x y. m = Some (x, y) \<and> P x y)"

lemma returns_simps [simp]: "returns (Some x) P = P x" "returns None P = False"
  by (simp_all add: returns_def)

lemma returns_bind [simp]: "returns (Option.bind m f) P = returns m (\<lambda>x. returns (f x) P)"
  by (cases m) simp_all

lemma returns_pair [simp]: "returns m (\<lambda>z. case z of (x, y) \<Rightarrow> P x y) = returns2 m P"
  "returns m (\<lambda>z. returns (case z of (x, y) \<Rightarrow> f x y) Q) = returns2 m (\<lambda>x y. returns (f x y) Q)"
  by (auto simp: returns_def returns2_def)

lemma returns2_pair [simp]:
  "returns m (\<lambda>z. returns2 (case z of (x, y) \<Rightarrow> g x y) Q) = returns2 m (\<lambda>x y. returns2 (g x y) Q)"
  by (auto simp: returns_def returns2_def)

lemma returns2_Some [simp]: "returns2 (Some (a, b)) Q = Q a b"
  by (simp add: returns2_def)

lemma returns_mono: "returns m P \<Longrightarrow> (\<And>x. P x \<Longrightarrow> Q x) \<Longrightarrow> returns m Q"
  by (auto simp: returns_def)

lemma returns2_mono: "returns2 m P \<Longrightarrow> (\<And>x y. P x y \<Longrightarrow> Q x y) \<Longrightarrow> returns2 m Q"
  by (auto simp: returns2_def)

section \<open>What cache operations leave alone\<close>

definition run_of :: "buxn_jit_ctx \<Rightarrow> u16 \<times> buxn_jit \<times> bool \<times> nat" where
  "run_of ctx = (pc ctx, jit ctx, compiler ctx, compiler_id ctx)"

lemma run_of_simps [simp]:
  "run_of (emit i ctx) = run_of ctx"
  "run_of (emit_all is ctx) = run_of ctx"
  "run_of (set_label j l ctx) = run_of ctx"
  "run_of (set_cache r c ctx) = run_of ctx"
  "run_of (set_esp r p ctx) = run_of ctx"
  "run_of (buxn_jit_set_mem_base f ctx) = run_of ctx"
  "run_of (ctx\<lparr>mem_base := b\<rparr>) = run_of ctx"
  "run_of (ctx\<lparr>call_fallback := l\<rparr>) = run_of ctx"
  "run_of (ctx\<lparr>wsp := sp\<rparr>) = run_of ctx"
  "run_of (ctx\<lparr>rsp := sp\<rparr>) = run_of ctx"
  "run_of (ctx\<lparr>wst := st\<rparr>) = run_of ctx"
  "run_of (ctx\<lparr>rst := st\<rparr>) = run_of ctx"
  "run_of (ctx\<lparr>wsp_reg := q1\<rparr>) = run_of ctx"
  "run_of (ctx\<lparr>rsp_reg := q1\<rparr>) = run_of ctx"
  "run_of (ctx\<lparr>eshadow := on\<rparr>) = run_of ctx"
  "run_of (ctx\<lparr>shadow_wsp := sp\<rparr>) = run_of ctx"
  "run_of (ctx\<lparr>shadow_rsp := sp\<rparr>) = run_of ctx"
  "run_of (ctx\<lparr>reg_ref_counts := rc\<rparr>) = run_of ctx"
  by (simp_all add: run_of_def emit_def emit_all_eq set_label_def set_esp_def buxn_jit_set_mem_base_def Let_def)

lemma run_of_frame: "ctx_frame ctx ctx' \<Longrightarrow> run_of ctx' = run_of ctx"
  by (simp add: ctx_frame_def run_of_def)

named_theorems run_of_dest

lemmas [run_of_dest] = ctx_frame_release [THEN run_of_frame] ctx_frame_retain [THEN run_of_frame]
  spill_result(2) [THEN run_of_frame] spill_any_frame [THEN run_of_frame]

lemma run_of_clear [run_of_dest]:
  assumes "buxn_jit_stack_cache_clear r ctx = Some ctx'"
  shows "run_of ctx' = run_of ctx"
  using assms
proof (induction r ctx rule: buxn_jit_stack_cache_clear.induct)
  case (1 r ctx)
  obtain ok c where c: "buxn_jit_stack_cache_spill r ctx = Some (ok, c)"
    using "1.prems" by (auto simp: buxn_jit_stack_cache_clear.simps [of r ctx] split: option.splits)
  have r: "run_of c = run_of ctx" by (rule run_of_frame [OF spill_result(2) [OF c]])
  show ?case
  proof (cases ok)
    case True
    then have "buxn_jit_stack_cache_clear r c = Some ctx'"
      using "1.prems" c by (simp add: buxn_jit_stack_cache_clear.simps [of r ctx])
    with "1.IH" [OF c refl True] r show ?thesis by simp
  next
    case False
    then show ?thesis using "1.prems" c r by (simp add: buxn_jit_stack_cache_clear.simps [of r ctx])
  qed
qed

lemma run_of_clear_caches [run_of_dest]: "buxn_jit_clear_stack_caches ctx = Some ctx' \<Longrightarrow> run_of ctx' = run_of ctx"
  by (auto simp: buxn_jit_clear_stack_caches_def split: bind_splits dest!: run_of_dest)

lemma run_of_alloc_loop [run_of_dest]:
  assumes "alloc_reg_loop ctx = Some (q, ctx')"
  shows "run_of ctx' = run_of ctx"
  using assms
proof (induction ctx rule: alloc_reg_loop.induct)
  case (1 ctx)
  show ?case
  proof (cases "buxn_jit_find_free_reg ctx = None \<and> cached_total ctx > 0")
    case True
    then obtain c where c: "spill_any ctx = Some c" "alloc_reg_loop c = Some (q, ctx')"
      using "1.prems" by (auto simp: alloc_reg_loop.simps [of ctx] split: option.splits)
    then show ?thesis
      using "1.IH" [OF conjunct1 [OF True] conjunct2 [OF True] c] run_of_frame [OF spill_any_frame [OF c(1)]] by simp
  next
    case False
    then show ?thesis using "1.prems" by (auto simp: alloc_reg_loop.simps [of ctx] split: option.splits if_splits)
  qed
qed

lemma run_of_alloc [run_of_dest]: "buxn_jit_alloc_reg ctx = Some (q, ctx') \<Longrightarrow> run_of ctx' = run_of ctx"
  by (auto simp: buxn_jit_alloc_reg_def split: bind_splits option.splits dest!: run_of_dest)

lemma run_of_pop_mem [run_of_dest]: "buxn_jit_pop_from_mem f r ctx = Some (q, ctx') \<Longrightarrow> run_of ctx' = run_of ctx"
  by (auto simp: buxn_jit_pop_from_mem_def Let_def split: bind_splits dest!: run_of_dest)

lemma run_of_pop_byte [run_of_dest]: "stack_cache_pop_byte r ctx = Some (q, ctx') \<Longrightarrow> run_of ctx' = run_of ctx"
  by (auto simp: stack_cache_pop_byte_def Let_def split: if_splits bind_splits dest!: run_of_dest)

lemma run_of_pop_short [run_of_dest]: "stack_cache_pop_short r ctx = Some (q, ctx') \<Longrightarrow> run_of ctx' = run_of ctx"
  by (auto simp: stack_cache_pop_short_def Let_def split: if_splits bind_splits dest!: run_of_dest)

lemma run_of_pop_ex [run_of_dest]: "buxn_jit_pop_ex f r ctx = Some (v, ctx') \<Longrightarrow> run_of ctx' = run_of ctx"
  by (auto simp: buxn_jit_pop_ex_def buxn_jit_stack_cache_pop_def split_beta split: if_splits bind_splits dest!: run_of_dest)

lemma run_of_push_ex [run_of_dest]: "buxn_jit_push_ex v r ctx = Some ctx' \<Longrightarrow> run_of ctx' = run_of ctx"
  by (auto simp: buxn_jit_push_ex_def buxn_jit_stack_cache_push_def Let_def split_beta split: if_splits bind_splits
      dest!: run_of_dest)

lemma run_of_discard [run_of_dest]: "buxn_jit_stack_cache_discard r f ctx = Some ctx' \<Longrightarrow> run_of ctx' = run_of ctx"
  by (auto simp: buxn_jit_stack_cache_discard_def stack_cache_discard_short_def stack_cache_discard_byte_def
      buxn_jit_discard_from_mem_def Let_def split: if_splits bind_splits dest!: run_of_dest)

lemma run_of_flush [simp]: "run_of (buxn_jit_stack_cache_flush r ctx) = run_of ctx"
proof -
  have "run_of (flush_cells r is c) = run_of c" for "is" c
    by (induction "is" arbitrary: c) (simp_all add: buxn_jit_flush_cell_def buxn_jit_do_push_def Let_def)
  then show ?thesis by (simp add: buxn_jit_stack_cache_flush_def)
qed

lemma run_of_setup_shadow [run_of_dest]: "setup_shadow ctx = Some ctx' \<Longrightarrow> run_of ctx' = run_of ctx"
  by (auto simp: setup_shadow_def Let_def split: if_splits bind_splits dest!: run_of_dest)

lemma run_of_retain_cells [run_of_dest]: "retain_cells cs ctx = Some ctx' \<Longrightarrow> run_of ctx' = run_of ctx"
  by (induction cs arbitrary: ctx) (auto split: bind_splits dest!: run_of_dest)

lemma run_of_retain_cache [run_of_dest]: "buxn_jit_stack_cache_retain r ctx = Some ctx' \<Longrightarrow> run_of ctx' = run_of ctx"
  by (auto simp: buxn_jit_stack_cache_retain_def Let_def dest!: run_of_dest)

lemma fetch_run:
  assumes "fetch_opcode ctx = Some ctx'"
  shows "pc ctx' = pc ctx + 1" and "jit ctx' = jit ctx" and "compiler ctx' = compiler ctx" and "compiler_id ctx' = compiler_id ctx"
  using assms by (auto simp: fetch_opcode_def run_of_def split: bind_splits dest!: run_of_retain_cache)

section \<open>The handlers\<close>

lemma returns_pop_ex:
  assumes "regs_ok ctx held" and "length held < 5"
    and "\<And>v c. regs_ok c (oreg v # held) \<Longrightarrow> run_of c = run_of ctx \<Longrightarrow> P v c"
  shows "returns2 (buxn_jit_pop_ex f r ctx) P"
  using pop_ex_regs [OF assms(1,2), of f r] assms(3) run_of_pop_ex unfolding returns2_def by blast

lemma returns_pop:
  assumes "regs_ok ctx held" and "length held < 5"
    and "\<And>v c. regs_ok c (oreg v # held) \<Longrightarrow> run_of c = run_of ctx \<Longrightarrow> P v c"
  shows "returns2 (buxn_jit_pop ctx) P"
  unfolding buxn_jit_pop_def by (rule returns_pop_ex [OF assms])

lemma returns_alloc:
  assumes "regs_ok ctx held" and "length held < 6"
    and "\<And>q c. regs_ok c (q # held) \<Longrightarrow> run_of c = run_of ctx \<Longrightarrow> P q c"
  shows "returns2 (buxn_jit_alloc_reg ctx) P"
  using alloc_regs [OF assms(1,2)] assms(3) run_of_alloc unfolding returns2_def by blast

lemma returns_push_ex:
  assumes "regs_ok ctx held" and "oreg v \<in> set held"
    and "\<And>c. regs_ok c held \<Longrightarrow> run_of c = run_of ctx \<Longrightarrow> P c"
  shows "returns (buxn_jit_push_ex v r ctx) P"
  using push_ex_regs [OF assms(1,2), of r] assms(3) run_of_push_ex unfolding returns_def by blast

lemma returns_push:
  assumes "regs_ok ctx held" and "oreg v \<in> set held"
    and "\<And>c. regs_ok c held \<Longrightarrow> run_of c = run_of ctx \<Longrightarrow> P c"
  shows "returns (buxn_jit_push v ctx) P"
  unfolding buxn_jit_push_def by (rule returns_push_ex [OF assms])

lemma returns_clear:
  assumes "regs_ok ctx held" and "\<And>c. regs_ok c held \<Longrightarrow> run_of c = run_of ctx \<Longrightarrow> P c"
  shows "returns (buxn_jit_clear_stack_caches ctx) P"
  using clear_caches_regs [OF assms(1)] assms(2) run_of_clear_caches unfolding returns_def by blast

lemma returns_POP:
  assumes "regs_ok ctx held" and "\<And>c. regs_ok c held \<Longrightarrow> run_of c = run_of ctx \<Longrightarrow> P c"
  shows "returns (buxn_jit_POP ctx) P"
proof (cases "buxn_jit_op_flag_k ctx")
  case True
  then show ?thesis using assms by (simp add: buxn_jit_POP_def)
next
  case False
  have d: "returns (buxn_jit_stack_cache_discard r f c) P" if "regs_ok c held" "run_of c = run_of ctx" for r f c
    using discard_regs [OF that(1), of r f] assms(2) run_of_discard that(2) unfolding returns_def by metis
  show ?thesis using False assms(1) by (auto simp: buxn_jit_POP_def Let_def intro!: d)
qed

lemmas returns_intros = returns_pop_ex returns_pop returns_alloc returns_push_ex returns_push returns_clear returns_POP

lemma wrap_around_simps [simp]:
  "regs_ok (buxn_jit_wrap_around v ctx) held = regs_ok ctx held"
  "run_of (buxn_jit_wrap_around v ctx) = run_of ctx"
  "regs_ok (buxn_jit_save_state ctx) held = regs_ok ctx held"
  "run_of (buxn_jit_save_state ctx) = run_of ctx"
  "regs_ok (buxn_jit_load_state ctx) held = regs_ok ctx held"
  "run_of (buxn_jit_load_state ctx) = run_of ctx"
  "regs_ok (buxn_jit_store v w ctx) held = regs_ok ctx held"
  "run_of (buxn_jit_store v w ctx) = run_of ctx"
  by (simp_all add: buxn_jit_wrap_around_def buxn_jit_save_state_def buxn_jit_load_state_def buxn_jit_store_def)

definition plain :: "buxn_jit_ctx \<Rightarrow> buxn_jit_ctx \<Rightarrow> bool" where
  "plain ctx ctx' \<longleftrightarrow> (\<exists>held. regs_ok ctx' held) \<and> run_of ctx' = run_of ctx"

lemma plainI [intro]: "regs_ok ctx' held \<Longrightarrow> run_of ctx' = run_of ctx \<Longrightarrow> plain ctx ctx'"
  by (auto simp: plain_def)

lemma stack_ops_return:
  assumes "regs_ok ctx held" and "length held \<le> 2"
  shows "returns (buxn_jit_INC ctx) (plain ctx)" and "returns (buxn_jit_POP ctx) (plain ctx)"
    and "returns (buxn_jit_NIP ctx) (plain ctx)" and "returns (buxn_jit_SWP ctx) (plain ctx)"
    and "returns (buxn_jit_ROT ctx) (plain ctx)" and "returns (buxn_jit_DUP ctx) (plain ctx)"
    and "returns (buxn_jit_OVR ctx) (plain ctx)" and "returns (buxn_jit_STH ctx) (plain ctx)"
  unfolding buxn_jit_INC_def buxn_jit_NIP_def buxn_jit_SWP_def buxn_jit_ROT_def buxn_jit_DUP_def
    buxn_jit_OVR_def buxn_jit_STH_def Let_def
  using assms by (auto intro!: returns_intros)

lemma compare_op_returns:
  assumes "regs_ok ctx held" and "length held \<le> 2"
  shows "returns (compare_op fl cnd ctx) (plain ctx)"
  unfolding compare_op_def Let_def using assms by (auto intro!: returns_intros)

lemma oreg_const_result [simp]: "oreg (const_result a b s v r) = r"
  by (simp add: const_result_def)

lemma arith_ops_return:
  assumes "regs_ok ctx held" and "length held \<le> 2"
  shows "returns (buxn_jit_ADD ctx) (plain ctx)" and "returns (buxn_jit_SUB ctx) (plain ctx)"
    and "returns (buxn_jit_MUL ctx) (plain ctx)" and "returns (buxn_jit_AND ctx) (plain ctx)"
    and "returns (buxn_jit_ORA ctx) (plain ctx)" and "returns (buxn_jit_EOR ctx) (plain ctx)"
    and "returns (buxn_jit_SFT ctx) (plain ctx)"
  unfolding buxn_jit_ADD_def buxn_jit_SUB_def buxn_jit_MUL_def buxn_jit_AND_def buxn_jit_ORA_def
    buxn_jit_EOR_def buxn_jit_SFT_def Let_def
  using assms by (auto intro!: returns_intros)

lemma DIV_returns:
  assumes "regs_ok ctx held" and "length held \<le> 2"
  shows "returns (buxn_jit_DIV ctx) (plain ctx)"
  unfolding buxn_jit_DIV_def Let_def emit_jump_def emit_label_def
  using assms by (auto intro!: returns_intros)

lemma load_simps [simp]:
  "regs_ok (snd (buxn_jit_load r a ctx)) held = regs_ok ctx held"
  "run_of (snd (buxn_jit_load r a ctx)) = run_of ctx"
  "oreg (fst (buxn_jit_load r a ctx)) = r"
  "(case buxn_jit_load r a ctx of (v, c) \<Rightarrow> f v c) = f (fst (buxn_jit_load r a ctx)) (snd (buxn_jit_load r a ctx))"
  by (simp_all add: buxn_jit_load_def Let_def)

lemma memory_ops_return:
  assumes "regs_ok ctx held" and "length held \<le> 2"
  shows "returns (buxn_jit_LDZ ctx) (plain ctx)" and "returns (buxn_jit_STZ ctx) (plain ctx)"
    and "returns (buxn_jit_LDR ctx) (plain ctx)" and "returns (buxn_jit_STR ctx) (plain ctx)"
    and "returns (buxn_jit_LDA ctx) (plain ctx)" and "returns (buxn_jit_STA ctx) (plain ctx)"
  unfolding buxn_jit_LDZ_def buxn_jit_STZ_def buxn_jit_LDR_def buxn_jit_STR_def buxn_jit_LDA_def
    buxn_jit_STA_def Let_def
  using assms by (auto intro!: returns_intros)

lemma device_ops_return:
  assumes "regs_ok ctx held" and "length held \<le> 2"
  shows "returns (buxn_jit_DEI ctx) (plain ctx)" and "returns (buxn_jit_DEO ctx) (plain ctx)"
  unfolding buxn_jit_DEI_def buxn_jit_DEO_def Let_def
  using assms by (auto intro!: returns_intros)

lemma run_sel [simp]:
  "pc (emit i ctx) = pc ctx" "jit (emit i ctx) = jit ctx" "compiler (emit i ctx) = compiler ctx"
  "compiler_id (emit i ctx) = compiler_id ctx"
  "pc (emit_all is ctx) = pc ctx" "jit (emit_all is ctx) = jit ctx" "compiler (emit_all is ctx) = compiler ctx"
  "compiler_id (emit_all is ctx) = compiler_id ctx"
  "pc (buxn_jit_set_mem_base f ctx) = pc ctx" "jit (buxn_jit_set_mem_base f ctx) = jit ctx"
  "compiler (buxn_jit_set_mem_base f ctx) = compiler ctx" "compiler_id (buxn_jit_set_mem_base f ctx) = compiler_id ctx"
  "pc (set_label j l ctx) = pc ctx" "jit (set_label j l ctx) = jit ctx" "compiler (set_label j l ctx) = compiler ctx"
  "compiler_id (set_label j l ctx) = compiler_id ctx"
  by (simp_all add: emit_def emit_all_eq buxn_jit_set_mem_base_def set_label_def Let_def)

text \<open>The program counter behind an immediate operand; the code ends at \<^verbatim>\<open>BRK\<close>.\<close>

lemma LIT_returns:
  assumes "regs_ok ctx held" and "length held \<le> 2"
  shows "returns (buxn_jit_LIT ctx) (\<lambda>c. (\<exists>held. regs_ok c held) \<and> jit c = jit ctx \<and> compiler_id c = compiler_id ctx \<and>
    compiler c = compiler ctx \<and> (pc c = pc ctx + 1 \<or> pc c = pc ctx + 2))"
  unfolding buxn_jit_LIT_def buxn_jit_immediate_def Let_def
  using assms by (auto intro!: returns_intros simp: run_of_def)

lemma BRK_returns:
  assumes "regs_ok ctx held"
  shows "returns (buxn_jit_BRK ctx) (\<lambda>c. (\<exists>held. regs_ok c held) \<and> jit c = jit ctx \<and> compiler_id c = compiler_id ctx \<and>
    \<not> compiler c \<and> pc c = pc ctx)"
  unfolding buxn_jit_BRK_def buxn_jit_finalize_def
  using assms by (auto intro!: returns_intros simp: run_of_def)

section \<open>Jumps\<close>

text \<open>What queueing the target of a jump does to the runtime.\<close>

definition link_jit :: "buxn_jit_link_type \<Rightarrow> u16 \<Rightarrow> nat \<Rightarrow> nat \<Rightarrow> buxn_jit \<Rightarrow> buxn_jit" where
  "link_jit lt target jump cid j =
     (let (e, j) = buxn_jit_alloc_entry j;
          (block, j) = buxn_jit_queue_block j target
      in enqueue_link e (update_entry e (\<lambda>x. x\<lparr>link_type := lt, eblock := block, ecompiler := cid,
           etarget := Jump_target jump\<rparr>) j))"

lemma queue_link_sel [simp]:
  "jit (queue_link lt t jump ctx) = link_jit lt t jump (compiler_id ctx) (jit ctx)"
  "pc (queue_link lt t jump ctx) = pc ctx" "compiler (queue_link lt t jump ctx) = compiler ctx"
  "compiler_id (queue_link lt t jump ctx) = compiler_id ctx"
  "regs_ok (queue_link lt t jump ctx) held = regs_ok ctx held"
  by (simp_all add: queue_link_def link_jit_def split_beta Let_def)

definition linked_run :: "buxn_jit_ctx \<Rightarrow> buxn_jit_ctx \<Rightarrow> bool" where
  "linked_run ctx ctx' \<longleftrightarrow>
     pc ctx' = pc ctx \<and> compiler ctx' = compiler ctx \<and> compiler_id ctx' = compiler_id ctx \<and>
     (jit ctx' = jit ctx \<or> (\<exists>lt t jump. jit ctx' = link_jit lt t jump (compiler_id ctx) (jit ctx)))"

lemma linked_run_refl: "run_of ctx' = run_of ctx \<Longrightarrow> linked_run ctx ctx'"
  by (simp add: linked_run_def run_of_def)

lemma linked_run_cong: "run_of c = run_of ctx \<Longrightarrow> linked_run c ctx' = linked_run ctx ctx'"
  by (simp add: linked_run_def run_of_def)

lemma jump_abs_run:
  "linked_run ctx (buxn_jit_jump_abs target ra ctx)"
  "regs_ok (buxn_jit_jump_abs target ra ctx) held = regs_ok ctx held"
  unfolding buxn_jit_jump_abs_def
  by (auto simp: Let_def emit_jump_def emit_label_def linked_run_def)

lemma jump_returns:
  assumes "regs_ok ctx held"
    and "\<And>c h. is_short target = False \<Longrightarrow> regs_ok c h \<Longrightarrow> run_of c = run_of ctx \<Longrightarrow> returns (nxt c) (\<lambda>c1. \<exists>h. regs_ok c1 h)"
  shows "returns (buxn_jit_jump nxt target ra ctx) (\<lambda>ctx'. (\<exists>h. regs_ok ctx' h) \<and> (linked_run ctx ctx' \<or>
    (\<exists>c c1 h. is_short target = False \<and> regs_ok c h \<and> run_of c = run_of ctx \<and> nxt c = Some c1 \<and>
      run_of ctx' = (pc c1, jit c1, compiler ctx, compiler_id c1))))"
proof -
  obtain c where c: "buxn_jit_clear_stack_caches ctx = Some c" "regs_ok c held" "run_of c = run_of ctx"
    using clear_caches_regs [OF assms(1)] run_of_clear_caches by blast
  consider (short) "is_short target" | (bool) "is_short target = False" "SEM_BOOLEAN \<in> semantics target"
    | (rel) "is_short target = False" "SEM_BOOLEAN \<notin> semantics target" by auto
  then show ?thesis
  proof cases
    case short
    then have "buxn_jit_jump nxt target ra ctx = Some (buxn_jit_jump_abs target ra c)"
      using c(1) by (simp add: buxn_jit_jump_def)
    then show ?thesis
      using c(2) jump_abs_run(1) [of c target ra] by (auto simp: jump_abs_run(2) linked_run_cong [OF c(3)])
  next
    case bool
    let ?c = "emit (Cmp SLJIT_NOT_EQUAL False (Reg (oreg target)) (Imm 0)) c"
    obtain c1 h where c1: "nxt ?c = Some c1" "regs_ok c1 h"
      using assms(2) [OF bool(1), of ?c held] c by (auto simp: returns_def)
    have "regs_ok (c1\<lparr>compiler := compiler c\<rparr>) h" using c1(2) by simp
    then obtain c2 where c2: "buxn_jit_clear_stack_caches (c1\<lparr>compiler := compiler c\<rparr>) = Some c2" "regs_ok c2 h"
      "run_of c2 = run_of (c1\<lparr>compiler := compiler c\<rparr>)"
      using clear_caches_regs run_of_clear_caches by blast
    obtain l where "buxn_jit_jump nxt target ra ctx = Some (set_label (length (code c)) l (emit Label c2))"
      using bool c(1) c1(1) c2(1) by (simp add: buxn_jit_jump_def Let_def emit_jump_def emit_label_def)
    moreover have "run_of (set_label (length (code c)) l (emit Label c2)) = (pc c1, jit c1, compiler ctx, compiler_id c1)"
      using c(3) c2(3) by (simp add: run_of_def)
    moreover have "run_of ?c = run_of ctx" "regs_ok ?c held" using c by simp_all
    moreover have "regs_ok (set_label (length (code c)) l (emit Label c2)) h" using c2(2) by simp
    ultimately show ?thesis
      using bool(1) c1(1) unfolding returns_def by blast
  next
    case rel
    define t where "t = target\<lparr>const_value := pc c + scast (ucast (const_value target) :: u8)\<rparr>"
    define c1 where "c1 = emit_all [Op1 SLJIT_MOV_S8 (Reg (oreg target)) (Reg (oreg target)),
      Op2 SLJIT_ADD (Reg (oreg target)) (Reg (oreg target)) (Imm (ucast (pc c)))] c"
    have "buxn_jit_jump nxt target ra ctx = Some (buxn_jit_jump_abs t ra c1)"
      using rel c(1) by (simp add: buxn_jit_jump_def Let_def t_def c1_def)
    moreover have r: "run_of c1 = run_of ctx" and "regs_ok c1 held" using c by (simp_all add: c1_def)
    ultimately show ?thesis
      using jump_abs_run(1) [of c1 t ra] by (auto simp: jump_abs_run(2) linked_run_cong [OF r])
  qed
qed

lemma jump_cong:
  assumes "\<And>c. is_short target = False \<Longrightarrow> run_of c = run_of ctx \<Longrightarrow> nxt c = nxt' c"
  shows "buxn_jit_jump nxt target ra ctx = buxn_jit_jump nxt' target ra ctx"
  unfolding buxn_jit_jump_def
  by (rule Option.bind_cong [OF refl])
    (use assms in \<open>auto simp: Let_def emit_jump_def dest!: run_of_clear_caches\<close>)

section \<open>Any opcode\<close>

text \<open>\<open>nested nxt ctx ctx'\<close>: the next opcode was compiled from within, and \<open>ctx'\<close> is where that ended.\<close>

definition nested :: "(buxn_jit_ctx \<Rightarrow> buxn_jit_ctx option) \<Rightarrow> buxn_jit_ctx \<Rightarrow> buxn_jit_ctx \<Rightarrow> bool" where
  "nested nxt ctx ctx' \<longleftrightarrow>
     (\<exists>c c1 h. regs_ok c h \<and> run_of c = run_of ctx \<and> nxt c = Some c1 \<and>
       pc ctx' = pc c1 \<and> jit ctx' = jit c1 \<and> compiler_id ctx' = compiler_id c1)"

definition moved :: "(buxn_jit_ctx \<Rightarrow> buxn_jit_ctx option) \<Rightarrow> buxn_jit_ctx \<Rightarrow> buxn_jit_ctx \<Rightarrow> bool" where
  "moved nxt ctx ctx' \<longleftrightarrow>
     (\<exists>h. regs_ok ctx' h) \<and>
     ((pc ctx' = pc ctx \<or> pc ctx' = pc ctx + 1 \<or> pc ctx' = pc ctx + 2) \<and> compiler_id ctx' = compiler_id ctx \<and>
        (jit ctx' = jit ctx \<or> (\<exists>lt t jump. jit ctx' = link_jit lt t jump (compiler_id ctx) (jit ctx))) \<or>
      nested nxt ctx ctx')"

lemma moved_plain: "plain ctx ctx' \<Longrightarrow> moved nxt ctx ctx'"
  by (auto simp: moved_def plain_def run_of_def)

lemma moved_step:
  assumes "jit c = jit ctx" and "compiler_id c = compiler_id ctx" and "pc c = pc ctx \<or> pc c = pc ctx + 2"
    and "linked_run c ctx'" and "regs_ok ctx' h"
  shows "moved nxt ctx ctx'"
  using assms by (auto simp: moved_def linked_run_def)

lemma moved_compiler [simp]: "moved nxt ctx (ctx'\<lparr>compiler := b\<rparr>) = moved nxt ctx ctx'"
  by (simp add: moved_def nested_def)

lemma moved_label [simp]:
  "moved nxt ctx (set_label j l ctx') = moved nxt ctx ctx'" "moved nxt ctx (emit i ctx') = moved nxt ctx ctx'"
  by (simp_all add: moved_def nested_def)

lemma jump_moved:
  assumes "regs_ok c held" and "run_of c = run_of ctx"
    and "\<And>c h. regs_ok c h \<Longrightarrow> run_of c = run_of ctx \<Longrightarrow> returns (nxt c) (\<lambda>c1. \<exists>h. regs_ok c1 h)"
  shows "returns (buxn_jit_jump nxt target ra c) (moved nxt ctx)"
proof (rule returns_mono [OF jump_returns [OF assms(1)]])
  show "returns (nxt c') (\<lambda>c1. \<exists>h. regs_ok c1 h)" if "regs_ok c' h" "run_of c' = run_of c" for c' h
    using assms(2,3) that by simp
  fix ctx'
  have r: "jit c = jit ctx" "compiler_id c = compiler_id ctx" "pc c = pc ctx"
    using assms(2) by (simp_all add: run_of_def)
  assume "(\<exists>h. regs_ok ctx' h) \<and> (linked_run c ctx' \<or> (\<exists>c' c1 h. is_short target = False \<and> regs_ok c' h \<and>
    run_of c' = run_of c \<and> nxt c' = Some c1 \<and> run_of ctx' = (pc c1, jit c1, compiler c, compiler_id c1)))"
  then show "moved nxt ctx ctx'"
  proof (elim conjE exE disjE)
    fix h assume "regs_ok ctx' h" "linked_run c ctx'"
    then show ?thesis using moved_step [OF r(1,2)] r(3) by blast
  next
    fix h c' c1 h'
    assume "regs_ok ctx' h" "regs_ok c' h'" "run_of c' = run_of c" "nxt c' = Some c1"
      "run_of ctx' = (pc c1, jit c1, compiler c, compiler_id c1)"
    then have "nested nxt ctx ctx'" unfolding nested_def using assms(2) by (auto simp: run_of_def)
    then show ?thesis using \<open>regs_ok ctx' h\<close> by (auto simp: moved_def)
  qed
qed

text \<open>A jump to an immediate target, which is a short.\<close>

lemma jump_short:
  assumes "regs_ok c held" and "is_short target" and "jit c = jit ctx" and "compiler_id c = compiler_id ctx"
    and "pc c = pc ctx \<or> pc c = pc ctx + 2"
  shows "returns (buxn_jit_jump nxt target ra c) (moved nxt ctx)"
  by (rule returns_mono [OF jump_returns [OF assms(1)]]) (use assms(2-5) in \<open>auto intro: moved_step\<close>)

lemma imm_target_simps [simp]:
  "is_short (fst (buxn_jit_immediate_jump_target ctx))"
  "jit (snd (buxn_jit_immediate_jump_target ctx)) = jit ctx"
  "compiler_id (snd (buxn_jit_immediate_jump_target ctx)) = compiler_id ctx"
  "pc (snd (buxn_jit_immediate_jump_target ctx)) = pc ctx + 2"
  "regs_ok (snd (buxn_jit_immediate_jump_target ctx)) held = regs_ok ctx held"
  "(case buxn_jit_immediate_jump_target ctx of (v, c) \<Rightarrow> f v c) =
     f (fst (buxn_jit_immediate_jump_target ctx)) (snd (buxn_jit_immediate_jump_target ctx))"
  by (simp_all add: buxn_jit_immediate_jump_target_def Let_def)

lemma push_return_addr_returns:
  assumes "regs_ok ctx held" and "length held \<le> 3"
    and "\<And>c h. regs_ok c h \<Longrightarrow> run_of c = run_of ctx \<Longrightarrow> P c"
  shows "returns (push_return_addr r ctx) P"
  unfolding push_return_addr_def Let_def using assms by (auto intro!: returns_intros)

lemma conditional_returns:
  assumes "regs_ok ctx held" and "\<And>c. regs_ok c held \<Longrightarrow> run_of c = run_of ctx \<Longrightarrow>
    returns (buxn_jit_jump nxt target 0 c) (moved nxt ctx0)"
  shows "returns (buxn_jit_conditional_jump nxt cnd target ctx) (moved nxt ctx0)"
  unfolding buxn_jit_conditional_jump_def Let_def emit_jump_def emit_label_def
  using assms by (auto intro!: returns_clear)

lemma jump_ops_return:
  assumes "regs_ok ctx held" and "length held \<le> 2"
    and "\<And>c h. regs_ok c h \<Longrightarrow> run_of c = run_of ctx \<Longrightarrow> returns (nxt c) (\<lambda>c1. \<exists>h. regs_ok c1 h)"
  shows "returns (buxn_jit_JMP nxt ctx) (moved nxt ctx)" and "returns (buxn_jit_JCN nxt ctx) (moved nxt ctx)"
    and "returns (buxn_jit_JSR nxt ctx) (moved nxt ctx)"
proof -
  show "returns (buxn_jit_JMP nxt ctx) (moved nxt ctx)"
    unfolding buxn_jit_JMP_def buxn_jit_finalize_def
    using assms by (auto intro!: returns_pop jump_moved simp: if_distrib [where f = "moved nxt ctx"])
  show "returns (buxn_jit_JCN nxt ctx) (moved nxt ctx)"
    unfolding buxn_jit_JCN_def
    using assms by (auto intro!: returns_pop returns_pop_ex conditional_returns jump_moved)
  show "returns (buxn_jit_JSR nxt ctx) (moved nxt ctx)"
    unfolding buxn_jit_JSR_def
    using assms by (auto intro!: returns_pop push_return_addr_returns jump_moved)
qed

lemma immediate_jump_ops_return:
  assumes "regs_ok ctx held" and "length held \<le> 2"
  shows "returns (buxn_jit_JCI nxt ctx) (moved nxt ctx)" and "returns (buxn_jit_JMI nxt ctx) (moved nxt ctx)"
    and "returns (buxn_jit_JSI nxt ctx) (moved nxt ctx)"
proof -
  show "returns (buxn_jit_JCI nxt ctx) (moved nxt ctx)"
    unfolding buxn_jit_JCI_def
    using assms by (auto intro!: returns_pop_ex conditional_returns jump_short simp: run_of_def)
  show "returns (buxn_jit_JMI nxt ctx) (moved nxt ctx)"
    unfolding buxn_jit_JMI_def buxn_jit_finalize_def
    using assms by (auto intro!: jump_short)
  show "returns (buxn_jit_JSI nxt ctx) (moved nxt ctx)"
    unfolding buxn_jit_JSI_def
    using assms by (auto intro!: push_return_addr_returns jump_short simp: run_of_def)
qed

lemma dispatch_returns:
  assumes "regs_ok ctx held" and "length held \<le> 2"
    and "\<And>c h. regs_ok c h \<Longrightarrow> run_of c = run_of ctx \<Longrightarrow> returns (nxt c) (\<lambda>c1. \<exists>h. regs_ok c1 h)"
  shows "returns (BUXN_JIT_DISPATCH op nxt ctx) (moved nxt ctx)"
proof -
  have plain: "returns m (plain ctx) \<Longrightarrow> returns m (moved nxt ctx)" for m
    by (erule returns_mono) (rule moved_plain)
  note plain = stack_ops_return [OF assms(1,2), THEN plain] compare_op_returns [OF assms(1,2), THEN plain]
    arith_ops_return [OF assms(1,2), THEN plain] DIV_returns [OF assms(1,2), THEN plain]
    memory_ops_return [OF assms(1,2), THEN plain] device_ops_return [OF assms(1,2), THEN plain]
  note jumps = jump_ops_return [where nxt = nxt, OF assms] immediate_jump_ops_return [OF assms(1,2), of nxt]
  have lit: "returns (buxn_jit_LIT ctx) (moved nxt ctx)"
    by (rule returns_mono [OF LIT_returns [OF assms(1,2)]]) (auto simp: moved_def)
  have brk: "returns (buxn_jit_BRK ctx) (moved nxt ctx)"
    by (rule returns_mono [OF BRK_returns [OF assms(1)]]) (auto simp: moved_def)
  show ?thesis
    by (cases op) (simp_all add: jumps lit brk buxn_jit_EQU_def buxn_jit_NEQ_def buxn_jit_GTH_def buxn_jit_LTH_def plain)
qed

lemma dispatch_cong:
  assumes "\<And>c. run_of c = run_of ctx \<Longrightarrow> nxt c = nxt' c"
  shows "BUXN_JIT_DISPATCH op nxt ctx = BUXN_JIT_DISPATCH op nxt' ctx"
proof -
  have j: "buxn_jit_jump nxt t ra c = buxn_jit_jump nxt' t ra c" if "run_of c = run_of ctx" for t ra c
    by (rule jump_cong) (use assms that in simp)
  have s: "buxn_jit_jump nxt t ra c = buxn_jit_jump nxt' t ra c" if "is_short t" for t ra c
    by (rule jump_cong) (use that in simp)
  have cj: "buxn_jit_conditional_jump nxt cnd t c = buxn_jit_conditional_jump nxt' cnd t c"
    if "is_short t \<or> run_of c = run_of ctx" for cnd t c
    unfolding buxn_jit_conditional_jump_def
    by (rule Option.bind_cong [OF refl])
      (use that j s in \<open>auto simp: Let_def emit_jump_def dest!: run_of_clear_caches\<close>)
  have ra: "push_return_addr r c = Some c' \<Longrightarrow> run_of c' = run_of c" for r c c'
    by (auto simp: push_return_addr_def Let_def split: bind_splits dest!: run_of_dest)
  have pop: "buxn_jit_pop c = Some (v, c') \<Longrightarrow> run_of c' = run_of c" for c v c'
    by (auto simp: buxn_jit_pop_def dest: run_of_pop_ex)
  show ?thesis
    by (cases op)
      (auto simp: buxn_jit_JMP_def buxn_jit_JCN_def buxn_jit_JSR_def buxn_jit_JCI_def buxn_jit_JMI_def buxn_jit_JSI_def
        split_beta j s cj dest!: pop ra run_of_pop_ex intro!: Option.bind_cong)
qed

section \<open>The block\<close>

text \<open>How far the program counter is from the end of memory. In the zero page the block ends.\<close>

definition left :: "u16 \<Rightarrow> nat" where
  "left p = (if p < 256 then 0 else 65536 - unat p)"

lemma left_bound: "left p \<le> 65280"
  by (auto simp: left_def word_less_nat_alt not_less)

lemma left_next:
  assumes "\<not> p < 256" and "q = p + 1 \<or> q = p + 1 + 1 \<or> q = p + 1 + 2"
  shows "left q < left p"
proof -
  obtain k :: nat where k: "k < 4" "0 < k" "q = p + word_of_nat k"
  proof -
    from assms(2) consider "q = p + 1" | "q = p + 2" | "q = p + 3" by (auto simp: add.assoc)
    then show ?thesis
      by cases (rule that [of 1] that [of 2] that [of 3]; simp)+
  qed
  have p: "256 \<le> unat p" "unat p < 65536" using assms(1) unsigned_less [of p] by (simp_all add: word_less_nat_alt not_less)
  have q: "unat q = (unat p + k) mod 65536"
    using k(1,3) by (simp add: unat_word_ariths unat_of_nat)
  have lp: "left p = 65536 - unat p" using assms(1) by (simp add: left_def)
  have lq: "left q = (if unat q < 256 then 0 else 65536 - unat q)"
    by (simp only: left_def word_less_nat_alt) simp
  show ?thesis
  proof (cases "unat p + k < 65536")
    case True
    then have "unat q = unat p + k" by (simp add: q)
    then show ?thesis unfolding lp lq using True p k(2) by auto
  next
    case False
    moreover have "(unat p + k) mod 65536 = unat p + k - 65536"
      using p(2) k(1) False by (subst mod_if, subst mod_less) (linarith, simp)
    ultimately have "unat q < 256" using p(2) k(1) by (subst q) linarith
    then have "left q = 0" by (subst lq) simp
    moreover have "0 < left p" using p(2) by (subst lp) linarith
    ultimately show ?thesis by linarith
  qed
qed

lemma run_eq: "run_of c = run_of ctx \<longleftrightarrow>
    pc c = pc ctx \<and> jit c = jit ctx \<and> compiler c = compiler ctx \<and> compiler_id c = compiler_id ctx"
  by (auto simp: run_of_def)

text \<open>What compiling one opcode does to the program counter and to the runtime.\<close>

definition jit_closed :: "nat \<Rightarrow> (buxn_jit \<Rightarrow> bool) \<Rightarrow> bool" where
  "jit_closed cid P \<longleftrightarrow> (\<forall>j lt t jump. P j \<longrightarrow> P (link_jit lt t jump cid j))"

definition opcode_done :: "(buxn_jit \<Rightarrow> bool) \<Rightarrow> buxn_jit_ctx \<Rightarrow> buxn_jit_ctx \<Rightarrow> bool" where
  "opcode_done P ctx ctx' \<longleftrightarrow>
     (\<exists>h. regs_ok ctx' h) \<and> P (jit ctx') \<and> compiler_id ctx' = compiler_id ctx \<and>
     (if pc ctx < 256 then \<not> compiler ctx' \<and> pc ctx' = pc ctx else left (pc ctx') < left (pc ctx))"

lemma zero_page_returns:
  assumes "regs_ok ctx held" and "pc ctx < 256"
  shows "returns (buxn_jit_next_opcode decode (Suc fuel) ctx) (\<lambda>c. (\<exists>h. regs_ok c h) \<and> \<not> compiler c \<and>
    pc c = pc ctx \<and> jit c = jit ctx \<and> compiler_id c = compiler_id ctx)"
  using assms by (auto simp: buxn_jit_finalize_def run_eq intro!: returns_clear)

lemma next_opcode_returns:
  assumes "regs_ok ctx held" and "left (pc ctx) < fuel" and "P (jit ctx)" and "jit_closed (compiler_id ctx) P"
  shows "returns (buxn_jit_next_opcode decode fuel ctx) (opcode_done P ctx)"
  using assms
proof (induction fuel arbitrary: ctx held)
  case 0
  then show ?case by simp
next
  case (Suc fuel)
  show ?case
  proof (cases "pc ctx < 256")
    case True
    show ?thesis
      by (rule returns_mono [OF zero_page_returns [OF Suc.prems(1) True]])
        (use True Suc.prems(3) in \<open>auto simp: opcode_done_def\<close>)
  next
    case False
    obtain c where c: "fetch_opcode ctx = Some c" "regs_ok c []" using fetch_regs [OF Suc.prems(1)] by blast
    obtain c1 h1 where c1: "setup_shadow c = Some c1" "regs_ok c1 h1" "length h1 \<le> 2"
      using setup_shadow_regs [OF c(2)] by blast
    have e: "pc c1 = pc ctx + 1" "jit c1 = jit ctx" "compiler_id c1 = compiler_id ctx"
      using fetch_run [OF c(1)] run_of_setup_shadow [OF c1(1)] by (simp_all add: run_of_def)
    let ?nxt = "buxn_jit_next_opcode decode fuel"
    have lt: "left (pc ctx + 1) < left (pc ctx)" by (rule left_next [OF False]) simp
    have nx: "returns (?nxt c') (opcode_done P c')" if "regs_ok c' h" "run_of c' = run_of c1" for c' h
      by (rule Suc.IH [OF that(1)]) (use that(2) e lt Suc.prems(2-4) in \<open>simp_all add: run_eq\<close>)
    have "returns (BUXN_JIT_DISPATCH (decode (current_opcode c1)) ?nxt c1) (moved ?nxt c1)"
    proof (rule dispatch_returns [OF c1(2,3)])
      show "returns (?nxt c') (\<lambda>c1. \<exists>h. regs_ok c1 h)" if "regs_ok c' h" "run_of c' = run_of c1" for c' h
        by (rule returns_mono [OF nx [OF that]]) (simp add: opcode_done_def)
    qed
    then have "returns (BUXN_JIT_DISPATCH (decode (current_opcode c1)) ?nxt c1) (opcode_done P ctx)"
    proof (rule returns_mono)
      fix x assume "moved ?nxt c1 x"
      then consider (step) "\<exists>h. regs_ok x h" "pc x = pc c1 \<or> pc x = pc c1 + 1 \<or> pc x = pc c1 + 2"
          "compiler_id x = compiler_id c1" "jit x = jit c1 \<or> (\<exists>lt t jump. jit x = link_jit lt t jump (compiler_id c1) (jit c1))"
        | (nested) "\<exists>h. regs_ok x h" "nested ?nxt c1 x"
        by (auto simp: moved_def)
      then show "opcode_done P ctx x"
      proof cases
        case step
        have "P (jit x)" using step(4) e Suc.prems(3,4) by (auto simp: jit_closed_def)
        moreover have "left (pc x) < left (pc ctx)"
          by (rule left_next [OF False]) (use step(2) e(1) in simp)
        ultimately show ?thesis using step(1,3) e(3) False by (simp add: opcode_done_def)
      next
        case nested
        then obtain c' c2 h where n: "regs_ok c' h" "run_of c' = run_of c1" "?nxt c' = Some c2"
          "pc x = pc c2" "jit x = jit c2" "compiler_id x = compiler_id c2"
          by (auto simp: nested_def)
        have d: "opcode_done P c' c2" using nx [OF n(1,2)] n(3) by simp
        have "left (pc c2) \<le> left (pc ctx + 1)"
          using d n(2) e by (auto simp: opcode_done_def run_eq split: if_splits)
        then show ?thesis
          using d n e lt nested(1) False by (auto simp: opcode_done_def run_eq)
      qed
    qed
    then show ?thesis using False c(1) c1(1) by simp
  qed
qed

text \<open>More fuel than the distance to the end of memory changes nothing.\<close>

lemma next_opcode_fuel:
  "left (pc ctx) < n \<Longrightarrow> left (pc ctx) < m \<Longrightarrow> buxn_jit_next_opcode decode n ctx = buxn_jit_next_opcode decode m ctx"
proof (induction n arbitrary: m ctx)
  case 0
  then show ?case by simp
next
  case (Suc n)
  obtain k where m: "m = Suc k" using Suc.prems(2) by (cases m) auto
  show ?case
  proof (cases "pc ctx < 256")
    case False
    have lt: "left (pc ctx + 1) < left (pc ctx)" by (rule left_next [OF False]) simp
    have "BUXN_JIT_DISPATCH op (buxn_jit_next_opcode decode n) c1 = BUXN_JIT_DISPATCH op (buxn_jit_next_opcode decode k) c1"
      if "pc c1 = pc ctx + 1" for op c1
      by (rule dispatch_cong, rule Suc.IH) (use that lt Suc.prems m in \<open>auto simp: run_eq\<close>)
    then show ?thesis
      using False fetch_run(1) run_of_setup_shadow
      by (auto simp: m run_eq intro!: Option.bind_cong)
  qed (simp add: m)
qed

lemma compile_loop_returns:
  assumes "regs_ok ctx held" and "left (pc ctx) < fuel" and "P (jit ctx)" and "jit_closed (compiler_id ctx) P"
  shows "returns (compile_loop decode fuel ctx) (\<lambda>c. P (jit c) \<and> compiler_id c = compiler_id ctx \<and> \<not> compiler c)"
  using assms
proof (induction fuel arbitrary: ctx held)
  case 0
  then show ?case by simp
next
  case (Suc fuel)
  show ?case
  proof (cases "compiler ctx")
    case False
    then show ?thesis using Suc.prems(3) by (simp add: compile_loop.simps [of decode _ ctx])
  next
    case True
    have "left (pc ctx) < 65536" using left_bound [of "pc ctx"] by simp
    then obtain c where c: "buxn_jit_next_opcode decode 65536 ctx = Some c" "opcode_done P ctx c"
      using next_opcode_returns [OF Suc.prems(1) _ Suc.prems(3,4)] unfolding returns_def by blast
    then obtain h where h: "regs_ok c h" "P (jit c)" "compiler_id c = compiler_id ctx" by (auto simp: opcode_done_def)
    have "returns (compile_loop decode fuel c) (\<lambda>c. P (jit c) \<and> compiler_id c = compiler_id ctx \<and> \<not> compiler c)"
    proof (cases "pc ctx < 256")
      case True
      then have "\<not> compiler c" using c(2) by (simp add: opcode_done_def)
      then show ?thesis using h by (simp add: compile_loop.simps [of decode _ c])
    next
      case False
      then have "left (pc c) < fuel" using c(2) Suc.prems(2) by (simp add: opcode_done_def)
      from Suc.IH [OF h(1) this h(2)] show ?thesis using Suc.prems(4) h(3) by simp
    qed
    then show ?thesis using True c(1) by (simp add: compile_loop.simps [of decode "Suc fuel" ctx])
  qed
qed

lemma compile_loop_fuel:
  assumes "regs_ok ctx held" and "left (pc ctx) < n" and "left (pc ctx) < m"
  shows "compile_loop decode n ctx = compile_loop decode m ctx"
  using assms
proof (induction n arbitrary: m ctx held)
  case 0
  then show ?case by simp
next
  case (Suc n)
  obtain k where m: "m = Suc k" using Suc.prems(3) by (cases m) auto
  show ?case
  proof (cases "compiler ctx")
    case False
    then show ?thesis by (simp add: compile_loop.simps [of decode _ ctx])
  next
    case True
    have "left (pc ctx) < 65536" using left_bound [of "pc ctx"] by simp
    then obtain c where c: "buxn_jit_next_opcode decode 65536 ctx = Some c" "opcode_done (\<lambda>_. True) ctx c"
      using next_opcode_returns [OF Suc.prems(1), of 65536 "\<lambda>_. True"]
      unfolding returns_def jit_closed_def by blast
    then obtain h where h: "regs_ok c h" by (auto simp: opcode_done_def)
    have "compile_loop decode n c = compile_loop decode k c"
    proof (cases "pc ctx < 256")
      case True
      then have "\<not> compiler c" using c(2) by (simp add: opcode_done_def)
      then show ?thesis by (simp add: compile_loop.simps [of decode _ c])
    next
      case False
      then show ?thesis using Suc.IH [OF h] c(2) Suc.prems(2,3) m by (simp add: opcode_done_def)
    qed
    then show ?thesis using True c(1) by (simp add: m compile_loop.simps [of decode "Suc _" ctx])
  qed
qed

lemma prologue_simps [simp]:
  "regs_ok (snd (prologue ctx)) held = regs_ok ctx held"
  "run_of (snd (prologue ctx)) = run_of ctx"
  by (simp_all add: prologue_def emit_jump_def emit_label_def Let_def)

lemma initial_regs: "regs_ok (initial_ctx j cid a) []"
proof -
  have "cache_of r (initial_ctx j cid a) = empty_cache" for r by (simp add: cache_of_def initial_ctx_def)
  then have "shape_ok (initial_ctx j cid a)" "cached_regs (initial_ctx j cid a) = []"
    by (simp_all add: shape_ok_def cached_regs_def ops_all_def act_def empty_cache_def)
      (simp_all add: initial_ctx_def)
  then show ?thesis by (simp add: regs_ok_def refs_ok_def) (simp add: initial_ctx_def)
qed

lemma compile_returns:
  assumes "etarget (entry_store j e) = Pc_target a" and "P j" and "jit_closed (ecompiler (entry_store j e)) P"
  shows "\<exists>jx out head body. P jx \<and> buxn_jit_compile decode gen e j = Some (jx
    \<lparr>block_store := (block_store jx)(eblock (entry_store j e) := (block_store jx (eblock (entry_store j e)))
       \<lparr>fn := generated_fn out, head_addr := label_addr out head, body_addr := label_addr out body,
        executable_offset := generated_offset out\<rparr>),
     stats := (stats jx)\<lparr>code_size := code_size (stats jx) + generated_size out\<rparr>\<rparr>) \<and>
    (\<exists>cid is ls. out = gen cid is ls)"
proof -
  let ?entry = "entry_store j e"
  obtain head body ctx where p: "prologue (initial_ctx j (ecompiler ?entry) a) = ((head, body), ctx)"
    by (metis surj_pair)
  have r: "regs_ok ctx []" "run_of ctx = run_of (initial_ctx j (ecompiler ?entry) a)"
    using prologue_simps [of "initial_ctx j (ecompiler ?entry) a"] initial_regs p by simp_all
  then have e: "jit ctx = j" "compiler_id ctx = ecompiler ?entry" by (simp_all add: run_of_def initial_ctx_def)
  have "left (pc ctx) < 65536" using left_bound [of "pc ctx"] by simp
  then obtain c where c: "compile_loop decode 65536 ctx = Some c" "P (jit c)"
    using compile_loop_returns [OF r(1), of 65536 P decode] assms(2,3) e unfolding returns_def by auto
  show ?thesis
    by (rule exI [of _ "jit c"], rule exI [of _ "gen (ecompiler ?entry) (code c) (jump_labels c)"],
        rule exI [of _ head], rule exI [of _ body])
      (use assms(1) p c in \<open>auto simp: buxn_jit_compile_def Let_def\<close>)
qed

text \<open>
  C8. Compiling an entry always ends with a block: whatever the memory holds and whatever the opcode table is,
  no assertion about registers or reference counts fails, and giving the compile loop more than 65536
  rounds, or the nesting of opcodes more than 65536 levels, changes nothing.
\<close>

theorem compile_terminates:
  assumes "etarget (entry_store j e) = Pc_target a" and "65536 \<le> n"
  shows "buxn_jit_compile decode gen e j \<noteq> None \<and>
    (let ctx = snd (prologue (initial_ctx j (ecompiler (entry_store j e)) a)) in
     compile_loop decode n ctx = compile_loop decode 65536 ctx \<and>
     buxn_jit_next_opcode decode n ctx = buxn_jit_next_opcode decode 65536 ctx)"
proof -
  let ?c = "snd (prologue (initial_ctx j (ecompiler (entry_store j e)) a))"
  have "left (pc ?c) < 65536" using left_bound [of "pc ?c"] by simp
  moreover have "regs_ok ?c []" using initial_regs by simp
  ultimately show ?thesis
    using compile_returns [OF assms(1), of "\<lambda>_. True" decode gen] compile_loop_fuel [of ?c "[]" n 65536 decode]
      next_opcode_fuel [of ?c n 65536 decode] assms(2)
    by (auto simp: jit_closed_def Let_def)
qed

definition example_entry :: buxn_jit_entry where
  "example_entry = \<lparr>enext = None, link_type = LINK_TO_HEAD, eblock = 0, ecompiler = 0, etarget = Pc_target 0x100\<rparr>"

lemma compile_terminates_witness:
  "buxn_jit_compile (\<lambda>_. OP_ADD) (\<lambda>cid is ls. \<lparr>generated_fn = 1, label_addr = word_of_nat, generated_offset = 0, generated_size = 8\<rparr>)
     7 (buxn_jit_init 0x1000 (\<lambda>_. 0x18) (\<lambda>_. 8) True (\<lambda>_. example_entry) (\<lambda>_. undefined)) \<noteq> None"
  using compile_terminates [of "buxn_jit_init 0x1000 (\<lambda>_. 0x18) (\<lambda>_. 8) True (\<lambda>_. example_entry) (\<lambda>_. undefined)" 7 "0x100" 65536]
  by (simp add: buxn_jit_init_def example_entry_def)

end
