(* ===== verification/Runtime.thy ===== *)
theory Runtime
  imports Compile_Total
begin

text \<open>
  The runtime around the compiler: \<^verbatim>\<open>buxn_jit\<close> of \<^verbatim>\<open>src/jit.c\<close> compiles the queued blocks until none is left,
  patches the queued jumps and frees the compilers. \<open>runtime\<close> is its invariant at every point of the three loops;
  \<open>idle\<close> is what holds between calls: nothing is queued and every block has code.
\<close>

section \<open>The invariant\<close>

text \<open>
  The entries of the compile queue are the blocks without code, each once, apart from those in \<open>X\<close>, which are
  being compiled; the entries of the link queue are jumps to known blocks; the cleanup queue has the compilers
  made since there were \<open>c0\<close> of them, the last one in front.
\<close>

definition entries_ok :: "buxn_jit \<Rightarrow> nat \<Rightarrow> nat set \<Rightarrow> nat list \<Rightarrow> nat list \<Rightarrow> nat list \<Rightarrow> bool" where
  "entries_ok j c0 X cq lq kq \<longleftrightarrow>
     (\<forall>e \<in> set cq. eblock (entry_store j e) < blocks_allocated j \<and> eblock (entry_store j e) \<notin> X \<and>
        etarget (entry_store j e) = Pc_target (bpc (block_store j (eblock (entry_store j e))))) \<and>
     distinct (map (\<lambda>e. eblock (entry_store j e)) cq) \<and>
     (\<forall>b < blocks_allocated j. fn (block_store j b) = 0 \<longleftrightarrow> b \<in> X \<or> (\<exists>e \<in> set cq. eblock (entry_store j e) = b)) \<and>
     (\<forall>b \<in> X. b < blocks_allocated j) \<and>
     (\<forall>e \<in> set lq. eblock (entry_store j e) < blocks_allocated j \<and> (\<exists>jump. etarget (entry_store j e) = Jump_target jump)) \<and>
     c0 \<le> compilers_created j \<and> map (\<lambda>e. ecompiler (entry_store j e)) kq = rev [c0..<compilers_created j]"

definition runtime ::
  "buxn_jit \<Rightarrow> nat list \<Rightarrow> nat \<Rightarrow> nat set \<Rightarrow> nat list \<Rightarrow> nat list \<Rightarrow> nat list \<Rightarrow> nat list \<Rightarrow> nat list \<Rightarrow> bool" where
  "runtime j H c0 X cq lq kq pool bs \<longleftrightarrow>
     jit_queues j H cq lq kq pool \<and> jit_blocks j bs \<and> entries_ok j c0 X cq lq kq"

text \<open>What stays of a block and of an entry.\<close>

definition same_entry :: "buxn_jit \<Rightarrow> buxn_jit \<Rightarrow> nat \<Rightarrow> bool" where
  "same_entry j j' e \<longleftrightarrow>
     eblock (entry_store j' e) = eblock (entry_store j e) \<and> etarget (entry_store j' e) = etarget (entry_store j e) \<and>
     ecompiler (entry_store j' e) = ecompiler (entry_store j e) \<and> link_type (entry_store j' e) = link_type (entry_store j e)"

definition extends :: "buxn_jit \<Rightarrow> buxn_jit \<Rightarrow> bool" where
  "extends j j' \<longleftrightarrow> blocks_allocated j \<le> blocks_allocated j' \<and> (\<forall>b < blocks_allocated j. block_store j' b = block_store j b)"

lemma extends_refl [simp]: "extends j j"
  by (simp add: extends_def)

lemma extends_trans [trans]: "extends a b \<Longrightarrow> extends b c \<Longrightarrow> extends a c"
  by (auto simp: extends_def)

lemma same_entry_refl [simp]: "same_entry j j e"
  by (simp add: same_entry_def)

lemma same_entry_trans [trans]: "same_entry a b e \<Longrightarrow> same_entry b c e \<Longrightarrow> same_entry a c e"
  by (simp add: same_entry_def)

lemma entries_ok_cong:
  assumes "\<forall>e \<in> set cq \<union> set lq \<union> set kq. same_entry j j' e" and "same_blocks j j'"
    and "compilers_created j' = compilers_created j"
  shows "entries_ok j' c0 X cq lq kq = entries_ok j c0 X cq lq kq"
proof -
  have "\<forall>e \<in> set cq \<union> set lq \<union> set kq. entry_store j' e = entry_store j' e" by simp
  have m: "map (\<lambda>e. eblock (entry_store j' e)) cq = map (\<lambda>e. eblock (entry_store j e)) cq"
    "map (\<lambda>e. ecompiler (entry_store j' e)) kq = map (\<lambda>e. ecompiler (entry_store j e)) kq"
    using assms(1) by (auto simp: same_entry_def)
  show ?thesis
    using assms unfolding entries_ok_def m same_blocks_def by (auto simp: same_entry_def)
qed

section \<open>Queueing a jump\<close>

lemma compilers_created_simps [simp]:
  "compilers_created (snd (buxn_jit_alloc_entry j)) = compilers_created j"
  "compilers_created (update_entry e f j) = compilers_created j"
  "compilers_created (enqueue_compile e j) = compilers_created j"
  "compilers_created (enqueue_link e j) = compilers_created j"
  "compilers_created (enqueue_cleanup e j) = compilers_created j"
  "compilers_created (enqueue_pool e j) = compilers_created j"
  "compilers_created (snd (new_block itr p j)) = compilers_created j"
  by (auto simp: buxn_jit_alloc_entry_def update_entry_def enqueue_compile_def enqueue_link_def enqueue_cleanup_def
      enqueue_pool_def new_block_def Let_def split: prod.splits option.splits)

lemma alloc_entry_runtime:
  assumes "runtime j H c0 X cq lq kq pool bs" and "buxn_jit_alloc_entry j = (e, j')"
  shows "runtime j' (e # H) c0 X cq lq kq (tl pool) bs" and "entry_store j' = entry_store j" and "extends j j'"
proof -
  have s: "same_blocks j j'" using same_blocks_ops(6) [of j] assms(2) by simp
  show es: "entry_store j' = entry_store j" using alloc_entry_store [of j] assms(2) by simp
  have c: "compilers_created j' = compilers_created j"
    using compilers_created_simps(1) [of j] assms(2) by simp
  show "runtime j' (e # H) c0 X cq lq kq (tl pool) bs"
    using assms(1) jit_queues_alloc [OF _ assms(2)] entries_ok_cong [OF _ s c, of cq lq kq] es
    by (simp add: runtime_def same_blocks_wf [OF s] same_entry_def)
  show "extends j j'" using s by (simp add: extends_def same_blocks_def)
qed

text \<open>What queueing does to the compile queue: nothing, or one entry with a new compiler is put in front; new blocks have no code.\<close>

definition queued_more :: "buxn_jit \<Rightarrow> nat list \<Rightarrow> buxn_jit \<Rightarrow> nat list \<Rightarrow> bool" where
  "queued_more j cq j' cq' \<longleftrightarrow>
     (\<forall>e \<in> set cq. same_entry j j' e) \<and>
     (\<forall>b. blocks_allocated j \<le> b \<and> b < blocks_allocated j' \<longrightarrow> fn (block_store j' b) = 0) \<and>
     (cq' = cq \<and> compilers_created j' = compilers_created j \<or>
      (\<exists>e. cq' = e # cq \<and> ecompiler (entry_store j' e) = compilers_created j \<and> compilers_created j' = Suc (compilers_created j)))"

lemma queue_block_runtime:
  assumes r: "runtime j H c0 X cq lq kq pool bs" and q: "buxn_jit_queue_block j p = (b, j')"
  shows "\<exists>cq' kq' pool' bs'. runtime j' H c0 X cq' lq kq' pool' bs' \<and> (\<forall>e \<in> set (H @ lq). same_entry j j' e) \<and>
    extends j j' \<and> b < blocks_allocated j' \<and> bpc (block_store j' b) = p \<and> (j' = j \<or> fn (block_store j' b) = 0) \<and>
    queued_more j cq j' cq'"
proof (cases "snd (block_search (root j) p)")
  case (Some b0)
  then have "b = b0" "j' = j" using q by (simp_all add: queue_block_found)
  moreover have "b0 < blocks_allocated j" "bpc (block_store j b0) = p"
    using r Some by (auto simp: runtime_def jit_blocks_def)
  moreover have "queued_more j cq j cq" by (auto simp: queued_more_def)
  ultimately show ?thesis using r by fastforce
next
  case None
  have qs: "jit_queues j H cq lq kq pool" and bl: "jit_blocks j bs" and en: "entries_ok j c0 X cq lq kq"
    using r by (simp_all add: runtime_def)
  obtain e k where n: "jit_queues j' H (e # cq) lq (k # kq) (tl (tl pool))" "jit_blocks j' (b # bs)"
    "bpc (block_store j' b) = p" "b < blocks_allocated j'"
    "eblock (entry_store j' e) = b" "etarget (entry_store j' e) = Pc_target p"
    "ecompiler (entry_store j' k) = compilers_created j"
    "b = blocks_allocated j" "blocks_allocated j' = Suc b" "fn (block_store j' b) = 0"
    "\<forall>x. x \<noteq> b \<longrightarrow> block_store j' x = block_store j x"
    "\<forall>x. x \<noteq> e \<longrightarrow> x \<noteq> k \<longrightarrow> entry_store j' x = entry_store j x"
    "ecompiler (entry_store j' e) = compilers_created j"
    by (rule queue_block_new [OF qs bl None q])
  have "e \<notin> set (H @ cq @ lq @ kq)" "k \<notin> set (H @ cq @ lq @ kq)"
    using n(1) by (auto simp: jit_queues_def)
  then have es: "\<forall>x \<in> set (H @ cq @ lq @ kq). entry_store j' x = entry_store j x" using n(12) by auto
  have cc: "compilers_created j' = Suc (compilers_created j)"
    using arg_cong [OF q, of "\<lambda>z. compilers_created (snd z)"] None
    by (simp add: buxn_jit_queue_block_def split_beta Let_def)
  have mk: "map (\<lambda>e. ecompiler (entry_store j' e)) (k # kq) = rev [c0..<compilers_created j']"
  proof -
    have m: "map (\<lambda>e. ecompiler (entry_store j' e)) kq = map (\<lambda>e. ecompiler (entry_store j e)) kq" using es by simp
    have "c0 \<le> compilers_created j" "map (\<lambda>e. ecompiler (entry_store j e)) kq = rev [c0..<compilers_created j]"
      using en by (simp_all add: entries_ok_def)
    then show ?thesis by (simp add: cc n(7) m del: upt_Suc) (simp add: upt_Suc)
  qed
  have mc: "map (\<lambda>e. eblock (entry_store j' e)) cq = map (\<lambda>e. eblock (entry_store j e)) cq" using es by simp
  have lt: "\<forall>x \<in> set cq \<union> set lq. eblock (entry_store j x) < b" using en n(8) by (auto simp: entries_ok_def)
  have old: "\<forall>x \<in> set cq. block_store j' (eblock (entry_store j x)) = block_store j (eblock (entry_store j x))"
    using lt n(11) by auto
  have "entries_ok j' c0 X (e # cq) lq (k # kq)"
    unfolding entries_ok_def
  proof (intro conjI)
    show "\<forall>x \<in> set (e # cq). eblock (entry_store j' x) < blocks_allocated j' \<and> eblock (entry_store j' x) \<notin> X \<and>
        etarget (entry_store j' x) = Pc_target (bpc (block_store j' (eblock (entry_store j' x))))"
      using en es n(5,6,3,8,9) lt old by (auto simp: entries_ok_def less_Suc_eq)
    show "distinct (map (\<lambda>e. eblock (entry_store j' e)) (e # cq))"
      using en n(5) lt es by (auto simp: mc entries_ok_def)
    show "\<forall>x < blocks_allocated j'. fn (block_store j' x) = 0 \<longleftrightarrow> x \<in> X \<or> (\<exists>y \<in> set (e # cq). eblock (entry_store j' y) = x)"
      using en es n(5,8-11) by (auto simp: entries_ok_def less_Suc_eq)
    show "\<forall>x \<in> X. x < blocks_allocated j'" using en n(8,9) by (auto simp: entries_ok_def)
    show "\<forall>x \<in> set lq. eblock (entry_store j' x) < blocks_allocated j' \<and> (\<exists>jump. etarget (entry_store j' x) = Jump_target jump)"
      using en es n(8,9) by (auto simp: entries_ok_def)
  qed (use en cc mk in \<open>simp_all add: entries_ok_def\<close>)
  then have "runtime j' H c0 X (e # cq) lq (k # kq) (tl (tl pool)) (b # bs)" using n(1,2) by (simp add: runtime_def)
  moreover have "extends j j'" using n(8,9,11) by (auto simp: extends_def)
  moreover have "\<forall>x \<in> set (H @ lq). same_entry j j' x" using es by (auto simp: same_entry_def)
  moreover have "queued_more j cq j' (e # cq)"
    using es cc n(8-10,13) by (auto simp: queued_more_def same_entry_def less_Suc_eq)
  ultimately show ?thesis using n(3,4,10) by blast
qed

text \<open>What an entry of the link queue says: the compiler of the jump, the jump, and the target it is linked to.\<close>

definition queued :: "buxn_jit \<Rightarrow> nat \<Rightarrow> nat \<times> nat \<times> buxn_jit_link_type \<times> u16" where
  "queued j e =
     (let entry = entry_store j e in
      (ecompiler entry, (case etarget entry of Jump_target jump \<Rightarrow> jump | Pc_target _ \<Rightarrow> 0), link_type entry,
       bpc (block_store j (eblock entry))))"

lemma link_runtime:
  assumes "runtime j H c0 X cq lq kq pool bs"
  shows "\<exists>e cq' kq' pool' bs'. runtime (link_jit lt t jump cid j) H c0 X cq' (e # lq) kq' pool' bs' \<and>
    (\<forall>e \<in> set (H @ lq). same_entry j (link_jit lt t jump cid j) e) \<and> extends j (link_jit lt t jump cid j) \<and>
    queued (link_jit lt t jump cid j) e = (cid, jump, lt, t) \<and> queued_more j cq (link_jit lt t jump cid j) cq'"
proof -
  obtain e j1 where al: "buxn_jit_alloc_entry j = (e, j1)" by fastforce
  note a = alloc_entry_runtime [OF assms al]
  obtain b j2 where q: "buxn_jit_queue_block j1 t = (b, j2)" by fastforce
  obtain cq' kq' pool' bs' where r2: "runtime j2 (e # H) c0 X cq' lq kq' pool' bs'"
    "\<forall>x \<in> set ((e # H) @ lq). same_entry j1 j2 x" "extends j1 j2" "b < blocks_allocated j2" "bpc (block_store j2 b) = t"
    "queued_more j1 cq j2 cq'"
    using queue_block_runtime [OF a(1) q] by metis
  define f where "f = (\<lambda>x :: buxn_jit_entry. x\<lparr>link_type := lt, eblock := b, ecompiler := cid, etarget := Jump_target jump\<rparr>)"
  define j3 where "j3 = enqueue_link e (update_entry e f j2)"
  have j3: "link_jit lt t jump cid j = j3" by (simp add: link_jit_def al q j3_def f_def)
  have qs: "jit_queues j3 H cq' (e # lq) kq' pool'"
    using r2(1) by (simp add: j3_def runtime_def jit_queues_enqueue jit_queues_update_entry f_def)
  have e: "e \<notin> set (H @ cq' @ lq @ kq')" using qs by (auto simp: jit_queues_def)
  then have es: "\<forall>x \<in> set (H @ cq' @ lq @ kq'). entry_store j3 x = entry_store j2 x"
    by (auto simp: j3_def enqueue_link_def update_entry_def buxn_jit_enqueue_def)
  have ee: "eblock (entry_store j3 e) = b" "etarget (entry_store j3 e) = Jump_target jump"
    "ecompiler (entry_store j3 e) = cid" "link_type (entry_store j3 e) = lt"
    by (simp_all add: j3_def enqueue_link_def update_entry_def buxn_jit_enqueue_def f_def)
  have sb: "same_blocks j2 j3"
    unfolding j3_def by (rule same_blocks_trans [OF same_blocks_ops(1) same_blocks_ops(3)])
  have cc: "compilers_created j3 = compilers_created j2" by (simp add: j3_def)
  moreover have "\<forall>x \<in> set cq' \<union> set lq \<union> set kq'. same_entry j2 j3 x" using es by (simp add: same_entry_def)
  ultimately have "entries_ok j3 c0 X cq' lq kq' = entries_ok j2 c0 X cq' lq kq'"
    using entries_ok_cong [OF _ sb] by blast
  then have "entries_ok j3 c0 X cq' (e # lq) kq'"
    using r2(1,4) ee sb by (auto simp: runtime_def entries_ok_def same_blocks_def)
  then have "runtime j3 H c0 X cq' (e # lq) kq' pool' bs'"
    using r2(1) qs by (simp add: runtime_def same_blocks_wf [OF sb])
  moreover have "\<forall>x \<in> set (H @ lq). same_entry j j3 x"
    using r2(2) es a(2) by (auto simp: same_entry_def)
  moreover have "queued j3 e = (cid, jump, lt, t)" using ee r2(5) sb by (simp add: queued_def same_blocks_def)
  moreover have "extends j2 j3" using sb by (simp add: extends_def same_blocks_def)
  then have "extends j j3" using a(3) r2(3) extends_trans by blast
  moreover have "compilers_created j1 = compilers_created j" using compilers_created_simps(1) [of j] al by simp
  then have "queued_more j cq j3 cq'"
    using r2(6) es a(2) cc sb same_blocks_ops(6) [of j] al by (auto simp: queued_more_def same_entry_def same_blocks_def)
  ultimately show ?thesis unfolding j3 by blast
qed

section \<open>Compiling what is queued\<close>

text \<open>Blocks stay; a block with code is not touched again.\<close>

definition grows :: "buxn_jit \<Rightarrow> buxn_jit \<Rightarrow> bool" where
  "grows j j' \<longleftrightarrow>
     blocks_allocated j \<le> blocks_allocated j' \<and>
     (\<forall>b < blocks_allocated j. bpc (block_store j' b) = bpc (block_store j b) \<and>
        (fn (block_store j b) \<noteq> 0 \<longrightarrow> block_store j' b = block_store j b))"

lemma grows_refl [simp]: "grows j j"
  by (simp add: grows_def)

lemma grows_trans [trans]: "grows a b \<Longrightarrow> grows b c \<Longrightarrow> grows a c"
  by (auto simp: grows_def)

lemma extends_grows: "extends j j' \<Longrightarrow> grows j j'"
  by (auto simp: grows_def extends_def)

lemma same_blocks_grows: "same_blocks j j' \<Longrightarrow> grows j j'"
  by (auto simp: grows_def same_blocks_def)

definition set_code :: "nat \<Rightarrow> uw \<Rightarrow> uw \<Rightarrow> uw \<Rightarrow> uw \<Rightarrow> nat \<Rightarrow> buxn_jit \<Rightarrow> buxn_jit" where
  "set_code b f h bd off sz j = j
    \<lparr>block_store := (block_store j)(b := (block_store j b)\<lparr>fn := f, head_addr := h, body_addr := bd, executable_offset := off\<rparr>),
     stats := (stats j)\<lparr>code_size := code_size (stats j) + sz\<rparr>\<rparr>"

lemma set_code_sel [simp]:
  "blocks_allocated (set_code b f h bd off sz j) = blocks_allocated j"
  "entry_store (set_code b f h bd off sz j) = entry_store j"
  "compilers_created (set_code b f h bd off sz j) = compilers_created j"
  "bpc (block_store (set_code b f h bd off sz j) x) = bpc (block_store j x)"
  "bnext (block_store (set_code b f h bd off sz j) x) = bnext (block_store j x)"
  "x \<noteq> b \<Longrightarrow> block_store (set_code b f h bd off sz j) x = block_store j x"
  "fn (block_store (set_code b f h bd off sz j) b) = f"
  "jit_queues (set_code b f h bd off sz j) H cq lq kq pool = jit_queues j H cq lq kq pool"
  by (simp_all add: set_code_def jit_queues_def)

lemma set_code_runtime:
  assumes "runtime j H c0 {b} cq lq kq pool bs" and "f \<noteq> 0"
  shows "runtime (set_code b f h bd off sz j) H c0 {} cq lq kq pool bs"
proof -
  let ?j = "set_code b f h bd off sz j"
  have r: "jit_queues j H cq lq kq pool" "jit_blocks j bs" "entries_ok j c0 {b} cq lq kq"
    using assms(1) by (simp_all add: runtime_def)
  have "root ?j = root j" "first ?j = first j" "num_blocks (stats ?j) = num_blocks (stats j)" by (simp_all add: set_code_def)
  then have bl: "jit_blocks ?j bs" using r(2) by (simp add: jit_blocks_def)
  have "entries_ok ?j c0 {} cq lq kq"
    unfolding entries_ok_def set_code_sel(1-4)
  proof (intro conjI)
    show "\<forall>x < blocks_allocated j. fn (block_store ?j x) = 0 \<longleftrightarrow> x \<in> {} \<or> (\<exists>e \<in> set cq. eblock (entry_store j e) = x)"
    proof (intro allI impI)
      fix x assume "x < blocks_allocated j"
      then show "fn (block_store ?j x) = 0 \<longleftrightarrow> x \<in> {} \<or> (\<exists>e \<in> set cq. eblock (entry_store j e) = x)"
        using r(3) assms(2) by (cases "x = b") (auto simp: entries_ok_def)
    qed
  qed (use r(3) in \<open>auto simp: entries_ok_def\<close>)
  then show ?thesis using r(1) bl by (simp add: runtime_def)
qed

lemma compile_runtime:
  assumes r: "runtime j [e] c0 {eblock (entry_store j e)} cq lq kq pool bs"
    and t: "etarget (entry_store j e) = Pc_target a" and nz: "\<forall>cid is ls. generated_fn (gen cid is ls) \<noteq> 0"
  shows "\<exists>j' cq' lq' kq' pool' bs'. buxn_jit_compile decode gen e j = Some j' \<and>
    runtime j' [e] c0 {} cq' lq' kq' pool' bs' \<and> fn (block_store j' (eblock (entry_store j e))) \<noteq> 0 \<and>
    blocks_allocated j \<le> blocks_allocated j' \<and>
    (\<forall>b < blocks_allocated j. bpc (block_store j' b) = bpc (block_store j b) \<and>
      (b \<noteq> eblock (entry_store j e) \<longrightarrow> block_store j' b = block_store j b))"
proof -
  let ?b = "eblock (entry_store j e)"
  define P where "P j' \<longleftrightarrow> (\<exists>cq lq kq pool bs. runtime j' [e] c0 {?b} cq lq kq pool bs) \<and> extends j j'" for j'
  have "P j" using r extends_refl unfolding P_def by blast
  moreover have "jit_closed cid P" for cid
    unfolding jit_closed_def
  proof (intro allI impI)
    fix j1 lt t jump assume "P j1"
    then obtain cq lq kq pool bs where "runtime j1 [e] c0 {?b} cq lq kq pool bs" "extends j j1" by (auto simp: P_def)
    then show "P (link_jit lt t jump cid j1)"
      using link_runtime [of j1 "[e]" c0 "{?b}" cq lq kq pool bs lt t jump cid] extends_trans [of j j1]
      unfolding P_def by metis
  qed
  ultimately obtain jx out head body where x: "P jx" "buxn_jit_compile decode gen e j = Some (jx
    \<lparr>block_store := (block_store jx)(?b := (block_store jx ?b)
       \<lparr>fn := generated_fn out, head_addr := label_addr out head, body_addr := label_addr out body,
        executable_offset := generated_offset out\<rparr>),
     stats := (stats jx)\<lparr>code_size := code_size (stats jx) + generated_size out\<rparr>\<rparr>)"
    "\<exists>cid is ls. out = gen cid is ls"
    using compile_returns [OF t, of P decode gen] by blast
  have f: "generated_fn out \<noteq> 0" using x(3) nz by auto
  define j' where "j' = set_code ?b (generated_fn out) (label_addr out head) (label_addr out body)
    (generated_offset out) (generated_size out) jx"
  obtain cq' lq' kq' pool' bs' where "runtime jx [e] c0 {?b} cq' lq' kq' pool' bs'" "extends j jx"
    using x(1) by (auto simp: P_def)
  then have "runtime j' [e] c0 {} cq' lq' kq' pool' bs'" "extends j jx"
    using set_code_runtime [OF _ f] by (simp_all add: j'_def)
  moreover have "buxn_jit_compile decode gen e j = Some j'" using x(2) by (simp add: j'_def set_code_def)
  ultimately show ?thesis
    using f by (intro exI [of _ j'] exI [of _ cq'] exI [of _ lq'] exI [of _ kq'] exI [of _ pool'] exI [of _ bs'])
      (auto simp: extends_def j'_def)
qed

definition compiled :: "buxn_jit \<Rightarrow> nat" where
  "compiled j = card {b. b < blocks_allocated j \<and> fn (block_store j b) \<noteq> 0}"

lemma blocks_bound:
  assumes "jit_blocks j bs"
  shows "blocks_allocated j \<le> 65536"
proof -
  have "inj_on (\<lambda>b. bpc (block_store j b)) {..<blocks_allocated j}"
  proof (rule inj_onI)
    fix b b' assume "b \<in> {..<blocks_allocated j}" "b' \<in> {..<blocks_allocated j}"
      "bpc (block_store j b) = bpc (block_store j b')"
    then have "snd (block_search (root j) (bpc (block_store j b))) = Some b"
      "snd (block_search (root j) (bpc (block_store j b))) = Some b'"
      using assms by (auto simp: jit_blocks_def)
    then show "b = b'" by simp
  qed
  then have "blocks_allocated j = card ((\<lambda>b. bpc (block_store j b)) ` {..<blocks_allocated j})"
    by (simp add: card_image)
  also have "\<dots> \<le> card (UNIV :: u16 set)" by (rule card_mono) simp_all
  also have "\<dots> = 65536" by (simp add: card_word)
  finally show ?thesis .
qed

lemma dequeue_runtime:
  assumes "runtime j [] c0 {} (e # cq) lq kq pool bs"
  shows "buxn_jit_dequeue (entry_store j) (compile_queue j) = (Some e, enext (entry_store j e))"
    and "runtime (j\<lparr>compile_queue := enext (entry_store j e)\<rparr>) [e] c0 {eblock (entry_store j e)} cq lq kq pool bs"
    and "etarget (entry_store j e) = Pc_target (bpc (block_store j (eblock (entry_store j e))))"
    and "eblock (entry_store j e) < blocks_allocated j" and "fn (block_store j (eblock (entry_store j e))) = 0"
proof -
  let ?j = "j\<lparr>compile_queue := enext (entry_store j e)\<rparr>"
  have q: "jit_queues j [] (e # cq) lq kq pool" and bl: "jit_blocks j bs" and en: "entries_ok j c0 {} (e # cq) lq kq"
    using assms by (simp_all add: runtime_def)
  show "buxn_jit_dequeue (entry_store j) (compile_queue j) = (Some e, enext (entry_store j e))"
    using q by (simp add: jit_queues_def buxn_jit_dequeue_def)
  show "etarget (entry_store j e) = Pc_target (bpc (block_store j (eblock (entry_store j e))))"
    "eblock (entry_store j e) < blocks_allocated j" "fn (block_store j (eblock (entry_store j e))) = 0"
    using en by (auto simp: entries_ok_def)
  have "jit_queues ?j [e] cq lq kq pool" using q by (auto simp: jit_queues_def)
  moreover have "jit_blocks ?j bs" using bl by (simp add: jit_blocks_def)
  moreover have "entries_ok ?j c0 {eblock (entry_store j e)} cq lq kq"
    unfolding entries_ok_def
  proof (intro conjI allI ballI impI)
    fix b assume "b < blocks_allocated ?j"
    then have "fn (block_store j b) = 0 \<longleftrightarrow> b \<in> {} \<or> (\<exists>x \<in> set (e # cq). eblock (entry_store j x) = b)"
      using en unfolding entries_ok_def by simp
    then show "fn (block_store ?j b) = 0 \<longleftrightarrow>
        b \<in> {eblock (entry_store j e)} \<or> (\<exists>x \<in> set cq. eblock (entry_store ?j x) = b)"
      by auto
  next
    fix x assume x: "x \<in> set cq"
    have "distinct (map (\<lambda>e. eblock (entry_store j e)) (e # cq))" using en unfolding entries_ok_def by blast
    then have "\<forall>y \<in> set cq. eblock (entry_store j e) \<noteq> eblock (entry_store j y)" by (simp add: image_iff)
    then show "eblock (entry_store ?j x) \<notin> {eblock (entry_store j e)}" using x by fastforce
    have "\<forall>x \<in> set (e # cq). eblock (entry_store j x) < blocks_allocated j \<and>
        etarget (entry_store j x) = Pc_target (bpc (block_store j (eblock (entry_store j x))))"
      using en unfolding entries_ok_def by blast
    with x show "eblock (entry_store ?j x) < blocks_allocated ?j"
      "etarget (entry_store ?j x) = Pc_target (bpc (block_store ?j (eblock (entry_store ?j x))))" by simp_all
  next
    fix b assume "b \<in> {eblock (entry_store j e)}"
    then show "b < blocks_allocated ?j" using \<open>eblock (entry_store j e) < blocks_allocated j\<close> by simp
  next
    fix x assume "x \<in> set lq"
    then show "eblock (entry_store ?j x) < blocks_allocated ?j" "\<exists>jump. etarget (entry_store ?j x) = Jump_target jump"
      using en unfolding entries_ok_def by simp_all
  next
    have "distinct (map (\<lambda>e. eblock (entry_store j e)) (e # cq))" using en unfolding entries_ok_def by blast
    then show "distinct (map (\<lambda>e. eblock (entry_store ?j e)) cq)" by simp
    show "c0 \<le> compilers_created ?j" "map (\<lambda>e. ecompiler (entry_store ?j e)) kq = rev [c0..<compilers_created ?j]"
      using en unfolding entries_ok_def by simp_all
  qed
  ultimately show "runtime ?j [e] c0 {eblock (entry_store j e)} cq lq kq pool bs" by (simp add: runtime_def)
qed

lemma pool_runtime:
  assumes "runtime j [e] c0 X cq lq kq pool bs"
  shows "runtime (enqueue_pool e j) [] c0 X cq lq kq (e # pool) bs" and "same_blocks j (enqueue_pool e j)"
proof -
  show s: "same_blocks j (enqueue_pool e j)" by simp
  have q: "jit_queues j [e] cq lq kq pool" using assms by (simp add: runtime_def)
  have "entries_ok (enqueue_pool e j) c0 X cq lq kq = entries_ok j c0 X cq lq kq"
    by (rule entries_ok_cong [OF _ s]) (auto simp: same_entry_def enqueue_pool_def buxn_jit_enqueue_def)
  then show "runtime (enqueue_pool e j) [] c0 X cq lq kq (e # pool) bs"
    using assms jit_queues_enqueue(4) [OF q] by (simp add: runtime_def same_blocks_wf [OF s])
qed

lemma compile_all_returns:
  assumes nz: "\<forall>cid is ls. generated_fn (gen cid is ls) \<noteq> 0"
  shows "runtime j [] c0 {} cq lq kq pool bs \<Longrightarrow> 65536 \<le> fuel + compiled j \<Longrightarrow>
    \<exists>j' lq' kq' pool' bs'. compile_all decode gen fuel j = Some j' \<and>
      runtime j' [] c0 {} [] lq' kq' pool' bs' \<and> grows j j'"
proof (induction fuel arbitrary: j cq lq kq pool bs)
  case 0
  show ?case
  proof (cases cq)
    case Nil
    then have "buxn_jit_dequeue (entry_store j) (compile_queue j) = (None, None)"
      using 0(1) by (simp add: runtime_def jit_queues_def buxn_jit_dequeue_def)
    then have "compile_all decode gen 0 j = Some j" by (simp add: compile_all.simps)
    then show ?thesis using 0(1) Nil grows_refl by blast
  next
    case (Cons e es)
    note d = dequeue_runtime [OF 0(1) [unfolded Cons]]
    have "{b. b < blocks_allocated j \<and> fn (block_store j b) \<noteq> 0} \<subset> {..<blocks_allocated j}" using d(4,5) by auto
    from psubset_card_mono [OF finite_lessThan this] have "compiled j < blocks_allocated j" by (simp add: compiled_def)
    then show ?thesis using 0 blocks_bound [of j bs] by (simp add: runtime_def)
  qed
next
  case (Suc fuel)
  show ?case
  proof (cases cq)
    case Nil
    then have "buxn_jit_dequeue (entry_store j) (compile_queue j) = (None, None)"
      using Suc.prems(1) by (simp add: runtime_def jit_queues_def buxn_jit_dequeue_def)
    then have "compile_all decode gen (Suc fuel) j = Some j" by (simp add: compile_all.simps)
    then show ?thesis using Suc.prems(1) Nil grows_refl by blast
  next
    case (Cons e es)
    note d = dequeue_runtime [OF Suc.prems(1) [unfolded Cons]]
    let ?b = "eblock (entry_store j e)" and ?j = "j\<lparr>compile_queue := enext (entry_store j e)\<rparr>"
    have "runtime ?j [e] c0 {eblock (entry_store ?j e)} es lq kq pool bs"
      "etarget (entry_store ?j e) = Pc_target (bpc (block_store j ?b))"
      using d(2,3) by simp_all
    from compile_runtime [OF this nz, of decode] obtain j1 cq1 lq1 kq1 pool1 bs1 where
      c: "buxn_jit_compile decode gen e ?j = Some j1" "runtime j1 [e] c0 {} cq1 lq1 kq1 pool1 bs1"
      "fn (block_store j1 ?b) \<noteq> 0" "blocks_allocated j \<le> blocks_allocated j1"
      "\<forall>b < blocks_allocated j. bpc (block_store j1 b) = bpc (block_store j b) \<and> (b \<noteq> ?b \<longrightarrow> block_store j1 b = block_store j b)"
      by auto
    let ?j2 = "enqueue_pool e j1"
    note p = pool_runtime [OF c(2)]
    have s: "blocks_allocated ?j2 = blocks_allocated j1" "block_store ?j2 = block_store j1"
      using p(2) by (simp_all add: same_blocks_def)
    have "{b. b < blocks_allocated j \<and> fn (block_store j b) \<noteq> 0} \<subset> {b. b < blocks_allocated ?j2 \<and> fn (block_store ?j2 b) \<noteq> 0}"
      using c(3-5) d(4,5) by (auto simp: s)
    then have "compiled j < compiled ?j2" unfolding compiled_def by (rule psubset_card_mono [rotated]) simp
    then have "65536 \<le> fuel + compiled ?j2" using Suc.prems(2) by simp
    from Suc.IH [OF p(1) this] obtain j' lq' kq' pool' bs' where
      a: "compile_all decode gen fuel ?j2 = Some j'" "runtime j' [] c0 {} [] lq' kq' pool' bs'" "grows ?j2 j'"
      by blast
    have "grows j ?j2" using c(4,5) d(5) by (auto simp: grows_def s)
    then have "grows j j'" using a(3) grows_trans by blast
    moreover have "compile_all decode gen (Suc fuel) j = Some j'"
      using d(1) c(1) a(1) by (simp add: compile_all.simps [of decode gen "Suc fuel"])
    ultimately show ?thesis using a(2) by blast
  qed
qed

section \<open>Patching jumps and freeing compilers\<close>

lemma link_event_cong: "same_entry j j' e \<Longrightarrow> same_blocks j j' \<Longrightarrow> link_event j' e = link_event j e"
  by (cases "etarget (entry_store j e)"; cases "link_type (entry_store j e)")
    (simp_all add: link_event_def same_entry_def same_blocks_def Let_def)

lemma pool_same_entry [simp]: "same_entry j (enqueue_pool e j) x"
  by (simp add: same_entry_def enqueue_pool_def buxn_jit_enqueue_def)

lemma link_all_returns:
  "runtime j [] c0 {} [] lq kq pool bs \<Longrightarrow>
   \<exists>j'. link_all j = Some (concat (map (link_event j) lq), j') \<and> runtime j' [] c0 {} [] [] kq (rev lq @ pool) bs \<and>
     same_blocks j j' \<and> compilers_created j' = compilers_created j \<and> (\<forall>x. same_entry j j' x)"
proof (induction lq arbitrary: j pool)
  case Nil
  then have "buxn_jit_dequeue (entry_store j) (link_queue j) = (None, None)"
    by (simp add: runtime_def jit_queues_def buxn_jit_dequeue_def)
  then show ?case using Nil by (auto simp: link_all.simps)
next
  case (Cons e lq)
  let ?j = "j\<lparr>link_queue := enext (entry_store j e)\<rparr>"
  let ?j1 = "enqueue_pool e ?j"
  have q: "jit_queues j [] [] (e # lq) kq pool" using Cons.prems by (simp add: runtime_def)
  then have "jit_queues ?j [e] [] lq kq pool" by (auto simp: jit_queues_def)
  moreover have "jit_blocks ?j bs" using Cons.prems by (simp add: runtime_def jit_blocks_def)
  moreover have "entries_ok ?j c0 {} [] lq kq" using Cons.prems by (simp add: runtime_def entries_ok_def)
  ultimately have r: "runtime ?j [e] c0 {} [] lq kq pool bs" by (simp add: runtime_def)
  note p = pool_runtime [OF r]
  have sb: "same_blocks j ?j1" using p(2) by (simp add: same_blocks_def)
  have se: "same_entry j ?j1 x" for x using pool_same_entry [of ?j e x] by (simp add: same_entry_def)
  obtain j' where j': "link_all ?j1 = Some (concat (map (link_event ?j1) lq), j')"
    "runtime j' [] c0 {} [] [] kq (rev lq @ e # pool) bs" "same_blocks ?j1 j'"
    "compilers_created j' = compilers_created ?j1" "\<forall>x. same_entry ?j1 j' x"
    using Cons.IH [OF p(1)] by blast
  have "buxn_jit_dequeue (entry_store j) (link_queue j) = (Some e, enext (entry_store j e))"
    using q by (simp add: jit_queues_def buxn_jit_dequeue_def)
  then have "link_all j = Some (link_event j e @ concat (map (link_event ?j1) lq), j')"
    using j'(1) by (simp add: link_all.simps [of j])
  moreover have "link_event ?j1 = link_event j" using link_event_cong [OF se sb] by blast
  ultimately show ?case
    using j'(2-5) same_blocks_trans [OF sb] same_entry_trans [OF se] by auto
qed

lemma cleanup_all_returns:
  "jit_queues j [] [] [] kq pool \<Longrightarrow>
   \<exists>j'. cleanup_all j = Some (map (\<lambda>e. Free_compiler (ecompiler (entry_store j e))) kq, j') \<and>
     jit_queues j' [] [] [] [] (rev kq @ pool) \<and> same_blocks j j' \<and> compilers_created j' = compilers_created j"
proof (induction kq arbitrary: j pool)
  case Nil
  then have "buxn_jit_dequeue (entry_store j) (cleanup_queue j) = (None, None)"
    by (simp add: jit_queues_def buxn_jit_dequeue_def)
  then show ?case using Nil by (auto simp: cleanup_all.simps)
next
  case (Cons e kq)
  let ?j = "j\<lparr>cleanup_queue := enext (entry_store j e)\<rparr>"
  let ?j1 = "enqueue_pool e ?j"
  have "jit_queues ?j [e] [] [] kq pool" using Cons.prems by (auto simp: jit_queues_def)
  then have "jit_queues ?j1 [] [] [] kq (e # pool)" by (rule jit_queues_enqueue(4))
  then obtain j' where j': "cleanup_all ?j1 = Some (map (\<lambda>x. Free_compiler (ecompiler (entry_store ?j1 x))) kq, j')"
    "jit_queues j' [] [] [] [] (rev kq @ e # pool)" "same_blocks ?j1 j'" "compilers_created j' = compilers_created ?j1"
    using Cons.IH by blast
  have "ecompiler (entry_store ?j1 x) = ecompiler (entry_store j x)" for x
    using pool_same_entry [of ?j e x] by (simp add: same_entry_def)
  moreover have "buxn_jit_dequeue (entry_store j) (cleanup_queue j) = (Some e, enext (entry_store j e))"
    using Cons.prems by (simp add: jit_queues_def buxn_jit_dequeue_def)
  moreover have "same_blocks j ?j1" by (simp add: same_blocks_def enqueue_pool_def buxn_jit_enqueue_def)
  ultimately show ?case
    using j' same_blocks_trans [of j ?j1 j'] by (simp add: cleanup_all.simps [of j])
qed

section \<open>Between calls\<close>

definition idle :: "buxn_jit \<Rightarrow> bool" where
  "idle j \<longleftrightarrow> (\<exists>pool bs. runtime j [] (compilers_created j) {} [] [] [] pool bs)"

lemma idle_init: "idle (buxn_jit_init addr memory offs le es bks)"
proof -
  have "entries_ok (buxn_jit_init addr memory offs le es bks) 0 {} [] [] []"
    "compilers_created (buxn_jit_init addr memory offs le es bks) = 0"
    by (simp_all add: entries_ok_def buxn_jit_init_def)
  then show ?thesis unfolding idle_def runtime_def using jit_queues_init jit_blocks_init by metis
qed

lemma idle_blocks: "idle j \<Longrightarrow> b < blocks_allocated j \<Longrightarrow> fn (block_store j b) \<noteq> 0"
  by (auto simp: idle_def runtime_def entries_ok_def)

text \<open>The compilers freed by the third loop, and the jumps patched by the second one.\<close>

fun freed :: "sljit_event list \<Rightarrow> nat list" where
  "freed [] = []"
| "freed (Free_compiler cid # evs) = cid # freed evs"
| "freed (Set_jump_addr cid jump target off # evs) = freed evs"

lemma freed_append [simp]: "freed (xs @ ys) = freed xs @ freed ys"
  by (induction xs rule: freed.induct) simp_all

lemma freed_links: "freed (concat (map (link_event j) lq)) = []"
proof -
  have "freed (link_event j e) = []" for e
    by (cases "etarget (entry_store j e)") (simp_all add: link_event_def Let_def)
  then show ?thesis by (induction lq) simp_all
qed

lemma freed_frees: "freed (map (\<lambda>e. Free_compiler (f e)) kq) = map f kq"
  by (induction kq) simp_all

lemma main_returns:
  assumes i: "idle j" and nz: "\<forall>cid is ls. generated_fn (gen cid is ls) \<noteq> 0"
  shows "\<exists>b evs j'. buxn_jit_main decode gen p j = Some (b, evs, j') \<and> idle j' \<and> grows j j' \<and>
    b < blocks_allocated j' \<and> bpc (block_store j' b) = p \<and>
    freed evs = rev [compilers_created j..<compilers_created j']"
proof -
  obtain pool bs where r: "runtime j [] (compilers_created j) {} [] [] [] pool bs" using i by (auto simp: idle_def)
  obtain b j1 where q: "buxn_jit_queue_block j p = (b, j1)" by fastforce
  obtain cq kq pool1 bs1 where r1: "runtime j1 [] (compilers_created j) {} cq [] kq pool1 bs1" "extends j j1"
    "b < blocks_allocated j1" "bpc (block_store j1 b) = p" "j1 = j \<or> fn (block_store j1 b) = 0"
    using queue_block_runtime [OF r q] by blast
  show ?thesis
  proof (cases "fn (block_store j1 b) = 0")
    case False
    then have "j1 = j" using r1(5) by simp
    then show ?thesis using i r1(3,4) q False by (auto simp: buxn_jit_main_def)
  next
    case True
    obtain j2 lq kq2 pool2 bs2 where c: "compile_all decode gen 65536 j1 = Some j2"
      "runtime j2 [] (compilers_created j) {} [] lq kq2 pool2 bs2" "grows j1 j2"
      using compile_all_returns [OF nz r1(1), of 65536 decode] by auto
    obtain j3 where l: "link_all j2 = Some (concat (map (link_event j2) lq), j3)"
      "runtime j3 [] (compilers_created j) {} [] [] kq2 (rev lq @ pool2) bs2" "same_blocks j2 j3"
      "compilers_created j3 = compilers_created j2"
      using link_all_returns [OF c(2)] by blast
    have q3: "jit_queues j3 [] [] [] kq2 (rev lq @ pool2)" and b3: "jit_blocks j3 bs2"
      and e3: "entries_ok j3 (compilers_created j) {} [] [] kq2" using l(2) by (simp_all add: runtime_def)
    obtain j4 where f: "cleanup_all j3 = Some (map (\<lambda>e. Free_compiler (ecompiler (entry_store j3 e))) kq2, j4)"
      "jit_queues j4 [] [] [] [] (rev kq2 @ rev lq @ pool2)" "same_blocks j3 j4"
      "compilers_created j4 = compilers_created j3"
      using cleanup_all_returns [OF q3] by blast
    have "entries_ok j4 (compilers_created j4) {} [] [] []"
      using e3 f(3) by (simp add: entries_ok_def same_blocks_def)
    then have "idle j4" using f(2) b3 f(3) by (auto simp: idle_def runtime_def same_blocks_wf)
    moreover have "grows j j4"
      using extends_grows [OF r1(2)] c(3) same_blocks_grows [OF l(3)] same_blocks_grows [OF f(3)] grows_trans by blast
    moreover have "grows j1 j4"
      using c(3) same_blocks_grows [OF l(3)] same_blocks_grows [OF f(3)] grows_trans by blast
    then have "b < blocks_allocated j4" "bpc (block_store j4 b) = p" using r1(3,4) by (auto simp: grows_def)
    moreover have "map (\<lambda>e. ecompiler (entry_store j3 e)) kq2 = rev [compilers_created j..<compilers_created j4]"
      using e3 f(4) by (simp add: entries_ok_def)
    moreover have "buxn_jit_main decode gen p j = Some (b, concat (map (link_event j2) lq) @
        map (\<lambda>e. Free_compiler (ecompiler (entry_store j3 e))) kq2, j4)"
      using q True c(1) l(1) f(1) by (simp add: buxn_jit_main_def)
    ultimately show ?thesis by (simp add: freed_links freed_frees)
  qed
qed

text \<open>
  C6. Between calls nothing is queued and every known block has code. A call of \<^verbatim>\<open>buxn_jit\<close> for any program
  counter returns the block of that program counter with its code, leaves that state behind, moves no
  block that already had code, and frees every compiler it made exactly once. The only assumption is that code
  generation does not fail.
\<close>

theorem buxn_jit_returns_compiled:
  assumes "idle j" and "\<forall>cid is ls. generated_fn (gen cid is ls) \<noteq> 0"
  shows "\<exists>b evs j'. buxn_jit_main decode gen p j = Some (b, evs, j') \<and> idle j' \<and>
    bpc (block_store j' b) = p \<and> fn (block_store j' b) \<noteq> 0 \<and>
    (\<forall>b0 < blocks_allocated j. block_store j' b0 = block_store j b0) \<and>
    mset (freed evs) = mset [compilers_created j..<compilers_created j']"
proof -
  obtain b evs j' where m: "buxn_jit_main decode gen p j = Some (b, evs, j')" "idle j'" "grows j j'"
    "b < blocks_allocated j'" "bpc (block_store j' b) = p" "freed evs = rev [compilers_created j..<compilers_created j']"
    using main_returns [OF assms] by blast
  have "\<forall>b0 < blocks_allocated j. block_store j' b0 = block_store j b0"
    using m(3) idle_blocks [OF assms(1)] by (auto simp: grows_def)
  moreover have "fn (block_store j' b) \<noteq> 0" by (rule idle_blocks [OF m(2,4)])
  ultimately show ?thesis using m by auto
qed

lemma buxn_jit_returns_compiled_witness:
  "\<exists>b evs j'. buxn_jit_main (\<lambda>_. OP_BRK) (\<lambda>cid is ls. \<lparr>generated_fn = 1, label_addr = word_of_nat, generated_offset = 0, generated_size = 8\<rparr>)
      0x100 (buxn_jit_init 0x1000 (\<lambda>_. 0) (\<lambda>_. 8) True (\<lambda>_. example_entry) (\<lambda>_. undefined)) = Some (b, evs, j') \<and>
    bpc (block_store j' b) = 0x100 \<and> fn (block_store j' b) \<noteq> 0"
  using buxn_jit_returns_compiled [OF idle_init, of "\<lambda>cid is ls. \<lparr>generated_fn = 1, label_addr = word_of_nat, generated_offset = 0, generated_size = 8\<rparr>"]
  by fastforce

end
