(* ===== verification/Code_Growth.thy ===== *)
theory Code_Growth
  imports Runtime Jit_Block
begin

text \<open>
  How the code of a block grows. \<open>steady base ctx\<close>: since \<open>base\<close> only straight-line instructions were emitted and nothing was
  done to jumps, labels or the runtime; every cache operation and every handler without a jump is of this kind.
  \<open>grown base ctx\<close>: since \<open>base\<close> instructions were appended, labels set and links queued for the appended jumps only; this holds
  of every handler. So what is proved of an instruction when it is emitted holds of the finished block.
\<close>

section \<open>Results that have a property if they exist\<close>

definition every :: "'a option \<Rightarrow> ('a \<Rightarrow> bool) \<Rightarrow> bool" where
  "every m P \<longleftrightarrow> (\<forall>x. m = Some x \<longrightarrow> P x)"

definition every2 :: "('a \<times> 'b) option \<Rightarrow> ('a \<Rightarrow> 'b \<Rightarrow> bool) \<Rightarrow> bool" where
  "every2 m P \<longleftrightarrow> (\<forall>x y. m = Some (x, y) \<longrightarrow> P x y)"

lemma every_simps [simp]: "every (Some x) P = P x" "every None P"
  by (simp_all add: every_def)

lemma every_bind [simp]: "every (Option.bind m f) P = every m (\<lambda>x. every (f x) P)"
  by (cases m) simp_all

lemma every_pair [simp]: "every m (\<lambda>z. case z of (x, y) \<Rightarrow> P x y) = every2 m P"
  "every m (\<lambda>z. every (case z of (x, y) \<Rightarrow> f x y) Q) = every2 m (\<lambda>x y. every (f x y) Q)"
  "every m (\<lambda>z. every2 (case z of (x, y) \<Rightarrow> g x y) R2) = every2 m (\<lambda>x y. every2 (g x y) R2)"
  by (auto simp: every_def every2_def)

lemma every2_Some [simp]: "every2 (Some (a, b)) Q = Q a b" "every2 None Q"
  by (simp_all add: every2_def)

lemma every2_bind [simp]: "every2 (Option.bind m f) P = every m (\<lambda>x. every2 (f x) P)"
  by (cases m) (simp_all add: every2_def)

lemma everyD: "every m P \<Longrightarrow> m = Some x \<Longrightarrow> P x"
  by (simp add: every_def)

lemma every2D: "every2 m P \<Longrightarrow> m = Some (x, y) \<Longrightarrow> P x y"
  by (simp add: every2_def)

lemma every_mono: "every m P \<Longrightarrow> (\<And>x. P x \<Longrightarrow> Q x) \<Longrightarrow> every m Q"
  by (simp add: every_def)

section \<open>Straight-line growth\<close>

text \<open>Instructions behind which execution goes on. A device function of the host is called and comes back.\<close>

fun straight :: "lir \<Rightarrow> bool" where
  "straight (Op1 _ _ _) = True"
| "straight (Op2 _ _ _ _) = True"
| "straight (Op2u _ _ _ _) = True"
| "straight (Op_flags _ _) = True"
| "straight (Load_U16_unaligned _ _) = True"
| "straight Op0_DIV_UW = True"
| "straight (Icall f) = (f \<noteq> Fn_translate_jump_addr)"
| "straight _ = False"

definition steady :: "buxn_jit_ctx \<Rightarrow> buxn_jit_ctx \<Rightarrow> bool" where
  "steady base ctx \<longleftrightarrow>
     (\<exists>is. code ctx = code base @ is \<and> list_all straight is) \<and> jump_labels ctx = jump_labels base \<and>
     jit ctx = jit base \<and> compiler_id ctx = compiler_id base \<and> compiler ctx = compiler base \<and>
     call_fallback ctx = call_fallback base"

lemma steady_refl [simp]: "steady ctx ctx"
  by (simp add: steady_def)

lemma steady_trans [trans]: "steady a b \<Longrightarrow> steady b c \<Longrightarrow> steady a c"
  by (auto simp: steady_def)

lemma steady_emit [simp]: "steady base ctx \<Longrightarrow> straight i \<Longrightarrow> steady base (emit i ctx)"
  by (auto simp: steady_def emit_def)

lemma steady_emit_all [simp]: "steady base ctx \<Longrightarrow> list_all straight is \<Longrightarrow> steady base (emit_all is ctx)"
  by (auto simp: steady_def emit_all_eq)

lemma steady_fields [simp]:
  "steady base (set_cache r c ctx) = steady base ctx"
  "steady base (set_esp r p' ctx) = steady base ctx"
  "steady base (ctx\<lparr>mem_base := b\<rparr>) = steady base ctx"
  "steady base (ctx\<lparr>pc := p\<rparr>) = steady base ctx"
  "steady base (ctx\<lparr>current_opcode := u\<rparr>) = steady base ctx"
  "steady base (ctx\<lparr>wsp := p'\<rparr>) = steady base ctx"
  "steady base (ctx\<lparr>rsp := p'\<rparr>) = steady base ctx"
  "steady base (ctx\<lparr>wst := st\<rparr>) = steady base ctx"
  "steady base (ctx\<lparr>rst := st\<rparr>) = steady base ctx"
  "steady base (ctx\<lparr>wsp_reg := q\<rparr>) = steady base ctx"
  "steady base (ctx\<lparr>rsp_reg := q\<rparr>) = steady base ctx"
  "steady base (ctx\<lparr>eshadow := on\<rparr>) = steady base ctx"
  "steady base (ctx\<lparr>shadow_wsp := p'\<rparr>) = steady base ctx"
  "steady base (ctx\<lparr>shadow_rsp := p'\<rparr>) = steady base ctx"
  "steady base (ctx\<lparr>reg_ref_counts := rc\<rparr>) = steady base ctx"
  by (simp_all add: steady_def set_esp_def)

lemma steady_mem_base [simp]: "steady base ctx \<Longrightarrow> steady base (buxn_jit_set_mem_base f ctx)"
  by (simp add: buxn_jit_set_mem_base_def Let_def)

lemma straight_code [simp]:
  "list_all straight (push_code r v)" "list_all straight (pop_code sp q f)" "list_all straight (load_code q a f g)"
  "list_all straight (store_code a f q g)" "list_all straight (immediate_code le p q f)"
  "list_all straight (relative_addr_code q p)" "list_all straight (device_store_code a q f)"
  "list_all straight (shift_code q a b)"
  by (simp_all add: push_code_def pop_code_def load_code_def store_code_def immediate_code_def relative_addr_code_def
      device_store_code_def shift_code_def Let_def)

lemma steady_do_push [simp]: "steady base ctx \<Longrightarrow> steady base (buxn_jit_do_push v r ctx)"
  by (simp add: buxn_jit_do_push_def)

lemma steady_flush_cell [simp]: "steady base ctx \<Longrightarrow> steady base (buxn_jit_flush_cell r i ctx)"
  by (simp add: buxn_jit_flush_cell_def Let_def)

lemma steady_flush [simp]: "steady base ctx \<Longrightarrow> steady base (buxn_jit_stack_cache_flush r ctx)"
proof -
  have "steady base c \<Longrightarrow> steady base (flush_cells r is c)" for "is" c
    by (induction "is" arbitrary: c) simp_all
  then show "steady base ctx \<Longrightarrow> steady base (buxn_jit_stack_cache_flush r ctx)"
    by (simp add: buxn_jit_stack_cache_flush_def)
qed

text \<open>Each operation: a fact about the context it starts from carries over to the one it returns.\<close>

lemma every_release:
  "steady base ctx \<Longrightarrow> (\<And>c. steady base c \<Longrightarrow> P c) \<Longrightarrow> every (buxn_jit_release_reg q ctx) P"
  by (auto simp: buxn_jit_release_reg_def split: option.splits)

lemma every_retain:
  "steady base ctx \<Longrightarrow> (\<And>c. steady base c \<Longrightarrow> P c) \<Longrightarrow> every (buxn_jit_retain_reg q ctx) P"
  by (auto simp: buxn_jit_retain_reg_def split: option.splits)

lemma every_spill:
  "steady base ctx \<Longrightarrow> (\<And>ok c. steady base c \<Longrightarrow> P ok c) \<Longrightarrow> every2 (buxn_jit_stack_cache_spill r ctx) P"
  by (auto simp: buxn_jit_stack_cache_spill_def Let_def intro!: every_release [of base])

lemma every_clear_cache:
  assumes "steady base ctx" and "\<And>c. steady base c \<Longrightarrow> P c"
  shows "every (buxn_jit_stack_cache_clear r ctx) P"
  using assms(1)
proof (induction r ctx rule: buxn_jit_stack_cache_clear.induct)
  case (1 r ctx)
  have s: "every2 (buxn_jit_stack_cache_spill r ctx) (\<lambda>_ c. steady base c)" using 1(2) by (rule every_spill)
  show ?case
  proof (cases "buxn_jit_stack_cache_spill r ctx")
    case None
    then show ?thesis by (simp add: buxn_jit_stack_cache_clear.simps [of r ctx])
  next
    case (Some z)
    then obtain ok c where c: "buxn_jit_stack_cache_spill r ctx = Some (ok, c)" "steady base c"
      using every2D [OF s] by (cases z) auto
    then show ?thesis
      using 1(1) [OF c(1) refl] assms(2) by (simp add: buxn_jit_stack_cache_clear.simps [of r ctx])
  qed
qed

lemma every_clear:
  "steady base ctx \<Longrightarrow> (\<And>c. steady base c \<Longrightarrow> P c) \<Longrightarrow> every (buxn_jit_clear_stack_caches ctx) P"
  by (auto simp: buxn_jit_clear_stack_caches_def intro!: every_clear_cache [of base])

lemma every_spill_any:
  "steady base ctx \<Longrightarrow> (\<And>c. steady base c \<Longrightarrow> P c) \<Longrightarrow> every (spill_any ctx) P"
  unfolding every_def
  by (metis spill_any_cases every_spill [of base ctx "\<lambda>_. steady base"] every2_def)

lemma every_alloc_loop:
  assumes "steady base ctx" and "\<And>q c. steady base c \<Longrightarrow> P q c"
  shows "every2 (alloc_reg_loop ctx) P"
  using assms(1)
proof (induction ctx rule: alloc_reg_loop.induct)
  case (1 ctx)
  show ?case
  proof (cases "buxn_jit_find_free_reg ctx = None \<and> cached_total ctx > 0 \<and> spill_any ctx \<noteq> None")
    case True
    then obtain c where c: "spill_any ctx = Some c" by auto
    then have "steady base c" using every_spill_any [OF 1(2), of "steady base"] by (simp add: every_def)
    then show ?thesis
      using 1(1) [of c] True c by (simp add: alloc_reg_loop.simps [of ctx])
  next
    case False
    then show ?thesis using 1(2) assms(2) by (auto simp: alloc_reg_loop.simps [of ctx] split: option.splits)
  qed
qed

lemma every_alloc:
  assumes "steady base ctx" and "\<And>q c. steady base c \<Longrightarrow> P q c"
  shows "every2 (buxn_jit_alloc_reg ctx) P"
  using every_alloc_loop [OF assms(1), of "\<lambda>_. steady base"] assms(2)
  by (auto simp: buxn_jit_alloc_reg_def every2_def buxn_jit_retain_reg_def split: option.splits bind_splits)

section \<open>Operands\<close>

lemma every_pop_mem:
  "steady base ctx \<Longrightarrow> (\<And>q c. steady base c \<Longrightarrow> P q c) \<Longrightarrow> every2 (buxn_jit_pop_from_mem f r ctx) P"
  by (auto simp: buxn_jit_pop_from_mem_def Let_def intro!: every_alloc [of base])

lemma every_pop_byte:
  "steady base ctx \<Longrightarrow> (\<And>q c. steady base c \<Longrightarrow> P q c) \<Longrightarrow> every2 (stack_cache_pop_byte r ctx) P"
  by (auto simp: stack_cache_pop_byte_def Let_def intro!: every_pop_mem [of base] every_alloc [of base] every_release [of base])

lemma every_pop_short:
  "steady base ctx \<Longrightarrow> (\<And>q c. steady base c \<Longrightarrow> P q c) \<Longrightarrow> every2 (stack_cache_pop_short r ctx) P"
  by (auto simp: stack_cache_pop_short_def Let_def intro!: every_pop_mem [of base] every_pop_byte [of base] every_release [of base])

lemma every_pop_ex:
  "steady base ctx \<Longrightarrow> (\<And>v c. steady base c \<Longrightarrow> P v c) \<Longrightarrow> every2 (buxn_jit_pop_ex f r ctx) P"
  by (auto simp: buxn_jit_pop_ex_def buxn_jit_stack_cache_pop_def Let_def split: prod.split
      intro!: every_pop_byte [of base] every_pop_short [of base])

lemma every_pop: "steady base ctx \<Longrightarrow> (\<And>v c. steady base c \<Longrightarrow> P v c) \<Longrightarrow> every2 (buxn_jit_pop ctx) P"
  unfolding buxn_jit_pop_def by (rule every_pop_ex)

lemma every_push_ex:
  assumes "steady base ctx" and "\<And>c. steady base c \<Longrightarrow> P c"
  shows "every (buxn_jit_push_ex v r ctx) P"
proof -
  have s: "every (map_option snd (buxn_jit_stack_cache_spill r ctx)) Q" if "\<And>c. steady base c \<Longrightarrow> Q c" for Q
    using every_spill [of base ctx "\<lambda>_. Q" r] assms(1) that by (auto simp: every_def every2_def)
  show ?thesis
    using assms
    by (auto simp: buxn_jit_push_ex_def buxn_jit_stack_cache_push_def Let_def split_beta every_def [of "op_index _"]
        intro!: every_retain [of base] s)
qed

lemma every_push: "steady base ctx \<Longrightarrow> (\<And>c. steady base c \<Longrightarrow> P c) \<Longrightarrow> every (buxn_jit_push v ctx) P"
  unfolding buxn_jit_push_def by (rule every_push_ex)

lemma every_discard:
  "steady base ctx \<Longrightarrow> (\<And>c. steady base c \<Longrightarrow> P c) \<Longrightarrow> every (buxn_jit_stack_cache_discard r f ctx) P"
  by (auto simp: buxn_jit_stack_cache_discard_def stack_cache_discard_short_def stack_cache_discard_byte_def
      buxn_jit_discard_from_mem_def Let_def intro!: every_release [of base])

lemma every_POP: "steady base ctx \<Longrightarrow> (\<And>c. steady base c \<Longrightarrow> P c) \<Longrightarrow> every (buxn_jit_POP ctx) P"
  by (auto simp: buxn_jit_POP_def Let_def intro!: every_discard [of base])

lemma steady_codes [simp]:
  "steady base ctx \<Longrightarrow> steady base (buxn_jit_wrap_around v ctx)"
  "steady base ctx \<Longrightarrow> steady base (buxn_jit_save_state ctx)"
  "steady base ctx \<Longrightarrow> steady base (buxn_jit_load_state ctx)"
  "steady base ctx \<Longrightarrow> steady base (buxn_jit_store v w ctx)"
  "steady base ctx \<Longrightarrow> steady base (snd (buxn_jit_load q v ctx))"
  "steady base ctx \<Longrightarrow> steady base (snd (buxn_jit_immediate_jump_target ctx))"
  by (simp_all add: buxn_jit_wrap_around_def buxn_jit_save_state_def buxn_jit_load_state_def buxn_jit_store_def
      buxn_jit_load_def buxn_jit_immediate_jump_target_def Let_def)

lemma every_immediate:
  "steady base ctx \<Longrightarrow> (\<And>v c. steady base c \<Longrightarrow> P v c) \<Longrightarrow> every2 (buxn_jit_immediate f ctx) P"
  by (auto simp: buxn_jit_immediate_def Let_def intro!: every_alloc [of base])

lemma every_return_addr:
  "steady base ctx \<Longrightarrow> (\<And>c. steady base c \<Longrightarrow> P c) \<Longrightarrow> every (push_return_addr r ctx) P"
  by (auto simp: push_return_addr_def Let_def intro!: every_alloc [of base] every_push_ex [of base])

lemma every_retain_cells:
  "steady base ctx \<Longrightarrow> (\<And>c. steady base c \<Longrightarrow> P c) \<Longrightarrow> every (retain_cells cs ctx) P"
  by (induction cs arbitrary: ctx) (auto intro!: every_retain [of base])

lemma every_retain_cache:
  "steady base ctx \<Longrightarrow> (\<And>c. steady base c \<Longrightarrow> P c) \<Longrightarrow> every (buxn_jit_stack_cache_retain r ctx) P"
  by (auto simp: buxn_jit_stack_cache_retain_def Let_def intro!: every_retain_cells [of base])

lemma every_fetch: "steady base ctx \<Longrightarrow> (\<And>c. steady base c \<Longrightarrow> P c) \<Longrightarrow> every (fetch_opcode ctx) P"
  by (auto simp: fetch_opcode_def intro!: every_retain_cache [of base])

lemma every_shadow: "steady base ctx \<Longrightarrow> (\<And>c. steady base c \<Longrightarrow> P c) \<Longrightarrow> every (setup_shadow ctx) P"
  by (auto simp: setup_shadow_def Let_def intro!: every_alloc [of base])

section \<open>Handlers without jumps\<close>

text \<open>All but those that jump, divide, or call the host.\<close>

lemma every_covered:
  assumes "covered oper" and "steady base ctx"
  shows "every (BUXN_JIT_DISPATCH oper nxt ctx) (steady base)"
  using assms
  by (cases oper)
    (auto simp: covered_def buxn_jit_INC_def buxn_jit_NIP_def buxn_jit_SWP_def buxn_jit_ROT_def buxn_jit_DUP_def
      buxn_jit_OVR_def buxn_jit_EQU_def buxn_jit_NEQ_def buxn_jit_GTH_def buxn_jit_LTH_def compare_op_def
      buxn_jit_STH_def buxn_jit_LDZ_def buxn_jit_STZ_def buxn_jit_LDR_def buxn_jit_STR_def buxn_jit_LDA_def
      buxn_jit_STA_def buxn_jit_ADD_def buxn_jit_SUB_def buxn_jit_MUL_def buxn_jit_AND_def buxn_jit_ORA_def
      buxn_jit_EOR_def buxn_jit_SFT_def buxn_jit_LIT_def Let_def
      intro!: every_pop [of base] every_pop_ex [of base] every_push [of base] every_push_ex [of base]
        every_alloc [of base] every_POP [of base] every_immediate [of base])

text \<open>A call into the host is straight-line code, too.\<close>

lemma every_device:
  assumes "oper = OP_DEI \<or> oper = OP_DEO" and "steady base ctx"
  shows "every (BUXN_JIT_DISPATCH oper nxt ctx) (steady base)"
  using assms
  by (auto simp: buxn_jit_DEI_def buxn_jit_DEO_def host_call_code_def Let_def
      intro!: every_pop [of base] every_pop_ex [of base] every_push [of base] every_alloc [of base] every_clear [of base])

section \<open>Growth with jumps\<close>

text \<open>The links a compiler queues, oldest first: kind, target and the place of the jump.\<close>

type_synonym queued_link = "buxn_jit_link_type \<times> u16 \<times> nat"

definition link_seq :: "nat \<Rightarrow> queued_link list \<Rightarrow> buxn_jit \<Rightarrow> buxn_jit" where
  "link_seq cid ls j = fold (\<lambda>(lt, t, jump). link_jit lt t jump cid) ls j"

lemma link_seq_simps [simp]:
  "link_seq cid [] j = j"
  "link_seq cid (ls @ ls') j = link_seq cid ls' (link_seq cid ls j)"
  "link_seq cid [(lt, t, jump)] j = link_jit lt t jump cid j"
  by (simp_all add: link_seq_def)

definition links_within :: "nat \<Rightarrow> nat \<Rightarrow> queued_link list \<Rightarrow> bool" where
  "links_within a b ls \<longleftrightarrow> distinct (map (snd \<circ> snd) ls) \<and> (\<forall>(lt, t, jump) \<in> set ls. a \<le> jump \<and> jump < b)"

lemma links_within_Nil [simp]: "links_within a b []"
  by (simp add: links_within_def)

lemma links_within_append:
  "links_within a b ls \<Longrightarrow> links_within b c ls' \<Longrightarrow> a \<le> b \<Longrightarrow> b \<le> c \<Longrightarrow> links_within a c (ls @ ls')"
  by (fastforce simp: links_within_def)

lemma links_within_mono: "links_within a b ls \<Longrightarrow> a' \<le> a \<Longrightarrow> b \<le> b' \<Longrightarrow> links_within a' b' ls"
  by (fastforce simp: links_within_def)

definition grown_by :: "queued_link list \<Rightarrow> buxn_jit_ctx \<Rightarrow> buxn_jit_ctx \<Rightarrow> bool" where
  "grown_by ls base ctx \<longleftrightarrow>
     compiler_id ctx = compiler_id base \<and> call_fallback ctx = call_fallback base \<and>
     (\<exists>is. code ctx = code base @ is) \<and> (\<forall>p < length (code base). jump_labels ctx p = jump_labels base p) \<and>
     jit ctx = link_seq (compiler_id base) ls (jit base) \<and>
     links_within (length (code base)) (length (code ctx)) ls"

definition grown :: "buxn_jit_ctx \<Rightarrow> buxn_jit_ctx \<Rightarrow> bool" where
  "grown base ctx \<longleftrightarrow> (\<exists>ls. grown_by ls base ctx)"

lemma grown_by_trans: "grown_by ls a b \<Longrightarrow> grown_by ls' b c \<Longrightarrow> grown_by (ls @ ls') a c"
  by (auto simp: grown_by_def intro: links_within_append)

lemma grown_trans [trans]: "grown a b \<Longrightarrow> grown b c \<Longrightarrow> grown a c"
  unfolding grown_def using grown_by_trans by blast

lemma steady_grown: "steady base ctx \<Longrightarrow> grown base ctx"
  unfolding grown_def by (rule exI [of _ "[]"]) (auto simp: grown_by_def steady_def)

lemma grown_refl [simp]: "grown ctx ctx"
  by (rule steady_grown) simp

lemma grown_by_emit_all: "grown_by ls base ctx \<Longrightarrow> grown_by ls base (emit_all is ctx)"
  by (auto simp: grown_by_def emit_all_eq intro: links_within_mono)

lemma grown_emit_all [simp]: "grown base ctx \<Longrightarrow> grown base (emit_all is ctx)"
  unfolding grown_def using grown_by_emit_all by blast

lemma grown_emit [simp]: "grown base ctx \<Longrightarrow> grown base (emit i ctx)"
  using grown_emit_all [of base ctx "[i]"] by simp

lemma length_code_emit [simp]: "length (code (emit i ctx)) = Suc (length (code ctx))"
  by (simp add: emit_def)

lemma grown_set_label [simp]: "grown base ctx \<Longrightarrow> length (code base) \<le> j \<Longrightarrow> grown base (set_label j l ctx)"
  unfolding grown_def by (auto simp: grown_by_def set_label_def)

lemma grown_fields [simp]:
  "grown base (ctx\<lparr>mem_base := b\<rparr>) = grown base ctx" "grown base (ctx\<lparr>compiler := on\<rparr>) = grown base ctx"
  "grown base (buxn_jit_finalize ctx) = grown base ctx"
  by (simp_all add: grown_def grown_by_def buxn_jit_finalize_def)

lemma grown_length: "grown base ctx \<Longrightarrow> length (code base) \<le> length (code ctx)"
  by (auto simp: grown_def grown_by_def)

lemma grown_link:
  "steady base ctx \<Longrightarrow> length (code base) \<le> jump \<Longrightarrow> jump < length (code ctx) \<Longrightarrow> grown base (queue_link lt t jump ctx)"
  unfolding grown_def
  by (rule exI [of _ "[(lt, t, jump)]"])
    (auto simp: grown_by_def steady_def links_within_def queue_link_def link_jit_def split_beta Let_def)

lemma code_set_label [simp]: "code (set_label j l ctx) = code ctx"
  by (simp add: set_label_def)

text \<open>An absolute jump: what is emitted, set and queued, in one place.\<close>

lemma queue_link_fields [simp]:
  "code (queue_link lt t jump ctx) = code ctx" "jump_labels (queue_link lt t jump ctx) = jump_labels ctx"
  "call_fallback (queue_link lt t jump ctx) = call_fallback ctx"
  by (simp_all add: queue_link_def split_beta Let_def)

lemma jump_abs_grown: "grown ctx (buxn_jit_jump_abs target ra ctx)"
proof (cases "SEM_CONST \<in> semantics target")
  case False
  then show ?thesis by (simp add: buxn_jit_jump_abs_def)
next
  case True
  have "\<exists>ls. grown_by ls ctx (buxn_jit_jump_abs target ra ctx)"
  proof (cases "ra = 0")
    case True
    then show ?thesis
      using \<open>SEM_CONST \<in> semantics target\<close>
      by (intro exI [of _ "[(LINK_TO_BODY, const_value target, length (code ctx))]"])
        (simp add: buxn_jit_jump_abs_def grown_by_def links_within_def emit_jump_def emit_label_def emit_def set_label_def
          Let_def)
  next
    case False
    then show ?thesis
      using \<open>SEM_CONST \<in> semantics target\<close>
      by (intro exI [of _ "[(LINK_TO_HEAD, const_value target,
            length (code ctx) + (if SEM_IMM_JMP \<in> semantics target then 0 else 1))]"])
        (auto simp: buxn_jit_jump_abs_def grown_by_def links_within_def emit_jump_def emit_label_def emit_def set_label_def
          Let_def)
  qed
  then show ?thesis by (simp add: grown_def)
qed

lemma every_after: "grown base c \<Longrightarrow> every m (grown c) \<Longrightarrow> every m (grown base)"
  using grown_trans by (auto simp: every_def)

lemma every_clear_grown:
  assumes "grown base ctx" and "\<And>c. grown base c \<Longrightarrow> P c"
  shows "every (buxn_jit_clear_stack_caches ctx) P"
  by (rule every_clear [OF steady_refl]) (use assms grown_trans steady_grown in blast)

lemma every_jump:
  assumes "\<And>c. every (nxt c) (grown c)" and "grown base ctx"
  shows "every (buxn_jit_jump nxt target ra ctx) (grown base)"
proof -
  have nxt: "every (nxt c) P" if "grown base c" "\<And>c'. grown base c' \<Longrightarrow> P c'" for c P
    using assms(1) [of c] that grown_trans by (auto simp: every_def)
  have abs: "grown base (buxn_jit_jump_abs t ra c)" if "grown base c" for t c
    using that jump_abs_grown grown_trans by blast
  show ?thesis
    unfolding buxn_jit_jump_def Let_def emit_jump_def emit_label_def
    by (auto intro!: every_clear_grown [of base] nxt abs assms(2) dest: grown_length)
qed

lemma every_conditional:
  assumes "\<And>c. every (nxt c) (grown c)" and "grown base ctx"
  shows "every (buxn_jit_conditional_jump nxt cnd target ctx) (grown base)"
proof -
  have j: "every (buxn_jit_jump nxt target 0 c) P" if "grown base c" "\<And>c'. grown base c' \<Longrightarrow> P c'" for c P
    using every_jump [OF assms(1) that(1)] that(2) by (auto simp: every_def)
  show ?thesis
    unfolding buxn_jit_conditional_jump_def Let_def emit_jump_def emit_label_def
    by (auto intro!: every_clear_grown [of base] j assms(2) dest: grown_length intro: le_SucI)
qed

text \<open>The steady operations, from a context that has grown.\<close>

lemma every_grown:
  assumes "\<And>P. (\<And>c. steady ctx c \<Longrightarrow> P c) \<Longrightarrow> every m P" and "grown base ctx" and "\<And>c. grown base c \<Longrightarrow> Q c"
  shows "every m Q"
  by (rule assms(1)) (use assms(2,3) grown_trans steady_grown in blast)

lemma every2_grown:
  assumes "\<And>P. (\<And>v c. steady ctx c \<Longrightarrow> P v c) \<Longrightarrow> every2 m P" and "grown base ctx" and "\<And>v c. grown base c \<Longrightarrow> Q v c"
  shows "every2 m Q"
  by (rule assms(1)) (use assms(2,3) grown_trans steady_grown in blast)

lemmas every_grown_rules =
  every2_grown [OF every_pop [OF steady_refl]] every2_grown [OF every_pop_ex [OF steady_refl]]
  every2_grown [OF every_alloc [OF steady_refl]] every_grown [OF every_push [OF steady_refl]]
  every_grown [OF every_push_ex [OF steady_refl]] every_grown [OF every_return_addr [OF steady_refl]]
  every_grown [OF every_clear [OF steady_refl]]

lemma grown_codes [simp]:
  "grown base ctx \<Longrightarrow> grown base (buxn_jit_save_state ctx)" "grown base ctx \<Longrightarrow> grown base (buxn_jit_load_state ctx)"
  "grown base ctx \<Longrightarrow> grown base (buxn_jit_set_mem_base f ctx)"
  "grown base ctx \<Longrightarrow> grown base (snd (buxn_jit_immediate_jump_target ctx))"
  by (meson grown_trans steady_grown steady_refl steady_codes steady_mem_base)+

lemma every_opcode:
  assumes "\<And>c. every (nxt c) (grown c)"
  shows "every (BUXN_JIT_DISPATCH oper nxt ctx) (grown ctx)"
proof (cases "covered oper")
  case True
  show ?thesis by (rule every_mono [OF every_covered [OF True steady_refl]]) (rule steady_grown)
next
  case False
  note rules = every_grown_rules [where base = ctx]
  have j: "every (buxn_jit_jump nxt target ra c) P" if "grown ctx c" "\<And>c'. grown ctx c' \<Longrightarrow> P c'" for target ra c P
    using every_jump [OF assms that(1)] that(2) by (auto simp: every_def)
  note cj = every_conditional [OF assms]
  from False consider "oper = OP_BRK" | "oper = OP_JMP" | "oper = OP_JCN" | "oper = OP_JSR" | "oper = OP_JCI" | "oper = OP_JMI"
    | "oper = OP_JSI" | "oper = OP_DEI" | "oper = OP_DEO" | "oper = OP_DIV"
    by (auto simp: covered_def)
  then show ?thesis
    by cases
      (auto simp: buxn_jit_BRK_def buxn_jit_JMP_def buxn_jit_JCN_def buxn_jit_JSR_def buxn_jit_JCI_def buxn_jit_JMI_def
        buxn_jit_JSI_def buxn_jit_DEI_def buxn_jit_DEO_def buxn_jit_DIV_def Let_def emit_jump_def emit_label_def
        grown_length le_SucI intro!: rules j cj)
qed

lemma every_next_opcode: "every (buxn_jit_next_opcode decode fuel ctx) (grown ctx)"
proof (induction fuel arbitrary: ctx)
  case 0
  then show ?case by simp
next
  case (Suc fuel)
  have d: "every (BUXN_JIT_DISPATCH oper (buxn_jit_next_opcode decode fuel) c) (grown ctx)" if "grown ctx c" for oper c
    by (rule every_after [OF that every_opcode]) (rule Suc.IH)
  show ?case
    by (auto intro!: every_clear_grown [of ctx] every_grown [OF every_fetch [OF steady_refl], where base = ctx]
        every_grown [OF every_shadow [OF steady_refl], where base = ctx] d)
qed

lemma every_compile_loop: "every (compile_loop decode n ctx) (grown ctx)"
proof (induction n arbitrary: ctx)
  case 0
  then show ?case by (simp add: compile_loop.simps [of decode 0])
next
  case (Suc n)
  have "every (compile_loop decode n c) (grown ctx)" if "grown ctx c" for c
    by (rule every_after [OF that Suc.IH])
  then have "every (buxn_jit_next_opcode decode 65536 ctx) (\<lambda>c. every (compile_loop decode n c) (grown ctx))"
    by (rule every_mono [OF every_next_opcode])
  then show ?case by (simp add: compile_loop.simps [of decode "Suc n"])
qed

end
