(* ===== verification/Control.thy ===== *)
theory Control
  imports Code_Growth
begin

text \<open>
  Running the code of blocks: what jumps, calls and returns do. A block is its code with the labels and links of its jumps; an
  instruction is named by its position. \<open>runs step head W b p m r m'\<close> says that the code of block \<open>b\<close>, started at \<open>p\<close> in the machine
  state \<open>m\<close>, returns \<open>r\<close> and leaves \<open>m'\<close>; \<open>W\<close> gives the block of every program address, \<open>head\<close> the address of its entry. A
  linked jump goes to the linked block, one that is not linked to its label. A call runs the other block until it returns and
  continues with the result in the first register; a jump between blocks does not return, as both share one frame.
\<close>

section \<open>Blocks\<close>

record native_block =
  ncode :: "lir list"
  nlabels :: "nat \<rightharpoonup> nat"
  nlinks :: "nat \<rightharpoonup> buxn_jit_link_type \<times> u16"
  nhead :: nat
  nbody :: nat

text \<open>Where the jump at \<open>p\<close> goes.\<close>

definition jump_dest :: "(u16 \<Rightarrow> native_block) \<Rightarrow> native_block \<Rightarrow> nat \<Rightarrow> (native_block \<times> nat) option" where
  "jump_dest W b p =
     (case nlinks b p of
        Some (LINK_TO_HEAD, t) \<Rightarrow> Some (W t, nhead (W t))
      | Some (LINK_TO_BODY, t) \<Rightarrow> Some (W t, nbody (W t))
      | None \<Rightarrow> map_option (Pair b) (nlabels b p))"

section \<open>Execution\<close>

fun compares :: "cond \<Rightarrow> uw \<Rightarrow> uw \<Rightarrow> bool" where
  "compares SLJIT_EQUAL x y = (x = y)"
| "compares SLJIT_NOT_EQUAL x y = (x \<noteq> y)"
| "compares SLJIT_LESS x y = (x < y)"
| "compares SLJIT_GREATER x y = (y < x)"
| "compares SLJIT_ZERO x y = (x = y)"

text \<open>Whether a jump is taken.\<close>

fun taken :: "lir \<Rightarrow> mach \<Rightarrow> bool option" where
  "taken (Jump None _) m = Some True"
| "taken (Jump (Some c) _) m = Some (flag m c)"
| "taken (Cmp c _ x y) m = Some (compares c (rd m x) (rd m y))"
| "taken _ m = None"

inductive runs ::
  "(lir \<Rightarrow> mach \<Rightarrow> mach) \<Rightarrow> (u16 \<Rightarrow> uw) \<Rightarrow> (u16 \<Rightarrow> native_block) \<Rightarrow> native_block \<Rightarrow> nat \<Rightarrow> mach \<Rightarrow> uw \<Rightarrow> mach \<Rightarrow> bool"
  for step :: "lir \<Rightarrow> mach \<Rightarrow> mach" and head :: "u16 \<Rightarrow> uw" and W :: "u16 \<Rightarrow> native_block" where
  run_straight: "p < length (ncode b) \<Longrightarrow> straight (ncode b ! p) \<Longrightarrow>
    runs step head W b (Suc p) (step (ncode b ! p) m) r m' \<Longrightarrow> runs step head W b p m r m'"
| run_mark: "p < length (ncode b) \<Longrightarrow> ncode b ! p \<in> {Label, Enter_c, Enter_reg_arg} \<Longrightarrow>
    runs step head W b (Suc p) m r m' \<Longrightarrow> runs step head W b p m r m'"
| run_fall: "p < length (ncode b) \<Longrightarrow> taken (ncode b ! p) m = Some False \<Longrightarrow>
    runs step head W b (Suc p) m r m' \<Longrightarrow> runs step head W b p m r m'"
| run_jump: "p < length (ncode b) \<Longrightarrow> taken (ncode b ! p) m = Some True \<Longrightarrow> jump_dest W b p = Some (b1, q) \<Longrightarrow>
    runs step head W b1 q m r m' \<Longrightarrow> runs step head W b p m r m'"
| run_call: "p < length (ncode b) \<Longrightarrow> ncode b ! p = Call_reg_arg rw \<Longrightarrow> jump_dest W b p = Some (b1, q) \<Longrightarrow>
    runs step head W b1 q m r1 m1 \<Longrightarrow> runs step head W b (Suc p) (set_reg (R 0) r1 m1) r m' \<Longrightarrow>
    runs step head W b p m r m'"
| run_icall: "p < length (ncode b) \<Longrightarrow> ncode b ! p = Icall_reg_arg x \<Longrightarrow> reg m x = head t \<Longrightarrow>
    runs step head W (W t) (nhead (W t)) m r1 m1 \<Longrightarrow> runs step head W b (Suc p) (set_reg (R 0) r1 m1) r m' \<Longrightarrow>
    runs step head W b p m r m'"
| run_translate: "p < length (ncode b) \<Longrightarrow> ncode b ! p = Icall Fn_translate_jump_addr \<Longrightarrow>
    runs step head W b (Suc p) (set_reg (R 0) (head (ucast (reg m (R 1)))) m) r m' \<Longrightarrow> runs step head W b p m r m'"
| run_return: "p < length (ncode b) \<Longrightarrow> ncode b ! p = Return x \<Longrightarrow> runs step head W b p m (op1_val SLJIT_MOV32 (rd m x)) m"

text \<open>One instruction at a time: what a run from \<open>p\<close> is.\<close>

lemma taken_kind:
  "taken i m = Some t \<Longrightarrow> \<not> straight i \<and> i \<notin> {Label, Enter_c, Enter_reg_arg} \<and> (\<forall>rw. i \<noteq> Call_reg_arg rw) \<and>
    (\<forall>x. i \<noteq> Icall_reg_arg x) \<and> (\<forall>x. i \<noteq> Return x) \<and> (\<forall>f. i \<noteq> Icall f)"
  by (cases i) auto

lemma straight_kind:
  "straight i \<Longrightarrow> i \<notin> {Label, Enter_c, Enter_reg_arg} \<and> (\<forall>rw. i \<noteq> Call_reg_arg rw) \<and>
    (\<forall>x. i \<noteq> Icall_reg_arg x) \<and> (\<forall>x. i \<noteq> Return x) \<and> i \<noteq> Icall Fn_translate_jump_addr \<and> taken i m = None"
  by (cases i) auto

text \<open>The code determines what it returns, provided different blocks have different entries.\<close>

lemma runs_deterministic:
  assumes "runs step head W b p m r m'" and "inj head" and "runs step head W b p m r2 m2"
  shows "r2 = r \<and> m2 = m'"
  using assms(1,3)
proof (induction arbitrary: r2 m2 rule: runs.induct)
  case (run_straight p b m r m')
  from run_straight.prems show ?case
    by (cases rule: runs.cases) (use run_straight.hyps(2) run_straight.IH in \<open>auto dest: straight_kind taken_kind\<close>)
next
  case (run_mark p b m r m')
  from run_mark.prems show ?case
    by (cases rule: runs.cases) (use run_mark.hyps(2) run_mark.IH in \<open>auto dest: straight_kind taken_kind\<close>)
next
  case (run_fall p b m r m')
  from run_fall.prems show ?case
    by (cases rule: runs.cases) (use run_fall.hyps(2) run_fall.IH in \<open>auto dest: straight_kind taken_kind\<close>)
next
  case (run_jump p b m b1 q r m')
  from run_jump.prems show ?case
    by (cases rule: runs.cases) (use run_jump.hyps(2,3) run_jump.IH in \<open>auto dest: straight_kind taken_kind\<close>)
next
  case (run_call p b rw b1 q m r1 m1 r m')
  from run_call.prems show ?case
    by (cases rule: runs.cases) (use run_call.hyps(2,3) run_call.IH in \<open>auto dest: straight_kind taken_kind\<close>)
next
  case (run_icall p b x m t r1 m1 r m')
  note h = run_icall.hyps(2,3) and ih = run_icall.IH
  from run_icall.prems show ?case
  proof (cases rule: runs.cases)
    case (run_icall x' t' r1' m1')
    then have "t' = t" using h assms(2) by (auto dest: injD)
    then show ?thesis using ih h run_icall by auto
  qed (use h in \<open>auto dest: straight_kind taken_kind\<close>)
next
  case (run_translate p b m r m')
  from run_translate.prems show ?case
    by (cases rule: runs.cases) (use run_translate.hyps(2) run_translate.IH in \<open>auto dest: straight_kind taken_kind\<close>)
next
  case (run_return p b x m)
  from run_return.prems show ?case
    by (cases rule: runs.cases) (use run_return.hyps(2) in \<open>auto dest: straight_kind taken_kind\<close>)
qed

end
