(* ===== verification/Links.thy ===== *)
theory Links
  imports Control
begin

text \<open>
  The links of compiled code: what the link queue says of the jumps of one compiler. Queueing a link adds it and changes no other.
\<close>

text \<open>The entries of a queue, at most \<open>n\<close>.\<close>

fun entries_from :: "(nat \<Rightarrow> buxn_jit_entry) \<Rightarrow> nat \<Rightarrow> nat option \<Rightarrow> nat list" where
  "entries_from es 0 q = []"
| "entries_from es (Suc n) None = []"
| "entries_from es (Suc n) (Some e) = e # entries_from es n (enext (es e))"

lemma entries_from_queue: "queue_repr es q xs \<Longrightarrow> length xs \<le> n \<Longrightarrow> entries_from es n q = xs"
proof (induction n arbitrary: q xs)
  case (Suc n)
  then show ?case by (cases xs) auto
qed simp

text \<open>The jumps of a compiler that are queued for linking.\<close>

definition jumps_of :: "nat \<Rightarrow> buxn_jit \<Rightarrow> nat list \<Rightarrow> nat \<rightharpoonup> buxn_jit_link_type \<times> u16" where
  "jumps_of cid j es = map_of (map snd (filter (\<lambda>x. fst x = cid) (map (queued j) es)))"

definition code_links :: "nat \<Rightarrow> buxn_jit \<Rightarrow> nat \<rightharpoonup> buxn_jit_link_type \<times> u16" where
  "code_links cid j = jumps_of cid j (entries_from (entry_store j) (entries_allocated j) (link_queue j))"

lemma runtime_link_queue:
  assumes "runtime j H c0 X cq lq kq pool bs"
  shows "entries_from (entry_store j) (entries_allocated j) (link_queue j) = lq"
proof (rule entries_from_queue)
  show "queue_repr (entry_store j) (link_queue j) lq" using assms by (simp add: runtime_def jit_queues_def)
  have "distinct lq" "set lq \<subseteq> {..<entries_allocated j}" using assms by (auto simp: runtime_def jit_queues_def)
  then show "length lq \<le> entries_allocated j"
    using card_mono [of "{..<entries_allocated j}" "set lq"] by (simp add: distinct_card)
qed

lemma queued_same:
  assumes "same_entry j j' e" and "extends j j'" and "eblock (entry_store j e) < blocks_allocated j"
  shows "queued j' e = queued j e"
  using assms by (simp add: queued_def same_entry_def extends_def Let_def)

text \<open>The state of the runtime in the middle of a compilation, whatever is on its queues.\<close>

definition in_runtime :: "buxn_jit \<Rightarrow> bool" where
  "in_runtime j \<longleftrightarrow> (\<exists>H c0 X cq lq kq pool bs. runtime j H c0 X cq lq kq pool bs)"

lemma link_code_links:
  assumes "in_runtime j"
  shows "in_runtime (link_jit lt t jump cid j)" and "code_links cid (link_jit lt t jump cid j) = (code_links cid j)(jump \<mapsto> (lt, t))"
proof -
  let ?j = "link_jit lt t jump cid j"
  obtain H c0 X cq lq kq pool bs where r: "runtime j H c0 X cq lq kq pool bs" using assms by (auto simp: in_runtime_def)
  from link_runtime [OF r, of lt t jump cid] obtain e cq' kq' pool' bs' where
    r': "runtime ?j H c0 X cq' (e # lq) kq' pool' bs'" "\<forall>x \<in> set (H @ lq). same_entry j ?j x" "extends j ?j"
      "queued ?j e = (cid, jump, lt, t)"
    by metis
  show "in_runtime ?j" using r'(1) unfolding in_runtime_def by blast
  have "queued ?j x = queued j x" if "x \<in> set lq" for x
    using that r r'(2,3) by (intro queued_same) (auto simp: runtime_def entries_ok_def)
  then have m: "map (queued ?j) lq = map (queued j) lq" by simp
  have "jumps_of cid ?j (e # lq) = (jumps_of cid j lq)(jump \<mapsto> (lt, t))"
    unfolding jumps_of_def list.map(2) m using r'(4) by simp
  then show "code_links cid ?j = (code_links cid j)(jump \<mapsto> (lt, t))"
    by (simp add: code_links_def runtime_link_queue [OF r] runtime_link_queue [OF r'(1)])
qed

text \<open>Links queued one after another.\<close>

definition link_map :: "queued_link list \<Rightarrow> nat \<rightharpoonup> buxn_jit_link_type \<times> u16" where
  "link_map ls = map_of (rev (map (\<lambda>(lt, t, jump). (jump, (lt, t))) ls))"

lemma link_map_simps [simp]:
  "link_map [] = Map.empty" "link_map (ls @ [(lt, t, jump)]) = (link_map ls)(jump \<mapsto> (lt, t))"
  "link_map (ls @ ls') = link_map ls ++ link_map ls'"
  by (simp_all add: link_map_def)

lemma link_seq_code_links:
  assumes "in_runtime j"
  shows "in_runtime (link_seq cid ls j) \<and> code_links cid (link_seq cid ls j) = code_links cid j ++ link_map ls"
proof (induction ls rule: rev_induct)
  case (snoc l ls)
  then show ?case
    using link_code_links [where j = "link_seq cid ls j" and lt = "fst l" and t = "fst (snd l)" and jump = "snd (snd l)" and cid = cid]
    by (cases l) (simp del: link_map_simps(3) fun_upd_apply)
qed (simp add: assms)

lemma link_map_within:
  assumes "links_within a b ls" and "\<not> (a \<le> p \<and> p < b)"
  shows "link_map ls p = None"
proof (rule ccontr)
  assume "link_map ls p \<noteq> None"
  then obtain x where "link_map ls p = Some x" by blast
  then have "(p, x) \<in> set (rev (map (\<lambda>(lt, t, jump). (jump, (lt, t))) ls))" unfolding link_map_def by (rule map_of_SomeD)
  then show False using assms by (auto simp: links_within_def)
qed

text \<open>What growing does to the links of a block.\<close>

lemma grown_by_links:
  assumes "grown_by ls base ctx" and "in_runtime (jit base)"
  shows "in_runtime (jit ctx)" and "code_links (compiler_id ctx) (jit ctx) = code_links (compiler_id base) (jit base) ++ link_map ls"
  using assms link_seq_code_links [OF assms(2)] by (simp_all add: grown_by_def)

end
