(* ===== verification/Uxn_Control.thy ===== *)
theory Uxn_Control
  imports Uxn_Spec
begin

text \<open>
  Programs of the virtual machine: the jumps, divisions and device accesses, which \<open>Uxn_Spec\<close> leaves out, and runs of many
  instructions. This is the specification a compiled program is measured against.
\<close>

section \<open>Jumps\<close>

definition is_jump :: "opname \<Rightarrow> bool" where
  "is_jump oper \<longleftrightarrow> oper \<in> {OP_JMP, OP_JCN, OP_JSR, OP_JCI, OP_JMI, OP_JSI}"

definition is_immediate_jump :: "opname \<Rightarrow> bool" where
  "is_immediate_jump oper \<longleftrightarrow> oper \<in> {OP_JCI, OP_JMI, OP_JSI}"

text \<open>The target operand: a short is absolute, a byte relative to the next instruction.\<close>

definition jump_addr :: "bool \<Rightarrow> u16 \<Rightarrow> u8 list \<Rightarrow> u16" where
  "jump_addr short p bs = addr_of (if short then Absolute else Relative) p bs"

definition imm_addr :: "(u16 \<Rightarrow> u8) \<Rightarrow> u16 \<Rightarrow> u16" where
  "imm_addr ram p = p + 2 + short_of (ram p) (ram (p + 1))"

text \<open>A jump, its opcode byte already fetched and the program counter behind it. The first component of the result tells
  whether control is transferred, which a conditional jump may not do. The immediate jumps have no modes.\<close>

definition uxn_jump :: "opname \<Rightarrow> u8 \<Rightarrow> uxn_state \<Rightarrow> (bool \<times> uxn_state) option" where
  "uxn_jump oper b u =
     (let r = mode_r b; w = width (mode_2 b); rest = remaining (mode_k b) (ustk u r) in
      case oper of
        OP_JMP \<Rightarrow>
          do {
            (a, s) \<leftarrow> split_at w (ustk u r);
            Some (True, u\<lparr>ustk := (ustk u)(r := rest s), upc := jump_addr (mode_2 b) (upc u) a\<rparr>)
          }
      | OP_JCN \<Rightarrow>
          do {
            (a, s) \<leftarrow> split_at w (ustk u r);
            (c, s) \<leftarrow> split_at 1 s;
            let u' = u\<lparr>ustk := (ustk u)(r := rest s)\<rparr>;
            Some (if c = [0] then (False, u') else (True, u'\<lparr>upc := jump_addr (mode_2 b) (upc u) a\<rparr>))
          }
      | OP_JSR \<Rightarrow>
          do {
            (a, s) \<leftarrow> split_at w (ustk u r);
            u' \<leftarrow> set_stack (\<not> r) (short_bytes (upc u) @ ustk u (\<not> r)) (u\<lparr>ustk := (ustk u)(r := rest s)\<rparr>);
            Some (True, u'\<lparr>upc := jump_addr (mode_2 b) (upc u) a\<rparr>)
          }
      | OP_JMI \<Rightarrow> Some (True, u\<lparr>upc := imm_addr (uram u) (upc u)\<rparr>)
      | OP_JCI \<Rightarrow>
          do {
            (c, s) \<leftarrow> split_at 1 (ustk u False);
            let u' = u\<lparr>ustk := (ustk u)(False := s)\<rparr>;
            Some (if c = [0] then (False, u'\<lparr>upc := upc u + 2\<rparr>) else (True, u'\<lparr>upc := imm_addr (uram u) (upc u)\<rparr>))
          }
      | OP_JSI \<Rightarrow>
          do {
            u' \<leftarrow> set_stack True (short_bytes (upc u + 2) @ ustk u True) u;
            Some (True, u'\<lparr>upc := imm_addr (uram u) (upc u)\<rparr>)
          }
      | _ \<Rightarrow> None)"

section \<open>Division\<close>

text \<open>A division by zero gives zero.\<close>

definition uxn_quotient :: "'a::len word \<Rightarrow> 'a word \<Rightarrow> 'a word" where
  "uxn_quotient a b = (if b = 0 then 0 else a div b)"

definition div_bytes :: "u8 list \<Rightarrow> u8 list \<Rightarrow> u8 list" where
  "div_bytes a b =
     (case (a, b) of
        ([x], [y]) \<Rightarrow> [uxn_quotient x y]
      | ([al, ah], [bl, bh]) \<Rightarrow> short_bytes (uxn_quotient (short_of ah al) (short_of bh bl))
      | _ \<Rightarrow> [])"

definition uxn_div :: "u8 \<Rightarrow> uxn_state \<Rightarrow> uxn_state option" where
  "uxn_div opb u =
     (let r = mode_r opb; w = width (mode_2 opb) in
      do {
        (b, s) \<leftarrow> split_at w (ustk u r);
        (a, s) \<leftarrow> split_at w s;
        set_stack r (div_bytes a b @ remaining (mode_k opb) (ustk u r) s) u
      })"

section \<open>Devices\<close>

text \<open>The functions of the emulator that reads and writes of a device port call, \<^verbatim>\<open>buxn_vm_dei\<close> and \<^verbatim>\<open>buxn_vm_deo\<close>. They may
  change everything but the program counter.\<close>

record uxn_devices =
  device_in :: "uxn_state \<Rightarrow> u8 \<Rightarrow> u8 \<times> uxn_state"
  device_out :: "uxn_state \<Rightarrow> u8 \<Rightarrow> uxn_state"

text \<open>A short is read from and written to two ports, the high byte first; both bytes are in the device page when the first of the
  two ports is told.\<close>

definition port_input :: "uxn_devices \<Rightarrow> bool \<Rightarrow> u8 \<Rightarrow> uxn_state \<Rightarrow> u8 list \<times> uxn_state" where
  "port_input io short a u =
     (if short
      then (let (h, u) = device_in io u a; (l, u) = device_in io u (a + 1) in ([l, h], u))
      else (let (v, u) = device_in io u a in ([v], u)))"

definition port_poke :: "(u8 \<Rightarrow> u8) \<Rightarrow> u8 \<Rightarrow> u8 list \<Rightarrow> u8 \<Rightarrow> u8" where
  "port_poke dev a bs = (case bs of [l, h] \<Rightarrow> dev(a := h, a + 1 := l) | [x] \<Rightarrow> dev(a := x) | _ \<Rightarrow> dev)"

definition port_output :: "uxn_devices \<Rightarrow> bool \<Rightarrow> u8 \<Rightarrow> uxn_state \<Rightarrow> uxn_state" where
  "port_output io short a u =
     (if short then device_out io (device_out io u a) (a + 1) else device_out io u a)"

definition uxn_dei :: "uxn_devices \<Rightarrow> u8 \<Rightarrow> uxn_state \<Rightarrow> uxn_state option" where
  "uxn_dei io b u =
     (let r = mode_r b in
      do {
        (a, s) \<leftarrow> split_at 1 (ustk u r);
        let (bs, u') = port_input io (mode_2 b) (hd a) (u\<lparr>ustk := (ustk u)(r := remaining (mode_k b) (ustk u r) s)\<rparr>);
        set_stack r (bs @ ustk u' r) (u'\<lparr>upc := upc u\<rparr>)
      })"

definition uxn_deo :: "uxn_devices \<Rightarrow> u8 \<Rightarrow> uxn_state \<Rightarrow> uxn_state option" where
  "uxn_deo io b u =
     (let r = mode_r b in
      do {
        (a, s) \<leftarrow> split_at 1 (ustk u r);
        (v, s) \<leftarrow> split_at (width (mode_2 b)) s;
        let u' = u\<lparr>ustk := (ustk u)(r := remaining (mode_k b) (ustk u r) s), udev := port_poke (udev u) (hd a) v\<rparr>;
        Some ((port_output io (mode_2 b) (hd a) u')\<lparr>upc := upc u\<rparr>)
      })"

section \<open>Runs\<close>

text \<open>One instruction of any kind, fetched from the memory of the machine.\<close>

definition uxn_next :: "uxn_devices \<Rightarrow> (u8 \<Rightarrow> opname) \<Rightarrow> uxn_state \<Rightarrow> (bool \<times> uxn_state) option" where
  "uxn_next io decode u =
     (let b = uram u (upc u); u' = u\<lparr>upc := upc u + 1\<rparr> in
      if is_jump (decode b) then uxn_jump (decode b) b u'
      else map_option (Pair False)
        (case decode b of
           OP_DIV \<Rightarrow> uxn_div b u'
         | OP_DEI \<Rightarrow> uxn_dei io b u'
         | OP_DEO \<Rightarrow> uxn_deo io b u'
         | _ \<Rightarrow> uxn_step decode b u))"

text \<open>
  A run is inside the program \<open>prog\<close> that was compiled: no executed instruction was changed since, execution stays out
  of the zero page, no relative jump wraps around the end of memory, and control is transferred to addresses in \<open>A\<close> only.
\<close>

definition fetched :: "(u8 \<Rightarrow> opname) \<Rightarrow> (u16 \<Rightarrow> u8) \<Rightarrow> uxn_state \<Rightarrow> bool" where
  "fetched decode prog u \<longleftrightarrow>
     256 \<le> upc u \<and> uram u (upc u) = prog (upc u) \<and>
     (is_immediate_jump (decode (prog (upc u))) \<longrightarrow>
        uram u (upc u + 1) = prog (upc u + 1) \<and> uram u (upc u + 2) = prog (upc u + 2))"

text \<open>The byte on top of the stack a relative jump takes its distance from.\<close>

definition in_range :: "(u8 \<Rightarrow> opname) \<Rightarrow> uxn_state \<Rightarrow> bool" where
  "in_range decode u \<longleftrightarrow>
     (let b = uram u (upc u) in
      decode b \<in> {OP_JMP, OP_JCN, OP_JSR} \<and> \<not> mode_2 b \<longrightarrow>
        0 \<le> uint (upc u + 1) + sint (hd (ustk u (mode_r b))) \<and> uint (upc u + 1) + sint (hd (ustk u (mode_r b))) < 65536)"

fun uxn_exec :: "uxn_devices \<Rightarrow> (u8 \<Rightarrow> opname) \<Rightarrow> (u16 \<Rightarrow> u8) \<Rightarrow> (u16 \<Rightarrow> bool) \<Rightarrow> nat \<Rightarrow> uxn_state \<Rightarrow> uxn_state option" where
  "uxn_exec io decode prog A 0 u = Some u"
| "uxn_exec io decode prog A (Suc n) u =
     (if fetched decode prog u \<and> in_range decode u then
        do {
          (transfer, u') \<leftarrow> uxn_next io decode u;
          if transfer \<longrightarrow> A (upc u') then uxn_exec io decode prog A n u' else None
        }
      else None)"

lemma uxn_exec_add:
  "uxn_exec io decode prog A (n + k) u = Option.bind (uxn_exec io decode prog A n u) (uxn_exec io decode prog A k)"
  by (induction n arbitrary: u) (auto simp: Option.bind_eq_Some_conv split: bind_splits)

lemma uxn_exec_split:
  assumes "uxn_exec io decode prog A n u = Some u'" and "k \<le> n" and "uxn_exec io decode prog A k u = Some u1"
  shows "uxn_exec io decode prog A (n - k) u1 = Some u'"
  using assms uxn_exec_add [of io decode prog A k "n - k" u] by simp

text \<open>Where a run ends: at a \<open>BRK\<close>, or where the interpreter takes over.\<close>

definition stopped :: "(u8 \<Rightarrow> opname) \<Rightarrow> (u16 \<Rightarrow> u8) \<Rightarrow> uxn_state \<Rightarrow> bool" where
  "stopped decode prog u \<longleftrightarrow> upc u < 256 \<or> decode (prog (upc u)) = OP_BRK \<and> \<not> mode_k (prog (upc u))"

text \<open>What the compiled program returns there.\<close>

definition exit_value :: "uxn_state \<Rightarrow> uw" where
  "exit_value u = (if upc u < 256 then ucast (upc u) else 0x10000)"

lemma uxn_next_BRK: "decode (uram u (upc u)) = OP_BRK \<Longrightarrow> uxn_next io decode u = None"
  by (simp add: uxn_next_def is_jump_def uxn_step_def uxn_instr_def uxn_stack_def is_arith_def is_compare_def Let_def)

lemma stopped_final:
  assumes "stopped decode prog u" and "uxn_exec io decode prog A n u = Some u'"
  shows "n = 0 \<and> u' = u"
proof (cases n)
  case (Suc k)
  then have "fetched decode prog u" "uxn_next io decode u \<noteq> None"
    using assms(2) by (cases "uxn_next io decode u"; auto split: if_splits)+
  then show ?thesis using assms(1) uxn_next_BRK [of decode u] by (auto simp: stopped_def fetched_def not_less [symmetric])
qed (use assms(2) in simp)

end
