(* ===== verification/Jump_Code.thy ===== *)
theory Jump_Code
  imports Links Uxn_Control
begin

text \<open>
  The code of a jump, run: \<open>transfers\<close> lists what an unconditional jump to \<open>tv\<close> may do. It returns the target to the caller,
  continues at the body of the target's block, or calls the head of that block; the block that is called either comes back to
  the return address, after which the code behind the jump runs, or returns to somewhere else, which is passed on.
\<close>

section \<open>A block that contains what was compiled so far\<close>

definition holds_from :: "nat \<Rightarrow> native_block \<Rightarrow> buxn_jit_ctx \<Rightarrow> bool" where
  "holds_from n b ctx \<longleftrightarrow> (\<exists>is. ncode b = code ctx @ is) \<and>
     (\<forall>p < length (code ctx). n \<le> p \<longrightarrow>
        nlabels b p = jump_labels ctx p \<and> nlinks b p = code_links (compiler_id ctx) (jit ctx) p)"

abbreviation holds :: "native_block \<Rightarrow> buxn_jit_ctx \<Rightarrow> bool" where
  "holds \<equiv> holds_from 0"

lemma holds_from_mono: "holds_from n b ctx \<Longrightarrow> n \<le> n' \<Longrightarrow> holds_from n' b ctx"
  by (auto simp: holds_from_def)

text \<open>No link of this compiler is queued for a place that has no code yet.\<close>

definition tidy :: "buxn_jit_ctx \<Rightarrow> bool" where
  "tidy ctx \<longleftrightarrow> in_runtime (jit ctx) \<and> (\<forall>p \<ge> length (code ctx). code_links (compiler_id ctx) (jit ctx) p = None)"

lemma grown_code_links:
  assumes "grown base ctx" and "tidy base"
  shows "tidy ctx" and "p < length (code base) \<Longrightarrow>
    code_links (compiler_id ctx) (jit ctx) p = code_links (compiler_id base) (jit base) p"
proof -
  obtain ls where ls: "grown_by ls base ctx" using assms(1) by (auto simp: grown_def)
  have r: "in_runtime (jit base)" using assms(2) by (simp add: tidy_def)
  note l = grown_by_links [OF ls r]
  have w: "links_within (length (code base)) (length (code ctx)) ls" using ls by (simp add: grown_by_def)
  have le: "length (code base) \<le> length (code ctx)" by (rule grown_length [OF assms(1)])
  have "code_links (compiler_id ctx) (jit ctx) p = None" if "length (code ctx) \<le> p" for p
    using l(2) assms(2) le that link_map_within [OF w, of p] by (simp add: tidy_def map_add_def)
  then show "tidy ctx" using l(1) by (simp add: tidy_def)
  show "code_links (compiler_id ctx) (jit ctx) p = code_links (compiler_id base) (jit base) p" if "p < length (code base)"
    using l(2) that link_map_within [OF w, of p] by (simp add: map_add_def)
qed

lemma holds_grown:
  assumes "grown base ctx" and "tidy base" and "holds b ctx"
  shows "holds b base"
proof -
  have "length (code base) \<le> length (code ctx)" by (rule grown_length [OF assms(1)])
  moreover obtain ls where "grown_by ls base ctx" using assms(1) by (auto simp: grown_def)
  ultimately show ?thesis
    using assms(3) grown_code_links(2) [OF assms(1,2)] by (auto simp: holds_from_def grown_by_def)
qed

lemma holds_steady: "steady base ctx \<Longrightarrow> tidy base \<Longrightarrow> holds b ctx \<Longrightarrow> holds b base \<and> tidy ctx"
  using holds_grown grown_code_links(1) steady_grown by metis

lemma holds_prefix:
  assumes "holds_from n b ctx" and "grown base ctx"
  obtains post where "ncode b = code base @ post"
  using assms by (auto simp: holds_from_def grown_def grown_by_def)

section \<open>Straight-line code\<close>

text \<open>Running from one place amounts to running from another.\<close>

definition leads ::
  "(lir \<Rightarrow> mach \<Rightarrow> mach) \<Rightarrow> (u16 \<Rightarrow> uw) \<Rightarrow> (u16 \<Rightarrow> native_block) \<Rightarrow>
   native_block \<Rightarrow> nat \<Rightarrow> mach \<Rightarrow> native_block \<Rightarrow> nat \<Rightarrow> mach \<Rightarrow> bool" where
  "leads step head W b p m b1 q m1 \<longleftrightarrow>
     (\<forall>r m'. runs step head W b1 q m1 r m' \<longrightarrow> runs step head W b p m r m')"

lemma leads_refl [simp]: "leads step head W b p m b p m"
  by (simp add: leads_def)

lemma leads_trans [trans]:
  "leads step head W b p m b1 q m1 \<Longrightarrow> leads step head W b1 q m1 b2 q2 m2 \<Longrightarrow> leads step head W b p m b2 q2 m2"
  by (simp add: leads_def)

lemma leadsD: "leads step head W b p m b1 q m1 \<Longrightarrow> runs step head W b1 q m1 r m' \<Longrightarrow> runs step head W b p m r m'"
  by (simp add: leads_def)

lemma leads_mark:
  "p < length (ncode b) \<Longrightarrow> ncode b ! p \<in> {Label, Enter_c, Enter_reg_arg} \<Longrightarrow> leads step head W b p m b (Suc p) m"
  by (auto simp: leads_def intro: run_mark)

lemma leads_fall:
  "p < length (ncode b) \<Longrightarrow> taken (ncode b ! p) m = Some False \<Longrightarrow> leads step head W b p m b (Suc p) m"
  by (auto simp: leads_def intro: run_fall)

lemma leads_jump:
  "p < length (ncode b) \<Longrightarrow> taken (ncode b ! p) m = Some True \<Longrightarrow> jump_dest W b p = Some (b1, q) \<Longrightarrow>
   leads step head W b p m b1 q m"
  by (auto simp: leads_def intro: run_jump)

lemma leads_exec:
  assumes "ncode b = pre @ is @ post" and "list_all straight is"
  shows "leads step head W b (length pre) m b (length pre + length is) (exec step is m)"
  using assms
proof (induction "is" arbitrary: pre m)
  case (Cons i "is")
  have "leads step head W b (length pre) m b (length (pre @ [i])) (step i m)"
    using Cons.prems unfolding leads_def by (auto simp: nth_append intro: run_straight)
  moreover have "leads step head W b (length (pre @ [i])) (step i m) b (length (pre @ [i]) + length is) (exec step is (step i m))"
    using Cons.prems by (intro Cons.IH) simp_all
  ultimately show ?case using leads_trans by simp
qed simp

lemma leads_emits:
  assumes "steady c c'" and "emits step c m c' m1" and "ncode b = code c' @ post"
  shows "leads step head W b (length (code c)) m b (length (code c')) m1"
proof -
  obtain "is" where i: "code c' = code c @ is" "list_all straight is" using assms(1) by (auto simp: steady_def)
  moreover have "exec step is m = m1" using assms(2) i(1) by (auto simp: emits_def)
  ultimately show ?thesis using assms(3) leads_exec [of b "code c" "is" post step head W m] by simp
qed

text \<open>What is returned is a 32-bit value.\<close>

lemma mov32_idem [simp]: "op1_val SLJIT_MOV32 (op1_val SLJIT_MOV32 w) = op1_val SLJIT_MOV32 w"
  by (rule bit_word_eqI) (auto simp: bit_simps)

lemma runs_result: "runs step head W b p m r m' \<Longrightarrow> op1_val SLJIT_MOV32 r = r"
  by (induction rule: runs.induct) (simp_all del: op1_val.simps)

lemma mov32_short [simp]: "op1_val SLJIT_MOV32 (ucast (a :: u16)) = (ucast a :: uw)"
  by (rule bit_word_eqI) (auto simp: bit_simps dest: bit_imp_le_length)

lemma ucast_short_eq [simp]: "(ucast (a :: u16) :: uw) = ucast b \<longleftrightarrow> a = b"
  by (simp add: word_unat_eq_iff)

section \<open>An absolute jump\<close>

definition transfers ::
  "(lir \<Rightarrow> mach \<Rightarrow> mach) \<Rightarrow> (u16 \<Rightarrow> uw) \<Rightarrow> (u16 \<Rightarrow> native_block) \<Rightarrow> native_block \<Rightarrow> nat \<Rightarrow> mach \<Rightarrow> u16 \<Rightarrow> u16 \<Rightarrow>
   buxn_jit_ctx \<Rightarrow> mach \<Rightarrow> bool" where
  "transfers step head W b p m tv ra ctx m1 \<longleftrightarrow>
     runs step head W b p m (ucast tv) m1 \<or>
     leads step head W b p m (W tv) (nbody (W tv)) m1 \<or>
     (ra \<noteq> 0 \<and> mem_base ctx = 0 \<and>
       (\<forall>r1 m2. runs step head W (W tv) (nhead (W tv)) m1 r1 m2 \<longrightarrow>
         (if r1 = ucast ra then leads step head W b p m b (length (code ctx)) (set_reg (R 0) r1 m2)
          else runs step head W b p m r1 (set_reg (R 0) r1 m2))))"

lemma transfers_before:
  assumes l: "leads step head W b p0 m0 b p m" and t: "transfers step head W b p m tv ra ctx m1"
  shows "transfers step head W b p0 m0 tv ra ctx m1"
  using t unfolding transfers_def
proof (elim disjE conjE)
  assume a: "ra \<noteq> 0" "mem_base ctx = 0" and c: "\<forall>r1 m2. runs step head W (W tv) (nhead (W tv)) m1 r1 m2 \<longrightarrow>
         (if r1 = ucast ra then leads step head W b p m b (length (code ctx)) (set_reg (R 0) r1 m2)
          else runs step head W b p m r1 (set_reg (R 0) r1 m2))"
  have "if r1 = ucast ra then leads step head W b p0 m0 b (length (code ctx)) (set_reg (R 0) r1 m2)
          else runs step head W b p0 m0 r1 (set_reg (R 0) r1 m2)"
    if "runs step head W (W tv) (nhead (W tv)) m1 r1 m2" for r1 m2
    using c that leads_trans [OF l] leadsD [OF l] by (cases "r1 = ucast ra") simp_all
  then show "runs step head W b p0 m0 (ucast tv) m1 \<or> leads step head W b p0 m0 (W tv) (nbody (W tv)) m1 \<or>
     (ra \<noteq> 0 \<and> mem_base ctx = 0 \<and>
       (\<forall>r1 m2. runs step head W (W tv) (nhead (W tv)) m1 r1 m2 \<longrightarrow>
         (if r1 = ucast ra then leads step head W b p0 m0 b (length (code ctx)) (set_reg (R 0) r1 m2)
          else runs step head W b p0 m0 r1 (set_reg (R 0) r1 m2))))"
    using a by blast
qed (use leads_trans [OF l] leadsD [OF l] in blast)+

text \<open>The operand of a jump: an immediate is its constant, any other is in its register.\<close>

definition target_is :: "mach \<Rightarrow> buxn_jit_operand \<Rightarrow> u16 \<Rightarrow> bool" where
  "target_is m target tv \<longleftrightarrow>
     (if SEM_IMM_JMP \<in> semantics target then SEM_CONST \<in> semantics target \<and> const_value target = tv
      else reg m (oreg target) = ucast tv)"

text \<open>The code between two points of a block.\<close>

lemma holds_code:
  assumes "holds_from n b c'" and "code c' = code c @ is" and "k < length is"
  shows "length (code c) + k < length (ncode b)" and "ncode b ! (length (code c) + k) = is ! k"
  using assms by (auto simp: holds_from_def nth_append)

lemma tidy_link:
  assumes "tidy c" and "jit c' = link_jit lt t jump (compiler_id c) (jit c)" and "compiler_id c' = compiler_id c"
    and "holds_from (length (code c)) b c'" and "length (code c) \<le> p" and "p < length (code c')"
  shows "nlinks b p = (if p = jump then Some (lt, t) else None)"
  using assms link_code_links(2) [of "jit c" "compiler_id c" lt t jump] by (auto simp: tidy_def holds_from_def)

lemma mem_base_queue_link [simp]: "mem_base (queue_link lt t jump ctx) = mem_base ctx"
  by (simp add: queue_link_def split_beta Let_def)

text \<open>A target that is not known when the jump is compiled is returned to the caller.\<close>

lemma run_return_target:
  assumes "q < length (ncode b)" and "ncode b ! q = Return (Reg (oreg target))" and "reg m (oreg target) = ucast (tv :: u16)"
  shows "runs step head W b q m (ucast tv) m"
  using run_return [OF assms(1,2), of step head W m] assms(3) by (simp del: op1_val.simps)

lemma jump_abs_unknown:
  assumes c': "c' = buxn_jit_jump_abs target ra c" and h: "holds_from (length (code c)) b c'" and tv: "target_is m target tv"
    and k: "SEM_CONST \<notin> semantics target"
  shows "transfers step head W b (length (code c)) m tv ra c' m"
proof -
  have "code c' = code c @ [Return (Reg (oreg target))]" using k by (simp add: c' buxn_jit_jump_abs_def emit_def)
  note k0 = holds_code [OF h this, of 0]
  have "reg m (oreg target) = ucast tv" using tv k by (simp add: target_is_def split: if_splits)
  then show ?thesis using k0 run_return_target [of "length (code c)" b target m tv step head W] by (simp add: transfers_def)
qed

text \<open>A jump that does not return continues in the body of the block of its target, when that is the address it was compiled for.\<close>

lemma jump_abs_goto:
  assumes c': "c' = buxn_jit_jump_abs target 0 c" and h: "holds_from (length (code c)) b c'" and t: "tidy c" and tv: "target_is m target tv"
    and k: "SEM_CONST \<in> semantics target"
  shows "transfers step head W b (length (code c)) m tv 0 c' m"
proof -
  let ?p = "length (code c)" and ?x = "Reg (oreg target)" and ?k = "Imm (ucast (const_value target)) :: opnd"
  define j where "j = (if SEM_IMM_JMP \<in> semantics target then Jump None True else Cmp SLJIT_EQUAL True ?x ?k)"
  have co: "code c' = code c @ [j, Label, Return ?x]" and ji: "jit c' = link_jit LINK_TO_BODY (const_value target) ?p (compiler_id c) (jit c)"
    and cid: "compiler_id c' = compiler_id c"
    using k by (auto simp: c' j_def buxn_jit_jump_abs_def emit_jump_def emit_label_def emit_def set_label_def Let_def)
  note k = holds_code [OF h co]
  have "nlinks b ?p = Some (LINK_TO_BODY, const_value target)"
    using tidy_link [OF t ji cid h, of ?p] co by simp
  then have d: "jump_dest W b ?p = Some (W (const_value target), nbody (W (const_value target)))" by (simp add: jump_dest_def)
  show ?thesis
  proof (cases "const_value target = tv")
    case True
    then have "taken j m = Some True" using tv by (auto simp: j_def target_is_def)
    then have "leads step head W b ?p m (W tv) (nbody (W tv)) m"
      using k [of 0] d True by (intro leads_jump) simp_all
    then show ?thesis by (simp add: transfers_def)
  next
    case False
    then have r: "reg m (oreg target) = ucast tv" "SEM_IMM_JMP \<notin> semantics target"
      using tv by (auto simp: target_is_def split: if_splits)
    then have "taken j m = Some False" using False by (simp add: j_def)
    then have "leads step head W b ?p m b (Suc ?p) m" using k [of 0] by (intro leads_fall) simp_all
    also have "leads step head W b (Suc ?p) m b (Suc (Suc ?p)) m" using k [of 1] by (intro leads_mark) simp_all
    finally have "leads step head W b ?p m b (Suc (Suc ?p)) m" .
    moreover have "runs step head W b (Suc (Suc ?p)) m (ucast tv) m" using k [of 2] r(1) by (intro run_return_target) simp_all
    ultimately show ?thesis using leadsD by (auto simp: transfers_def)
  qed
qed

text \<open>A jump that returns: \<open>n\<close> tells whether the call is guarded by a comparison with the address it was compiled for.\<close>

definition call_code :: "buxn_jit_operand \<Rightarrow> u16 \<Rightarrow> nat \<Rightarrow> lir list" where
  "call_code target ra n =
     (if n = 0 then [] else [Cmp SLJIT_NOT_EQUAL False (Reg (oreg target)) (Imm (ucast (const_value target)))]) @
     [Call_reg_arg True, Cmp SLJIT_EQUAL False (Reg (R 0)) (Imm (ucast ra)), Return (Reg (R 0))] @
     (if n = 0 then [] else [Label]) @ [Return (Reg (oreg target)), Label]"

lemma jump_abs_call_code:
  assumes c': "c' = buxn_jit_jump_abs target ra c" and h: "holds_from (length (code c)) b c'" and t: "tidy c"
    and k: "SEM_CONST \<in> semantics target" "ra \<noteq> 0" and n: "n = (if SEM_IMM_JMP \<in> semantics target then 0 else 1)"
  shows "code c' = code c @ call_code target ra n" and "length (call_code target ra n) = 5 + n + n" and "mem_base c' = 0"
    and "jump_dest W b (length (code c) + n) = Some (W (const_value target), nhead (W (const_value target)))"
    and "jump_dest W b (length (code c) + n + 1) = Some (b, length (code c) + 4 + n + n)"
    and "n \<noteq> 0 \<Longrightarrow> jump_dest W b (length (code c)) = Some (b, length (code c) + 4)"
proof -
  let ?p = "length (code c)"
  show co: "code c' = code c @ call_code target ra n"
    and mb: "mem_base c' = 0"
    using k n by (auto simp: c' call_code_def buxn_jit_jump_abs_def emit_jump_def emit_label_def emit_def set_label_def Let_def)
  have ji: "jit c' = link_jit LINK_TO_HEAD (const_value target) (?p + n) (compiler_id c) (jit c)"
    and cid: "compiler_id c' = compiler_id c"
    and lb: "jump_labels c' (?p + n + 1) = Some (?p + 4 + n + n)" "n \<noteq> 0 \<longrightarrow> jump_labels c' ?p = Some (?p + 4)"
    using k n by (auto simp: c' buxn_jit_jump_abs_def emit_jump_def emit_label_def emit_def set_label_def Let_def)
  show len: "length (call_code target ra n) = 5 + n + n" using n by (simp add: call_code_def)
  have nl: "nlinks b p = (if p = ?p + n then Some (LINK_TO_HEAD, const_value target) else None)"
    and ll: "nlabels b p = jump_labels c' p" if "?p \<le> p" "p < ?p + 5 + n" for p
    using tidy_link [OF t ji cid h that(1)] h that co len by (simp_all add: holds_from_def)
  show "jump_dest W b (?p + n) = Some (W (const_value target), nhead (W (const_value target)))"
    using nl [of "?p + n"] by (simp add: jump_dest_def)
  show "jump_dest W b (?p + n + 1) = Some (b, ?p + 4 + n + n)"
    using nl [of "?p + n + 1"] ll [of "?p + n + 1"] lb(1) by (simp add: jump_dest_def)
  show "jump_dest W b ?p = Some (b, ?p + 4)" if "n \<noteq> 0"
    using nl [of ?p] ll [of ?p] lb(2) that by (simp add: jump_dest_def)
qed

text \<open>When the target is another address, the guard skips the call and the address is returned.\<close>

lemma jump_abs_call_skipped:
  assumes c': "c' = buxn_jit_jump_abs target ra c" and h: "holds_from (length (code c)) b c'" and t: "tidy c" and tv: "target_is m target tv"
    and k: "SEM_CONST \<in> semantics target" "ra \<noteq> 0" and i: "SEM_IMM_JMP \<notin> semantics target" and ne: "const_value target \<noteq> tv"
  shows "transfers step head W b (length (code c)) m tv ra c' m"
proof -
  let ?p = "length (code c)"
  have n: "(1 :: nat) = (if SEM_IMM_JMP \<in> semantics target then 0 else 1)" using i by simp
  note j = jump_abs_call_code [OF c' h t k n]
  have r: "reg m (oreg target) = ucast tv" using tv i by (simp add: target_is_def)
  note q = holds_code [OF h j(1)]
  have kk: "?p < length (ncode b)" "ncode b ! ?p = Cmp SLJIT_NOT_EQUAL False (Reg (oreg target)) (Imm (ucast (const_value target)))"
    "?p + 4 < length (ncode b)" "ncode b ! (?p + 4) = Label" "?p + 5 < length (ncode b)" "ncode b ! (?p + 5) = Return (Reg (oreg target))"
    using q [of 0] q [of 4] q [of 5] unfolding j(2) by (simp_all add: call_code_def)
  have "leads step head W b ?p m b (?p + 4) m"
    by (rule leads_jump [OF kk(1) _ j(6)]) (use ne r in \<open>auto simp: kk(2)\<close>)
  also have "leads step head W b (?p + 4) m b (?p + 5) m" using leads_mark [OF kk(3), of step head W m] kk(4) by (simp add: add.commute)
  finally have "leads step head W b ?p m b (?p + 5) m" .
  then show ?thesis using run_return_target [OF kk(5,6) r] leadsD by (auto simp: transfers_def)
qed

text \<open>Otherwise the head of the target's block is called; what it returns is compared with the return address.\<close>

lemma call_code_nth:
  assumes "n = 0 \<or> n = 1"
  shows "call_code target ra n ! n = Call_reg_arg True"
    and "call_code target ra n ! (n + 1) = Cmp SLJIT_EQUAL False (Reg (R 0)) (Imm (ucast ra))"
    and "call_code target ra n ! (n + 2) = Return (Reg (R 0))" and "call_code target ra n ! (4 + n + n) = Label"
  using assms by (auto simp: call_code_def)

lemma jump_abs_call_made:
  assumes c': "c' = buxn_jit_jump_abs target ra c" and h: "holds_from (length (code c)) b c'" and t: "tidy c" and tv: "target_is m target tv"
    and k: "SEM_CONST \<in> semantics target" "ra \<noteq> 0" and cv: "const_value target = tv"
  shows "transfers step head W b (length (code c)) m tv ra c' m"
proof -
  let ?p = "length (code c)"
  define n :: nat where "n = (if SEM_IMM_JMP \<in> semantics target then 0 else 1)"
  note j = jump_abs_call_code [OF c' h t k n_def]
  note q = holds_code [OF h j(1), unfolded j(2)]
  have n: "n = 0 \<or> n = 1" by (simp add: n_def)
  have first: "leads step head W b ?p m b (?p + n) m"
  proof (cases "n = 0")
    case False
    then have "n = 1" "taken (Cmp SLJIT_NOT_EQUAL False (Reg (oreg target)) (Imm (ucast (const_value target)))) m = Some False"
      using tv cv by (simp_all add: n_def target_is_def split: if_splits)
    then show ?thesis using q [of 0] leads_fall [of ?p b m step head W] by (simp add: call_code_def)
  qed simp
  have call: "?p + n < length (ncode b)" "ncode b ! (?p + n) = Call_reg_arg True"
    and cmp: "?p + n + 1 < length (ncode b)" "ncode b ! (?p + n + 1) = Cmp SLJIT_EQUAL False (Reg (R 0)) (Imm (ucast ra))"
    and rt: "?p + n + 2 < length (ncode b)" "ncode b ! (?p + n + 2) = Return (Reg (R 0))"
    and lst: "?p + 4 + n + n < length (ncode b)" "ncode b ! (?p + 4 + n + n) = Label"
    using q [of n] q [of "n + 1"] q [of "n + 2"] q [of "4 + n + n"] call_code_nth [OF n, of target ra]
    by (simp_all add: algebra_simps)
  have came_back: "if r1 = ucast ra then leads step head W b ?p m b (length (code c')) (set_reg (R 0) r1 m2)
      else runs step head W b ?p m r1 (set_reg (R 0) r1 m2)"
    if c: "runs step head W (W tv) (nhead (W tv)) m r1 m2" for r1 m2
  proof -
    let ?m = "set_reg (R 0) r1 m2"
    have "leads step head W b (?p + n) m b (?p + n + 1) ?m"
      unfolding leads_def using run_call [OF call j(4) c [folded cv]] by simp
    with first have l: "leads step head W b ?p m b (?p + n + 1) ?m" by (rule leads_trans)
    show ?thesis
    proof (cases "r1 = ucast ra")
      case True
      have "leads step head W b (?p + n + 1) ?m b (?p + 4 + n + n) ?m"
        by (rule leads_jump [OF cmp(1) _ j(5)]) (unfold cmp(2), simp add: True)
      also have "leads step head W b (?p + 4 + n + n) ?m b (length (code c')) ?m"
        using leads_mark [OF lst(1), of step head W ?m] lst(2) j(1,2) by (simp add: algebra_simps)
      finally show ?thesis using leads_trans [OF l] True by simp
    next
      case False
      have "leads step head W b (?p + n + 1) ?m b (?p + n + 2) ?m"
        using leads_fall [OF cmp(1), of ?m step head W] False unfolding cmp(2) by simp
      moreover have "runs step head W b (?p + n + 2) ?m r1 ?m"
        using run_return [OF rt, of step head W ?m] runs_result [OF c] by (simp del: op1_val.simps)
      ultimately show ?thesis using leadsD [OF leads_trans [OF l]] False by simp
    qed
  qed
  then show ?thesis using k(2) j(3) unfolding transfers_def by blast
qed

lemma jump_abs_transfers:
  assumes c': "c' = buxn_jit_jump_abs target ra c" and h: "holds_from (length (code c)) b c'" and t: "tidy c" and tv: "target_is m target tv"
  shows "transfers step head W b (length (code c)) m tv ra c' m"
proof (cases "SEM_CONST \<in> semantics target")
  case False
  then show ?thesis by (rule jump_abs_unknown [OF c' h tv])
next
  case True
  show ?thesis
  proof (cases "ra = 0")
    case 0: True
    show ?thesis unfolding 0 by (rule jump_abs_goto [OF c' [unfolded 0] h t tv True])
  next
    case ra: False
    have "const_value target \<noteq> tv \<Longrightarrow> SEM_IMM_JMP \<notin> semantics target" using tv by (auto simp: target_is_def)
    then show ?thesis using jump_abs_call_skipped [OF c' h t tv True ra] jump_abs_call_made [OF c' h t tv True ra] by blast
  qed
qed

end
