(* ===== verification/Jump_Sim.thy ===== *)
theory Jump_Sim
  imports Jump_Code
begin

text \<open>
  The jumps of \<^verbatim>\<open>src/jit.c\<close> simulate those of the virtual machine. Before it jumps a handler writes both stack caches back, so
  at a jump the state of the virtual machine is in memory (\<open>settled\<close>), and the block or the code that control reaches
  starts from there.
\<close>

section \<open>What jumps rely on\<close>

locale sljit_control = sljit_exec +
  assumes step_and_z: "is_value a \<Longrightarrow> is_value b \<Longrightarrow> \<exists>fl.
      step (Op2u SLJIT_AND SLJIT_SET_Z a b) m = m\<lparr>flag := fl\<rparr> \<and> fl SLJIT_ZERO = (rd m a AND rd m b = 0)"
    and step_mov32: "is_value s \<Longrightarrow> \<exists>w.
      step (Op1 SLJIT_MOV32 (Reg d) s) m = set_reg d w m \<and> (ucast w :: u32) = ucast (rd m s)"

interpretation ref_control: sljit_control "lir_step le" le
proof
  fix s d m assume "is_value s"
  have "(ucast (ucast (ucast (rd m s) :: u32) :: uw) :: u32) = ucast (rd m s)"
    by (rule bit_word_eqI) (auto simp: bit_simps)
  then show "\<exists>w. lir_step le (Op1 SLJIT_MOV32 (Reg d) s) m = set_reg d w m \<and> (ucast w :: u32) = ucast (rd m s)"
    using \<open>is_value s\<close> by (intro exI [of _ "op1_val SLJIT_MOV32 (rd m s)"]) simp
qed auto

section \<open>Nothing in the caches\<close>

definition settled :: "buxn_jit_ctx \<Rightarrow> mach \<Rightarrow> uxn_state \<Rightarrow> bool" where
  "settled ctx m u \<longleftrightarrow> (\<forall>r. act r ctx = []) \<and> shape_ok ctx \<and> base_ok ctx m \<and> in_memory (jit ctx) m u"

lemma settled_represents:
  assumes "settled ctx m u" and "pc ctx = upc u"
  shows "represents ctx m u" and "linear ctx"
  using assms by (auto simp: settled_def represents_def boundary_def flushed_first_def ops_new_def linear_def rview_def
      stack_is_def stack_arr_def [abs_def] in_memory_def)

text \<open>Only the caches, the reference counts, the memory base, the runtime's constants and part of the machine matter.\<close>

lemma in_memory_cong:
  assumes "in_memory j m u" and "vm_offset j' = vm_offset j" and "mem m' = mem m" and "\<And>n. reg m' (S n) = reg m (S n)"
    and "ustk u' = ustk u" and "\<And>offs m. vm_holds offs m u' = vm_holds offs m u"
  shows "in_memory j' m' u'"
proof -
  have "reg m' (stack_reg r) = reg m (stack_reg r)" "reg m' BUXN_JIT_S_VM = reg m BUXN_JIT_S_VM" for r
    using assms(4) by (simp_all add: stack_reg_def jit_reg_defs)
  then show ?thesis using assms vm_holds_cong [OF assms(3,4)] by (simp add: in_memory_def)
qed

lemma settled_cong:
  assumes "settled ctx m u" and "\<And>r. cache_of r ctx' = cache_of r ctx" and "length (reg_ref_counts ctx') = length (reg_ref_counts ctx)"
    and "mem_base ctx' = mem_base ctx \<and> reg m' (R 0) = reg m (R 0) \<or> mem_base ctx' = 0" and "vm_offset (jit ctx') = vm_offset (jit ctx)"
    and "mem m' = mem m" and "\<And>n. reg m' (S n) = reg m (S n)" and "ustk u' = ustk u" and "\<And>offs m. vm_holds offs m u' = vm_holds offs m u"
  shows "settled ctx' m' u'"
proof -
  have "in_memory (jit ctx') m' u'"
    by (rule in_memory_cong [OF _ assms(5-9)]) (use assms(1) in \<open>simp add: settled_def\<close>)
  moreover have "act r ctx' = act r ctx" for r by (rule act_cong) (rule assms(2))
  moreover have "shape_ok ctx' = shape_ok ctx" using assms(2,3) by (simp add: shape_ok_def)
  moreover have "base_ok ctx' m'" using assms(1,4,5,7) by (auto simp: settled_def base_ok_def jit_reg_defs)
  ultimately show ?thesis using assms(1) by (simp add: settled_def)
qed

lemma clear_settled:
  assumes "settled ctx m u"
  shows "buxn_jit_clear_stack_caches ctx = Some ctx"
proof -
  have sh: "shape_ok ctx" and a: "\<And>r. act r ctx = []" using assms by (simp_all add: settled_def)
  have "clen (cache_of r ctx) = 0" for r using length_act [OF sh, of r] a by simp
  then have "buxn_jit_stack_cache_clear r ctx = Some ctx" for r
    by (subst buxn_jit_stack_cache_clear.simps) (simp add: buxn_jit_stack_cache_spill_def)
  then show ?thesis by (simp add: buxn_jit_clear_stack_caches_def)
qed

section \<open>Jump operands\<close>

definition jump_operand :: "mach \<Rightarrow> u16 \<Rightarrow> buxn_jit_operand \<Rightarrow> u16 \<Rightarrow> bool" where
  "jump_operand m p target tv \<longleftrightarrow>
     (if is_short target then target_is m target tv \<and> (SEM_IMM_JMP \<notin> semantics target \<longrightarrow> op_reg (oreg target))
      else SEM_BOOLEAN \<notin> semantics target \<and> SEM_IMM_JMP \<notin> semantics target \<and> op_reg (oreg target) \<and>
        (\<exists>d :: u8. reg m (oreg target) = ucast d \<and> 0 \<le> uint p + sint d \<and> uint p + sint d < 65536 \<and> tv = p + scast d))"

lemma jump_operand_regs:
  assumes "jump_operand m p target tv" and "\<And>q. op_reg q \<Longrightarrow> reg m' q = reg m q"
  shows "jump_operand m' p target tv"
  using assms by (auto simp: jump_operand_def target_is_def split: if_splits)

lemma relative_target:
  assumes "0 \<le> uint (p :: u16) + sint (d :: u8)" and "uint p + sint d < 65536"
  shows "(scast d + ucast p :: uw) = ucast (p + scast d)"
proof -
  let ?i = "uint p + sint d"
  have c: "(scast d :: uw) = word_of_int (sint d)" "(ucast p :: uw) = word_of_int (uint p)"
    by (rule scast_eq, rule ucast_eq)
  have "(scast d + ucast p :: uw) = word_of_int (sint d + uint p)" unfolding c by (rule wi_hom_add)
  then have l: "(scast d + ucast p :: uw) = word_of_int ?i" by (simp only: add.commute)
  have "p + scast d = word_of_int (uint p) + word_of_int (sint d)" by (simp only: word_of_int_uint scast_eq)
  also have "\<dots> = word_of_int ?i" by (rule wi_hom_add)
  finally have "uint (p + scast d) = ?i mod 65536" by (simp only: uint_word_of_int) simp
  then have "uint (p + scast d) = ?i" using assms by simp
  then have "(ucast (p + scast d) :: uw) = word_of_int ?i" by (simp only: ucast_eq)
  then show ?thesis using l by simp
qed

section \<open>The fields a jump leaves alone\<close>

lemma queue_link_more [simp]:
  "pc (queue_link lt t jump ctx) = pc ctx" "compiler (queue_link lt t jump ctx) = compiler ctx"
  "cache_of r (queue_link lt t jump ctx) = cache_of r ctx" "reg_ref_counts (queue_link lt t jump ctx) = reg_ref_counts ctx"
  by (simp_all add: queue_link_def split_beta Let_def cache_of_def)

lemma emit_more [simp]:
  "pc (emit i ctx) = pc ctx" "compiler (emit i ctx) = compiler ctx" "cache_of r (emit i ctx) = cache_of r ctx"
  "reg_ref_counts (emit i ctx) = reg_ref_counts ctx" "mem_base (emit i ctx) = mem_base ctx"
  "pc (set_label j l ctx) = pc ctx" "compiler (set_label j l ctx) = compiler ctx"
  "cache_of r (set_label j l ctx) = cache_of r ctx" "reg_ref_counts (set_label j l ctx) = reg_ref_counts ctx"
  "mem_base (set_label j l ctx) = mem_base ctx"
  by (simp_all add: emit_def set_label_def cache_of_def)

lemma jump_abs_more [simp]:
  "pc (buxn_jit_jump_abs target ra ctx) = pc ctx" "compiler (buxn_jit_jump_abs target ra ctx) = compiler ctx"
  "cache_of r (buxn_jit_jump_abs target ra ctx) = cache_of r ctx"
  "reg_ref_counts (buxn_jit_jump_abs target ra ctx) = reg_ref_counts ctx"
  by (simp_all add: buxn_jit_jump_abs_def emit_jump_def emit_label_def Let_def) (simp_all add: cache_of_def emit_def)

lemma jump_abs_0_mem_base [simp]: "mem_base (buxn_jit_jump_abs target 0 ctx) = mem_base ctx"
  by (simp add: buxn_jit_jump_abs_def emit_jump_def emit_label_def Let_def)

text \<open>Nothing cached, and counters for all registers: what a jump leaves at compile time.\<close>

definition cleared :: "buxn_jit_ctx \<Rightarrow> bool" where
  "cleared ctx \<longleftrightarrow> (\<forall>r. act r ctx = []) \<and> shape_ok ctx"

lemma settled_cleared: "settled ctx m u \<Longrightarrow> cleared ctx"
  by (simp add: settled_def cleared_def)

lemma cleared_cong:
  assumes "cleared ctx" and "\<And>r. cache_of r ctx' = cache_of r ctx" and "reg_ref_counts ctx' = reg_ref_counts ctx"
  shows "cleared ctx'"
  using assms act_cong [OF assms(2)] by (simp add: cleared_def shape_ok_def)

lemma settled_steps:
  assumes "settled ctx m u" and "same_env ctx ctx'" and "\<And>r. cache_of r ctx' = cache_of r ctx"
    and "reg_ref_counts ctx' = reg_ref_counts ctx" and "mem_base ctx' = mem_base ctx"
    and "mem m' = mem m" and "\<And>n. reg m' (S n) = reg m (S n)" and "reg m' (R 0) = reg m (R 0)"
  shows "settled ctx' m' u"
  using assms by (intro settled_cong [OF assms(1)]) (simp_all add: same_env_def)

text \<open>The constants of the runtime stay as they are.\<close>

lemma link_jit_constants [simp]:
  "vm_memory (link_jit lt t jump cid j) = vm_memory j" "vm_offset (link_jit lt t jump cid j) = vm_offset j"
  "little_endian (link_jit lt t jump cid j) = little_endian j" "jit_addr (link_jit lt t jump cid j) = jit_addr j"
proof -
  have al: "vm_memory (snd (buxn_jit_alloc_entry j)) = vm_memory j \<and> vm_offset (snd (buxn_jit_alloc_entry j)) = vm_offset j \<and>
      little_endian (snd (buxn_jit_alloc_entry j)) = little_endian j \<and> jit_addr (snd (buxn_jit_alloc_entry j)) = jit_addr j" for j
    by (auto simp: buxn_jit_alloc_entry_def split: prod.splits option.splits)
  show "vm_memory (link_jit lt t jump cid j) = vm_memory j" "vm_offset (link_jit lt t jump cid j) = vm_offset j"
    "little_endian (link_jit lt t jump cid j) = little_endian j" "jit_addr (link_jit lt t jump cid j) = jit_addr j"
    by (simp_all add: link_jit_def buxn_jit_queue_block_def new_block_def enqueue_link_def enqueue_compile_def enqueue_cleanup_def
        update_entry_def buxn_jit_enqueue_def al split_beta Let_def split: option.split)
qed

lemma link_seq_constants [simp]:
  "vm_memory (link_seq cid ls j) = vm_memory j" "vm_offset (link_seq cid ls j) = vm_offset j"
  "little_endian (link_seq cid ls j) = little_endian j" "jit_addr (link_seq cid ls j) = jit_addr j"
  by (induction ls rule: rev_induct) (auto simp: link_seq_def)

lemma grown_constants:
  assumes "grown base ctx"
  shows "vm_memory (jit ctx) = vm_memory (jit base)" "vm_offset (jit ctx) = vm_offset (jit base)"
    "little_endian (jit ctx) = little_endian (jit base)"
  using assms by (auto simp: grown_def grown_by_def)

context sljit_control
begin

lemma exec_settle:
  assumes co: "core c m held" and v: "\<And>r. rview c m r (ustk u r)" and rm: "mem_holds c m u"
  obtains c' m' where "buxn_jit_clear_stack_caches c = Some c'" and "steady c c'" and "emits step c m c' m'"
    and "settled c' m' u" and "\<forall>q. op_reg q \<longrightarrow> reg m' q = reg m q" and "reg m' (S 0) = reg m (S 0)" and "ctx_frame c c'"
proof -
  obtain c' m' where 1: "buxn_jit_clear_stack_caches c = Some c'" "quiet step c m c' m'" "core c' m' held" "\<forall>r. act r c' = []"
    by (rule exec_clear_stack_caches [OF co])
  note q = quietD [OF 1(2)]
  have st: "steady c c'" using everyD [OF every_clear [OF steady_refl] 1(1)] by blast
  have "mem_holds c' m' u"
    using rm mem_holds_same [OF q(6) _ _ q(5,3)] by simp
  then have "in_memory (jit c') m' u" using in_memory_empty [OF 1(4) q(7) [OF v]] by simp
  then have "settled c' m' u" using 1(3,4) by (simp add: settled_def core_def)
  then show ?thesis using that 1(1) st q(1,2,4,5) by blast
qed

text \<open>\<^verbatim>\<open>buxn_jit_jump\<close> after it has cleared the caches.\<close>

lemma exec_jump_settled:
  assumes s: "settled c m u" and j: "jump_operand m (pc c) target tv"
  obtains c' m' target' where "\<forall>nxt ra c0. buxn_jit_clear_stack_caches c0 = Some c \<longrightarrow>
      buxn_jit_jump nxt target ra c0 = Some (buxn_jit_jump_abs target' ra c')"
    and "steady c c'" and "emits step c m c' m'" and "target_is m' target' tv" and "settled c' m' u"
    and "\<forall>n. reg m' (S n) = reg m (S n)" and "mem_base c' = mem_base c" and "pc c' = pc c"
proof (cases "is_short target")
  case True
  then show ?thesis
    using j s by (intro that [of target c m]) (simp_all add: buxn_jit_jump_def jump_operand_def)
next
  case False
  then obtain d :: u8 where j': "SEM_BOOLEAN \<notin> semantics target" "SEM_IMM_JMP \<notin> semantics target" "op_reg (oreg target)"
    "reg m (oreg target) = ucast d" "0 \<le> uint (pc c) + sint d" "uint (pc c) + sint d < 65536" "tv = pc c + scast d"
    using j by (auto simp: jump_operand_def)
  define js where "js = [Op1 SLJIT_MOV_S8 (Reg (oreg target)) (Reg (oreg target)),
      Op2 SLJIT_ADD (Reg (oreg target)) (Reg (oreg target)) (Imm (ucast (pc c)))]"
  define target' where "target' = target\<lparr>const_value := pc c + scast (ucast (const_value target) :: u8)\<rparr>"
  let ?m = "exec step js m" and ?c = "emit_all js c"
  have m: "?m = set_reg (oreg target) (ucast tv) (set_reg (oreg target) (scast d) m)"
    using j' relative_target [OF j'(5,6)] by (simp add: js_def step_simps)
  show ?thesis
  proof (rule that [of target' ?c ?m])
    show "\<forall>nxt ra c0. buxn_jit_clear_stack_caches c0 = Some c \<longrightarrow>
        buxn_jit_jump nxt target ra c0 = Some (buxn_jit_jump_abs target' ra ?c)"
      using False j'(1) by (simp add: buxn_jit_jump_def js_def target'_def Let_def)
    show "steady c ?c" by (simp add: js_def)
    show "emits step c m ?c ?m" by (rule emits_emit_all)
    show "target_is ?m target' tv" using j'(2) by (simp add: target_is_def m target'_def)
    show "settled ?c ?m u"
      using j'(3) by (intro settled_cong [OF s]) (auto simp: m emit_all_eq cache_of_def)
    show "\<forall>n. reg ?m (S n) = reg m (S n)" using j'(3) by (auto simp: m)
  qed (simp_all add: emit_all_eq)
qed

lemma exec_jump:
  assumes co: "core c m held" and v: "\<And>r. rview c m r (ustk u r)" and rm: "mem_holds c m u"
    and j: "jump_operand m (pc c) target tv"
  obtains c' where "\<And>nxt. buxn_jit_jump nxt target ra c = Some c'" and "cleared c'" and "compiler c' = compiler c"
    and "pc c' = pc c"
    and "\<And>b head W. tidy c \<Longrightarrow> holds_from (length (code c)) b c' \<Longrightarrow>
      \<exists>m1. transfers step head W b (length (code c)) m tv ra c' m1 \<and> in_memory (jit c) m1 u \<and> reg m1 (S 0) = reg m (S 0)"
proof -
  obtain c1 m1 where 1: "buxn_jit_clear_stack_caches c = Some c1" "steady c c1" "emits step c m c1 m1" "settled c1 m1 u"
    "\<forall>q. op_reg q \<longrightarrow> reg m1 q = reg m q" "reg m1 (S 0) = reg m (S 0)" "ctx_frame c c1"
    by (rule exec_settle [where u = u, OF co v rm])
  have p: "pc c1 = pc c" using 1(7) by (simp add: ctx_frame_def)
  have j1: "jump_operand m1 (pc c1) target tv" unfolding p by (rule jump_operand_regs [OF j]) (simp add: 1(5))
  obtain c2 m2 target' where 2: "\<forall>nxt ra c0. buxn_jit_clear_stack_caches c0 = Some c1 \<longrightarrow>
      buxn_jit_jump nxt target ra c0 = Some (buxn_jit_jump_abs target' ra c2)"
    "steady c1 c2" "emits step c1 m1 c2 m2" "target_is m2 target' tv" "settled c2 m2 u"
    "\<forall>n. reg m2 (S n) = reg m1 (S n)" "mem_base c2 = mem_base c1" "pc c2 = pc c1"
    by (rule exec_jump_settled [OF 1(4) j1])
  let ?c' = "buxn_jit_jump_abs target' ra c2"
  have st: "steady c c2" and em: "emits step c m c2 m2"
    using steady_trans [OF 1(2) 2(2)] emits_trans [OF 1(3) 2(3)] by simp_all
  show ?thesis
  proof (rule that [of ?c'])
    show "buxn_jit_jump nxt target ra c = Some ?c'" for nxt using 2(1) 1(1) by blast
    show "cleared ?c'" by (rule cleared_cong [OF settled_cleared [OF 2(5)]]) simp_all
    show "compiler ?c' = compiler c" using st by (simp add: steady_def)
    show "pc ?c' = pc c" using 2(8) p by simp
    fix b head W assume t: "tidy c" and h: "holds_from (length (code c)) b ?c'"
    have g: "grown c2 ?c'" by (rule jump_abs_grown)
    obtain post where post: "ncode b = code c2 @ post" by (rule holds_prefix [OF h g])
    have "holds_from (length (code c2)) b ?c'"
      by (rule holds_from_mono [OF h]) (rule grown_length [OF steady_grown [OF st]])
    moreover have "tidy c2" by (rule grown_code_links(1) [OF steady_grown [OF st] t])
    ultimately have "transfers step head W b (length (code c2)) m2 tv ra ?c' m2"
      by (intro jump_abs_transfers [OF refl _ _ 2(4)])
    then have "transfers step head W b (length (code c)) m tv ra ?c' m2"
      by (rule transfers_before [OF leads_emits [OF st em post]])
    moreover have "in_memory (jit c) m2 u" using 2(5) st by (simp add: settled_def steady_def)
    ultimately show "\<exists>m1. transfers step head W b (length (code c)) m tv ra ?c' m1 \<and> in_memory (jit c) m1 u \<and> reg m1 (S 0) = reg m (S 0)"
      using 2(6) 1(6) by auto
  qed
qed

lemma exec_conditional:
  assumes co: "core c m held" and v: "\<And>r. rview c m r (ustk u r)" and rm: "mem_holds c m u"
    and j: "jump_operand m (pc c) target tv" and cnd: "op_reg (oreg cnd)" "reg m (oreg cnd) = ucast (cb :: u8)"
  obtains c' where "\<And>nxt. buxn_jit_conditional_jump nxt cnd target c = Some c'" and "cleared c'" and "compiler c' = compiler c"
    and "pc c' = pc c"
    and "\<And>b head W. tidy c \<Longrightarrow> holds_from (length (code c)) b c' \<Longrightarrow>
      \<exists>m1. in_memory (jit c) m1 u \<and> reg m1 (S 0) = reg m (S 0) \<and>
        (if cb = 0 then leads step head W b (length (code c)) m b (length (code c')) m1 \<and> settled c' m1 u
         else transfers step head W b (length (code c)) m tv 0 c' m1)"
proof -
  obtain c1 m1 where 1: "buxn_jit_clear_stack_caches c = Some c1" "steady c c1" "emits step c m c1 m1" "settled c1 m1 u"
    "\<forall>q. op_reg q \<longrightarrow> reg m1 q = reg m q" "reg m1 (S 0) = reg m (S 0)" "ctx_frame c c1"
    by (rule exec_settle [where u = u, OF co v rm])
  let ?and = "Op2u SLJIT_AND SLJIT_SET_Z (Reg (oreg cnd)) (Imm 0xff)"
  define c2 where "c2 = emit ?and c1"
  define c3 where "c3 = emit (Jump (Some SLJIT_ZERO) False) c2"
  define m2 where "m2 = step ?and m1"
  obtain fl where fl: "m2 = m1\<lparr>flag := fl\<rparr>" "fl SLJIT_ZERO = (reg m1 (oreg cnd) AND 0xff = 0)"
    using step_and_z [of "Reg (oreg cnd)" "Imm 0xff" m1] by (auto simp: m2_def)
  have mk: "(0xff :: uw) = mask 8" by (simp add: mask_eq_exp_minus_1)
  have "(ucast cb AND 0xff :: uw) = ucast cb"
    unfolding mk by (rule bit_word_eqI) (auto simp: bit_simps dest: bit_imp_le_length)
  then have z: "flag m2 SLJIT_ZERO \<longleftrightarrow> cb = 0"
    using fl cnd 1(5) by (simp add: word_unat_eq_iff)
  have s3: "settled c3 m2 u"
    by (rule settled_cong [OF 1(4)]) (auto simp: c3_def c2_def fl(1) emit_def cache_of_def)
  have p: "pc c3 = pc c" using 1(7) by (simp add: c3_def c2_def ctx_frame_def)
  have "jump_operand m2 (pc c3) target tv" unfolding p by (rule jump_operand_regs [OF j]) (simp add: fl(1) 1(5))
  then obtain c4 m4 target' where 4: "\<forall>nxt ra c0. buxn_jit_clear_stack_caches c0 = Some c3 \<longrightarrow>
      buxn_jit_jump nxt target ra c0 = Some (buxn_jit_jump_abs target' ra c4)"
    "steady c3 c4" "emits step c3 m2 c4 m4" "target_is m4 target' tv" "settled c4 m4 u"
    "\<forall>n. reg m4 (S n) = reg m2 (S n)" "mem_base c4 = mem_base c3" "pc c4 = pc c3"
    by (rule exec_jump_settled [OF s3])
  define c5 where "c5 = buxn_jit_jump_abs target' 0 c4"
  let ?q = "length (code c2)"
  define c' where "c' = set_label ?q (length (code c5)) (emit Label c5)"
  have st2: "steady c c2" using 1(2) by (simp add: c2_def)
  have em2: "emits step c m c2 m2" unfolding c2_def m2_def by (rule emits_trans [OF 1(3) emits_emit])
  have g5: "grown c4 c5" unfolding c5_def by (rule jump_abs_grown)
  have g35: "grown c3 c5" by (rule grown_trans [OF steady_grown [OF 4(2)] g5])
  have l3: "length (code c3) = Suc ?q" by (simp add: c3_def)
  have l5: "Suc ?q \<le> length (code c4)" "length (code c4) \<le> length (code c5)"
    using grown_length [OF steady_grown [OF 4(2)]] grown_length [OF g5] l3 by simp_all
  have cl: "cleared c'"
    by (rule cleared_cong [OF settled_cleared [OF 4(5)]]) (simp_all add: c'_def c5_def)
  show ?thesis
  proof (rule that [of c'])
    show "buxn_jit_conditional_jump nxt cnd target c = Some c'" for nxt
      using 1(1) 4(1) clear_settled [OF s3]
      by (simp add: buxn_jit_conditional_jump_def emit_jump_def emit_label_def Let_def c2_def [symmetric] c3_def [symmetric]
          c5_def [symmetric] c'_def) (simp add: c2_def)
    show "cleared c'" by (rule cl)
    show "compiler c' = compiler c" using 1(7) 4(2) by (simp add: c'_def c5_def steady_def c3_def c2_def ctx_frame_def)
    show "pc c' = pc c" using 4(8) p by (simp add: c'_def c5_def)
    fix b head W assume t: "tidy c" and h: "holds_from (length (code c)) b c'"
    have le: "length (code c) \<le> ?q" by (rule grown_length [OF steady_grown [OF st2]])
    have g23: "grown c2 c3" by (simp add: c3_def)
    have t2: "tidy c2" by (rule grown_code_links(1) [OF steady_grown [OF st2] t])
    have t3: "tidy c3" by (rule grown_code_links(1) [OF g23 t2])
    have co': "code c' = code c5 @ [Label]" by (simp add: c'_def emit_def)
    have h5: "holds_from (Suc ?q) b c5" using h le by (auto simp: holds_from_def co' c'_def set_label_def emit_def)
    obtain post where post: "ncode b = code c4 @ post" by (rule holds_prefix [OF h5 g5])
    obtain post3 where post3: "ncode b = code c3 @ post3" by (rule holds_prefix [OF h5 g35])
    have pq: "?q < length (ncode b)" "ncode b ! ?q = Jump (Some SLJIT_ZERO) False" "ncode b = code c2 @ Jump (Some SLJIT_ZERO) False # post3"
      using post3 by (simp_all add: c3_def emit_def)
    have l2: "leads step head W b (length (code c)) m b ?q m2" by (rule leads_emits [OF st2 em2 pq(3)])
    show "\<exists>m1. in_memory (jit c) m1 u \<and> reg m1 (S 0) = reg m (S 0) \<and>
        (if cb = 0 then leads step head W b (length (code c)) m b (length (code c')) m1 \<and> settled c' m1 u
         else transfers step head W b (length (code c)) m tv 0 c' m1)"
    proof (cases "cb = 0")
      case True
      have "code_links (compiler_id c5) (jit c5) ?q = code_links (compiler_id c3) (jit c3) ?q"
        by (rule grown_code_links(2) [OF g35 t3]) (simp add: l3)
      also have "\<dots> = None" using t2 by (simp add: tidy_def c3_def emit_def)
      finally have "nlinks b ?q = None" "nlabels b ?q = Some (length (code c5))"
        using h le l5 by (simp_all add: holds_from_def co') (simp_all add: c'_def set_label_def emit_def)
      then have jd: "jump_dest W b ?q = Some (b, length (code c5))" by (simp add: jump_dest_def)
      have lab: "length (code c5) < length (ncode b)" "ncode b ! length (code c5) = Label"
        using h by (auto simp: holds_from_def co')
      note l2
      also have "leads step head W b ?q m2 b (length (code c5)) m2"
        by (rule leads_jump [OF pq(1) _ jd]) (use z True in \<open>simp add: pq(2)\<close>)
      also have "leads step head W b (length (code c5)) m2 b (length (code c')) m2"
        using leads_mark [OF lab(1), of step head W m2] lab(2) by (simp add: co')
      finally have "leads step head W b (length (code c)) m b (length (code c')) m2" .
      moreover have im: "in_memory (jit c) m2 u" using s3 st2 by (simp add: settled_def c3_def emit_def steady_def)
      moreover have "vm_offset (jit c') = vm_offset (jit c3)"
        using grown_constants(2) [OF g35] by (simp add: c'_def set_label_def emit_def)
      then have "settled c' m2 u"
        using cl s3 4(7) im in_memory_cong [of "jit c3" m2 u "jit c'"] by (auto simp: settled_def cleared_def base_ok_def c'_def c5_def)
      ultimately show ?thesis using True fl(1) 1(6) by (intro exI [of _ m2]) simp
    next
      case False
      note l2
      also have "leads step head W b ?q m2 b (Suc ?q) m2"
        by (rule leads_fall [OF pq(1)]) (use z False in \<open>simp add: pq(2)\<close>)
      also have "leads step head W b (Suc ?q) m2 b (length (code c4)) m4"
        using leads_emits [OF 4(2,3) post, of head W] l3 by simp
      finally have l4: "leads step head W b (length (code c)) m b (length (code c4)) m4" .
      have "holds_from (length (code c4)) b c5" by (rule holds_from_mono [OF h5 l5(1)])
      then have "transfers step head W b (length (code c4)) m4 tv 0 c5 m4"
        by (rule jump_abs_transfers [OF c5_def _ grown_code_links(1) [OF steady_grown [OF 4(2)] t3] 4(4)])
      then have "transfers step head W b (length (code c)) m tv 0 c' m4"
        using transfers_before [OF l4] by (auto simp: transfers_def)
      moreover have "in_memory (jit c) m4 u" using 4(2,5) st2 by (simp add: settled_def steady_def c3_def emit_def)
      ultimately show ?thesis using False 4(6) fl(1) 1(6) by (intro exI [of _ m4]) simp
    qed
  qed
qed

end

end
