(* ===== verification/Jump_Ops.thy ===== *)
theory Jump_Ops
  imports Jump_Sim
begin

text \<open>
  The six jump opcodes, from fetching to where control goes.
\<close>

section \<open>What the compiler knows of the target\<close>

text \<open>What is known at compile time of the operand an opcode \<open>b\<close> pops first.\<close>

definition top_kind :: "buxn_jit_ctx \<Rightarrow> u8 \<Rightarrow> sem_flag set" where
  "top_kind ctx b =
     semantics (fst (pop_value (mode_2 b) (if mode_r b then rsp ctx else wsp ctx) (if mode_r b then rst ctx else wst ctx)))"

lemma retain_frame:
  assumes "buxn_jit_stack_cache_retain r ctx = Some c"
  shows "ctx_frame ctx c"
proof -
  have r: "retain_cells cs c1 = Some c2 \<Longrightarrow> ctx_frame c1 c2" for cs c1 c2
    by (induction cs arbitrary: c1)
      (auto simp: Option.bind_eq_Some_conv buxn_jit_retain_reg_def ctx_frame_def split: option.splits)
  obtain cs ca where "retain_cells cs (set_cache r ca ctx) = Some c"
    using assms unfolding buxn_jit_stack_cache_retain_def Let_def by blast
  moreover have "ctx_frame ctx (set_cache r ca ctx)" by (simp add: ctx_frame_def set_cache_def)
  ultimately show ?thesis using r ctx_frame_trans by blast
qed

lemma flush_frame: "ctx_frame ctx (buxn_jit_stack_cache_flush r c) = ctx_frame ctx c"
proof -
  have "ctx_frame ctx (flush_cells r is c) = ctx_frame ctx c" for "is" c
    by (induction "is" arbitrary: c) simp_all
  then show ?thesis by (simp add: buxn_jit_stack_cache_flush_def)
qed

lemma ctx_frame_alloc:
  assumes "buxn_jit_alloc_reg ctx = Some (q, ctx')"
  shows "ctx_frame ctx ctx'"
proof -
  have loop: "alloc_reg_loop ctx = Some (o1, c1) \<Longrightarrow> ctx_frame ctx c1" for ctx o1 c1
    by (induction ctx rule: alloc_reg_loop.induct)
      (subst (asm) (2) alloc_reg_loop.simps, auto split: option.splits if_splits dest!: spill_any_frame intro: ctx_frame_trans)
  obtain o1 c1 r where "alloc_reg_loop ctx = Some (o1, c1)" "buxn_jit_retain_reg r c1 = Some ctx'"
    using assms by (auto simp: buxn_jit_alloc_reg_def Option.bind_eq_Some_conv split: option.splits)
  then show ?thesis using loop ctx_frame_retain ctx_frame_trans by blast
qed

text \<open>The first pop of a handler reads the compile-time value that was on top before, in keep mode through the shadow pointer.\<close>

lemma fetched_values:
  assumes "do { c \<leftarrow> fetch_opcode ctx; setup_shadow c } = Some c'"
  shows "wst c' = wst ctx \<and> rst c' = rst ctx \<and> esp False c' = wsp ctx \<and> esp True c' = rsp ctx \<and>
    current_opcode c' = vm_memory (jit ctx) (pc ctx)"
proof -
  obtain c where c: "fetch_opcode ctx = Some c" "setup_shadow c = Some c'" using assms(1) by (auto simp: Option.bind_eq_Some_conv)
  obtain c1 c2 where r: "buxn_jit_stack_cache_retain False (ctx\<lparr>reg_ref_counts := replicate 6 0\<rparr>) = Some c1"
    "buxn_jit_stack_cache_retain True c1 = Some c2" "c = c2\<lparr>current_opcode := vm_memory (jit c2) (pc c2), pc := pc c2 + 1\<rparr>"
    using c(1) by (auto simp: fetch_opcode_def Option.bind_eq_Some_conv)
  have f: "ctx_frame (ctx\<lparr>reg_ref_counts := replicate 6 0\<rparr>) c2" by (rule ctx_frame_trans [OF retain_frame retain_frame]) (rule r)+
  have v: "wst c = wst ctx" "rst c = rst ctx" "wsp c = wsp ctx" "rsp c = rsp ctx" "current_opcode c = vm_memory (jit ctx) (pc ctx)"
    using f r(3) by (simp_all add: ctx_frame_def)
  show ?thesis
  proof (cases "buxn_jit_op_flag_k c")
    case True
    let ?c = "c\<lparr>shadow_wsp := wsp c, shadow_rsp := rsp c, eshadow := True\<rparr>"
    obtain q1 c3 q2 c4 where al: "buxn_jit_alloc_reg ?c = Some (q1, c3)" "buxn_jit_alloc_reg c3 = Some (q2, c4)"
      and c': "c' = buxn_jit_stack_cache_flush (buxn_jit_op_flag_r c4) ((emit_all
            [Op1 SLJIT_MOV_U8 (Reg q1) (Reg BUXN_JIT_S_WSP), Op1 SLJIT_MOV_U8 (Reg q2) (Reg BUXN_JIT_S_RSP)] c4)
          \<lparr>wsp_reg := q1, rsp_reg := q2\<rparr>)"
      using c(2) True by (auto simp: setup_shadow_def Let_def Option.bind_eq_Some_conv buxn_jit_op_flag_r_def emit_all_eq)
    have "ctx_frame ?c c4" by (rule ctx_frame_trans [OF ctx_frame_alloc ctx_frame_alloc]) (rule al)+
    moreover have "ctx_frame ((emit_all [Op1 SLJIT_MOV_U8 (Reg q1) (Reg BUXN_JIT_S_WSP), Op1 SLJIT_MOV_U8 (Reg q2) (Reg BUXN_JIT_S_RSP)] c4)
          \<lparr>wsp_reg := q1, rsp_reg := q2\<rparr>) c'"
      unfolding c' flush_frame by simp
    ultimately show ?thesis using v by (simp add: ctx_frame_def esp_def emit_all_eq)
  next
    case False
    then show ?thesis using c(2) v by (auto simp: setup_shadow_def esp_def)
  qed
qed

lemma popped_kind: "buxn_jit_pop_ex f r c = Some (v, c') \<Longrightarrow>
    semantics v = semantics (fst (pop_value f (esp r c) (if r then rst c else wst c)))"
  by (auto simp: buxn_jit_pop_ex_def Option.bind_eq_Some_conv split: prod.splits)

lemma popped_operand:
  assumes "is_short v = f" and "reg m (oreg v) = bytes_val a" and "length a = opsize f" and "op_reg (oreg v)"
    and "semantics v \<inter> {SEM_BOOLEAN, SEM_IMM_JMP} = {}"
    and "\<not> f \<longrightarrow> 0 \<le> uint p + sint (hd a) \<and> uint p + sint (hd a) < 65536"
  shows "jump_operand m p v (jump_addr f p a)"
  using assms by (cases rule: opsize_cases [OF assms(3)]) (auto simp: jump_operand_def target_is_def jump_addr_def addr_of_def)

section \<open>The result of a jump\<close>

definition jump_result ::
  "(lir \<Rightarrow> mach \<Rightarrow> mach) \<Rightarrow> buxn_jit_ctx \<Rightarrow> mach \<Rightarrow> buxn_jit_ctx \<Rightarrow> bool \<Rightarrow> uxn_state \<Rightarrow> bool" where
  "jump_result step c m c' transfer u' \<longleftrightarrow>
     cleared c' \<and>
     (\<forall>b head W. tidy c \<longrightarrow> holds_from (length (code c)) b c' \<longrightarrow>
       (\<exists>m1 ra. in_memory (jit c) m1 u' \<and> reg m1 (S 0) = reg m (S 0) \<and>
         (if transfer
          then transfers step head W b (length (code c)) m (upc u') ra c' m1 \<and> (ra \<noteq> 0 \<longrightarrow> pc c' = ra \<and> compiler c' = compiler c)
          else leads step head W b (length (code c)) m b (length (code c')) m1 \<and> settled c' m1 u' \<and> pc c' = upc u' \<and>
            compiler c' = compiler c)))"

text \<open>Straight-line code in front of it changes nothing.\<close>

lemma jump_result_before:
  assumes st: "steady c0 c" and em: "emits step c0 m0 c m" and g: "grown c c'" and s0: "reg m (S 0) = reg m0 (S 0)"
    and cp: "compiler c = compiler c0" and r: "jump_result step c m c' transfer u'"
  shows "jump_result step c0 m0 c' transfer u'"
  unfolding jump_result_def
proof (intro conjI allI impI)
  show "cleared c'" using r by (simp add: jump_result_def)
  fix b head W assume t: "tidy c0" and h: "holds_from (length (code c0)) b c'"
  have t': "tidy c" by (rule grown_code_links(1) [OF steady_grown [OF st] t])
  have h': "holds_from (length (code c)) b c'" by (rule holds_from_mono [OF h]) (rule grown_length [OF steady_grown [OF st]])
  obtain post where post: "ncode b = code c @ post" by (rule holds_prefix [OF h g])
  have l: "leads step head W b (length (code c0)) m0 b (length (code c)) m" by (rule leads_emits [OF st em post])
  obtain m1 ra where 1: "in_memory (jit c) m1 u'" "reg m1 (S 0) = reg m (S 0)"
    "if transfer
     then transfers step head W b (length (code c)) m (upc u') ra c' m1 \<and> (ra \<noteq> 0 \<longrightarrow> pc c' = ra \<and> compiler c' = compiler c)
     else leads step head W b (length (code c)) m b (length (code c')) m1 \<and> settled c' m1 u' \<and> pc c' = upc u' \<and>
       compiler c' = compiler c"
    using r t' h' unfolding jump_result_def by metis
  have "jit c = jit c0" using st by (simp add: steady_def)
  then show "\<exists>m1 ra. in_memory (jit c0) m1 u' \<and> reg m1 (S 0) = reg m0 (S 0) \<and>
     (if transfer
      then transfers step head W b (length (code c0)) m0 (upc u') ra c' m1 \<and> (ra \<noteq> 0 \<longrightarrow> pc c' = ra \<and> compiler c' = compiler c0)
      else leads step head W b (length (code c0)) m0 b (length (code c')) m1 \<and> settled c' m1 u' \<and> pc c' = upc u' \<and>
        compiler c' = compiler c0)"
    using 1 s0 cp transfers_before [OF l] leads_trans [OF l] by (intro exI [of _ m1] exI [of _ ra]) (cases transfer; simp)
qed

text \<open>\<^verbatim>\<open>buxn_jit_finalize\<close> after a plain jump.\<close>

lemma jump_result_finalize:
  assumes c': "compiler c' = compiler c \<and> pc c' = pc c" and r: "\<And>b head W. tidy c \<Longrightarrow> holds_from (length (code c)) b c' \<Longrightarrow>
      \<exists>m1. transfers step head W b (length (code c)) m (upc u') 0 c' m1 \<and> in_memory (jit c) m1 u' \<and> reg m1 (S 0) = reg m (S 0)"
    and cl: "cleared c'"
  shows "jump_result step c m (buxn_jit_finalize c') True u'"
  unfolding jump_result_def
proof (intro conjI allI impI)
  show "cleared (buxn_jit_finalize c')"
    by (rule cleared_cong [OF cl]) (simp_all add: buxn_jit_finalize_def cache_of_def)
  fix b head W assume t: "tidy c" and h: "holds_from (length (code c)) b (buxn_jit_finalize c')"
  have "holds_from (length (code c)) b c'" using h by (simp add: holds_from_def buxn_jit_finalize_def)
  from r [OF t this] obtain m1 where 1: "transfers step head W b (length (code c)) m (upc u') 0 c' m1" "in_memory (jit c) m1 u'"
    "reg m1 (S 0) = reg m (S 0)"
    by blast
  have "transfers step head W b (length (code c)) m (upc u') 0 (buxn_jit_finalize c') m1"
    using 1(1) by (simp add: transfers_def)
  then show "\<exists>m1 ra. in_memory (jit c) m1 u' \<and> reg m1 (S 0) = reg m (S 0) \<and>
         (if True
          then transfers step head W b (length (code c)) m (upc u') ra (buxn_jit_finalize c') m1 \<and>
            (ra \<noteq> 0 \<longrightarrow> pc (buxn_jit_finalize c') = ra \<and> compiler (buxn_jit_finalize c') = compiler c)
          else leads step head W b (length (code c)) m b (length (code (buxn_jit_finalize c'))) m1 \<and>
            settled (buxn_jit_finalize c') m1 u' \<and> pc (buxn_jit_finalize c') = upc u' \<and>
            compiler (buxn_jit_finalize c') = compiler c)"
    using 1(2,3) by (intro exI [of _ m1] exI [of _ 0]) simp
qed

lemma jump_grows: "buxn_jit_jump (\<lambda>_. None) target ra c = Some c' \<Longrightarrow> grown c c'"
  using everyD [OF every_jump [of "\<lambda>_. None" c c target ra]] by simp

lemma conditional_grows: "buxn_jit_conditional_jump (\<lambda>_. None) cnd target c = Some c' \<Longrightarrow> grown c c'"
  using everyD [OF every_conditional [of "\<lambda>_. None" c c cnd target]] by simp

context sljit_control
begin

lemma simulated_jump:
  assumes s: "vsim c m held live V" and v: "vreal V = ustk u'" and rm: "mem_holds c m u'"
    and j: "jump_operand m (pc c) target (upc u')" and ra: "ra = 0 \<or> ra = pc c"
  obtains c' where "\<forall>nxt. buxn_jit_jump nxt target ra c = Some c'" and "grown c c'"
    and "jump_result step c m c' True u'" and "ra = 0 \<Longrightarrow> jump_result step c m (buxn_jit_finalize c') True u'"
proof -
  obtain c' where 1: "\<And>nxt. buxn_jit_jump nxt target ra c = Some c'" "cleared c'" "compiler c' = compiler c" "pc c' = pc c"
    "\<And>b head W. tidy c \<Longrightarrow> holds_from (length (code c)) b c' \<Longrightarrow>
      \<exists>m1. transfers step head W b (length (code c)) m (upc u') ra c' m1 \<and> in_memory (jit c) m1 u' \<and> reg m1 (S 0) = reg m (S 0)"
    using exec_jump [OF vsimD(1) [OF s] vsimD(5) [OF s, unfolded v] rm j, of ra] by blast
  have "jump_result step c m c' True u'"
    unfolding jump_result_def
  proof (intro conjI allI impI)
    fix b head W assume "tidy c" "holds_from (length (code c)) b c'"
    then show "\<exists>m1 ra. in_memory (jit c) m1 u' \<and> reg m1 (S 0) = reg m (S 0) \<and>
         (if True then transfers step head W b (length (code c)) m (upc u') ra c' m1 \<and> (ra \<noteq> 0 \<longrightarrow> pc c' = ra \<and> compiler c' = compiler c)
          else leads step head W b (length (code c)) m b (length (code c')) m1 \<and> settled c' m1 u' \<and> pc c' = upc u' \<and>
            compiler c' = compiler c)"
      using 1(3,4) 1(5) [of b head W] ra by auto
  qed (rule 1(2))
  moreover have "jump_result step c m (buxn_jit_finalize c') True u'" if "ra = 0"
    using 1(3,4) 1(5) [unfolded that] 1(2) by (intro jump_result_finalize) auto
  ultimately show ?thesis using that 1(1) jump_grows [OF 1(1)] by blast
qed

lemma simulated_conditional:
  assumes s: "vsim c m held live V" and v: "vreal V = ustk u'" and rm: "mem_holds c m u'"
    and j: "jump_operand m (pc c) target tv" and cnd: "op_reg (oreg cnd)" "reg m (oreg cnd) = ucast (cb :: u8)"
    and p: "upc u' = (if cb = 0 then pc c else tv)"
  obtains c' where "\<forall>nxt. buxn_jit_conditional_jump nxt cnd target c = Some c'" and "grown c c'"
    and "jump_result step c m c' (cb \<noteq> 0) u'"
proof -
  obtain c' where 1: "\<And>nxt. buxn_jit_conditional_jump nxt cnd target c = Some c'" "cleared c'" "compiler c' = compiler c" "pc c' = pc c"
    "\<And>b head W. tidy c \<Longrightarrow> holds_from (length (code c)) b c' \<Longrightarrow>
      \<exists>m1. in_memory (jit c) m1 u' \<and> reg m1 (S 0) = reg m (S 0) \<and>
        (if cb = 0 then leads step head W b (length (code c)) m b (length (code c')) m1 \<and> settled c' m1 u'
         else transfers step head W b (length (code c)) m tv 0 c' m1)"
    using exec_conditional [OF vsimD(1) [OF s] vsimD(5) [OF s, unfolded v] rm j cnd] by blast
  have "jump_result step c m c' (cb \<noteq> 0) u'"
    unfolding jump_result_def
  proof (intro conjI allI impI)
    fix b head W assume "tidy c" "holds_from (length (code c)) b c'"
    from 1(5) [OF this, of head W] obtain m1 where "in_memory (jit c) m1 u' \<and> reg m1 (S 0) = reg m (S 0) \<and>
        (if cb = 0 then leads step head W b (length (code c)) m b (length (code c')) m1 \<and> settled c' m1 u'
         else transfers step head W b (length (code c)) m tv 0 c' m1)"
      by blast
    then show "\<exists>m1 ra. in_memory (jit c) m1 u' \<and> reg m1 (S 0) = reg m (S 0) \<and>
         (if cb \<noteq> 0 then transfers step head W b (length (code c)) m (upc u') ra c' m1 \<and> (ra \<noteq> 0 \<longrightarrow> pc c' = ra \<and> compiler c' = compiler c)
          else leads step head W b (length (code c)) m b (length (code c')) m1 \<and> settled c' m1 u' \<and> pc c' = upc u' \<and>
            compiler c' = compiler c)"
      using 1(3,4) p by (intro exI [of _ m1] exI [of _ 0]) (simp split: if_splits)
  qed (rule 1(2))
  then show ?thesis using that 1(1) conditional_grows [OF 1(1)] by blast
qed

end
section \<open>The operands\<close>

lemma pop_steady: "buxn_jit_pop_ex f r c = Some (v, c') \<Longrightarrow> steady c c'"
  by (erule every2D [rotated]) (rule every_pop_ex [OF steady_refl])

lemma return_addr_steady: "push_return_addr r c = Some c' \<Longrightarrow> steady c c'"
  by (erule everyD [rotated]) (rule every_return_addr [OF steady_refl])

text \<open>An immediate target: the address goes to a scratch register.\<close>

lemma immediate_target_eq:
  "buxn_jit_immediate_jump_target c =
     (\<lparr>semantics = {SEM_CONST, SEM_IMM_JMP}, is_short = True, const_value = imm_addr (vm_memory (jit c)) (pc c), oreg = R 2\<rparr>,
      emit (Op1 SLJIT_MOV_U16 (Reg (R 2)) (Imm (ucast (imm_addr (vm_memory (jit c)) (pc c))))) (c\<lparr>pc := pc c + 2\<rparr>))"
  by (simp add: buxn_jit_immediate_jump_target_def imm_addr_def mem_short_def short_of_def BUXN_JIT_TMP_def Let_def add.commute)

lemma immediate_operand: "jump_operand m p \<lparr>semantics = {SEM_CONST, SEM_IMM_JMP}, is_short = True, const_value = a, oreg = q\<rparr> a"
  by (simp add: jump_operand_def target_is_def)

context sljit_control
begin

lemma exec_immediate_target:
  assumes s: "sim c m held live st" and i: "buxn_jit_immediate_jump_target c = (target, c1)"
  obtains m1 where "sim c1 m1 held live st" and "steps_to step live (c\<lparr>pc := pc c + 2\<rparr>) m c1 m1" and "steady c c1"
    and "\<forall>u. mem_holds c1 m1 u = mem_holds c m u"
proof -
  let ?i = "Op1 SLJIT_MOV_U16 (Reg (R 2)) (Imm (ucast (imm_addr (vm_memory (jit c)) (pc c))))"
  let ?m = "step ?i m"
  have c1: "c1 = emit ?i (c\<lparr>pc := pc c + 2\<rparr>)" using i by (simp add: immediate_target_eq)
  have m1: "?m = set_reg (R 2) (ucast (imm_addr (vm_memory (jit c)) (pc c))) m" by (simp add: step_simps)
  have "R 2 \<notin> set (cached_regs c)" using simD(11) [OF s, of "R 2"] by auto
  then have "sim c ?m held live st" by (intro sim_regs [OF s]) (auto simp: m1)
  then have "sim c1 ?m held live st" unfolding c1 by simp
  moreover have "steps_to step live (c\<lparr>pc := pc c + 2\<rparr>) m c1 ?m"
    using simD(8) [OF s] emits_emit [of step "c\<lparr>pc := pc c + 2\<rparr>" m ?i]
    by (auto simp: c1 steps_to_def same_env_def m1) (auto simp: emit_def)
  moreover have "steady c c1" by (simp add: c1)
  moreover have "\<forall>u. mem_holds c1 ?m u = mem_holds c m u" by (simp add: c1 vm_holds_def m1 emit_def jit_reg_defs)
  ultimately show ?thesis by (rule that)
qed

lemma exec_return_addr:
  assumes s: "vsim c m held live V" and n: "length held < 6" and fit: "length (short_bytes (pc c) @ vreal V r) \<le> 256"
  obtains c' m' q where "push_return_addr r c = Some c'" and "vsim c' m' (q # held) live (vpush r (short_bytes (pc c)) V)"
    and "steps_to step live c m c' m'"
proof -
  obtain q c1 m1 where 1: "buxn_jit_alloc_reg c = Some (q, c1)" "vsim c1 m1 (q # held) (q # live) (vseal V)" "steps_to step live c m c1 m1"
    "q \<notin> set live"
    by (rule exec_alloc_vsim [OF s n])
  let ?i = "Op1 SLJIT_MOV_U16 (Reg q) (Imm (ucast (pc c1)))"
  let ?m = "step ?i m1" and ?c = "emit ?i c1" and ?v = "\<lparr>semantics = {}, is_short = True, const_value = 0, oreg = q\<rparr>"
  have op: "op_reg q" using vsimD(7) [OF 1(2)] by simp
  have p: "pc c1 = pc c" using steps_toD(2) [OF 1(3)] by (simp add: same_env_def)
  have m: "?m = set_reg q (ucast (pc c)) m1" by (simp add: step_simps p)
  have s2: "vsim ?c ?m (q # held) (q # live) (vseal V)" unfolding m vsim_emit by (rule vsim_set_reg [OF 1(2)]) simp
  have "steps_to step live c1 m1 ?c ?m"
    using 1(4) op emits_emit [of step c1 m1 ?i] by (auto simp: steps_to_def same_env_def m) (auto simp: emit_def)
  then have t2: "steps_to step live c m ?c ?m" by (rule steps_to_trans [OF 1(3)]) simp
  have v: "reg ?m (oreg ?v) = bytes_val (short_bytes (pc c))" by (simp add: m short_bytes_val)
  have q: "oreg ?v \<in> set (q # live)" and lv: "length (short_bytes (pc c)) = opsize (is_short ?v)"
    and fit2: "length (short_bytes (pc c) @ vreal (vseal V) r) \<le> 256" using fit by simp_all
  obtain c' m' where 3: "buxn_jit_push_ex ?v r ?c = Some c'"
    "vsim c' m' (q # held) (removeAll (oreg ?v) (q # live)) (vpush r (short_bytes (pc c)) (vseal V))" "steps_to step (q # live) ?c ?m c' m'"
    by (rule exec_push_vsim [OF s2 q v lv fit2])
  show ?thesis
  proof (rule that)
    show "push_return_addr r c = Some c'" using 1(1) 3(1) by (simp add: push_return_addr_def)
    show "vsim c' m' (q # held) live (vpush r (short_bytes (pc c)) V)" using 3(2) 1(4) by simp
    show "steps_to step live c m c' m'" by (rule steps_to_trans [OF t2 3(3)]) auto
  qed
qed

text \<open>Popping the operand that is jumped to.\<close>

lemma exec_pop_target:
  assumes s: "vsim c m h [] V" and a: "vtop V (buxn_jit_op_flag_r c) = a @ xs" "length a = opsize (buxn_jit_op_flag_2 c)"
    and room: "cached_total c + length h + 1 \<le> 6"
    and kind: "semantics (fst (pop_value (buxn_jit_op_flag_2 c) (esp (buxn_jit_op_flag_r c) c)
      (if buxn_jit_op_flag_r c then rst c else wst c))) \<inter> {SEM_BOOLEAN, SEM_IMM_JMP} = {}"
    and rng: "\<not> buxn_jit_op_flag_2 c \<longrightarrow> 0 \<le> uint (pc c) + sint (hd a) \<and> uint (pc c) + sint (hd a) < 65536"
  obtains target c1 m1 where "buxn_jit_pop c = Some (target, c1)"
    and "vsim c1 m1 (oreg target # h) [oreg target] (vpop (buxn_jit_op_flag_r c) (length a) V)" and "steps_to step [] c m c1 m1"
    and "steady c c1" and "jump_operand m1 (pc c) target (jump_addr (buxn_jit_op_flag_2 c) (pc c) a)"
    and "SEM_BOOLEAN \<notin> semantics target" and "cached_total c1 \<le> cached_total c"
proof -
  have room0: "cached_total c + length h < 6" using room by simp
  obtain v c1 m1 where 1: "buxn_jit_pop c = Some (v, c1)" "is_short v = buxn_jit_op_flag_2 c"
    "vsim c1 m1 (oreg v # h) [oreg v] (vpop (buxn_jit_op_flag_r c) (length a) V)" "reg m1 (oreg v) = bytes_val a" "steps_to step [] c m c1 m1"
    "cached_total c1 \<le> cached_total c"
    by (rule exec_pop_view [OF s a room0])
  have k: "semantics v \<inter> {SEM_BOOLEAN, SEM_IMM_JMP} = {}"
    using kind popped_kind [OF 1(1) [unfolded buxn_jit_pop_def]] by simp
  have op: "op_reg (oreg v)" using vsimD(7) [OF 1(3)] by simp
  have "jump_operand m1 (pc c) v (jump_addr (buxn_jit_op_flag_2 c) (pc c) a)"
    by (rule popped_operand [OF 1(2,4) a(2) op k rng])
  moreover have "steady c c1" using pop_steady 1(1) by (simp add: buxn_jit_pop_def)
  ultimately show ?thesis using k by (intro that [OF 1(1,3,5) _ _ _ 1(6)]) auto
qed

lemma uxn_JCN_cases:
  assumes "uxn_jump OP_JCN b u = Some (tr, u')"
  obtains a cb xs where "ustk u (mode_r b) = a @ [cb] @ xs" and "length a = opsize (mode_2 b)" and "tr \<longleftrightarrow> cb \<noteq> 0"
    and "u' = u\<lparr>ustk := (ustk u)(mode_r b := remaining (mode_k b) (ustk u (mode_r b)) xs),
      upc := (if cb = 0 then upc u else jump_addr (mode_2 b) (upc u) a)\<rparr>"
proof -
  let ?s = "\<lambda>xs. (ustk u)(mode_r b := remaining (mode_k b) (ustk u (mode_r b)) xs)"
  obtain a c xs where a: "ustk u (mode_r b) = a @ c @ xs" "length a = opsize (mode_2 b)" "length c = 1"
    "(tr, u') = (if c = [0] then (False, u\<lparr>ustk := ?s xs\<rparr>)
       else (True, u\<lparr>ustk := ?s xs, upc := jump_addr (mode_2 b) (upc u) a\<rparr>))"
    using assms by (simp add: uxn_jump_def Let_def bind_split_Some width_opsize) metis
  obtain cb where "c = [cb]" using a(3) by (auto simp: length_Suc_conv)
  then show ?thesis using a by (intro that [of a cb xs]) (simp_all split: if_splits)
qed

lemma uxn_JCI_cases:
  assumes "uxn_jump OP_JCI b u = Some (tr, u')"
  obtains cb xs where "ustk u False = [cb] @ xs" and "tr \<longleftrightarrow> cb \<noteq> 0"
    and "u' = u\<lparr>ustk := (ustk u)(False := xs), upc := (if cb = 0 then upc u + 2 else imm_addr (uram u) (upc u))\<rparr>"
proof -
  obtain c xs where a: "ustk u False = c @ xs" "length c = 1"
    "(tr, u') = (if c = [0] then (False, u\<lparr>ustk := (ustk u)(False := xs), upc := upc u + 2\<rparr>)
       else (True, u\<lparr>ustk := (ustk u)(False := xs), upc := imm_addr (uram u) (upc u)\<rparr>))"
    using assms by (simp add: uxn_jump_def Let_def bind_split_Some) metis
  obtain cb where "c = [cb]" using a(2) by (auto simp: length_Suc_conv)
  then show ?thesis using a by (intro that [of cb xs]) (simp_all split: if_splits)
qed

lemma operand_kept:
  assumes "jump_operand m p target tv" and "reg m' (oreg target) = reg m (oreg target)"
  shows "jump_operand m' p target tv"
  using assms by (auto simp: jump_operand_def target_is_def split: if_splits)

section \<open>One jump opcode\<close>

text \<open>What is asked of the context a handler starts from, and of the instruction.\<close>

definition jump_ready :: "nat \<Rightarrow> buxn_jit_ctx \<Rightarrow> mach \<Rightarrow> sreg list \<Rightarrow> view \<Rightarrow> uxn_state \<Rightarrow> bool" where
  "jump_ready n c m h V u \<longleftrightarrow>
     starts c m h V u \<and> cached_total c + length h + n \<le> 6 \<and>
     semantics (fst (pop_value (buxn_jit_op_flag_2 c) (esp (buxn_jit_op_flag_r c) c)
       (if buxn_jit_op_flag_r c then rst c else wst c))) \<inter> {SEM_BOOLEAN, SEM_IMM_JMP} = {} \<and>
     (\<not> buxn_jit_op_flag_2 c \<longrightarrow> 0 \<le> uint (upc u) + sint (hd (ustk u (buxn_jit_op_flag_r c))) \<and>
       uint (upc u) + sint (hd (ustk u (buxn_jit_op_flag_r c))) < 65536)"

lemma jump_readyD:
  assumes "jump_ready n c m h V u"
  shows "starts c m h V u" and "cached_total c + length h + n \<le> 6"
  using assms by (simp_all add: jump_ready_def)

text \<open>What the stacks hold once the operands are popped.\<close>

lemma starts_popped:
  assumes "starts c m h V u" and "ustk u (buxn_jit_op_flag_r c) = as @ xs"
  shows "vtop V (buxn_jit_op_flag_r c) = as @ xs"
    and "vreal (vpop (buxn_jit_op_flag_r c) (length as) V) =
      (ustk u)(buxn_jit_op_flag_r c := remaining (mode_k (current_opcode c)) (ustk u (buxn_jit_op_flag_r c)) xs)"
proof -
  show t: "vtop V (buxn_jit_op_flag_r c) = as @ xs" using startsD(6) [OF assms(1)] assms(2) by simp
  show "vreal (vpop (buxn_jit_op_flag_r c) (length as) V) =
      (ustk u)(buxn_jit_op_flag_r c := remaining (mode_k (current_opcode c)) (ustk u (buxn_jit_op_flag_r c)) xs)"
    unfolding vreal_vpop [OF t] startsD(5,7) [OF assms(1)] ..
qed

lemma ready_target:
  assumes rd: "jump_ready n c m h V u" and n: "1 \<le> n"
    and a: "ustk u (buxn_jit_op_flag_r c) = a @ xs" "length a = opsize (buxn_jit_op_flag_2 c)"
  obtains target c1 m1 where "buxn_jit_pop c = Some (target, c1)"
    and "vsim c1 m1 (oreg target # h) [oreg target] (vpop (buxn_jit_op_flag_r c) (length a) V)" and "steps_to step [] c m c1 m1"
    and "steady c c1" and "jump_operand m1 (pc c) target (jump_addr (buxn_jit_op_flag_2 c) (pc c) a)"
    and "SEM_BOOLEAN \<notin> semantics target" and "cached_total c1 \<le> cached_total c"
proof -
  note s = jump_readyD(1) [OF rd]
  have "hd a = hd (ustk u (buxn_jit_op_flag_r c))" using a(1) by (cases rule: opsize_cases [OF a(2)]) auto
  then have r: "\<not> buxn_jit_op_flag_2 c \<longrightarrow> 0 \<le> uint (pc c) + sint (hd a) \<and> uint (pc c) + sint (hd a) < 65536"
    using rd startsD(9) [OF s] by (simp add: jump_ready_def)
  have room: "cached_total c + length h + 1 \<le> 6"
    and k: "semantics (fst (pop_value (buxn_jit_op_flag_2 c) (esp (buxn_jit_op_flag_r c) c)
       (if buxn_jit_op_flag_r c then rst c else wst c))) \<inter> {SEM_BOOLEAN, SEM_IMM_JMP} = {}"
    using rd n by (simp_all add: jump_ready_def)
  show ?thesis by (rule exec_pop_target [OF startsD(1) [OF s] starts_popped(1) [OF s a(1)] a(2) room k r]) (rule that)
qed

lemma exec_JMP:
  assumes rd: "jump_ready 1 c m h V u" and us: "uxn_jump OP_JMP (current_opcode c) u = Some (tr, u')"
  shows "\<exists>c'. (\<forall>nxt. buxn_jit_JMP nxt c = Some c') \<and> jump_result step c m c' tr u'"
proof -
  let ?r = "buxn_jit_op_flag_r c" and ?f = "buxn_jit_op_flag_2 c" and ?k = "mode_k (current_opcode c)"
  note s = jump_readyD(1) [OF rd]
  from us obtain a xs where a: "ustk u ?r = a @ xs" "length a = opsize ?f" "tr"
    "u' = u\<lparr>ustk := (ustk u)(?r := remaining ?k (ustk u ?r) xs), upc := jump_addr ?f (upc u) a\<rparr>"
    by (auto simp: uxn_jump_def Let_def bind_split_Some width_opsize flag_modes)
  let ?U = "vpop ?r (length a) V"
  obtain target c1 m1 where 1: "buxn_jit_pop c = Some (target, c1)"
    "vsim c1 m1 (oreg target # h) [oreg target] ?U" "steps_to step [] c m c1 m1" "steady c c1"
    "jump_operand m1 (pc c) target (jump_addr ?f (pc c) a)" "SEM_BOOLEAN \<notin> semantics target"
    by (rule ready_target [OF rd _ a(1,2)]) simp
  note e = steps_toD(1,2) [OF 1(3)]
  have env: "pc c1 = pc c" "compiler c1 = compiler c" "pc c = upc u"
    using e(2) startsD(9) [OF s] by (simp_all add: same_env_def)
  have v1: "vreal ?U = ustk u'" using starts_popped(2) [OF s a(1)] a(4) by simp
  have rm: "mem_holds c1 m1 u'" using mem_holds_steps [OF 1(3)] startsD(8) [OF s] a(4) by simp
  have j: "jump_operand m1 (pc c1) target (upc u')" using 1(5) env a(4) by simp
  obtain c' where 2: "\<forall>nxt. buxn_jit_jump nxt target 0 c1 = Some c'" "grown c1 c'"
    "jump_result step c1 m1 (buxn_jit_finalize c') True u'"
    by (rule simulated_jump [OF 1(2) v1 rm j]) auto
  have "jump_result step c m (buxn_jit_finalize c') True u'"
    using jump_result_before [OF 1(4) e(1) _ _ env(2) 2(3)] 2(2) 1(3) by (simp add: steps_to_def)
  then show ?thesis using 1(1,6) 2(1) a(3) by (auto simp: buxn_jit_JMP_def)
qed

lemma exec_JSR:
  assumes rd: "jump_ready 1 c m h V u" and us: "uxn_jump OP_JSR (current_opcode c) u = Some (tr, u')"
  shows "\<exists>c'. (\<forall>nxt. buxn_jit_JSR nxt c = Some c') \<and> jump_result step c m c' tr u'"
proof -
  let ?r = "buxn_jit_op_flag_r c" and ?f = "buxn_jit_op_flag_2 c" and ?k = "mode_k (current_opcode c)"
  note s = jump_readyD(1) [OF rd]
  from us obtain a xs where a: "ustk u ?r = a @ xs" "length a = opsize ?f" "tr"
    "length (short_bytes (upc u) @ ustk u (\<not> ?r)) \<le> 256"
    "u' = u\<lparr>ustk := (ustk u)(?r := remaining ?k (ustk u ?r) xs, \<not> ?r := short_bytes (upc u) @ ustk u (\<not> ?r)),
      upc := jump_addr ?f (upc u) a\<rparr>"
    by (auto simp: uxn_jump_def Let_def split_at_Some width_opsize flag_modes Option.bind_eq_Some_conv set_stack_Some)
  let ?U = "vpop ?r (length a) V"
  obtain target c1 m1 where 1: "buxn_jit_pop c = Some (target, c1)"
    "vsim c1 m1 (oreg target # h) [oreg target] ?U" "steps_to step [] c m c1 m1" "steady c c1"
    "jump_operand m1 (pc c) target (jump_addr ?f (pc c) a)" "SEM_BOOLEAN \<notin> semantics target"
    by (rule ready_target [OF rd _ a(1,2)]) simp
  have p1: "pc c1 = upc u" and fl: "buxn_jit_op_flag_r c1 = ?r"
    using steps_toD(2) [OF 1(3)] startsD(9) [OF s] same_env_flags [OF steps_toD(2) [OF 1(3)]] by (simp_all add: same_env_def)
  note rU = starts_popped(2) [OF s a(1)]
  have fit: "length (short_bytes (pc c1) @ vreal ?U (\<not> ?r)) \<le> 256" using a(4) p1 unfolding rU by simp
  have n: "length (oreg target # h) < 6" using startsD(2) [OF s] by simp
  obtain c2 m2 q where 2: "push_return_addr (\<not> ?r) c1 = Some c2"
    "vsim c2 m2 (q # oreg target # h) [oreg target] (vpush (\<not> ?r) (short_bytes (pc c1)) ?U)"
    "steps_to step [oreg target] c1 m1 c2 m2"
    by (rule exec_return_addr [OF 1(2) n fit])
  have t: "steps_to step [] c m c2 m2" by (rule steps_to_trans [OF 1(3) 2(3)]) simp
  note e = steps_toD(1,2) [OF t]
  have st: "steady c c2" by (rule steady_trans [OF 1(4) return_addr_steady [OF 2(1)]])
  have env: "pc c2 = pc c" "compiler c2 = compiler c" "pc c = upc u"
    using e(2) startsD(9) [OF s] by (simp_all add: same_env_def)
  have v2: "vreal (vpush (\<not> ?r) (short_bytes (pc c1)) ?U) = ustk u'"
    unfolding vreal_simps rU by (simp add: a(5) p1 fun_upd_def)
  have rm: "mem_holds c2 m2 u'" using mem_holds_steps [OF t] startsD(8) [OF s] a(5) by simp
  have "jump_operand m2 (pc c) target (jump_addr ?f (pc c) a)"
    by (rule operand_kept [OF 1(5)]) (use steps_toD(3) [OF 2(3)] in simp)
  then have j: "jump_operand m2 (pc c2) target (upc u')" using env a(5) by simp
  obtain c' where 3: "\<forall>nxt. buxn_jit_jump nxt target (pc c2) c2 = Some c'" "grown c2 c'" "jump_result step c2 m2 c' True u'"
    by (rule simulated_jump [OF 2(2) v2 rm j disjI2 [OF refl]])
  have "jump_result step c m c' True u'"
    using jump_result_before [OF st e(1) 3(2) _ env(2) 3(3)] t by (simp add: steps_to_def)
  then show ?thesis using 1(1) 2(1) 3(1) a(3) fl by (auto simp: buxn_jit_JSR_def)
qed

lemma exec_JCN:
  assumes rd: "jump_ready 2 c m h V u" and us: "uxn_jump OP_JCN (current_opcode c) u = Some (tr, u')"
  shows "\<exists>c'. (\<forall>nxt. buxn_jit_JCN nxt c = Some c') \<and> jump_result step c m c' tr u'"
proof -
  let ?r = "buxn_jit_op_flag_r c" and ?f = "buxn_jit_op_flag_2 c" and ?k = "mode_k (current_opcode c)"
  note s = jump_readyD(1) [OF rd]
  obtain a cb xs where a: "ustk u ?r = a @ [cb] @ xs" "length a = opsize ?f" "tr \<longleftrightarrow> cb \<noteq> 0"
    "u' = u\<lparr>ustk := (ustk u)(?r := remaining ?k (ustk u ?r) xs), upc := (if cb = 0 then upc u else jump_addr ?f (upc u) a)\<rparr>"
    by (rule uxn_JCN_cases [OF us, folded flag_modes(1,2)])
  let ?U = "vpop ?r (length a) V"
  obtain target c1 m1 where 1: "buxn_jit_pop c = Some (target, c1)"
    "vsim c1 m1 (oreg target # h) [oreg target] ?U" "steps_to step [] c m c1 m1" "steady c c1"
    "jump_operand m1 (pc c) target (jump_addr ?f (pc c) a)" "SEM_BOOLEAN \<notin> semantics target"
    "cached_total c1 \<le> cached_total c"
    by (rule ready_target [OF rd _ a(1,2)]) simp
  have fl: "buxn_jit_op_flag_r c1 = ?r" using same_env_flags [OF steps_toD(2) [OF 1(3)]] by simp
  have st: "vtop ?U ?r = [cb] @ xs" using starts_popped(1) [OF s a(1)] by simp
  have lb: "length [cb] = opsize False" by simp
  have room: "cached_total c1 + length (oreg target # h) < 6" using 1(7) jump_readyD(2) [OF rd] by simp
  obtain cnd c2 m2 where 2: "buxn_jit_pop_ex False ?r c1 = Some (cnd, c2)"
    "vsim c2 m2 (oreg cnd # oreg target # h) [oreg cnd, oreg target] (vpop ?r (opsize False) ?U)"
    "reg m2 (oreg cnd) = bytes_val [cb]" "steps_to step [oreg target] c1 m1 c2 m2"
    by (rule exec_pop_vsim [OF 1(2) st lb room])
  have t: "steps_to step [] c m c2 m2" by (rule steps_to_trans [OF 1(3) 2(4)]) simp
  note e = steps_toD(1,2) [OF t]
  have std: "steady c c2" by (rule steady_trans [OF 1(4) pop_steady [OF 2(1)]])
  have env: "pc c2 = pc c" "compiler c2 = compiler c" "pc c = upc u"
    using e(2) startsD(9) [OF s] by (simp_all add: same_env_def)
  have "ustk u ?r = (a @ [cb]) @ xs" using a(1) by simp
  from starts_popped(2) [OF s this] have v2: "vreal (vpop ?r (opsize False) ?U) = ustk u'" using a(4) by simp
  have rm: "mem_holds c2 m2 u'" using mem_holds_steps [OF t] startsD(8) [OF s] a(4) by simp
  have "jump_operand m2 (pc c) target (jump_addr ?f (pc c) a)"
    by (rule operand_kept [OF 1(5)]) (use steps_toD(3) [OF 2(4)] in simp)
  then have j: "jump_operand m2 (pc c2) target (jump_addr ?f (upc u) a)" using env by simp
  have op: "op_reg (oreg cnd)" and cv: "reg m2 (oreg cnd) = ucast cb" using vsimD(7) [OF 2(2)] 2(3) by simp_all
  have p: "upc u' = (if cb = 0 then pc c2 else jump_addr ?f (upc u) a)" using a(4) env by simp
  obtain c' where 3: "\<forall>nxt. buxn_jit_conditional_jump nxt cnd target c2 = Some c'" "grown c2 c'"
    "jump_result step c2 m2 c' (cb \<noteq> 0) u'"
    by (rule simulated_conditional [OF 2(2) v2 rm j op cv p])
  have "jump_result step c m c' (cb \<noteq> 0) u'"
    using jump_result_before [OF std e(1) 3(2) _ env(2) 3(3)] t by (simp add: steps_to_def)
  then show ?thesis using 1(1) 2(1) 3(1) a(3) fl by (auto simp: buxn_jit_JCN_def)
qed

lemma exec_JCI:
  assumes s: "sim c m [] [] (ustk u)" and rm: "mem_holds c m u" and p: "pc c = upc u" and room: "cached_total c < 6"
    and im: "imm_addr (vm_memory (jit c)) (upc u) = imm_addr (uram u) (upc u)"
    and us: "uxn_jump OP_JCI (current_opcode c) u = Some (tr, u')"
  shows "\<exists>c'. (\<forall>nxt. buxn_jit_JCI nxt c = Some c') \<and> jump_result step c m c' tr u'"
proof -
  obtain cb xs where a: "ustk u False = [cb] @ xs" "tr \<longleftrightarrow> cb \<noteq> 0"
    "u' = u\<lparr>ustk := (ustk u)(False := xs), upc := (if cb = 0 then upc u + 2 else imm_addr (uram u) (upc u))\<rparr>"
    by (rule uxn_JCI_cases [OF us])
  have lb: "length [cb] = opsize False" and room': "cached_total c + length [] < 6" using room by simp_all
  obtain cnd c1 m1 where 1: "buxn_jit_pop_ex False False c = Some (cnd, c1)"
    "sim c1 m1 (oreg cnd # []) (oreg cnd # []) ((ustk u)(False := xs))" "reg m1 (oreg cnd) = bytes_val [cb]"
    "steps_to step [] c m c1 m1"
    by (rule exec_pop_ex [OF s a(1) lb room'])
  obtain target c2 where i: "buxn_jit_immediate_jump_target c1 = (target, c2)" by fastforce
  obtain m2 where 2: "sim c2 m2 [oreg cnd] [oreg cnd] ((ustk u)(False := xs))"
    "steps_to step [oreg cnd] (c1\<lparr>pc := pc c1 + 2\<rparr>) m1 c2 m2" "steady c1 c2" "\<forall>u. mem_holds c2 m2 u = mem_holds c1 m1 u"
    by (rule exec_immediate_target [OF 1(2) i])
  note e1 = steps_toD(1,2) [OF 1(4)] and e2 = steps_toD [OF 2(2)]
  have em: "emits step c m c2 m2" by (rule emits_trans [OF e1(1)]) (use e2(1) in \<open>simp add: emits_def\<close>)
  have st: "steady c c2" by (rule steady_trans [OF pop_steady [OF 1(1)] 2(3)])
  have env: "pc c2 = upc u + 2" "compiler c2 = compiler c" "pc c1 = upc u" "jit c1 = jit c"
    using e1(2) e2(2) p by (simp_all add: same_env_def)
  have s2: "sim c2 m2 [oreg cnd] [oreg cnd] (ustk u')" using 2(1) a(3) by simp
  have v2: "vreal (Direct (ustk u')) = ustk u'" by simp
  have r2: "mem_holds c2 m2 u'" using mem_holds_steps [OF 1(4)] 2(4) rm a(3) by simp
  have j: "jump_operand m2 (pc c2) target (imm_addr (uram u) (upc u))"
    using i immediate_operand im env(3,4) by (auto simp: immediate_target_eq)
  have op: "op_reg (oreg cnd)" and cv: "reg m2 (oreg cnd) = ucast cb" using simD(8) [OF 2(1)] 1(3) e2(3) by simp_all
  have pp: "upc u' = (if cb = 0 then pc c2 else imm_addr (uram u) (upc u))" using a(3) env by simp
  obtain c' where 3: "\<forall>nxt. buxn_jit_conditional_jump nxt cnd target c2 = Some c'" "grown c2 c'"
    "jump_result step c2 m2 c' (cb \<noteq> 0) u'"
    by (rule simulated_conditional [OF s2 v2 r2 j op cv pp])
  have "reg m2 (S 0) = reg m (S 0)" using 1(4) 2(2) by (simp add: steps_to_def)
  then have "jump_result step c m c' (cb \<noteq> 0) u'" by (rule jump_result_before [OF st em 3(2) _ env(2) 3(3)])
  then show ?thesis using 1(1) i 3(1) a(2) by (auto simp: buxn_jit_JCI_def)
qed

lemma exec_JMI:
  assumes s: "sim c m [] [] (ustk u)" and rm: "mem_holds c m u" and p: "pc c = upc u"
    and im: "imm_addr (vm_memory (jit c)) (upc u) = imm_addr (uram u) (upc u)"
    and us: "uxn_jump OP_JMI (current_opcode c) u = Some (tr, u')"
  shows "\<exists>c'. (\<forall>nxt. buxn_jit_JMI nxt c = Some c') \<and> jump_result step c m c' tr u'"
proof -
  have a: "tr" "u' = u\<lparr>upc := imm_addr (uram u) (upc u)\<rparr>" using us by (auto simp: uxn_jump_def)
  obtain target c1 where i: "buxn_jit_immediate_jump_target c = (target, c1)" by fastforce
  obtain m1 where 1: "sim c1 m1 [] [] (ustk u)" "steps_to step [] (c\<lparr>pc := pc c + 2\<rparr>) m c1 m1" "steady c c1" "\<forall>u. mem_holds c1 m1 u = mem_holds c m u"
    by (rule exec_immediate_target [OF s i])
  note e = steps_toD [OF 1(2)]
  have em: "emits step c m c1 m1" using e(1) by (simp add: emits_def)
  have cp: "compiler c1 = compiler c" using e(2) by (simp add: same_env_def)
  have s1: "sim c1 m1 [] [] (ustk u')" and r1: "mem_holds c1 m1 u'" using 1(1,4) rm a(2) by simp_all
  have v1: "vreal (Direct (ustk u')) = ustk u'" by simp
  have j: "jump_operand m1 (pc c1) target (upc u')"
    using i immediate_operand im p a(2) by (auto simp: immediate_target_eq)
  obtain c' where 3: "\<forall>nxt. buxn_jit_jump nxt target 0 c1 = Some c'" "grown c1 c'"
    "jump_result step c1 m1 (buxn_jit_finalize c') True u'"
    by (rule simulated_jump [OF s1 v1 r1 j]) auto
  have s0: "reg m1 (S 0) = reg m (S 0)" using 1(2) by (simp add: steps_to_def)
  have "jump_result step c m (buxn_jit_finalize c') True u'"
    by (rule jump_result_before [OF 1(3) em _ s0 cp 3(3)]) (use 3(2) in simp)
  then show ?thesis using i 3(1) a(1) by (auto simp: buxn_jit_JMI_def)
qed

lemma exec_JSI:
  assumes s: "sim c m [] [] (ustk u)" and rm: "mem_holds c m u" and p: "pc c = upc u"
    and im: "imm_addr (vm_memory (jit c)) (upc u) = imm_addr (uram u) (upc u)"
    and us: "uxn_jump OP_JSI (current_opcode c) u = Some (tr, u')"
  shows "\<exists>c'. (\<forall>nxt. buxn_jit_JSI nxt c = Some c') \<and> jump_result step c m c' tr u'"
proof -
  have a: "tr" "u' = u\<lparr>ustk := (ustk u)(True := short_bytes (upc u + 2) @ ustk u True), upc := imm_addr (uram u) (upc u)\<rparr>"
    "length (short_bytes (upc u + 2) @ ustk u True) \<le> 256"
    using us by (auto simp: uxn_jump_def Option.bind_eq_Some_conv set_stack_Some)
  obtain target c1 where i: "buxn_jit_immediate_jump_target c = (target, c1)" by fastforce
  obtain m1 where 1: "sim c1 m1 [] [] (ustk u)" "steps_to step [] (c\<lparr>pc := pc c + 2\<rparr>) m c1 m1" "steady c c1" "\<forall>u. mem_holds c1 m1 u = mem_holds c m u"
    by (rule exec_immediate_target [OF s i])
  note e1 = steps_toD [OF 1(2)]
  have p1: "pc c1 = upc u + 2" using e1(2) p by (simp add: same_env_def)
  have fit: "length (short_bytes (pc c1) @ vreal (Direct (ustk u)) True) \<le> 256" and n: "length [] < 6" using a(3) p1 by simp_all
  obtain c2 m2 q where 2: "push_return_addr True c1 = Some c2"
    "vsim c2 m2 [q] [] (vpush True (short_bytes (pc c1)) (Direct (ustk u)))" "steps_to step [] c1 m1 c2 m2"
    by (rule exec_return_addr [OF 1(1) n fit])
  note e2 = steps_toD [OF 2(3)]
  have em: "emits step c m c2 m2" by (rule emits_trans [OF _ e2(1)]) (use e1(1) in \<open>simp add: emits_def\<close>)
  have st: "steady c c2" by (rule steady_trans [OF 1(3) return_addr_steady [OF 2(1)]])
  have env: "pc c2 = upc u + 2" "compiler c2 = compiler c" using e1(2) e2(2) p1 by (simp_all add: same_env_def)
  have v2: "vreal (vpush True (short_bytes (pc c1)) (Direct (ustk u))) = ustk u'" using a(2) p1 by simp
  have r2: "mem_holds c2 m2 u'" using mem_holds_steps [OF 2(3)] 1(4) rm a(2) by simp
  have j: "jump_operand m2 (pc c2) target (upc u')"
    using i immediate_operand im p a(2) by (auto simp: immediate_target_eq)
  obtain c' where 3: "\<forall>nxt. buxn_jit_jump nxt target (pc c2) c2 = Some c'" "grown c2 c'" "jump_result step c2 m2 c' True u'"
    by (rule simulated_jump [OF 2(2) v2 r2 j disjI2 [OF refl]])
  have s0: "reg m2 (S 0) = reg m (S 0)" using 1(2) 2(3) by (simp add: steps_to_def)
  have "jump_result step c m c' True u'" by (rule jump_result_before [OF st em 3(2) s0 env(2) 3(3)])
  then show ?thesis using i 2(1) 3(1) a(1) by (auto simp: buxn_jit_JSI_def)
qed

end

end
