(* ===== verification/Devices.thy ===== *)
theory Devices
  imports Jump_Ops
begin

text \<open>
  Calls into the host. A read or a write of a device port writes the stack caches and the stack pointers back to \<^verbatim>\<open>buxn_vm_t\<close>, calls
  one of the helpers of \<^verbatim>\<open>jit.c\<close>, which call the device functions of the emulator, and loads the pointers again. The device
  functions may change all of the virtual machine and the memory of the host.
\<close>

section \<open>The state of the virtual machine in memory\<close>

definition pointer_field :: "bool \<Rightarrow> vm_field" where
  "pointer_field r = (if r then F_rsp else F_wsp)"

definition vm_state :: "(vm_field \<Rightarrow> uw) \<Rightarrow> mach \<Rightarrow> uxn_state \<Rightarrow> bool" where
  "vm_state offs m u \<longleftrightarrow>
     (\<forall>r. length (ustk u r) \<le> 256 \<and>
        below (\<lambda>p. mem m (vm_addr offs (reg m BUXN_JIT_S_VM) (stack_field r) (ucast p)))
          (mem m (vm_addr offs (reg m BUXN_JIT_S_VM) (pointer_field r) 0)) (ustk u r)) \<and>
     vm_holds offs m u"

text \<open>The stack pointers are saved before a call and loaded after it.\<close>

definition saves :: "(vm_field \<Rightarrow> uw) \<Rightarrow> lir list" where
  "saves offs =
     [Op1 SLJIT_MOV_U8 (Mem1 BUXN_JIT_S_VM (offs F_wsp)) (Reg BUXN_JIT_S_WSP),
      Op1 SLJIT_MOV_U8 (Mem1 BUXN_JIT_S_VM (offs F_rsp)) (Reg BUXN_JIT_S_RSP)]"

definition loads :: "(vm_field \<Rightarrow> uw) \<Rightarrow> lir list" where
  "loads offs =
     [Op1 SLJIT_MOV_U8 (Reg BUXN_JIT_S_WSP) (Mem1 BUXN_JIT_S_VM (offs F_wsp)),
      Op1 SLJIT_MOV_U8 (Reg BUXN_JIT_S_RSP) (Mem1 BUXN_JIT_S_VM (offs F_rsp))]"

lemma state_code:
  "buxn_jit_save_state ctx = emit_all (saves (vm_offset (jit ctx))) ctx"
  "buxn_jit_load_state ctx = emit_all (loads (vm_offset (jit ctx))) ctx"
  by (simp_all add: buxn_jit_save_state_def buxn_jit_load_state_def saves_def loads_def)

context sljit_exec
begin

lemma exec_saves:
  assumes im: "in_memory j m u" and lay: "layout_ok (vm_offset j) (reg m (S 0))"
  shows "vm_state (vm_offset j) (exec step (saves (vm_offset j)) m) u" and "reg (exec step (saves (vm_offset j)) m) = reg m"
proof -
  let ?o = "vm_offset j" and ?vm = "reg m (S 0)" and ?m = "exec step (saves (vm_offset j)) m"
  let ?w = "vm_addr ?o ?vm F_wsp 0" and ?r = "vm_addr ?o ?vm F_rsp 0"
  have m: "?m = m\<lparr>mem := (mem m)(?w := ucast (reg m (S 1)), ?r := ucast (reg m (S 2)))\<rparr>"
    by (simp add: saves_def step_store jit_reg_defs vm_addr_def)
  then show ri: "reg ?m = reg m" by simp
  note eq = vm_addr_eq_iff [OF lay]
  have mm: "mem ?m (vm_addr ?o ?vm f i) = mem m (vm_addr ?o ?vm f i)"
    if "f \<noteq> F_wsp" "f \<noteq> F_rsp" "unat i < field_size f" for f i
    using that eq [of i f 0 F_wsp] eq [of i f 0 F_rsp] by (simp add: m)
  have sp: "mem ?m (vm_addr ?o ?vm (pointer_field r) 0) = ucast (reg m (stack_reg r))" for r
    using eq [of 0 F_wsp 0 F_rsp] by (simp add: m pointer_field_def stack_reg_def jit_reg_defs)
  have st: "mem ?m (vm_addr ?o ?vm (stack_field r) (ucast (p :: u8))) = mem m (vm_addr ?o ?vm (stack_field r) (ucast p))"
    "mem ?m (vm_addr ?o ?vm F_device (ucast p)) = mem m (vm_addr ?o ?vm F_device (ucast p))" for r p
    using unsigned_less [of p, where 'a = nat] by (intro mm; simp add: stack_field_def)+
  have ra: "mem ?m (vm_addr ?o ?vm F_memory (ucast (a :: u16))) = mem m (vm_addr ?o ?vm F_memory (ucast a))" for a
    using unsigned_less [of a, where 'a = nat] by (intro mm) simp_all
  have out: "mem ?m a = mem m a" if "outside_vm ?o ?vm a" for a
    using that by (auto simp: m outside_vm_def)
  show "vm_state ?o ?m u"
    using im by (simp add: vm_state_def in_memory_def vm_holds_def ri sp jit_reg_defs st ra out)
qed

lemma exec_loads:
  assumes vm: "vm_state (vm_offset j) m u"
  shows "in_memory j (exec step (loads (vm_offset j)) m) u" and "mem (exec step (loads (vm_offset j)) m) = mem m"
    and "regs_same {S 1, S 2} m (exec step (loads (vm_offset j)) m)"
proof -
  let ?o = "vm_offset j" and ?vm = "reg m (S 0)" and ?m = "exec step (loads (vm_offset j)) m"
  have m: "?m = m\<lparr>reg := (reg m)(S 1 := ucast (mem m (vm_addr ?o ?vm F_wsp 0)), S 2 := ucast (mem m (vm_addr ?o ?vm F_rsp 0)))\<rparr>"
    by (simp add: loads_def step_load jit_reg_defs vm_addr_def)
  then show mm: "mem ?m = mem m" and "regs_same {S 1, S 2} m ?m" by (simp_all add: regs_same_def)
  have s0: "reg ?m (S 0) = ?vm" by (simp add: m)
  have sp: "(ucast (reg ?m (stack_reg r)) :: u8) = mem m (vm_addr ?o ?vm (pointer_field r) 0)" for r
    by (simp add: m stack_reg_def jit_reg_defs pointer_field_def)
  show "in_memory j ?m u"
    using vm vm_holds_cong [OF mm s0] by (simp add: in_memory_def vm_state_def sp mm s0 jit_reg_defs)
qed

end

section \<open>The helpers\<close>

definition buxn_jit_dei_helper :: "('s \<Rightarrow> u8 \<Rightarrow> u8 \<times> 's) \<Rightarrow> 's \<Rightarrow> u32 \<Rightarrow> u32 \<times> 's" where
  "buxn_jit_dei_helper dei vm addr = (let (v, vm) = dei vm (ucast addr) in (ucast v, vm))"

definition buxn_jit_dei2_helper :: "('s \<Rightarrow> u8 \<Rightarrow> u8 \<times> 's) \<Rightarrow> 's \<Rightarrow> u32 \<Rightarrow> u32 \<times> 's" where
  "buxn_jit_dei2_helper dei vm addr =
     (let (hi, vm) = dei vm (ucast (addr + 0));
          (lo, vm) = dei vm (ucast (addr + 1))
      in (push_bit 8 (ucast hi) OR ucast lo, vm))"

definition buxn_jit_deo_helper :: "('s \<Rightarrow> u8 \<Rightarrow> 's) \<Rightarrow> 's \<Rightarrow> u32 \<Rightarrow> 's" where
  "buxn_jit_deo_helper deo vm addr = deo vm (ucast addr)"

definition buxn_jit_deo2_helper :: "('s \<Rightarrow> u8 \<Rightarrow> 's) \<Rightarrow> 's \<Rightarrow> u32 \<Rightarrow> 's" where
  "buxn_jit_deo2_helper deo vm addr = (let vm = deo vm (ucast (addr + 0)) in deo vm (ucast (addr + 1)))"

text \<open>The function behind an address in the code; a write returns nothing.\<close>

fun host_function :: "uxn_devices \<Rightarrow> cfun \<Rightarrow> u32 \<Rightarrow> uxn_state \<Rightarrow> u32 option \<times> uxn_state" where
  "host_function io Fn_dei_helper a u = (let (v, u) = buxn_jit_dei_helper (device_in io) u a in (Some v, u))"
| "host_function io Fn_dei2_helper a u = (let (v, u) = buxn_jit_dei2_helper (device_in io) u a in (Some v, u))"
| "host_function io Fn_deo_helper a u = (None, buxn_jit_deo_helper (device_out io) u a)"
| "host_function io Fn_deo2_helper a u = (None, buxn_jit_deo2_helper (device_out io) u a)"
| "host_function io Fn_translate_jump_addr a u = (None, u)"

lemma port_casts:
  "(ucast (ucast (a :: u8) :: uw) :: u32) = ucast a" "(ucast (ucast a :: u32) :: u8) = a" "(ucast (ucast a :: u32) :: uw) = ucast a"
  "(ucast (ucast a + 1 :: u32) :: u8) = a + 1"
proof -
  show "(ucast (ucast a :: uw) :: u32) = ucast a" "(ucast (ucast a :: u32) :: u8) = a" "(ucast (ucast a :: u32) :: uw) = ucast a"
    by (rule bit_word_eqI, auto simp: bit_simps dest: bit_imp_le_length)+
  have l: "unat a < 256" using unsigned_less [of a, where 'a = nat] by simp
  have "unat a mod 4294967296 = unat a" "Suc (unat a) mod 4294967296 = Suc (unat a)"
    by (rule mod_less, use l in linarith)+
  then have "unat (ucast (ucast a + 1 :: u32) :: u8) = (unat a + 1) mod 256"
    by (simp add: unat_word_ariths unsigned_ucast_eq take_bit_eq_mod)
  then show "(ucast (ucast a + 1 :: u32) :: u8) = a + 1" by (simp add: word_unat_eq_iff unat_word_ariths)
qed

text \<open>What the helpers make of the device functions.\<close>

lemma port_input_helper:
  assumes "port_input io short a u = (bs, u')"
  obtains w where "host_function io (if short then Fn_dei2_helper else Fn_dei_helper) (ucast (ucast a :: uw)) u = (Some w, u')"
    and "(ucast w :: uw) = bytes_val bs" and "length bs = opsize short"
proof -
  show ?thesis
  proof (cases short)
    case False
    then obtain v where v: "device_in io u a = (v, u')" "bs = [v]"
      using assms by (auto simp: port_input_def split: prod.splits)
    show ?thesis using False v by (intro that [of "ucast v"]) (simp_all add: port_casts buxn_jit_dei_helper_def)
  next
    case True
    then obtain h u1 l where v: "device_in io u a = (h, u1)" "device_in io u1 (a + 1) = (l, u')" "bs = [l, h]"
      using assms by (auto simp: port_input_def split: prod.splits)
    let ?w = "push_bit 8 (ucast h) OR ucast l :: u32"
    have "(ucast ?w :: uw) = ucast (short_of h l)"
      by (rule bit_word_eqI) (auto simp: short_of_def bit_simps dest: bit_imp_le_length)
    then show ?thesis using True v by (intro that [of ?w]) (simp_all add: port_casts buxn_jit_dei2_helper_def)
  qed
qed

lemma port_output_helper:
  "host_function io (if short then Fn_deo2_helper else Fn_deo_helper) (ucast (ucast a :: uw)) u = (None, port_output io short a u)"
  by (simp add: port_casts port_output_def buxn_jit_deo_helper_def buxn_jit_deo2_helper_def)

section \<open>Calling them\<close>

text \<open>A call of the function \<open>h\<close> with the virtual machine in memory: the first register is the machine, the second the argument,
  of which the function sees 32 bits. A result comes back in the first register, extended with zeros, as 32-bit results are on the
  64-bit hosts; the saved registers are kept.\<close>

definition host_call ::
  "(lir \<Rightarrow> mach \<Rightarrow> mach) \<Rightarrow> (vm_field \<Rightarrow> uw) \<Rightarrow> cfun \<Rightarrow> (u32 \<Rightarrow> uxn_state \<Rightarrow> u32 option \<times> uxn_state) \<Rightarrow> bool" where
  "host_call step offs f h \<longleftrightarrow>
     (\<forall>m u v u'. layout_ok offs (reg m (S 0)) \<longrightarrow> vm_state offs m u \<longrightarrow> reg m (R 0) = reg m (S 0) \<longrightarrow>
        h (ucast (reg m (R 1))) u = (v, u') \<longrightarrow>
        vm_state offs (step (Icall f) m) u' \<and> (\<forall>n. reg (step (Icall f) m) (S n) = reg m (S n)) \<and>
        (\<forall>w. v = Some w \<longrightarrow> reg (step (Icall f) m) (R 0) = ucast w))"

locale host_calls = sljit_control +
  fixes offs :: "vm_field \<Rightarrow> uw" and io :: uxn_devices
  assumes calls: "f \<noteq> Fn_translate_jump_addr \<Longrightarrow> host_call step offs f (host_function io f)"
begin

lemma exec_call:
  assumes im: "in_memory j m u" and o: "vm_offset j = offs" and lay: "layout_ok offs (reg m (S 0))" and a: "op_reg a"
    and f: "f \<noteq> Fn_translate_jump_addr" and h: "host_function io f (ucast (reg m a)) u = (v, u')"
  obtains m' where "exec step (saves offs @ host_call_code a f) m = m'" and "vm_state offs m' u'" and "reg m' (S 0) = reg m (S 0)"
    and "\<And>w. v = Some w \<Longrightarrow> reg m' (R 0) = ucast w"
proof -
  have lay': "layout_ok (vm_offset j) (reg m (S 0))" using lay o by simp
  define m1 where "m1 = exec step (saves offs) m"
  have m1: "vm_state offs m1 u" "reg m1 = reg m" using exec_saves [OF im lay'] o by (simp_all add: m1_def)
  define m2 where "m2 = set_reg (R 1) (reg m a) (set_reg (R 0) (reg m (S 0)) m1)"
  have e: "exec step (saves offs @ host_call_code a f) m = step (Icall f) m2"
    using a by (simp add: host_call_code_def step_mov jit_reg_defs m1_def [symmetric]) (simp add: m1(2) m2_def)
  have "mem m2 = mem m1" and s: "\<And>n. reg m2 (S n) = reg m1 (S n)" by (simp_all add: m2_def)
  moreover from this have "vm_holds offs m2 u = vm_holds offs m1 u" by (intro vm_holds_cong)
  ultimately have "vm_state offs m2 u" using m1(1) by (simp add: vm_state_def jit_reg_defs)
  moreover have "layout_ok offs (reg m2 (S 0))" "reg m2 (R 0) = reg m2 (S 0)" "reg m2 (R 1) = reg m a" "reg m2 (S 0) = reg m (S 0)"
    using lay m1(2) by (simp_all add: m2_def)
  ultimately show ?thesis
    using that [OF e] calls [OF f] h unfolding host_call_def by metis
qed

text \<open>With the pointers loaded again the machine goes on, whatever else the call did to its registers.\<close>

lemma exec_call_return:
  assumes im: "in_memory j m u" and o: "vm_offset j = offs" and lay: "layout_ok offs (reg m (S 0))" and a: "op_reg a"
    and f: "f \<noteq> Fn_translate_jump_addr" and h: "host_function io f (ucast (reg m a)) u = (v, u')"
    and js: "js = [] \<or> js = [Op1 SLJIT_MOV (Reg q) (Reg (R 0))]" and q: "op_reg q"
  obtains m' where "exec step (saves offs @ host_call_code a f @ js @ loads offs) m = m'" and "in_memory j m' u'"
    and "reg m' (S 0) = reg m (S 0)" and "\<And>w. v = Some w \<Longrightarrow> js \<noteq> [] \<Longrightarrow> reg m' q = ucast w"
proof -
  obtain m1 where 1: "exec step (saves offs @ host_call_code a f) m = m1" "vm_state offs m1 u'" "reg m1 (S 0) = reg m (S 0)"
    "\<And>w. v = Some w \<Longrightarrow> reg m1 (R 0) = ucast w"
    using exec_call [OF im o lay a f h] by metis
  define m2 where "m2 = exec step js m1"
  have m2: "mem m2 = mem m1" "\<And>n. reg m2 (S n) = reg m1 (S n)" "\<And>w. v = Some w \<Longrightarrow> js \<noteq> [] \<Longrightarrow> reg m2 q = ucast w"
    using js q 1(4) by (auto simp: m2_def step_mov)
  have "vm_holds offs m2 u' = vm_holds offs m1 u'" by (rule vm_holds_cong) (simp_all add: m2)
  then have vm: "vm_state (vm_offset j) m2 u'" using 1(2) m2(1,2) o by (simp add: vm_state_def jit_reg_defs)
  note l = exec_loads [OF vm]
  have "exec step (saves offs @ host_call_code a f @ js @ loads offs) m = exec step (loads (vm_offset j)) m2"
    using 1(1) o by (simp add: m2_def)
  then show ?thesis
    by (rule that) (use l(1) 1(3) m2(2,3) regs_sameD [OF l(3)] q in simp_all)
qed

end

section \<open>Going on with other stacks\<close>

text \<open>With nothing cached the stacks may change under a handler, as long as they are in memory.\<close>

fun vreset :: "(bool \<Rightarrow> u8 list) \<Rightarrow> view \<Rightarrow> view" where
  "vreset st (Direct _) = Direct st"
| "vreset st (Keep k _ _) = Keep k st None"

lemma vreal_vreset [simp]: "vreal (vreset st V) = st"
  by (cases V) simp_all

lemma vsim_restart:
  assumes s: "vsim c m held live V" and c2: "core c2 m2 held" "\<forall>r. act r c2 = []"
    and cc: "\<And>r. cache_of r c3 = cache_of r c2" "reg_ref_counts c3 = reg_ref_counts c2" "mem_base c3 = 0" and env: "same_env c c3"
    and im: "in_memory (jit c3) m3 u" and lay: "layout_ok (vm_offset (jit c3)) (reg m3 (S 0))"
  shows "vsim c3 m3 held live (vreset (ustk u) V)"
proof -
  have ac: "act r c3 = []" for r using act_cong [OF cc(1), of r] c2(2) by simp
  then have op: "ops_all r c3 = []" "ops_new r c3 = []" for r by (simp_all add: ops_all_def ops_new_def)
  have cr: "cached_regs c3 = []" "cached_regs c2 = []" using c2(2) by (simp_all add: cached_regs_def ops_all_def ac)
  have "shape_ok c3" using c2(1) cc(1,2) by (simp add: core_def shape_ok_def)
  moreover have "refs_ok c3 held" using c2(1) cc(2) by (simp add: core_def refs_ok_def cr)
  ultimately have "core c3 m3 held" using lay cc(3) by (simp add: core_def base_ok_def op jit_reg_defs)
  moreover have rv: "rview c3 m3 r (ustk u r)" for r
    using im by (simp add: in_memory_def rview_def op stack_is_def stack_arr_def [abs_def])
  moreover have "shadow_regs c3 (vreset (ustk u) V) = shadow_regs c V"
    using env by (cases V) (simp_all add: shadow_regs_def same_env_def)
  moreover have "vview c3 m3 (vreset (ustk u) V)"
    using vsimD(6) [OF s] env rv
    by (cases V) (simp_all add: vview_def pending_def direct_def flushed_first_def ac same_env_def)
  ultimately show ?thesis using s by (auto simp: vsim_def cr)
qed

section \<open>The device page\<close>

definition page :: "buxn_jit_ctx \<Rightarrow> mach \<Rightarrow> u8 \<Rightarrow> u8" where
  "page ctx m a = mem m (vm_addr (vm_offset (jit ctx)) (reg m BUXN_JIT_S_VM) F_device (ucast a))"

lemma page_upd:
  assumes "layout_ok (vm_offset (jit ctx)) (reg m BUXN_JIT_S_VM)"
    and "mem m' = (mem m)(vm_addr (vm_offset (jit ctx)) (reg m BUXN_JIT_S_VM) F_device (ucast p) := x)"
    and "reg m' BUXN_JIT_S_VM = reg m BUXN_JIT_S_VM"
  shows "page ctx m' = (page ctx m)(p := x)"
proof -
  have "unat (ucast (a :: u8) :: uw) < field_size F_device" for a using unsigned_less [of a, where 'a = nat] by simp
  then show ?thesis using assms(2,3) vm_addr_eq_iff [OF assms(1)] by (auto simp: page_def fun_eq_iff)
qed

lemma mem_holds_page:
  assumes h: "mem_holds ctx m u" and ms: "mem_same {F_device} ctx m m'" and s: "reg m' (S 0) = reg m (S 0)"
  shows "mem_holds ctx m' (u\<lparr>udev := page ctx m'\<rparr>)"
proof -
  have "unat (ucast a :: uw) < field_size F_memory" for a :: u16 using unsigned_less [of a, where 'a = nat] by simp
  then show ?thesis using assms by (simp add: vm_holds_def mem_same_def page_def jit_reg_defs)
qed

lemma next_port_word: "(ucast (a :: u8) + 1 :: uw) AND 0xff = ucast (a + 1)"
proof -
  have "(ucast (ucast a + 1 :: uw) :: u8) = a + 1" by simp
  then show ?thesis using and_0xff [of "ucast a + 1 :: uw"] by simp
qed

context sljit_exec
begin

lemma exec_page_store:
  assumes q: "op_reg v" "op_reg a" and r0: "reg m (R 0) = reg m (S 0) + vm_offset (jit ctx) F_device"
    and lay: "layout_ok (vm_offset (jit ctx)) (reg m (S 0))" and ad: "reg m a = ucast p"
    and val: "reg m v = bytes_val bs" and len: "length bs = opsize short"
  obtains m' where "exec step (device_store_code a v short) m = m'" and "page ctx m' = port_poke (page ctx m) p bs"
    and "regs_same {R 1, R 2} m m'" and "mem_same {F_device} ctx m m'"
proof -
  define m' where "m' = exec step (device_store_code a v short) m"
  let ?A = "\<lambda>i :: u8. vm_addr (vm_offset (jit ctx)) (reg m BUXN_JIT_S_VM) F_device (ucast i)"
  have at: "reg m (R 0) + ucast i = ?A i" for i using r0 by (simp add: vm_addr_def jit_reg_defs)
  have lay': "layout_ok (vm_offset (jit ctx)) (reg m BUXN_JIT_S_VM)" using lay by (simp add: jit_reg_defs)
  have sz: "unat (ucast i :: uw) < field_size F_device" for i :: u8 using unsigned_less [of i, where 'a = nat] by simp
  have "page ctx m' = port_poke (page ctx m) p bs \<and> regs_same {R 1, R 2} m m' \<and> mem_same {F_device} ctx m m'"
  proof (cases rule: opsize_cases [OF len])
    case (1 x)
    have m'_eq: "m' = m\<lparr>reg := (reg m)(R 1 := ucast p), mem := (mem m)(?A p := x)\<rparr>"
      using 1 q val ad by (simp add: m'_def device_store_code_def step_simps BUXN_JIT_MEM_def jit_reg_defs at [unfolded jit_reg_defs])
    show ?thesis
      using page_upd [OF lay', of m' p x] mem_same_upd [OF lay' sz, of "{F_device}" m' p x] 1
      by (simp add: m'_eq port_poke_def regs_same_def jit_reg_defs)
  next
    case (2 l h)
    have hv: "(ucast (drop_bit 8 (ucast (short_of h l) :: uw)) :: u8) = h" "(ucast (ucast (short_of h l) :: uw) :: u8) = l"
      by (rule bit_word_eqI, auto simp: short_of_def bit_simps dest: bit_imp_le_length)+
    let ?m1 = "m\<lparr>mem := (mem m)(?A p := h)\<rparr>"
    have m'_eq: "m' = m\<lparr>reg := (reg m)(R 1 := ucast (p + 1), R 2 := drop_bit 8 (ucast (short_of h l))),
        mem := (mem m)(?A p := h, ?A (p + 1) := l)\<rparr>"
      using 2 q val ad r0 by (cases m) (simp add: m'_def device_store_code_def step_simps BUXN_JIT_MEM_def jit_reg_defs
          vm_addr_def next_port_word hv fun_upd_twist del: ucast_uw_ring)
    have "page ctx ?m1 = (page ctx m)(p := h)" "mem_same {F_device} ctx m ?m1"
      using page_upd [OF lay', of ?m1 p h] mem_same_upd [OF lay' sz, of "{F_device}" ?m1 p h] by simp_all
    moreover have "page ctx m' = (page ctx ?m1)(p + 1 := l)"
      by (rule page_upd) (use lay' in \<open>simp_all add: m'_eq jit_reg_defs\<close>)
    moreover have "mem_same {F_device} ctx ?m1 m'"
      by (rule mem_same_upd [OF _ sz, of _ _ _ _ "p + 1" l]) (use lay' in \<open>simp_all add: m'_eq jit_reg_defs\<close>)
    ultimately show ?thesis
      using 2 mem_same_trans [of "{F_device}" ctx m ?m1 m'] by (simp add: port_poke_def m'_eq regs_same_def)
  qed
  then show ?thesis using that [of m'] by (simp add: m'_def)
qed

end

section \<open>The handlers\<close>

definition host_code :: "sreg \<Rightarrow> cfun \<Rightarrow> lir list \<Rightarrow> buxn_jit_ctx \<Rightarrow> buxn_jit_ctx" where
  "host_code a f js c = buxn_jit_load_state (emit_all js (emit_all (host_call_code a f) ((buxn_jit_save_state c)\<lparr>mem_base := 0\<rparr>)))"

lemma device_handlers:
  "buxn_jit_DEI ctx =
     do {
       (addr, ctx) \<leftarrow> buxn_jit_pop_ex False (buxn_jit_op_flag_r ctx) ctx;
       (r, ctx) \<leftarrow> buxn_jit_alloc_reg ctx;
       let short = buxn_jit_op_flag_2 ctx;
       ctx \<leftarrow> buxn_jit_clear_stack_caches ctx;
       buxn_jit_push \<lparr>semantics = {}, is_short = short, const_value = 0, oreg = r\<rparr>
         (host_code (oreg addr) (if short then Fn_dei2_helper else Fn_dei_helper) [Op1 SLJIT_MOV (Reg r) (Reg (R 0))] ctx)
     }"
  "buxn_jit_DEO ctx =
     do {
       (addr, ctx) \<leftarrow> buxn_jit_pop_ex False (buxn_jit_op_flag_r ctx) ctx;
       (value, ctx) \<leftarrow> buxn_jit_pop ctx;
       ctx \<leftarrow> buxn_jit_clear_stack_caches
         (emit_all (device_store_code (oreg addr) (oreg value) (is_short value)) (buxn_jit_set_mem_base F_device ctx));
       Some (host_code (oreg addr) (if is_short value then Fn_deo2_helper else Fn_deo_helper) [] ctx)
     }"
  by (simp_all add: buxn_jit_DEI_def buxn_jit_DEO_def host_code_def Let_def emit_all_eq emit_def)

lemma host_code_fields:
  "code (host_code a f js c) =
     code c @ saves (vm_offset (jit c)) @ host_call_code a f @ js @ loads (vm_offset (jit c))"
  "cache_of r (host_code a f js c) = cache_of r c" "reg_ref_counts (host_code a f js c) = reg_ref_counts c"
  "mem_base (host_code a f js c) = 0" "jit (host_code a f js c) = jit c" "same_env c (host_code a f js c)"
  by (simp_all add: host_code_def state_code emit_all_eq cache_of_def same_env_def)

lemma uxn_deo_cases:
  assumes "uxn_deo io b u = Some u'"
  obtains x v xs where "ustk u (mode_r b) = [x] @ v @ xs" and "length v = opsize (mode_2 b)"
    and "u' = (port_output io (mode_2 b) x (u\<lparr>ustk := (ustk u)(mode_r b := remaining (mode_k b) (ustk u (mode_r b)) xs),
      udev := port_poke (udev u) x v\<rparr>))\<lparr>upc := upc u\<rparr>"
  using assms by (auto simp: uxn_deo_def bind_split_Some width_opsize Let_def length_Suc_conv)

lemma uxn_dei_cases:
  assumes "uxn_dei io b u = Some u'"
  obtains x xs bs u2 where "ustk u (mode_r b) = [x] @ xs" and "length (bs @ ustk u2 (mode_r b)) \<le> 256"
    and "port_input io (mode_2 b) x (u\<lparr>ustk := (ustk u)(mode_r b := remaining (mode_k b) (ustk u (mode_r b)) xs)\<rparr>) = (bs, u2)"
    and "u' = u2\<lparr>upc := upc u, ustk := (ustk u2)(mode_r b := bs @ ustk u2 (mode_r b))\<rparr>"
proof -
  let ?u = "\<lambda>xs. u\<lparr>ustk := (ustk u)(mode_r b := remaining (mode_k b) (ustk u (mode_r b)) xs)\<rparr>"
  obtain x xs where x: "ustk u (mode_r b) = [x] @ xs"
    "(case port_input io (mode_2 b) x (?u xs) of (bs, u2) \<Rightarrow> set_stack (mode_r b) (bs @ ustk u2 (mode_r b)) (u2\<lparr>upc := upc u\<rparr>)) = Some u'"
    using assms by (auto simp: uxn_dei_def bind_split_Some Let_def length_Suc_conv)
  obtain bs u2 where i: "port_input io (mode_2 b) x (?u xs) = (bs, u2)" by (metis surj_pair)
  show ?thesis by (rule that [OF x(1) _ i]) (use x(2) in \<open>simp_all add: i set_stack_Some\<close>)
qed

context host_calls
begin

lemma exec_host:
  assumes s: "vsim c m held live V" and v: "vreal V = ustk u" and mh: "mem_holds c m u" and o: "vm_offset (jit c) = offs"
    and a: "a \<in> set live" "reg m a = ucast (x :: u8)" and f: "f \<noteq> Fn_translate_jump_addr"
    and h: "host_function io f (ucast (ucast x :: uw)) u = (w, u')"
    and js: "js = [] \<or> js = [Op1 SLJIT_MOV (Reg q) (Reg (R 0))]" and q: "q \<in> set live"
  obtains c1 m3 where "buxn_jit_clear_stack_caches c = Some c1" and "vsim (host_code a f js c1) m3 held live (vreset (ustk u') V)"
    and "mem_holds (host_code a f js c1) m3 u'" and "emits step c m (host_code a f js c1) m3" and "same_env c (host_code a f js c1)"
    and "reg m3 (S 0) = reg m (S 0)" and "\<And>r. w = Some r \<Longrightarrow> js \<noteq> [] \<Longrightarrow> reg m3 q = ucast r"
proof -
  have op: "op_reg a" "op_reg q" using vsimD(7) [OF s] a(1) q by simp_all
  obtain c1 m1 where 1: "buxn_jit_clear_stack_caches c = Some c1" "quiet step c m c1 m1" "core c1 m1 held" "\<forall>r. act r c1 = []"
    by (rule exec_clear_stack_caches [OF vsimD(1) [OF s]])
  note qu = quietD [OF 1(2)]
  have "mem_holds c1 m1 u" using mh mem_holds_same [OF qu(6) _ _ qu(5,3)] by simp
  then have im: "in_memory (jit c1) m1 u" using in_memory_empty [OF 1(4)] qu(7) vsimD(5) [OF s] v by metis
  have o1: "vm_offset (jit c1) = offs" using o qu(3) by simp
  have lay: "layout_ok offs (reg m1 (S 0))" using 1(3) o1 by (simp add: core_def base_ok_def jit_reg_defs)
  have "host_function io f (ucast (reg m1 a)) u = (w, u')" using h qu(4) [OF op(1)] a(2) by simp
  then obtain m3 where 3: "exec step (saves offs @ host_call_code a f @ js @ loads offs) m1 = m3" "in_memory (jit c1) m3 u'"
    "reg m3 (S 0) = reg m1 (S 0)" "\<And>r. w = Some r \<Longrightarrow> js \<noteq> [] \<Longrightarrow> reg m3 q = ucast r"
    using exec_call_return [OF im o1 lay op(1) f _ js op(2)] by metis
  let ?c = "host_code a f js c1"
  note hc = host_code_fields [where a = a and f = f and js = js and c = c1]
  have env: "same_env c ?c" by (rule same_env_trans [OF same_env_frame [OF qu(2)] hc(6)])
  have s3: "vsim ?c m3 held live (vreset (ustk u') V)"
    by (rule vsim_restart [OF s 1(3,4) hc(2-4) env]) (use 3(2,3) lay o1 hc(5) in simp_all)
  have "emits step c1 m1 ?c m3" using 3(1) o1 by (simp add: emits_def hc(1))
  then have em: "emits step c m ?c m3" by (rule emits_trans [OF qu(1)])
  have "mem_holds ?c m3 u'" using 3(2) hc(5) by (simp add: in_memory_def)
  then show ?thesis by (rule that [OF 1(1) s3 _ em env]) (use 3(3,4) qu(5) in simp_all)
qed

lemma exec_DEI:
  assumes s: "starts c m h V u" and room: "cached_total c + length h \<le> 4" and o: "vm_offset (jit c) = offs"
    and us: "uxn_dei io (current_opcode c) u = Some u'"
  obtains c' m' where "buxn_jit_DEI c = Some c'" and "represents c' m' u'" and "advances step c m c' m'"
proof -
  note d = startsD [OF s]
  let ?r = "buxn_jit_op_flag_r c" and ?f = "buxn_jit_op_flag_2 c" and ?k = "mode_k (current_opcode c)"
  obtain x xs bs u2 where us': "ustk u ?r = [x] @ xs" "length (bs @ ustk u2 ?r) \<le> 256"
    "port_input io ?f x (u\<lparr>ustk := (ustk u)(?r := remaining ?k (ustk u ?r) xs)\<rparr>) = (bs, u2)"
    "u' = u2\<lparr>upc := upc u, ustk := (ustk u2)(?r := bs @ ustk u2 ?r)\<rparr>"
    by (rule uxn_dei_cases [OF us]) (simp add: flag_modes)
  let ?u1 = "u\<lparr>ustk := (ustk u)(?r := remaining ?k (ustk u ?r) xs)\<rparr>"
  have st: "vtop V ?r = [x] @ xs" using us'(1) d(6) by simp
  have l1: "length [x] = opsize False" and room0: "cached_total c + length h < 6" using room by simp_all
  obtain a c1 m1 where p: "buxn_jit_pop_ex False ?r c = Some (a, c1)" "is_short a = False"
    "vsim c1 m1 (oreg a # h) [oreg a] (vpop ?r (opsize False) V)" "reg m1 (oreg a) = bytes_val [x]"
    "steps_to step [] c m c1 m1" "cached_total c1 \<le> cached_total c"
    by (rule exec_pop_vsim [OF d(1) st l1 room0])
  have n: "length (oreg a # h) < 6" using d(2) by simp
  obtain q c2 m2 where al: "buxn_jit_alloc_reg c1 = Some (q, c2)" "vsim c2 m2 (q # oreg a # h) [q, oreg a] (vseal (vpop ?r (opsize False) V))"
    "steps_to step [oreg a] c1 m1 c2 m2"
    by (rule exec_alloc_vsim [OF p(3) n])
  have t: "steps_to step [] c m c2 m2" by (rule steps_to_trans [OF p(5) al(3)]) simp
  have v2: "vreal (vseal (vpop ?r (opsize False) V)) = ustk ?u1"
    using vreal_vpop [of V ?r "[x]" xs] st d(5,7) by simp
  have mh: "mem_holds c2 m2 ?u1" using mem_holds_steps [OF t] d(8) by simp
  have env: "same_env c c2" by (rule steps_toD(2) [OF t])
  have o2: "vm_offset (jit c2) = offs" using o env by (simp add: same_env_def)
  have ra: "reg m2 (oreg a) = ucast x" using steps_toD(3) [OF al(3)] p(4) by simp
  let ?fn = "if ?f then Fn_dei2_helper else Fn_dei_helper" and ?js = "[Op1 SLJIT_MOV (Reg q) (Reg (R 0))]"
  obtain w where w: "host_function io ?fn (ucast (ucast x :: uw)) ?u1 = (Some w, u2)" "(ucast w :: uw) = bytes_val bs"
    "length bs = opsize ?f"
    by (rule port_input_helper [OF us'(3)])
  obtain c3 m3 where 3: "buxn_jit_clear_stack_caches c2 = Some c3"
    "vsim (host_code (oreg a) ?fn ?js c3) m3 (q # oreg a # h) [q, oreg a] (vreset (ustk u2) (vseal (vpop ?r (opsize False) V)))"
    "mem_holds (host_code (oreg a) ?fn ?js c3) m3 u2" "emits step c2 m2 (host_code (oreg a) ?fn ?js c3) m3"
    "same_env c2 (host_code (oreg a) ?fn ?js c3)" "reg m3 (S 0) = reg m2 (S 0)" "\<And>r. Some w = Some r \<Longrightarrow> ?js \<noteq> [] \<Longrightarrow> reg m3 q = ucast r"
    by (rule exec_host [OF al(2) v2 mh o2 _ ra _ w(1), of ?js q]) (simp_all split: if_splits)
  let ?c = "host_code (oreg a) ?fn ?js c3" and ?v = "\<lparr>semantics = {}, is_short = ?f, const_value = 0 :: u16, oreg = q\<rparr>"
  have env3: "same_env c ?c" by (rule same_env_trans [OF env 3(5)])
  have fl: "buxn_jit_op_flag_2 c2 = ?f" "buxn_jit_op_flag_r ?c = ?r"
    using same_env_flags [OF env] same_env_flags [OF env3] by simp_all
  have vl: "oreg ?v \<in> set [q, oreg a]" and val: "reg m3 (oreg ?v) = bytes_val bs" and lv: "length bs = opsize (is_short ?v)"
    and fit: "length (bs @ vreal (vreset (ustk u2) (vseal (vpop ?r (opsize False) V))) ?r) \<le> 256"
    and t0: "steps_to step [] ?c m3 ?c m3"
    using 3(7) w(2,3) us'(2) by simp_all
  obtain c' m' where 4: "buxn_jit_push ?v ?c = Some c'"
    "vsim c' m' (q # oreg a # h) [] (vpush ?r bs (vreset (ustk u2) (vseal (vpop ?r (opsize False) V))))" "steps_to step [] ?c m3 c' m'"
    by (rule exec_push_last [OF 3(2) vl val lv fit t0 fl(2)])
  have hd: "buxn_jit_DEI c = Some c'" using p(1) al(1) 3(1) 4(1) fl(1) by (simp add: device_handlers(1))
  have "vreal (vpush ?r bs (vreset (ustk u2) (vseal (vpop ?r (opsize False) V)))) = ustk u'" by (simp add: us'(4))
  moreover have "mem_holds ?c m3 u'" using 3(3) by (simp add: us'(4))
  moreover have "pc ?c = upc u'" using env3 d(9) by (simp add: us'(4) same_env_def)
  ultimately have rp: "represents c' m' u'" "advances step ?c m3 c' m'" by (rule represents_vsim [OF 4(2) _ 4(3)])+
  have "advances step c2 m2 ?c m3" using 3(4,5,6) by (simp add: advances_def same_env_def jit_reg_defs)
  then have "advances step c m c' m'" using advances_trans [OF advances_trans [OF advances_steps [OF t]] rp(2)] by simp
  with hd rp(1) show ?thesis by (rule that)
qed


lemma exec_port_write:
  assumes s: "vsim c m held live V" and l: "oreg addr \<in> set live" "oreg v \<in> set live" and ad: "reg m (oreg addr) = ucast x"
    and val: "reg m (oreg v) = bytes_val bs" and len: "length bs = opsize (is_short v)" and mh: "mem_holds c m u"
  obtains c' m' where "emit_all (device_store_code (oreg addr) (oreg v) (is_short v)) (buxn_jit_set_mem_base F_device c) = c'"
    and "vsim c' m' held live V" and "mem_holds c' m' (u\<lparr>udev := port_poke (udev u) x bs\<rparr>)" and "emits step c m c' m'"
    and "same_env c c'" and "reg m' (S 0) = reg m (S 0)" and "\<forall>q\<in>set live. reg m' q = reg m q"
proof -
  let ?c = "buxn_jit_set_mem_base F_device c" and ?is = "device_store_code (oreg addr) (oreg v) (is_short v)"
  obtain m1 where 1: "vsim ?c m1 held live V" "steps_to step live c m ?c m1"
    "reg m1 (R 0) = reg m (S 0) + vm_offset (jit c) F_device" "regs_same {R 0} m m1" "mem m1 = mem m"
    by (rule exec_set_mem_base_vsim [OF s])
  have op: "op_reg (oreg v)" "op_reg (oreg addr)" using vsimD(7) [OF s] l by simp_all
  have env: "same_env c ?c" by (rule steps_toD(2) [OF 1(2)])
  have r0: "reg m1 (R 0) = reg m1 (S 0) + vm_offset (jit ?c) F_device"
    using 1(3,4) env by (simp add: regs_same_def same_env_def)
  have lay: "layout_ok (vm_offset (jit ?c)) (reg m1 (S 0))" using vsimD(4) [OF 1(1)] by (simp add: base_ok_def jit_reg_defs)
  have rg: "reg m1 (oreg addr) = ucast x" "reg m1 (oreg v) = bytes_val bs" using steps_toD(3) [OF 1(2)] l ad val by simp_all
  obtain m2 where 2: "exec step ?is m1 = m2" "page ?c m2 = port_poke (page ?c m1) x bs" "regs_same {R 1, R 2} m1 m2"
    "mem_same {F_device} ?c m1 m2"
    by (rule exec_page_store [OF op r0 lay rg len])
  have s1: "vsim ?c (m1\<lparr>mem := mem m2\<rparr>) held live V"
    by (rule vsim_mem [OF 1(1), of _ "{F_device}"]) (use 2(4) in \<open>simp_all add: mem_same_def\<close>)
  have "regs_same (own_regs live) (m1\<lparr>mem := mem m2\<rparr>) m2" using 2(3) by (simp add: regs_same_def own_regs_def)
  then have s2: "vsim (emit_all ?is ?c) m2 held live V" using vsim_own [OF s1] by simp
  have h1: "mem_holds ?c m1 u" using mem_holds_steps [OF 1(2)] mh by simp
  then have "page ?c m1 = udev u" by (simp add: vm_holds_def page_def fun_eq_iff)
  then have h2: "mem_holds ?c m2 (u\<lparr>udev := port_poke (udev u) x bs\<rparr>)"
    using mem_holds_page [OF h1 2(4)] regs_sameD [OF 2(3), of "S 0"] 2(2) by simp
  have em: "emits step c m (emit_all ?is ?c) m2"
    using emits_trans [OF steps_toD(1) [OF 1(2)] emits_emit_all [of step ?c m1 ?is]] by (simp add: 2(1))
  have rs: "reg m2 q = reg m q" if "q \<in> set live \<or> q = S 0" for q
    using that op_reg_not vsimD(7) [OF s, of q] regs_sameD [OF 2(3), of q] regs_sameD [OF 1(4), of q] by auto
  have h3: "mem_holds (emit_all ?is ?c) m2 (u\<lparr>udev := port_poke (udev u) x bs\<rparr>)" using h2 by (simp add: emit_all_eq)
  show ?thesis by (rule that [OF refl s2 h3 em]) (use env rs in simp_all)
qed

lemma exec_DEO:
  assumes s: "starts c m h V u" and room: "cached_total c + length h \<le> 4" and o: "vm_offset (jit c) = offs"
    and us: "uxn_deo io (current_opcode c) u = Some u'"
  obtains c' m' where "buxn_jit_DEO c = Some c'" and "represents c' m' u'" and "advances step c m c' m'"
proof -
  note d = startsD [OF s]
  let ?r = "buxn_jit_op_flag_r c" and ?f = "buxn_jit_op_flag_2 c" and ?k = "mode_k (current_opcode c)"
  obtain x bs xs where us': "ustk u ?r = [x] @ bs @ xs" "length bs = opsize ?f"
    "u' = (port_output io ?f x (u\<lparr>ustk := (ustk u)(?r := remaining ?k (ustk u ?r) xs), udev := port_poke (udev u) x bs\<rparr>))\<lparr>upc := upc u\<rparr>"
    by (rule uxn_deo_cases [OF us]) (simp add: flag_modes)
  let ?u1 = "u\<lparr>ustk := (ustk u)(?r := remaining ?k (ustk u ?r) xs)\<rparr>"
  let ?u2 = "?u1\<lparr>udev := port_poke (udev u) x bs\<rparr>"
  have st: "vtop V ?r = [x] @ bs @ xs" using us'(1) d(6) by simp
  have l1: "length [x] = opsize False" by simp
  obtain a c1 v c2 m2 where p: "buxn_jit_pop_ex False ?r c = Some (a, c1)" "buxn_jit_pop c1 = Some (v, c2)"
    "is_short a = False" "is_short v = ?f"
    "vsim c2 m2 (oreg v # oreg a # h) [oreg v, oreg a] (vpop ?r (length ([x] @ bs)) V)"
    "reg m2 (oreg v) = bytes_val bs" "reg m2 (oreg a) = bytes_val [x]" "steps_to step [] c m c2 m2" "cached_total c2 \<le> cached_total c"
    by (rule exec_pop2 [OF d(1) st l1 us'(2) room])
  let ?h = "oreg v # oreg a # h" and ?l = "[oreg v, oreg a]" and ?V = "vpop ?r (length ([x] @ bs)) V"
  have "vtop V ?r = ([x] @ bs) @ xs" using st by simp
  from vreal_vpop [OF this] have v2: "vreal ?V = ustk ?u2" using d(5,7) by simp
  have mh: "mem_holds c2 m2 ?u1" using mem_holds_steps [OF p(8)] d(8) by simp
  have la: "oreg a \<in> set ?l" "oreg v \<in> set ?l" and ra: "reg m2 (oreg a) = ucast x" and lv: "length bs = opsize (is_short v)"
    using p(4,7) us'(2) by simp_all
  let ?st = "emit_all (device_store_code (oreg a) (oreg v) (is_short v)) (buxn_jit_set_mem_base F_device c2)"
  obtain c3 m3 where 3: "?st = c3" "vsim c3 m3 ?h ?l ?V" "mem_holds c3 m3 (?u1\<lparr>udev := port_poke (udev ?u1) x bs\<rparr>)" "emits step c2 m2 c3 m3"
    "same_env c2 c3" "reg m3 (S 0) = reg m2 (S 0)" "\<forall>q\<in>set ?l. reg m3 q = reg m2 q"
    by (rule exec_port_write [OF p(5) la ra p(6) lv mh])
  have env: "same_env c c3" by (rule same_env_trans [OF steps_toD(2) [OF p(8)] 3(5)])
  have o3: "vm_offset (jit c3) = offs" using o env by (simp add: same_env_def)
  have mh3: "mem_holds c3 m3 ?u2" using 3(3) by simp
  have ra3: "reg m3 (oreg a) = ucast x" using 3(7) la(1) ra by simp
  let ?fn = "if is_short v then Fn_deo2_helper else Fn_deo_helper"
  have w: "host_function io ?fn (ucast (ucast x :: uw)) ?u2 = (None, port_output io ?f x ?u2)"
    unfolding p(4) by (rule port_output_helper)
  obtain c4 m4 where 4: "buxn_jit_clear_stack_caches c3 = Some c4"
    "vsim (host_code (oreg a) ?fn [] c4) m4 ?h ?l (vreset (ustk (port_output io ?f x ?u2)) ?V)"
    "mem_holds (host_code (oreg a) ?fn [] c4) m4 (port_output io ?f x ?u2)" "emits step c3 m3 (host_code (oreg a) ?fn [] c4) m4"
    "same_env c3 (host_code (oreg a) ?fn [] c4)" "reg m4 (S 0) = reg m3 (S 0)"
    by (rule exec_host [OF 3(2) v2 mh3 o3 la(1) ra3 _ w, of "[]" "oreg a"]) (use la(1) in \<open>simp_all split: if_splits\<close>)
  let ?c = "host_code (oreg a) ?fn [] c4"
  have env4: "same_env c ?c" by (rule same_env_trans [OF env 4(5)])
  have hd: "buxn_jit_DEO c = Some ?c" using p(1,2) 3(1) 4(1) by (simp add: device_handlers(2))
  have t0: "steps_to step [] ?c m4 ?c m4" by simp
  have "vreal (vreset (ustk (port_output io ?f x ?u2)) ?V) = ustk u'" "mem_holds ?c m4 u'" "pc ?c = upc u'"
    using 4(3) env4 d(9) by (simp_all add: us'(3) same_env_def)
  then have rp: "represents ?c m4 u'" by (rule represents_vsim(1) [OF 4(2) _ t0])
  have "advances step c2 m2 ?c m4"
    using emits_trans [OF 3(4) 4(4)] same_env_trans [OF 3(5) 4(5)] 3(6) 4(6) by (simp add: advances_def same_env_def jit_reg_defs)
  then have "advances step c m ?c m4" by (rule advances_trans [OF advances_steps [OF p(8)]])
  with hd rp show ?thesis by (rule that)
qed

end

section \<open>A machine with devices\<close>

text \<open>Devices that can be read back: reading a port gives the byte in the device page, writing one leaves its byte in the memory of the
  host, at address zero, which is no part of \<^verbatim>\<open>buxn_vm_t\<close>. The reference machine with calls to them has the behaviour stated above.\<close>

definition example_devices :: uxn_devices where
  "example_devices = \<lparr>device_in = \<lambda>u a. (udev u a, u), device_out = \<lambda>u a. u\<lparr>uhost := (uhost u)(0 := udev u a)\<rparr>\<rparr>"

definition port_byte :: "(vm_field \<Rightarrow> uw) \<Rightarrow> mach \<Rightarrow> u32 \<Rightarrow> u8" where
  "port_byte offs m a = mem m (vm_addr offs (reg m (S 0)) F_device (ucast (ucast a :: u8)))"

fun host_step :: "(vm_field \<Rightarrow> uw) \<Rightarrow> bool \<Rightarrow> lir \<Rightarrow> mach \<Rightarrow> mach" where
  "host_step offs le (Icall Fn_dei_helper) m = set_reg (R 0) (ucast (port_byte offs m (ucast (reg m (R 1))))) m"
| "host_step offs le (Icall Fn_dei2_helper) m =
     set_reg (R 0) (ucast (short_of (port_byte offs m (ucast (reg m (R 1)))) (port_byte offs m (ucast (reg m (R 1)) + 1)))) m"
| "host_step offs le (Icall Fn_deo_helper) m = set_mem 0 (port_byte offs m (ucast (reg m (R 1)))) m"
| "host_step offs le (Icall Fn_deo2_helper) m = set_mem 0 (port_byte offs m (ucast (reg m (R 1)) + 1)) m"
| "host_step offs le i m = lir_step le i m"

lemma zero_outside:
  assumes "layout_ok offs vm"
  shows "outside_vm offs vm 0"
proof -
  have "vm_addr offs vm f i \<noteq> 0" if "unat i < field_size f" for f i
  proof -
    have "unat (vm_addr offs vm f i) \<noteq> 0"
      unfolding unat_vm_addr [OF assms that] using assms by (simp add: layout_ok_def unat_eq_zero)
    then show ?thesis by auto
  qed
  then show ?thesis by (auto simp: outside_vm_def dest: sym)
qed

lemma vm_state_host:
  assumes v: "vm_state offs m u" and lay: "layout_ok offs (reg m (S 0))"
  shows "vm_state offs (set_mem 0 x m) (u\<lparr>uhost := (uhost u)(0 := x)\<rparr>)"
proof -
  have n: "vm_addr offs (reg m (S 0)) f i \<noteq> 0" if "unat i < field_size f" for f i
    using zero_outside [OF lay] that unfolding outside_vm_def by metis
  have b: "unat (ucast (i :: u8) :: uw) < 256" "unat (ucast (j :: u16) :: uw) < 65536" for i j
    using unsigned_less [of i, where 'a = nat] unsigned_less [of j, where 'a = nat] by simp_all
  have f: "vm_addr offs (reg m (S 0)) (pointer_field r) 0 \<noteq> 0" "vm_addr offs (reg m (S 0)) (stack_field r) (ucast (i :: u8)) \<noteq> 0"
    "vm_addr offs (reg m (S 0)) F_device (ucast i) \<noteq> 0" "vm_addr offs (reg m (S 0)) F_memory (ucast (j :: u16)) \<noteq> 0" for r i j
    by (rule n, use b in \<open>simp add: pointer_field_def stack_field_def\<close>)+
  show ?thesis using v f zero_outside [OF lay] by (simp add: vm_state_def vm_holds_def jit_reg_defs)
qed

lemma port_bytes: "vm_state offs m u \<Longrightarrow> port_byte offs m a = udev u (ucast a)"
  by (simp add: vm_state_def vm_holds_def port_byte_def jit_reg_defs)

lemma vm_state_result: "vm_state offs (set_reg (R 0) w m) u = vm_state offs m u"
  using vm_holds_cong [of "set_reg (R 0) w m" m] by (simp add: vm_state_def jit_reg_defs)

interpretation host_machine: host_calls "host_step offs le" le offs example_devices
proof unfold_locales
  fix f assume f: "f \<noteq> Fn_translate_jump_addr"
  show "host_call (host_step offs le) offs f (host_function example_devices f)"
    unfolding host_call_def
  proof (intro allI impI)
    fix m u v u'
    assume lay: "layout_ok offs (reg m (S 0))" and vm: "vm_state offs m u"
      and h: "host_function example_devices f (ucast (reg m (R 1))) u = (v, u')"
    note c = port_bytes [OF vm] vm_state_host [OF vm lay] vm_state_result
    have sh: "(push_bit 8 (ucast hi) OR ucast lo :: u32) = ucast (short_of hi lo)" for hi lo :: u8
      by (rule bit_word_eqI) (auto simp: short_of_def bit_simps dest: bit_imp_le_length)
    have w: "(ucast (ucast x :: u32) :: uw) = ucast x" "(ucast (ucast y :: u32) :: uw) = ucast y" for x :: u8 and y :: u16
      by (rule bit_word_eqI, auto simp: bit_simps dest: bit_imp_le_length)+
    show "vm_state offs (host_step offs le (Icall f) m) u' \<and> (\<forall>n. reg (host_step offs le (Icall f) m) (S n) = reg m (S n)) \<and>
        (\<forall>w. v = Some w \<longrightarrow> reg (host_step offs le (Icall f) m) (R 0) = ucast w)"
      using h f vm c(2)
      by (cases f) (auto simp: c(1,3) buxn_jit_dei_helper_def buxn_jit_dei2_helper_def buxn_jit_deo_helper_def buxn_jit_deo2_helper_def
          example_devices_def sh w)
  qed
qed (simp_all only: host_step.simps ref_machine.step_shift ref_machine.step_sub_z ref_machine.step_sub_less
    ref_machine.step_sub_greater ref_machine.step_flags ref_machine.step_load_u16 ref_control.step_and_z ref_control.step_mov32,
    (rule ref_machine.step_mov ref_machine.step_load ref_machine.step_store ref_machine.step_op2 ref_machine.step_div; assumption)+)

end
