(* ===== verification/Division.thy ===== *)
theory Division
  imports Jump_Ops
begin

text \<open>
  Division. It is the one opcode besides the jumps whose code jumps: a divisor of zero is tested for, and the two cases meet behind
  the code of both. So the state it leaves is reached inside a block, rather than by code without jumps.
\<close>

section \<open>Values\<close>

lemma ucast_div:
  "(ucast (x :: u8) :: uw) div ucast y = ucast (x div y)" "(ucast (a :: u16) :: uw) div ucast b = ucast (a div b)"
proof -
  have "unat x < 256" "unat a < 65536" using unsigned_less [of x, where 'a = nat] unsigned_less [of a, where 'a = nat] by simp_all
  then have "unat x div unat y < 18446744073709551616" "unat a div unat b < 18446744073709551616"
    using div_le_dividend [of "unat x" "unat y"] div_le_dividend [of "unat a" "unat b"] by linarith+
  then show "(ucast x :: uw) div ucast y = ucast (x div y)" "(ucast a :: uw) div ucast b = ucast (a div b)"
    by (simp_all add: word_unat_eq_iff unat_div_distrib)
qed

lemma ucast_zero [simp]: "(ucast (x :: u8) :: uw) = 0 \<longleftrightarrow> x = 0" "(ucast (a :: u16) :: uw) = 0 \<longleftrightarrow> a = 0"
  by (simp_all add: word_unat_eq_iff)

lemma div_value:
  assumes "length a = opsize f" and "length b = opsize f"
  shows "bytes_val (div_bytes a b) = (if bytes_val b = 0 then 0 else bytes_val a div bytes_val b)"
    and "length (div_bytes a b) = opsize f"
  by (rule opsize_cases [OF assms(1)]; rule opsize_cases [OF assms(2)];
      simp add: div_bytes_def uxn_quotient_def ucast_div short_bytes_val)+

section \<open>Inside a block\<close>

lemma holds_from_grown:
  assumes "grown base ctx" and "tidy base" and "holds_from n b ctx"
  shows "holds_from n b base"
proof -
  have "length (code base) \<le> length (code ctx)" by (rule grown_length [OF assms(1)])
  moreover obtain ls where "grown_by ls base ctx" using assms(1) by (auto simp: grown_def)
  ultimately show ?thesis
    using assms(3) grown_code_links(2) [OF assms(1,2)] by (auto simp: holds_from_def grown_by_def)
qed

text \<open>The code between two points of a block, jumps inside it included, leads from one machine state to another.\<close>

definition reaches :: "(lir \<Rightarrow> mach \<Rightarrow> mach) \<Rightarrow> buxn_jit_ctx \<Rightarrow> mach \<Rightarrow> buxn_jit_ctx \<Rightarrow> mach \<Rightarrow> bool" where
  "reaches step c m c' m' \<longleftrightarrow>
     grown c c' \<and> compiler c' = compiler c \<and> reg m' (S 0) = reg m (S 0) \<and>
     (\<forall>b head W. tidy c \<longrightarrow> holds_from (length (code c)) b c' \<longrightarrow>
        leads step head W b (length (code c)) m b (length (code c')) m')"

lemma reaches_trans [trans]:
  assumes "reaches step a m b m'" and "reaches step b m' c m''"
  shows "reaches step a m c m''"
proof -
  have g: "grown a b" "grown b c" using assms by (simp_all add: reaches_def)
  have "leads step head W blk (length (code a)) m blk (length (code c)) m''"
    if t: "tidy a" and h: "holds_from (length (code a)) blk c" for blk head W
  proof -
    have t': "tidy b" by (rule grown_code_links(1) [OF g(1) t])
    have "holds_from (length (code a)) blk b" by (rule holds_from_grown [OF g(2) t' h])
    then have "leads step head W blk (length (code a)) m blk (length (code b)) m'" using assms(1) t by (simp add: reaches_def)
    moreover have "holds_from (length (code b)) blk c" by (rule holds_from_mono [OF h]) (rule grown_length [OF g(1)])
    then have "leads step head W blk (length (code b)) m' blk (length (code c)) m''" using assms(2) t' by (simp add: reaches_def)
    ultimately show ?thesis by (rule leads_trans)
  qed
  then show ?thesis using assms grown_trans [OF g] by (simp add: reaches_def)
qed

lemma reaches_advances:
  assumes "steady c c'" and "advances step c m c' m'"
  shows "reaches step c m c' m'"
  using assms steady_grown [OF assms(1)] leads_emits [OF assms(1)]
  by (auto simp: reaches_def advances_def jit_reg_defs holds_from_def)

lemma leads_straight:
  "p < length (ncode b) \<Longrightarrow> straight (ncode b ! p) \<Longrightarrow> leads step head W b p m b (Suc p) (step (ncode b ! p) m)"
  by (auto simp: leads_def intro: run_straight)

section \<open>The code of a division\<close>

definition div_code :: "sreg \<Rightarrow> sreg \<Rightarrow> sreg \<Rightarrow> lir list" where
  "div_code q a b =
     [Op1 SLJIT_MOV (Reg BUXN_JIT_TMP) (Reg (R 0)), Op1 SLJIT_MOV (Reg (R 0)) (Reg a), Op1 SLJIT_MOV (Reg (R 1)) (Reg b), Op0_DIV_UW,
      Op1 SLJIT_MOV (Reg q) (Reg (R 0)), Op1 SLJIT_MOV (Reg (R 0)) (Reg BUXN_JIT_TMP)]"

definition divide :: "sreg \<Rightarrow> sreg \<Rightarrow> sreg \<Rightarrow> buxn_jit_ctx \<Rightarrow> buxn_jit_ctx" where
  "divide q a b c =
     set_label (length (code c) + 7) (length (code c) + 10) (set_label (length (code c)) (length (code c) + 8)
       (emit_all ([Cmp SLJIT_EQUAL False (Reg b) (Imm 0)] @ div_code q a b @
          [Jump None False, Label, Op1 SLJIT_MOV (Reg q) (Imm 0), Label]) c))"

lemma buxn_jit_DIV_divide:
  "buxn_jit_DIV ctx =
     do {
       (b, ctx) \<leftarrow> buxn_jit_pop ctx;
       (a, ctx) \<leftarrow> buxn_jit_pop ctx;
       (r, ctx) \<leftarrow> buxn_jit_alloc_reg ctx;
       let c = const_result a b (is_short b) 0 r;
       buxn_jit_push
         (if SEM_CONST \<in> semantics c \<and> const_value b \<noteq> 0 then c\<lparr>const_value := const_value a div const_value b\<rparr> else c)
         (divide r (oreg a) (oreg b) ctx)
     }"
proof -
  have d: "divide q a b c =
     set_label (length (code c) + 7) (length (code c) + 10) (emit Label (emit (Op1 SLJIT_MOV (Reg q) (Imm 0))
       (set_label (length (code c)) (length (code c) + 8) (emit Label (emit (Jump None False) (emit_all (div_code q a b)
         (emit (Cmp SLJIT_EQUAL False (Reg b) (Imm 0)) c)))))))" for q a b c
    by (simp add: divide_def set_label_def emit_def emit_all_eq)
  show ?thesis
    by (simp add: buxn_jit_DIV_def d div_code_def [symmetric] emit_jump_def emit_label_def Let_def del: emit_all.simps)
      (simp add: div_code_def emit_all_eq set_label_def emit_def eval_nat_numeral)
qed

lemma divide_fields:
  "code (divide q a b c) = code c @ [Cmp SLJIT_EQUAL False (Reg b) (Imm 0)] @ div_code q a b @
     [Jump None False, Label, Op1 SLJIT_MOV (Reg q) (Imm 0), Label]"
  "jump_labels (divide q a b c) = (jump_labels c)(length (code c) \<mapsto> length (code c) + 8, length (code c) + 7 \<mapsto> length (code c) + 10)"
  "cache_of r (divide q a b c) = cache_of r c" "reg_ref_counts (divide q a b c) = reg_ref_counts c"
  "mem_base (divide q a b c) = mem_base c" "jit (divide q a b c) = jit c" "compiler (divide q a b c) = compiler c"
  "compiler_id (divide q a b c) = compiler_id c" "pc (divide q a b c) = pc c" "eshadow (divide q a b c) = eshadow c"
  "wsp_reg (divide q a b c) = wsp_reg c" "rsp_reg (divide q a b c) = rsp_reg c" "current_opcode (divide q a b c) = current_opcode c"
  by (simp_all add: divide_def set_label_def emit_all_eq cache_of_def)

lemma divide_grown: "grown c (divide q a b c)"
  by (simp add: divide_def)

context sljit_control
begin

lemma exec_div_code:
  assumes "reg m b \<noteq> 0" and "op_reg q" and "op_reg a" and "op_reg b"
  obtains w where "exec step (div_code q a b) m =
    m\<lparr>reg := (reg m)(R 2 := reg m (R 0), R 1 := w, q := reg m a div reg m b)\<rparr>"
proof -
  let ?m = "m\<lparr>reg := (reg m)(R 2 := reg m (R 0), R 0 := reg m a, R 1 := reg m b)\<rparr>"
  obtain w where w: "step Op0_DIV_UW ?m = ?m\<lparr>reg := (reg ?m)(R 0 := reg ?m (R 0) div reg ?m (R 1), R 1 := w)\<rparr>"
    using step_div [of ?m] assms(1) by auto
  have r: "q \<noteq> R 0" "q \<noteq> R 1" "q \<noteq> R 2" "a \<noteq> R 0" "a \<noteq> R 2" "b \<noteq> R 0" "b \<noteq> R 2" using assms(2-4) by auto
  have "exec step (div_code q a b) m = m\<lparr>reg := (reg m)(R 2 := reg m (R 0), R 1 := w, q := reg m a div reg m b)\<rparr>"
    using r w
    by (simp add: div_code_def step_mov BUXN_JIT_TMP_def fun_upd_twist, intro arg_cong [where f = "\<lambda>f. m\<lparr>reg := f\<rparr>"]) auto
  then show ?thesis by (rule that)
qed

text \<open>The two ways through the code: the jump over the division, and the jump over the zero.\<close>

lemma divide_leads:
  fixes c defines "p \<equiv> length (code c)"
  assumes h: "holds_from p blk (divide q a b c)" and t: "tidy c" and r: "op_reg q" "op_reg a" "op_reg b"
    and m': "m' = (if reg m b = 0 then set_reg q 0 m else exec step (div_code q a b) m)"
  shows "leads step head W blk p m blk (length (code (divide q a b c))) m'"
proof -
  let ?c = "divide q a b c"
  let ?is = "[Cmp SLJIT_EQUAL False (Reg b) (Imm 0)] @ div_code q a b @ [Jump None False, Label, Op1 SLJIT_MOV (Reg q) (Imm 0), Label]"
  note hc = holds_code [OF h [unfolded p_def] divide_fields(1), folded p_def]
  have len: "length ?is = 11" "length (code ?c) = p + 11" by (simp_all add: div_code_def divide_fields p_def)
  have i: "?is ! 0 = Cmp SLJIT_EQUAL False (Reg b) (Imm 0)" "?is ! 7 = Jump None False" "?is ! 8 = Label"
    "?is ! 9 = Op1 SLJIT_MOV (Reg q) (Imm 0)" "?is ! 10 = Label"
    by (simp_all add: div_code_def)
  note at = hc(1) [unfolded len(1)] hc(2) [unfolded len(1)]
  have k: "p + n < length (ncode blk)" "ncode blk ! (p + n) = ?is ! n" if "n < 11" for n using at that by blast+
  have "code_links (compiler_id ?c) (jit ?c) (p + n) = None" for n
    using t by (simp add: divide_fields tidy_def p_def)
  then have "nlinks blk (p + n) = None \<and> nlabels blk (p + n) = jump_labels ?c (p + n)" if "n < 11" for n
    using h that len(2) by (simp add: holds_from_def)
  then have d: "jump_dest W blk (p + n) = map_option (Pair blk) (jump_labels ?c (p + n))" if "n < 11" for n
    using that by (simp add: jump_dest_def)
  have d0: "jump_dest W blk p = Some (blk, p + 8)" and d7: "jump_dest W blk (p + 7) = Some (blk, p + 10)"
    using d [of 0] d [of 7] by (simp_all add: divide_fields p_def)
  have k0: "p < length (ncode blk)" "ncode blk ! p = Cmp SLJIT_EQUAL False (Reg b) (Imm 0)" using k [of 0] i by simp_all
  have last: "leads step head W blk (p + 10) m' blk (p + 11) m'"
    using leads_mark [of "p + 10" blk step head W m'] k [of 10] i by (simp add: add.commute [of p])
  show ?thesis
  proof (cases "reg m b = 0")
    case True
    have "leads step head W blk p m blk (p + 8) m" by (rule leads_jump [OF k0(1) _ d0]) (simp add: k0(2) True)
    also have "leads step head W blk (p + 8) m blk (p + 9) m"
      using leads_mark [of "p + 8" blk step head W m] k [of 8] i by (simp add: add.commute [of p])
    also have "leads step head W blk (p + 9) m blk (p + 10) m'"
    proof -
      have st: "step (Op1 SLJIT_MOV (Reg q) (Imm 0)) m = m'" using True by (simp add: m' step_mov)
      have "ncode blk ! (p + 9) = Op1 SLJIT_MOV (Reg q) (Imm 0)" "p + 9 < length (ncode blk)" using k [of 9] i by simp_all
      then show ?thesis using leads_straight [of "p + 9" blk step head W m] st by (simp add: add.commute [of p])
    qed
    also note last
    finally show ?thesis by (simp add: len)
  next
    case False
    have "leads step head W blk p m blk (p + 1) m"
      using leads_fall [OF k0(1), of m step head W] by (simp add: k0(2) False)
    also have "leads step head W blk (p + 1) m blk (p + 7) m'"
    proof -
      obtain post where "ncode blk = code ?c @ post" using h by (auto simp: holds_from_def)
      then have "ncode blk = (code c @ [Cmp SLJIT_EQUAL False (Reg b) (Imm 0)]) @ div_code q a b @
          ([Jump None False, Label, Op1 SLJIT_MOV (Reg q) (Imm 0), Label] @ post)"
        by (simp add: divide_fields)
      moreover have "list_all straight (div_code q a b)" by (simp add: div_code_def)
      ultimately have "leads step head W blk (length (code c @ [Cmp SLJIT_EQUAL False (Reg b) (Imm 0)])) m blk
          (length (code c @ [Cmp SLJIT_EQUAL False (Reg b) (Imm 0)]) + length (div_code q a b)) (exec step (div_code q a b) m)"
        by (rule leads_exec)
      then show ?thesis using False by (simp add: m' p_def div_code_def eval_nat_numeral)
    qed
    also have "leads step head W blk (p + 7) m' blk (p + 10) m'"
      using leads_jump [OF _ _ d7, of m' step head] k [of 7] i by simp
    also note last
    finally show ?thesis by (simp add: len)
  qed
qed

lemma exec_divide:
  assumes s: "vsim c m held live V" and l: "q \<in> set live" "a \<in> set live" "b \<in> set live"
  obtains m' where "vsim (divide q a b c) m' held live V" and "reg m' q = (if reg m b = 0 then 0 else reg m a div reg m b)"
    and "mem m' = mem m" and "reg m' (S 0) = reg m (S 0)" and "reaches step c m (divide q a b c) m'"
proof -
  have r: "op_reg q" "op_reg a" "op_reg b" using vsimD(7) [OF s] l by simp_all
  define m' where "m' = (if reg m b = 0 then set_reg q 0 m else exec step (div_code q a b) m)"
  have "mem m' = mem m \<and> regs_same (own_regs live) m m' \<and> reg m' q = (if reg m b = 0 then 0 else reg m a div reg m b)"
  proof (cases "reg m b = 0")
    case True
    then show ?thesis using l(1) by (simp add: m'_def regs_same_def own_regs_def)
  next
    case False
    obtain w where "exec step (div_code q a b) m = m\<lparr>reg := (reg m)(R 2 := reg m (R 0), R 1 := w, q := reg m a div reg m b)\<rparr>"
      by (rule exec_div_code [OF False r])
    then show ?thesis using False l(1) by (simp add: m'_def regs_same_def own_regs_def)
  qed
  then have 1: "mem m' = mem m" "regs_same (own_regs live) m m'" "reg m' q = (if reg m b = 0 then 0 else reg m a div reg m b)" by simp_all
  have s0: "reg m' (S 0) = reg m (S 0)"
    using regs_sameD [OF 1(2), of "S 0"] own_regs_disjoint [OF s, of "S 0"] by auto
  have "vsim (divide q a b c) m held live V"
    using s by (subst vsim_ctx_cong [where ctx = c]) (simp_all add: divide_fields)
  then have "vsim (divide q a b c) m' held live V" by (rule vsim_own [OF _ 1(1,2)])
  moreover have "reaches step c m (divide q a b c) m'"
    using divide_leads [OF _ _ r m'_def] s0 by (simp add: reaches_def divide_grown divide_fields(7))
  ultimately show ?thesis using that 1(1,3) s0 by blast
qed

lemma exec_DIV:
  assumes s: "starts c m h V u" and room: "cached_total c + length h \<le> 4" and us: "uxn_div (current_opcode c) u = Some u'"
  obtains c' m' where "buxn_jit_DIV c = Some c'" and "represents c' m' u'" and "reaches step c m c' m'"
proof -
  note d = startsD [OF s]
  let ?r = "buxn_jit_op_flag_r c" and ?f = "buxn_jit_op_flag_2 c" and ?k = "mode_k (current_opcode c)"
  obtain b a xs where us': "ustk u ?r = b @ a @ xs" "length b = opsize ?f" "length a = opsize ?f"
    "length (div_bytes a b @ remaining ?k (ustk u ?r) xs) \<le> 256"
    "u' = u\<lparr>ustk := (ustk u)(?r := div_bytes a b @ remaining ?k (ustk u ?r) xs)\<rparr>"
    using us by (auto simp: uxn_div_def bind_split_Some set_stack_Some width_opsize flag_modes Let_def)
  have st: "vtop V ?r = b @ a @ xs" using us'(1) d(6) by simp
  obtain vb c1 va c2 q c3 m3 U where p: "buxn_jit_pop_ex ?f ?r c = Some (vb, c1)" "buxn_jit_pop c1 = Some (va, c2)"
    "buxn_jit_alloc_reg c2 = Some (q, c3)" "is_short vb = ?f" "is_short va = ?f"
    "vsim c3 m3 (q # oreg va # oreg vb # h) [q, oreg va, oreg vb] U" "reg m3 (oreg va) = bytes_val a" "reg m3 (oreg vb) = bytes_val b"
    "steps_to step [] c m c3 m3" "vreal U = (vreal V)(?r := kept V ?r xs)"
    by (rule exec_pop2_alloc [OF d(1,2) st us'(2,3) room])
  have l: "q \<in> set [q, oreg va, oreg vb]" "oreg va \<in> set [q, oreg va, oreg vb]" "oreg vb \<in> set [q, oreg va, oreg vb]" by simp_all
  let ?c = "divide q (oreg va) (oreg vb) c3"
  obtain m4 where 4: "vsim ?c m4 (q # oreg va # oreg vb # h) [q, oreg va, oreg vb] U"
    "reg m4 q = (if reg m3 (oreg vb) = 0 then 0 else reg m3 (oreg va) div reg m3 (oreg vb))" "mem m4 = mem m3"
    "reg m4 (S 0) = reg m3 (S 0)" "reaches step c3 m3 ?c m4"
    by (rule exec_divide [OF p(6) l])
  note env = steps_toD(2) [OF p(9)]
  define v where "v = (let w = const_result va vb (is_short vb) 0 q in
      if SEM_CONST \<in> semantics w \<and> const_value vb \<noteq> 0 then w\<lparr>const_value := const_value va div const_value vb\<rparr> else w)"
  have v: "oreg v = q" "is_short v = ?f" using p(4) by (simp_all add: v_def const_result_def Let_def)
  note dv = div_value [OF us'(3,2)]
  have vl: "oreg v \<in> set [q, oreg va, oreg vb]" and val: "reg m4 (oreg v) = bytes_val (div_bytes a b)"
    and lv: "length (div_bytes a b) = opsize (is_short v)"
    using 4(2) p(7,8) dv v by simp_all
  have fit: "length (div_bytes a b @ vreal U ?r) \<le> 256" using us'(4) d(5) by (simp add: p(10) d(7))
  have t0: "steps_to step [] ?c m4 ?c m4" by simp
  have fl: "buxn_jit_op_flag_r ?c = ?r" using env by (simp add: flag_modes divide_fields same_env_def)
  obtain c' m' where 5: "buxn_jit_push v ?c = Some c'"
    "vsim c' m' (q # oreg va # oreg vb # h) [] (vpush ?r (div_bytes a b) U)" "steps_to step [] ?c m4 c' m'"
    by (rule exec_push_last [OF 4(1) vl val lv fit t0 fl])
  have "vreal (vpush ?r (div_bytes a b) U) = ustk u'" using d(5) by (simp add: p(10) d(7) us'(5))
  moreover have "mem_holds c3 m3 u'" using mem_holds_steps [OF p(9)] d(8) by (simp add: us'(5) vm_holds_def)
  then have "mem_holds ?c m4 u'" using vm_holds_cong [OF 4(3,4)] by (simp add: divide_fields)
  moreover have "pc ?c = upc u'" using env d(9) by (simp add: divide_fields us'(5) same_env_def)
  ultimately have rp: "represents c' m' u'" "advances step ?c m4 c' m'" by (rule represents_vsim [OF 5(2) _ 5(3)])+
  have st1: "steady c c3"
  proof -
    have "every (do { (b, c) \<leftarrow> buxn_jit_pop c; (a, c) \<leftarrow> buxn_jit_pop c; (r, c) \<leftarrow> buxn_jit_alloc_reg c; Some c }) (steady c)"
      by (auto intro!: every_pop [of c] every_alloc [of c])
    then show ?thesis by (rule everyD) (use p(1-3) in \<open>simp add: buxn_jit_pop_def\<close>)
  qed
  have st2: "steady ?c c'" by (rule everyD [OF every_push [OF steady_refl] 5(1)])
  have "reaches step c m c3 m3" by (rule reaches_advances [OF st1 advances_steps [OF p(9)]])
  also note 4(5)
  also have "reaches step ?c m4 c' m'" by (rule reaches_advances [OF st2 rp(2)])
  finally have rc: "reaches step c m c' m'" .
  have "buxn_jit_DIV c = Some c'"
    using p(1-3) 5(1) by (simp add: buxn_jit_DIV_divide buxn_jit_pop_def v_def Let_def)
  then show ?thesis by (rule that [OF _ rp(1) rc])
qed

end

end
