(* ===== verification/Program.thy ===== *)
theory Program
  imports Devices Division
begin

text \<open>
  Whole programs with devices: blocks that jump to, call and return to each other, started through the C entry point of one of them. The main
  theorem of this theory, and of the development, says that they end where the virtual machine ends.
\<close>

section \<open>Conditions on the compiled opcodes\<close>

definition jump_room :: "opname \<Rightarrow> nat" where
  "jump_room oper = (if oper = OP_JCN then 2 else if oper \<in> {OP_JMP, OP_JSR, OP_JCI} then 1 else 0)"

text \<open>The opcode compiled next is simulated: enough registers, two more of them in keep mode, no register pending twice, no jump
  over a value known to be a boolean, and no keep bit on an opcode without modes.\<close>

definition safe_op :: "(u8 \<Rightarrow> opname) \<Rightarrow> buxn_jit_ctx \<Rightarrow> bool" where
  "safe_op decode ctx \<longleftrightarrow>
     (if pc ctx < 256 then cached_total ctx = 0
      else
        let b = vm_memory (jit ctx) (pc ctx); oper = decode b in
        if oper = OP_BRK then \<not> mode_k b
        else
          linear ctx \<and>
          (if is_jump oper then cached_total ctx + shadows b + jump_room oper \<le> 6 \<and>
             (if is_immediate_jump oper then \<not> mode_k b else top_kind ctx b \<inter> {SEM_BOOLEAN, SEM_IMM_JMP} = {})
           else cached_total ctx + shadows b + operands oper \<le> 6))"

text \<open>Along the compilation of a block, which ends within \<open>n\<close> opcodes.\<close>

fun safe_loop :: "(u8 \<Rightarrow> opname) \<Rightarrow> nat \<Rightarrow> buxn_jit_ctx \<Rightarrow> bool" where
  "safe_loop decode 0 ctx \<longleftrightarrow> \<not> compiler ctx"
| "safe_loop decode (Suc n) ctx \<longleftrightarrow>
     (compiler ctx \<longrightarrow> safe_op decode ctx \<and>
       (case buxn_jit_next_opcode decode (Suc 0) ctx of None \<Rightarrow> False | Some ctx' \<Rightarrow> safe_loop decode n ctx'))"

declare safe_loop.simps [simp del]

section \<open>Leaving a block\<close>

lemma mov32_const [simp]:
  "op1_val SLJIT_MOV32 0x10000 = 0x10000"
  by simp

context sljit_control
begin

lemma leave_runs:
  assumes co: "core c m held" and v: "\<And>r. rview c m r (ustk u r)" and rm: "mem_holds c m u"
  obtains c' where "buxn_jit_clear_stack_caches c = Some c'" and "steady c c'"
    and "\<And>b head W. holds_from n b (buxn_jit_finalize (emit (Return (Imm w)) c')) \<Longrightarrow>
      \<exists>m1. runs step head W b (length (code c)) m (op1_val SLJIT_MOV32 w) m1 \<and> in_memory (jit c) m1 u \<and> reg m1 (S 0) = reg m (S 0)"
proof -
  obtain c1 m1 where 1: "buxn_jit_clear_stack_caches c = Some c1" "steady c c1" "emits step c m c1 m1" "settled c1 m1 u"
    "\<forall>q. op_reg q \<longrightarrow> reg m1 q = reg m q" "reg m1 (S 0) = reg m (S 0)" "ctx_frame c c1"
    by (rule exec_settle [where u = u, OF co v rm])
  show ?thesis
  proof (rule that [OF 1(1,2)])
    fix b head W assume h: "holds_from n b (buxn_jit_finalize (emit (Return (Imm w)) c1))"
    then obtain post where post: "ncode b = code c1 @ Return (Imm w) # post"
      by (auto simp: holds_from_def buxn_jit_finalize_def emit_def)
    have "leads step head W b (length (code c)) m b (length (code c1)) m1" by (rule leads_emits [OF 1(2,3) post])
    moreover have "runs step head W b (length (code c1)) m1 (op1_val SLJIT_MOV32 w) m1"
      using run_return [of "length (code c1)" b "Imm w" step head W m1] post by (simp del: op1_val.simps)
    ultimately have "runs step head W b (length (code c)) m (op1_val SLJIT_MOV32 w) m1" by (rule leadsD)
    moreover have "in_memory (jit c) m1 u" using 1(2,4) by (simp add: settled_def steady_def)
    ultimately show "\<exists>m1. runs step head W b (length (code c)) m (op1_val SLJIT_MOV32 w) m1 \<and> in_memory (jit c) m1 u \<and>
        reg m1 (S 0) = reg m (S 0)"
      using 1(6) by blast
  qed
qed

text \<open>At a \<open>BRK\<close>.\<close>

lemma break_runs:
  assumes rp: "represents ctx m u" and p: "256 \<le> pc ctx"
    and b: "decode (vm_memory (jit ctx) (pc ctx)) = OP_BRK" and k: "\<not> mode_k (vm_memory (jit ctx) (pc ctx))"
  obtains ctx' where "\<forall>n. buxn_jit_next_opcode decode (Suc n) ctx = Some ctx'" and "\<not> compiler ctx'"
    and "\<And>blk head W. holds blk ctx' \<Longrightarrow>
      \<exists>m1. runs step head W blk (length (code ctx)) m 0x10000 m1 \<and> in_memory (jit ctx) m1 u \<and> reg m1 (S 0) = reg m (S 0)"
proof -
  have bd: "boundary ctx m (ustk u)" using rp by (simp add: represents_def)
  have nk: "\<not> buxn_jit_op_flag_k c" if "current_opcode c = vm_memory (jit ctx) (pc ctx)" for c
    using flag_modes(3) [of c] k that by auto
  obtain c where c: "do { c \<leftarrow> fetch_opcode ctx; setup_shadow c } = Some c" "wsim c m [] (ustk u)"
    "code c = code ctx" "jit c = jit ctx" "current_opcode c = vm_memory (jit ctx) (pc ctx)"
    using fetch_plain [OF bd nk] by metis
  have rm: "mem_holds c m u" using rp c(4) by (simp add: represents_def)
  obtain c' where 1: "buxn_jit_clear_stack_caches c = Some c'" "steady c c'"
    "\<And>b head W. holds_from 0 b (buxn_jit_finalize (emit (Return (Imm 0x10000)) c')) \<Longrightarrow>
      \<exists>m1. runs step head W b (length (code c)) m (op1_val SLJIT_MOV32 0x10000) m1 \<and> in_memory (jit c) m1 u \<and> reg m1 (S 0) = reg m (S 0)"
    by (rule leave_runs [OF wsimD(1) [OF c(2)] wsimD(5) [OF c(2)] rm]) blast
  show ?thesis
  proof (rule that)
    show "\<forall>n. buxn_jit_next_opcode decode (Suc n) ctx = Some (buxn_jit_finalize (emit (Return (Imm 0x10000)) c'))"
      using c(1,5) 1(1) p b by (auto simp: Option.bind_eq_Some_conv buxn_jit_BRK_def)
    show "\<not> compiler (buxn_jit_finalize (emit (Return (Imm 0x10000)) c'))" by (simp add: buxn_jit_finalize_def)
    show "\<exists>m1. runs step head W blk (length (code ctx)) m 0x10000 m1 \<and> in_memory (jit ctx) m1 u \<and> reg m1 (S 0) = reg m (S 0)"
      if "holds blk (buxn_jit_finalize (emit (Return (Imm 0x10000)) c'))" for blk head W
      using 1(3) [OF that, of head W] unfolding mov32_const c(3,4) .
  qed
qed

text \<open>In the zero page.\<close>

lemma zero_page_runs:
  assumes rp: "represents ctx m u" and p: "pc ctx < 256" and e: "cached_total ctx = 0"
  obtains ctx' where "\<forall>n. buxn_jit_next_opcode decode (Suc n) ctx = Some ctx'" and "\<not> compiler ctx'"
    and "\<And>blk head W. holds blk ctx' \<Longrightarrow> runs step head W blk (length (code ctx)) m (ucast (upc u)) m"
    and "in_memory (jit ctx) m u"
proof -
  have sh: "shape_ok ctx" using rp by (simp add: represents_def boundary_def)
  have "length (act False ctx) + length (act True ctx) = 0"
    using e length_act [OF sh] by (simp add: cached_total_eq [of _ False])
  then have a: "act r ctx = []" for r by (cases r) simp_all
  have im: "in_memory (jit ctx) m u"
    using rp by (intro in_memory_empty) (simp_all add: a represents_def boundary_def)
  then have s: "settled ctx m u" using rp a sh by (simp add: settled_def represents_def boundary_def)
  show ?thesis
  proof (rule that)
    show "\<forall>n. buxn_jit_next_opcode decode (Suc n) ctx = Some (buxn_jit_finalize (emit (Return (Imm (ucast (pc ctx)))) ctx))"
      using p clear_settled [OF s] by simp
    show "\<not> compiler (buxn_jit_finalize (emit (Return (Imm (ucast (pc ctx)))) ctx))" by (simp add: buxn_jit_finalize_def)
    show "runs step head W blk (length (code ctx)) m (ucast (upc u)) m"
      if h: "holds blk (buxn_jit_finalize (emit (Return (Imm (ucast (pc ctx)))) ctx))" for blk head W
    proof -
      obtain post where post: "ncode blk = code ctx @ Return (Imm (ucast (pc ctx))) # post"
        using h by (auto simp: holds_from_def buxn_jit_finalize_def emit_def)
      show ?thesis
        using run_return [of "length (code ctx)" blk "Imm (ucast (pc ctx))" step head W m] post rp
        by (simp add: represents_def del: op1_val.simps)
    qed
  qed (rule im)
qed

end

section \<open>One jump instruction\<close>

context sljit_control
begin

lemma jump_runs:
  assumes rp: "represents ctx m u" and p: "256 \<le> pc ctx" and l: "linear ctx"
    and b: "vm_memory (jit ctx) (pc ctx) = b" and jmp: "is_jump (decode b)"
    and room: "cached_total ctx + shadows b + jump_room (decode b) \<le> 6"
    and kind: "if is_immediate_jump (decode b) then \<not> mode_k b else top_kind ctx b \<inter> {SEM_BOOLEAN, SEM_IMM_JMP} = {}"
    and f: "fetched decode (vm_memory (jit ctx)) u" and r: "in_range decode u"
    and us: "uxn_jump (decode b) b (u\<lparr>upc := upc u + 1\<rparr>) = Some (tr, u')"
  obtains ctx' where "\<forall>n. buxn_jit_next_opcode decode (Suc n) ctx = Some ctx'" and "grown ctx ctx'"
    and "jump_result step ctx m ctx' tr u'"
proof -
  have pu: "pc ctx = upc u" using rp by (simp add: represents_def)
  let ?u = "u\<lparr>upc := upc u + 1\<rparr>"
  obtain c m0 h V where c: "do { c \<leftarrow> fetch_opcode ctx; setup_shadow c } = Some c"
    "starts c m0 h V ?u" "advances step ctx m c m0" "jit c = jit ctx"
    "current_opcode c = vm_memory (jit ctx) (pc ctx)" "cached_total c \<le> cached_total ctx"
    by (rule fetch_starts [OF rp l])
  note d = startsD [OF c(2)]
  have cb: "current_opcode c = b" using c(5) b by simp
  have us': "uxn_jump (decode b) (current_opcode c) ?u = Some (tr, u')" using us cb by simp
  have st: "steady ctx c"
  proof -
    have "every (do { c \<leftarrow> fetch_opcode ctx; setup_shadow c }) (steady ctx)"
      by (auto intro!: every_fetch [of ctx] every_shadow [of ctx])
    then show ?thesis using c(1) by (auto elim: everyD)
  qed
  have mem: "uram u (upc u) = b" using f b pu by (simp add: fetched_def)
  have im: "imm_addr (vm_memory (jit c)) (upc ?u) = imm_addr (uram ?u) (upc ?u)" if "is_immediate_jump (decode b)"
  proof -
    have "upc u + 1 + 1 = upc u + 2" by (simp add: algebra_simps)
    then show ?thesis using f that b pu c(4) by (simp add: fetched_def imm_addr_def add.commute [of 2])
  qed
  have s: "sim c m0 [] [] (ustk ?u)" if "is_immediate_jump (decode b)"
  proof -
    have "\<not> mode_k b" using kind that by simp
    then have "h = []" "\<not> keep_view V" using d(3) c(2) cb by (simp_all add: shadows_def starts_def)
    moreover obtain st where "V = Direct st" using \<open>\<not> keep_view V\<close> by (cases V) simp_all
    ultimately show ?thesis using d(1,5) by simp
  qed
  have ready: "jump_ready (jump_room (decode b)) c m0 h V ?u" if n: "\<not> is_immediate_jump (decode b)"
  proof -
    have "semantics (fst (pop_value (buxn_jit_op_flag_2 c) (esp (buxn_jit_op_flag_r c) c)
        (if buxn_jit_op_flag_r c then rst c else wst c))) = top_kind ctx b"
      using fetched_values [OF c(1)] by (cases "mode_r b") (simp_all add: top_kind_def flag_modes cb)
    moreover have "decode b \<in> {OP_JMP, OP_JCN, OP_JSR}" using n jmp by (auto simp: is_jump_def is_immediate_jump_def)
    then have "\<not> mode_2 b \<longrightarrow> 0 \<le> uint (upc u + 1) + sint (hd (ustk u (mode_r b))) \<and>
        uint (upc u + 1) + sint (hd (ustk u (mode_r b))) < 65536"
      using r mem by (simp add: in_range_def Let_def)
    ultimately show ?thesis
      using c(2,6) room kind n d(3) by (simp add: jump_ready_def flag_modes cb)
  qed
  have "\<exists>c'. (\<forall>nxt. BUXN_JIT_DISPATCH (decode b) nxt c = Some c') \<and> jump_result step c m0 c' tr u'"
  proof -
    consider "decode b = OP_JMP" | "decode b = OP_JSR" | "decode b = OP_JCN" | "decode b = OP_JCI" | "decode b = OP_JMI"
      | "decode b = OP_JSI"
      using jmp by (auto simp: is_jump_def)
    then show ?thesis
    proof cases
      case 1
      then show ?thesis using exec_JMP [of c m0 h V ?u tr u'] ready us' by (simp add: is_immediate_jump_def jump_room_def)
    next
      case 2
      then show ?thesis using exec_JSR [of c m0 h V ?u tr u'] ready us' by (simp add: is_immediate_jump_def jump_room_def)
    next
      case 3
      then show ?thesis using exec_JCN [of c m0 h V ?u tr u'] ready us' by (simp add: is_immediate_jump_def jump_room_def)
    next
      case 4
      then have i: "is_immediate_jump (decode b)" by (simp add: is_immediate_jump_def)
      show ?thesis using exec_JCI [OF s [OF i] d(8,9) _ im [OF i]] us' room c(6) 4 by (simp add: jump_room_def)
    next
      case 5
      then have i: "is_immediate_jump (decode b)" by (simp add: is_immediate_jump_def)
      show ?thesis using exec_JMI [OF s [OF i] d(8,9) im [OF i]] us' 5 by simp
    next
      case 6
      then have i: "is_immediate_jump (decode b)" by (simp add: is_immediate_jump_def)
      show ?thesis using exec_JSI [OF s [OF i] d(8,9) im [OF i]] us' 6 by simp
    qed
  qed
  then obtain c' where c': "\<And>nxt. BUXN_JIT_DISPATCH (decode b) nxt c = Some c'" "jump_result step c m0 c' tr u'" by blast
  have g: "grown c c'"
    using everyD [OF every_opcode [of "\<lambda>_. None" "decode b" c] c'(1)] by simp
  show ?thesis
  proof (rule that)
    show "\<forall>n. buxn_jit_next_opcode decode (Suc n) ctx = Some c'"
      using c(1) c'(1) p cb by (auto simp: Option.bind_eq_Some_conv)
    show "grown ctx c'" by (rule grown_trans [OF steady_grown [OF st] g])
    show "jump_result step ctx m c' tr u'"
      by (rule jump_result_before [OF st _ g _ _ c'(2)]) (use c(3) in \<open>simp_all add: advances_def jit_reg_defs\<close>)
  qed
qed

end

section \<open>Blocks\<close>

definition native_of :: "nat \<times> nat \<Rightarrow> buxn_jit_ctx \<Rightarrow> native_block" where
  "native_of entries ctx =
     \<lparr>ncode = code ctx, nlabels = jump_labels ctx, nlinks = code_links (compiler_id ctx) (jit ctx),
      nhead = fst entries, nbody = snd entries\<rparr>"

text \<open>What \<^verbatim>\<open>buxn_jit_compile\<close> makes of the block at \<open>a\<close>, its jumps linked as the link queue says.\<close>

definition compile_block :: "(u8 \<Rightarrow> opname) \<Rightarrow> buxn_jit \<Rightarrow> nat \<Rightarrow> u16 \<Rightarrow> native_block option" where
  "compile_block decode j cid a =
     (let (entries, ctx) = prologue (initial_ctx j cid a) in map_option (native_of entries) (compile_loop decode 65536 ctx))"

text \<open>The block at \<open>a\<close> was compiled from the program \<open>prog\<close>, by a compiler with nothing queued before, under the conditions above.\<close>

definition good_block ::
  "(u8 \<Rightarrow> opname) \<Rightarrow> (u16 \<Rightarrow> u8) \<Rightarrow> (vm_field \<Rightarrow> uw) \<Rightarrow> bool \<Rightarrow> u16 \<Rightarrow> native_block \<Rightarrow> bool" where
  "good_block decode prog offs le a b \<longleftrightarrow>
     (\<exists>j cid n. in_runtime j \<and> code_links cid j = Map.empty \<and> vm_memory j = prog \<and> vm_offset j = offs \<and> little_endian j = le \<and>
        safe_loop decode n (entry_ctx j cid a) \<and> compile_block decode j cid a = Some b)"

text \<open>The layout of a block.\<close>

lemma prologue_code:
  "code (snd (prologue (initial_ctx j cid a))) =
     [Enter_c,
      Op1 SLJIT_MOV_U8 (Reg BUXN_JIT_S_WSP) (Mem1 BUXN_JIT_S_VM (vm_offset j F_wsp)),
      Op1 SLJIT_MOV_U8 (Reg BUXN_JIT_S_RSP) (Mem1 BUXN_JIT_S_VM (vm_offset j F_rsp)),
      Call_reg_arg False,
      Label,
      Cmp SLJIT_GREATER False (Reg (R 0)) (Imm 0xffff),
      Cmp SLJIT_LESS False (Reg (R 0)) (Imm 0x100),
      Op1 SLJIT_MOV32 (Reg (R 1)) (Reg (R 0)),
      Op1 SLJIT_MOV_P (Reg (R 0)) (Imm (jit_addr j)),
      Icall Fn_translate_jump_addr,
      Icall_reg_arg (R 0),
      Jump None False,
      Label,
      Op1 SLJIT_MOV_U8 (Mem1 BUXN_JIT_S_VM (vm_offset j F_wsp)) (Reg BUXN_JIT_S_WSP),
      Op1 SLJIT_MOV_U8 (Mem1 BUXN_JIT_S_VM (vm_offset j F_rsp)) (Reg BUXN_JIT_S_RSP),
      Return (Reg (R 0)),
      Label,
      Enter_reg_arg,
      Return (Imm 0x10000),
      Label,
      Enter_reg_arg,
      Label]"
  by (simp add: prologue_def initial_ctx_def Let_def emit_jump_def emit_label_def emit_def emit_all_eq
      set_label_def buxn_jit_load_state_def buxn_jit_save_state_def)

lemma prologue_rest:
  "fst (prologue (initial_ctx j cid a)) = (19, 21)"
  "jump_labels (snd (prologue (initial_ctx j cid a))) = [3 \<mapsto> 19, 6 \<mapsto> 12, 5 \<mapsto> 12, 11 \<mapsto> 4]"
  "compiler_id (snd (prologue (initial_ctx j cid a))) = cid"
  by (simp_all add: prologue_def initial_ctx_def Let_def emit_jump_def emit_label_def emit_def emit_all_eq
      set_label_def buxn_jit_load_state_def buxn_jit_save_state_def fun_eq_iff)

text \<open>The rest of a block, from \<open>ctx\<close> on, is part of \<open>b\<close> and was compiled under the conditions.\<close>

definition inside :: "(u8 \<Rightarrow> opname) \<Rightarrow> native_block \<Rightarrow> buxn_jit_ctx \<Rightarrow> bool" where
  "inside decode b ctx \<longleftrightarrow> tidy ctx \<and>
     (\<exists>k n last. safe_loop decode k ctx \<and> compile_loop decode n ctx = Some last \<and> holds b last)"

lemma inside_next:
  assumes i: "inside decode b ctx" and cp: "compiler ctx"
    and nx: "\<forall>n. buxn_jit_next_opcode decode (Suc n) ctx = Some ctx'"
  shows "inside decode b ctx'" and "holds b ctx'" and "grown ctx ctx'"
proof -
  obtain k n l where l: "tidy ctx" "safe_loop decode k ctx" "compile_loop decode n ctx = Some l" "holds b l"
    using i by (auto simp: inside_def)
  have n0: "buxn_jit_next_opcode decode (Suc 0) ctx = Some ctx'" using nx by blast
  have n1: "buxn_jit_next_opcode decode 65536 ctx = Some ctx'" using nx by (simp only: eval_nat_numeral)
  obtain k' where "k = Suc k'" using l(2) cp by (cases k) (simp_all add: safe_loop.simps)
  then have sf: "safe_loop decode k' ctx'" using l(2) cp n0 by (simp add: safe_loop.simps del: buxn_jit_next_opcode.simps)
  obtain n' where n: "n = Suc n'" using l(3) cp by (cases n) (simp_all add: compile_loop.simps)
  then have cl: "compile_loop decode n' ctx' = Some l" using l(3) compile_loop_step [OF cp] n1 by simp
  show g: "grown ctx ctx'" by (rule everyD [OF every_next_opcode n0])
  have t: "tidy ctx'" by (rule grown_code_links(1) [OF g l(1)])
  show "inside decode b ctx'" using t sf cl l(4) by (auto simp: inside_def)
  have "grown ctx' l" by (rule everyD [OF every_compile_loop cl])
  then show "holds b ctx'" by (rule holds_grown [OF _ t l(4)])
qed

lemma inside_safe:
  assumes "inside decode b ctx" and "compiler ctx"
  shows "safe_op decode ctx"
proof -
  obtain k where "safe_loop decode k ctx" using assms(1) by (auto simp: inside_def)
  then show ?thesis using assms(2) by (cases k) (simp_all add: safe_loop.simps)
qed

text \<open>Entering a block.\<close>

lemma good_block_entry:
  assumes g: "good_block decode prog offs le a b"
  obtains j cid where "inside decode b (entry_ctx j cid a)" and "vm_memory j = prog" and "vm_offset j = offs" and "little_endian j = le"
    and "holds b (entry_ctx j cid a)" and "nhead b = 19" and "nbody b = 21"
proof -
  obtain j cid n where j: "in_runtime j" "code_links cid j = Map.empty" "vm_memory j = prog" "vm_offset j = offs" "little_endian j = le"
    "safe_loop decode n (entry_ctx j cid a)" "compile_block decode j cid a = Some b"
    using g by (auto simp: good_block_def)
  obtain l where l: "compile_loop decode 65536 (entry_ctx j cid a) = Some l" "b = native_of (19, 21) l"
    using j(7) prologue_rest(1) [of j cid a] by (auto simp: compile_block_def entry_ctx_def split_beta)
  have t: "tidy (entry_ctx j cid a)" using j(1,2) by (simp add: tidy_def entry_ctx_fields) (simp add: entry_ctx_def prologue_rest)
  have h: "holds b l" by (simp add: l(2) holds_from_def native_of_def)
  have "grown (entry_ctx j cid a) l" by (rule everyD [OF every_compile_loop l(1)])
  then have he: "holds b (entry_ctx j cid a)" by (rule holds_grown [OF _ t h])
  have "inside decode b (entry_ctx j cid a)" unfolding inside_def using t j(6) l(1) h by blast
  then show ?thesis using that j(3-5) he l(2) by (simp add: native_of_def)
qed

lemma good_block_code:
  assumes g: "good_block decode prog offs le a b" and p: "p < 22"
  shows "p < length (ncode b)" and "\<exists>j cid. vm_offset j = offs \<and> ncode b ! p = code (snd (prologue (initial_ctx j cid a))) ! p"
    and "nlinks b p = None" and "nlabels b p = [3 \<mapsto> 19, 6 \<mapsto> 12, 5 \<mapsto> 12, 11 \<mapsto> 4] p"
proof -
  obtain j cid n where j: "in_runtime j" "code_links cid j = Map.empty" "vm_memory j = prog" "vm_offset j = offs"
    "safe_loop decode n (entry_ctx j cid a)" "compile_block decode j cid a = Some b"
    using g by (auto simp: good_block_def)
  obtain l where l: "compile_loop decode 65536 (entry_ctx j cid a) = Some l" "b = native_of (19, 21) l"
    using j(6) prologue_rest(1) [of j cid a] by (auto simp: compile_block_def entry_ctx_def split_beta)
  let ?c = "entry_ctx j cid a"
  have t: "tidy ?c" using j(1,2) by (simp add: tidy_def entry_ctx_fields) (simp add: entry_ctx_def prologue_rest)
  have gr: "grown ?c l" by (rule everyD [OF every_compile_loop l(1)])
  have h: "holds b l" by (simp add: l(2) holds_from_def native_of_def)
  have he: "holds b ?c" by (rule holds_grown [OF gr t h])
  have co: "code ?c = code (snd (prologue (initial_ctx j cid a)))" by (simp add: entry_ctx_def)
  have len: "length (code ?c) = 22" by (simp add: co prologue_code)
  show "p < length (ncode b)" using he p len by (auto simp: holds_from_def)
  show "\<exists>j cid. vm_offset j = offs \<and> ncode b ! p = code (snd (prologue (initial_ctx j cid a))) ! p"
    using he p len j(4) by (intro exI [of _ j] exI [of _ cid]) (auto simp: holds_from_def nth_append co)
  have "code_links (compiler_id ?c) (jit ?c) = Map.empty"
    using j(2) by (simp add: entry_ctx_fields) (simp add: entry_ctx_def prologue_rest)
  then show "nlinks b p = None" using he p len by (simp add: holds_from_def)
  show "nlabels b p = [3 \<mapsto> 19, 6 \<mapsto> 12, 5 \<mapsto> 12, 11 \<mapsto> 4] p"
    using he p len by (simp add: holds_from_def) (simp add: entry_ctx_def prologue_rest)
qed

lemma enter_block:
  assumes g: "good_block decode prog offs le a b" and im: "in_memory j0 m u" and o: "vm_offset j0 = offs"
    and lay: "layout_ok offs (reg m (S 0))" and a: "upc u = a"
  obtains ctx where "represents ctx m u" and "inside decode b ctx" and "compiler ctx"
    and "vm_memory (jit ctx) = prog" and "vm_offset (jit ctx) = offs" and "little_endian (jit ctx) = le"
    and "leads step head W b (nhead b) m b (length (code ctx)) m" and "leads step head W b (nbody b) m b (length (code ctx)) m"
proof -
  obtain j cid where j: "inside decode b (entry_ctx j cid a)" "vm_memory j = prog" "vm_offset j = offs" "little_endian j = le"
    "holds b (entry_ctx j cid a)" "nhead b = 19" "nbody b = 21"
    by (rule good_block_entry [OF g])
  let ?c = "entry_ctx j cid a"
  have len: "length (code ?c) = 22" by (simp add: entry_ctx_def prologue_code)
  note k = good_block_code(1) [OF g]
  have c: "ncode b ! 19 = Label" "ncode b ! 20 = Enter_reg_arg" "ncode b ! 21 = Label"
    using good_block_code(2) [OF g, of 19] good_block_code(2) [OF g, of 20] good_block_code(2) [OF g, of 21]
    by (auto simp: prologue_code)
  have l21: "leads step head W b 21 m b 22 m" using leads_mark [of 21 b step head W m] k [of 21] c(3) by simp
  have "leads step head W b 19 m b 20 m" using leads_mark [of 19 b step head W m] k [of 19] c(1) by simp
  also have "leads step head W b 20 m b 21 m" using leads_mark [of 20 b step head W m] k [of 20] c(2) by simp
  also note l21
  finally have l19: "leads step head W b 19 m b 22 m" .
  have "represents ?c m u"
    using in_memory_cong [OF im, of j m u] o j(3) lay a
    by (intro represents_fresh(1)) (simp_all add: entry_ctx_fields jit_reg_defs)
  then show ?thesis
    using that [of ?c] j l19 l21 len by (simp add: entry_ctx_fields)
qed

section \<open>Running a block\<close>

text \<open>A block that runs returns, after \<open>k\<close> instructions of the virtual machine, either the final result or the address at which
  execution goes on.\<close>

definition block_returns ::
  "(lir \<Rightarrow> mach \<Rightarrow> mach) \<Rightarrow> (u16 \<Rightarrow> uw) \<Rightarrow> (u16 \<Rightarrow> native_block) \<Rightarrow> uxn_devices \<Rightarrow> (u8 \<Rightarrow> opname) \<Rightarrow> (u16 \<Rightarrow> u8) \<Rightarrow>
   (u16 \<Rightarrow> bool) \<Rightarrow> buxn_jit \<Rightarrow> native_block \<Rightarrow> nat \<Rightarrow> mach \<Rightarrow> nat \<Rightarrow> uxn_state \<Rightarrow> bool" where
  "block_returns step head W io decode prog A j0 b p m n u \<longleftrightarrow>
     (\<exists>k r m1 u1. k \<le> n \<and> uxn_exec io decode prog A k u = Some u1 \<and> runs step head W b p m r m1 \<and>
        in_memory j0 m1 u1 \<and> reg m1 (S 0) = reg m (S 0) \<and>
        (stopped decode prog u1 \<and> r = exit_value u1 \<or> 0 < k \<and> A (upc u1) \<and> r = ucast (upc u1)))"

lemma block_returns_before:
  assumes l: "leads step head W b p m b' p' m'" and s0: "reg m' (S 0) = reg m (S 0)"
    and e: "uxn_exec io decode prog A i u = Some u'" and r: "block_returns step head W io decode prog A j0 b' p' m' n u'"
  shows "block_returns step head W io decode prog A j0 b p m (i + n) u"
proof -
  obtain k r m1 u1 where 1: "k \<le> n" "uxn_exec io decode prog A k u' = Some u1" "runs step head W b' p' m' r m1"
    "in_memory j0 m1 u1" "reg m1 (S 0) = reg m' (S 0)"
    "stopped decode prog u1 \<and> r = exit_value u1 \<or> 0 < k \<and> A (upc u1) \<and> r = ucast (upc u1)"
    using r by (auto simp: block_returns_def)
  have "uxn_exec io decode prog A (i + k) u = Some u1" using e 1(2) by (simp add: uxn_exec_add)
  then show ?thesis
    unfolding block_returns_def using 1 leadsD [OF l 1(3)] s0
    by (intro exI [of _ "i + k"] exI [of _ r] exI [of _ m1] exI [of _ u1]) auto
qed

text \<open>The code of an opcode without jumps.\<close>

lemma covered_steady:
  assumes nx: "buxn_jit_next_opcode decode (Suc n) ctx = Some ctx'" and p: "256 \<le> pc ctx"
    and cv: "covered (decode (vm_memory (jit ctx) (pc ctx)))"
  shows "steady ctx ctx'"
proof -
  have "\<not> pc ctx < 256" using p by simp
  then obtain c c' where c: "fetch_opcode ctx = Some c" "setup_shadow c = Some c'"
    "BUXN_JIT_DISPATCH (decode (current_opcode c')) (buxn_jit_next_opcode decode n) c' = Some ctx'"
    using nx by (auto simp: Option.bind_eq_Some_conv)
  have "steady ctx c" by (rule everyD [where P = "steady ctx", OF _ c(1)]) (rule every_fetch [OF steady_refl])
  then have st: "steady ctx c'" by (intro everyD [where P = "steady ctx", OF _ c(2)]) (rule every_shadow)
  have "current_opcode c' = vm_memory (jit ctx) (pc ctx)" using fetched_values [of ctx c'] c(1,2) by simp
  then have "covered (decode (current_opcode c'))" using cv by simp
  then show ?thesis by (intro everyD [where P = "steady ctx", OF _ c(3)]) (rule every_covered [OF _ st])
qed

text \<open>The value that says a program ended is no address.\<close>

lemma break_not_address: "(0x10000 :: uw) \<noteq> ucast (ra :: u16)"
proof -
  have "unat ra < 65536" using unsigned_less [of ra, where 'a = nat] by simp
  from less_imp_neq [OF this] show ?thesis by (simp add: word_unat_eq_iff)
qed

text \<open>Execution is at a compiled opcode of \<open>b\<close>: the context with which it was compiled represents the state.\<close>

definition at_opcode ::
  "(u8 \<Rightarrow> opname) \<Rightarrow> (u16 \<Rightarrow> u8) \<Rightarrow> (vm_field \<Rightarrow> uw) \<Rightarrow> bool \<Rightarrow> native_block \<Rightarrow> buxn_jit_ctx \<Rightarrow> mach \<Rightarrow> uxn_state \<Rightarrow> bool" where
  "at_opcode decode prog offs le b ctx m u \<longleftrightarrow>
     represents ctx m u \<and> inside decode b ctx \<and> compiler ctx \<and>
     vm_memory (jit ctx) = prog \<and> vm_offset (jit ctx) = offs \<and> little_endian (jit ctx) = le"

lemma at_opcodeD:
  assumes "at_opcode decode prog offs le b ctx m u"
  shows "represents ctx m u" and "inside decode b ctx" and "compiler ctx" and "vm_memory (jit ctx) = prog"
    and "vm_offset (jit ctx) = offs" and "little_endian (jit ctx) = le" and "pc ctx = upc u" and "safe_op decode ctx"
    and "tidy ctx" and "layout_ok offs (reg m (S 0))"
  using assms inside_safe [of decode b ctx]
  by (auto simp: at_opcode_def inside_def represents_def boundary_def base_ok_def jit_reg_defs)

lemma enter_block_at:
  assumes g: "good_block decode prog offs le a b" and im: "in_memory j0 m u" and o: "vm_offset j0 = offs"
    and lay: "layout_ok offs (reg m (S 0))" and a: "upc u = a"
  obtains ctx where "at_opcode decode prog offs le b ctx m u"
    and "leads step head W b (nhead b) m b (length (code ctx)) m" and "leads step head W b (nbody b) m b (length (code ctx)) m"
  using enter_block [OF g im o lay a, of step head W] unfolding at_opcode_def by metis

text \<open>The opcode where execution is was compiled under the conditions of \<open>safe_op\<close>.\<close>

lemma at_opcode_safe:
  assumes at: "at_opcode decode prog offs le b ctx m u" and p: "256 \<le> upc u" and nb: "decode (prog (upc u)) \<noteq> OP_BRK"
  shows "256 \<le> pc ctx" and "vm_memory (jit ctx) (pc ctx) = prog (upc u)" and "linear ctx"
    and "is_jump (decode (prog (upc u))) \<Longrightarrow>
      cached_total ctx + shadows (prog (upc u)) + jump_room (decode (prog (upc u))) \<le> 6 \<and>
      (if is_immediate_jump (decode (prog (upc u))) then \<not> mode_k (prog (upc u))
       else top_kind ctx (prog (upc u)) \<inter> {SEM_BOOLEAN, SEM_IMM_JMP} = {})"
    and "\<not> is_jump (decode (prog (upc u))) \<Longrightarrow>
      cached_total ctx + shadows (prog (upc u)) + operands (decode (prog (upc u))) \<le> 6"
proof -
  note d = at_opcodeD [OF at]
  have "\<not> pc ctx < 256" using p d(7) by simp
  then show "linear ctx"
    and "is_jump (decode (prog (upc u))) \<Longrightarrow>
      cached_total ctx + shadows (prog (upc u)) + jump_room (decode (prog (upc u))) \<le> 6 \<and>
      (if is_immediate_jump (decode (prog (upc u))) then \<not> mode_k (prog (upc u))
       else top_kind ctx (prog (upc u)) \<inter> {SEM_BOOLEAN, SEM_IMM_JMP} = {})"
    and "\<not> is_jump (decode (prog (upc u))) \<Longrightarrow>
      cached_total ctx + shadows (prog (upc u)) + operands (decode (prog (upc u))) \<le> 6"
    using d(8) nb by (simp_all add: safe_op_def Let_def d(4,7))
  show "256 \<le> pc ctx" and "vm_memory (jit ctx) (pc ctx) = prog (upc u)" using p by (simp_all add: d(4,7))
qed

context host_calls
begin

text \<open>Where the program ends, the block returns the final result.\<close>

lemma stop_returns:
  assumes at: "at_opcode decode prog offs le b ctx m u" and o: "vm_offset j0 = offs" and st: "stopped decode prog u"
  shows "block_returns step head W io decode prog A j0 b (length (code ctx)) m n u"
proof -
  note d = at_opcodeD [OF at]
  have "\<exists>m1. runs step head W b (length (code ctx)) m (exit_value u) m1 \<and> in_memory (jit ctx) m1 u \<and> reg m1 (S 0) = reg m (S 0)"
  proof (cases "upc u < 256")
    case True
    then have z: "pc ctx < 256" "cached_total ctx = 0" using d(7,8) by (simp_all add: safe_op_def)
    obtain c' where c: "\<forall>n. buxn_jit_next_opcode decode (Suc n) ctx = Some c'"
      "\<And>blk head W. holds blk c' \<Longrightarrow> runs step head W blk (length (code ctx)) m (ucast (upc u)) m" "in_memory (jit ctx) m u"
      using zero_page_runs [OF d(1) z] by metis
    show ?thesis
      using c(2) [OF inside_next(2) [OF d(2,3) c(1)]] c(3) True by (intro exI [of _ m]) (simp add: exit_value_def)
  next
    case False
    then have k: "256 \<le> pc ctx" "decode (vm_memory (jit ctx) (pc ctx)) = OP_BRK" "\<not> mode_k (vm_memory (jit ctx) (pc ctx))"
      using st by (simp_all add: stopped_def d(4,7))
    obtain c' where c: "\<forall>n. buxn_jit_next_opcode decode (Suc n) ctx = Some c'"
      "\<And>blk head W. holds blk c' \<Longrightarrow>
        \<exists>m1. runs step head W blk (length (code ctx)) m 0x10000 m1 \<and> in_memory (jit ctx) m1 u \<and> reg m1 (S 0) = reg m (S 0)"
      using break_runs [where decode = decode, OF d(1) k] by metis
    show ?thesis using c(2) [OF inside_next(2) [OF d(2,3) c(1)], of head W] False by (simp add: exit_value_def)
  qed
  then obtain m1 where m1: "runs step head W b (length (code ctx)) m (exit_value u) m1" "in_memory (jit ctx) m1 u"
    "reg m1 (S 0) = reg m (S 0)" by blast
  have "in_memory j0 m1 u" by (rule in_memory_cong [OF m1(2)]) (use o d(5) in simp_all)
  then show ?thesis
    using m1 st unfolding block_returns_def
    by (intro exI [of _ 0] exI [of _ "exit_value u"] exI [of _ m1] exI [of _ u]) simp
qed

text \<open>The code of an opcode that is no jump reaches the state behind it.\<close>

lemma opcode_reaches:
  assumes rp: "represents ctx m u" and l: "linear ctx" and p: "256 \<le> pc ctx" and b: "vm_memory (jit ctx) (pc ctx) = b"
    and en: "little_endian (jit ctx) = le" and o: "vm_offset (jit ctx) = offs"
    and room: "cached_total ctx + shadows b + operands (decode b) \<le> 6"
    and rb: "uram u (upc u) = b" and nx: "uxn_next io decode u = Some (tr, u')" and nj: "\<not> is_jump (decode b)"
  obtains c' m1 where "\<forall>n. buxn_jit_next_opcode decode (Suc n) ctx = Some c'" and "represents c' m1 u'"
    and "reaches step ctx m c' m1"
proof -
  let ?u = "u\<lparr>upc := upc u + 1\<rparr>"
  note found = that
  have special: thesis
    if oper: "decode b \<in> {OP_DIV, OP_DEI, OP_DEO}"
      and ex: "\<And>c m0 h V. starts c m0 h V ?u \<Longrightarrow> cached_total c + length h \<le> 4 \<Longrightarrow> vm_offset (jit c) = offs \<Longrightarrow> current_opcode c = b \<Longrightarrow>
        \<exists>c' m1. (\<forall>nxt. BUXN_JIT_DISPATCH (decode b) nxt c = Some c') \<and> represents c' m1 u' \<and> reaches step c m0 c' m1"
  proof -
    obtain c m0 h V where c: "do { c \<leftarrow> fetch_opcode ctx; setup_shadow c } = Some c"
      "starts c m0 h V ?u" "advances step ctx m c m0" "jit c = jit ctx"
      "current_opcode c = vm_memory (jit ctx) (pc ctx)" "cached_total c \<le> cached_total ctx"
      by (rule fetch_starts [OF rp l])
    have cb: "current_opcode c = b" using c(5) b by simp
    have "operands (decode b) = 2" using oper by (auto simp: operands_def)
    then have "cached_total c + length h \<le> 4" using room c(6) startsD(3) [OF c(2)] cb by simp
    then obtain c' m1 where 1: "\<And>nxt. BUXN_JIT_DISPATCH (decode b) nxt c = Some c'" "represents c' m1 u'" "reaches step c m0 c' m1"
      using ex [OF c(2) _ _ cb] c(4) o by auto
    have st: "steady ctx c"
    proof -
      have "every (do { c \<leftarrow> fetch_opcode ctx; setup_shadow c }) (steady ctx)"
        by (auto intro!: every_fetch [of ctx] every_shadow [of ctx])
      then show ?thesis using c(1) by (auto elim: everyD)
    qed
    have "\<forall>n. buxn_jit_next_opcode decode (Suc n) ctx = Some c'"
      using c(1) 1(1) p cb by (auto simp: Option.bind_eq_Some_conv)
    then show thesis using found 1(2) reaches_trans [OF reaches_advances [OF st c(3)] 1(3)] by blast
  qed
  have nx': "(case decode b of OP_DIV \<Rightarrow> uxn_div b ?u | OP_DEI \<Rightarrow> uxn_dei io b ?u | OP_DEO \<Rightarrow> uxn_deo io b ?u
      | _ \<Rightarrow> uxn_step decode b u) = Some u'"
    using nx nj rb by (auto simp: uxn_next_def Let_def)
  consider "decode b = OP_DIV" | "decode b = OP_DEI" | "decode b = OP_DEO" | "uxn_step decode b u = Some u'"
    using nx' by (cases "decode b") simp_all
  then show thesis
  proof cases
    case 1
    show thesis
    proof (rule special)
      fix c m0 h V assume "starts c m0 h V ?u" "cached_total c + length h \<le> 4" "current_opcode c = b"
      then obtain c' m1 where "buxn_jit_DIV c = Some c'" "represents c' m1 u'" "reaches step c m0 c' m1"
        using exec_DIV [of c m0 h V ?u u'] nx' 1 by auto
      then show "\<exists>c' m1. (\<forall>nxt. BUXN_JIT_DISPATCH (decode b) nxt c = Some c') \<and> represents c' m1 u' \<and> reaches step c m0 c' m1"
        using 1 by auto
    qed (simp add: 1)
  next
    case 2
    show thesis
    proof (rule special)
      fix c m0 h V assume a: "starts c m0 h V ?u" "cached_total c + length h \<le> 4" "current_opcode c = b" "vm_offset (jit c) = offs"
      then obtain c' m1 where e: "buxn_jit_DEI c = Some c'" "represents c' m1 u'" "advances step c m0 c' m1"
        using exec_DEI [of c m0 h V ?u u'] nx' 2 by auto
      have "steady c c'" using everyD [OF every_device [OF _ steady_refl, of OP_DEI "\<lambda>_. None" c]] e(1) by simp
      then show "\<exists>c' m1. (\<forall>nxt. BUXN_JIT_DISPATCH (decode b) nxt c = Some c') \<and> represents c' m1 u' \<and> reaches step c m0 c' m1"
        using 2 e reaches_advances by auto
    qed (simp add: 2)
  next
    case 3
    show thesis
    proof (rule special)
      fix c m0 h V assume a: "starts c m0 h V ?u" "cached_total c + length h \<le> 4" "current_opcode c = b" "vm_offset (jit c) = offs"
      then obtain c' m1 where e: "buxn_jit_DEO c = Some c'" "represents c' m1 u'" "advances step c m0 c' m1"
        using exec_DEO [of c m0 h V ?u u'] nx' 3 by auto
      have "steady c c'" using everyD [OF every_device [OF _ steady_refl, of OP_DEO "\<lambda>_. None" c]] e(1) by simp
      then show "\<exists>c' m1. (\<forall>nxt. BUXN_JIT_DISPATCH (decode b) nxt c = Some c') \<and> represents c' m1 u' \<and> reaches step c m0 c' m1"
        using 3 e reaches_advances by auto
    qed (simp add: 3)
  next
    case 4
    obtain c' m1 where c: "\<forall>n. buxn_jit_next_opcode decode (Suc n) ctx = Some c'" "represents c' m1 u'" "advances step ctx m c' m1"
      using exec_next_opcode [OF rp l p b en room 4] by blast
    have "steady ctx c'" using covered_steady [of decode 0 ctx c'] c(1) p b uxn_step_covered [OF 4] by metis
    then show thesis using found c reaches_advances by blast
  qed
qed

text \<open>It leads to the opcode behind it.\<close>

lemma opcode_leads:
  assumes at: "at_opcode decode prog offs le b ctx m u" and p: "256 \<le> upc u" "decode (prog (upc u)) \<noteq> OP_BRK"
    and rb: "uram u (upc u) = prog (upc u)" and nx: "uxn_next io decode u = Some (tr, u')" and nj: "\<not> is_jump (decode (prog (upc u)))"
  obtains c' m1 where "\<not> tr" and "at_opcode decode prog offs le b c' m1 u'"
    and "leads step head W b (length (code ctx)) m b (length (code c')) m1" and "reg m1 (S 0) = reg m (S 0)"
proof -
  note d = at_opcodeD [OF at] and s = at_opcode_safe [OF at p]
  have tr: "\<not> tr" using nx nj rb by (auto simp: uxn_next_def Let_def)
  obtain c' m1 where c: "\<forall>n. buxn_jit_next_opcode decode (Suc n) ctx = Some c'" "represents c' m1 u'" "reaches step ctx m c' m1"
    by (rule opcode_reaches [OF d(1) s(3,1,2) d(6,5) s(5) [OF nj] rb nx nj])
  note i = inside_next [OF d(2,3) c(1)]
  have h: "holds_from (length (code ctx)) b c'" by (rule holds_from_mono [OF i(2)]) simp
  have "leads step head W b (length (code ctx)) m b (length (code c')) m1" using c(3) d(9) h by (simp add: reaches_def)
  moreover have "at_opcode decode prog offs le b c' m1 u'"
    using c(2,3) i(1) d grown_constants [OF i(3)] by (simp add: at_opcode_def reaches_def)
  ultimately show ?thesis using that tr c(3) by (simp add: reaches_def)
qed

text \<open>A jump that is not taken does too; one that is taken transfers control to the block of its target, and the code behind it
  is where a call comes back.\<close>

lemma jump_leads:
  assumes at: "at_opcode decode prog offs le b ctx m u" and p: "256 \<le> upc u" "decode (prog (upc u)) \<noteq> OP_BRK"
    and fe: "fetched decode prog u" and r: "in_range decode u"
    and nx: "uxn_next io decode u = Some (tr, u')" and j: "is_jump (decode (prog (upc u)))" and o: "vm_offset j0 = offs"
  obtains (stays) c' m1 where "\<not> tr" and "at_opcode decode prog offs le b c' m1 u'"
      and "leads step head W b (length (code ctx)) m b (length (code c')) m1" and "reg m1 (S 0) = reg m (S 0)"
  | (leaves) c' m1 ra where "tr" and "in_memory j0 m1 u'" and "reg m1 (S 0) = reg m (S 0)"
      and "transfers step head W b (length (code ctx)) m (upc u') ra c' m1"
      and "\<And>m2 u2. ra \<noteq> 0 \<Longrightarrow> mem_base c' = 0 \<Longrightarrow> in_memory j0 m2 u2 \<Longrightarrow> reg m2 (S 0) = reg m1 (S 0) \<Longrightarrow> upc u2 = ra \<Longrightarrow>
        at_opcode decode prog offs le b c' m2 u2"
proof -
  note d = at_opcodeD [OF at] and s = at_opcode_safe [OF at p]
  have rb: "uram u (upc u) = prog (upc u)" using fe by (simp add: fetched_def)
  have uj: "uxn_jump (decode (prog (upc u))) (prog (upc u)) (u\<lparr>upc := upc u + 1\<rparr>) = Some (tr, u')"
    using nx j rb by (simp add: uxn_next_def Let_def)
  have fe': "fetched decode (vm_memory (jit ctx)) u" using fe d(4) by simp
  obtain c' where c: "\<forall>n. buxn_jit_next_opcode decode (Suc n) ctx = Some c'" "grown ctx c'" "jump_result step ctx m c' tr u'"
    by (rule jump_runs [OF d(1) s(1,3,2) j conjunct1 [OF s(4) [OF j]] conjunct2 [OF s(4) [OF j]] fe' r uj])
  note i = inside_next [OF d(2,3) c(1)] and env = grown_constants [OF c(2)]
  have cl: "cleared c'" using c(3) by (simp add: jump_result_def)
  have h: "holds_from (length (code ctx)) b c'" by (rule holds_from_mono [OF i(2)]) simp
  obtain m1 ra where q: "in_memory (jit ctx) m1 u'" "reg m1 (S 0) = reg m (S 0)"
     "if tr
      then transfers step head W b (length (code ctx)) m (upc u') ra c' m1 \<and> (ra \<noteq> 0 \<longrightarrow> pc c' = ra \<and> compiler c' = compiler ctx)
      else leads step head W b (length (code ctx)) m b (length (code c')) m1 \<and> settled c' m1 u' \<and> pc c' = upc u' \<and>
        compiler c' = compiler ctx"
    using c(3) d(9) h unfolding jump_result_def by metis
  show ?thesis
  proof (cases tr)
    case False
    then have "at_opcode decode prog offs le b c' m1 u'"
      using q(3) i(1) d settled_represents(1) [of c' m1 u'] env by (simp add: at_opcode_def)
    then show ?thesis using stays False q by simp
  next
    case True
    have comes_back: "at_opcode decode prog offs le b c' m2 u2"
      if "ra \<noteq> 0" "mem_base c' = 0" "in_memory j0 m2 u2" "reg m2 (S 0) = reg m1 (S 0)" "upc u2 = ra" for m2 u2
    proof -
      have "settled c' m2 u2"
        using cl that(2,4) q(2) d(5,10) in_memory_cong [OF that(3), of "jit c'" m2 u2] o env
        by (simp add: settled_def cleared_def base_ok_def jit_reg_defs)
      then have "represents c' m2 u2" by (rule settled_represents(1)) (use q(3) True that(1,5) in simp)
      then show ?thesis using q(3) True that(1) i(1) d env by (simp add: at_opcode_def)
    qed
    have im: "in_memory j0 m1 u'" by (rule in_memory_cong [OF q(1)]) (use o d(5) in simp_all)
    have tf: "transfers step head W b (length (code ctx)) m (upc u') ra c' m1" using q(3) True by simp
    show ?thesis by (rule leaves [OF True im q(2) tf comes_back])
  qed
qed

text \<open>What a transfer of control makes of what the block of the target returns: from its body it is the result of this block, from
  its head it is compared with the return address.\<close>

lemma transfer_returns:
  assumes tf: "transfers step head W b p m (upc u') ra c' m1" and one: "uxn_exec io decode prog A 1 u = Some u'" and Au: "A (upc u')"
    and im: "in_memory j0 m1 u'" and s0: "reg m1 (S 0) = reg m (S 0)" and ex: "uxn_exec io decode prog A n u' = Some uf"
    and body: "block_returns step head W io decode prog A j0 (W (upc u')) (nbody (W (upc u'))) m1 n u'"
    and hd: "block_returns step head W io decode prog A j0 (W (upc u')) (nhead (W (upc u'))) m1 n u'"
    and comes_back: "\<And>k m2 u2. k \<le> n \<Longrightarrow> ra \<noteq> 0 \<Longrightarrow> mem_base c' = 0 \<Longrightarrow> in_memory j0 m2 u2 \<Longrightarrow> reg m2 (S 0) = reg m1 (S 0) \<Longrightarrow>
      upc u2 = ra \<Longrightarrow> uxn_exec io decode prog A (n - k) u2 = Some uf \<Longrightarrow>
      block_returns step head W io decode prog A j0 b (length (code c')) m2 (n - k) u2"
  shows "block_returns step head W io decode prog A j0 b p m (Suc n) u"
proof -
  let ?t = "W (upc u')"
  from tf consider (out) "runs step head W b p m (ucast (upc u')) m1" | (goto) "leads step head W b p m ?t (nbody ?t) m1"
    | (call) "ra \<noteq> 0" "mem_base c' = 0" "\<forall>r1 m2. runs step head W ?t (nhead ?t) m1 r1 m2 \<longrightarrow>
        (if r1 = ucast ra then leads step head W b p m b (length (code c')) (set_reg (R 0) r1 m2)
         else runs step head W b p m r1 (set_reg (R 0) r1 m2))"
    by (auto simp: transfers_def)
  then show ?thesis
  proof cases
    case out
    then show ?thesis
      using one Au im s0 unfolding block_returns_def
      by (intro exI [of _ 1] exI [of _ "ucast (upc u')"] exI [of _ m1] exI [of _ u']) simp
  next
    case goto
    then show ?thesis using block_returns_before [OF _ s0 one body] by simp
  next
    case call
    obtain k r1 m2 u3 where q: "k \<le> n" "uxn_exec io decode prog A k u' = Some u3" "runs step head W ?t (nhead ?t) m1 r1 m2"
      "in_memory j0 m2 u3" "reg m2 (S 0) = reg m1 (S 0)"
      "stopped decode prog u3 \<and> r1 = exit_value u3 \<or> 0 < k \<and> A (upc u3) \<and> r1 = ucast (upc u3)"
      using hd by (auto simp: block_returns_def)
    let ?m = "set_reg (R 0) r1 m2"
    have imm: "in_memory j0 ?m u3" by (rule in_memory_cong [OF q(4)]) simp_all
    have e3: "uxn_exec io decode prog A (1 + k) u = Some u3" unfolding uxn_exec_add one by (simp add: q(2))
    show ?thesis
    proof (cases "r1 = ucast ra")
      case False
      then have "runs step head W b p m r1 ?m" using call(3) q(3) by auto
      then show ?thesis
        using e3 imm q(1,5,6) s0 unfolding block_returns_def
        by (intro exI [of _ "1 + k"] exI [of _ r1] exI [of _ ?m] exI [of _ u3]) auto
    next
      case True
      have l: "leads step head W b p m b (length (code c')) ?m" using call(3) q(3) True by auto
      have pr: "upc u3 = ra" using q(6) True break_not_address [of ra] by (auto simp: exit_value_def split: if_splits)
      have "uxn_exec io decode prog A (n - k) u3 = Some uf" by (rule uxn_exec_split [OF ex q(1,2)])
      then have "block_returns step head W io decode prog A j0 b (length (code c')) ?m (n - k) u3"
        by (intro comes_back [OF q(1) call(1,2) imm _ pr]) (simp_all add: q(5))
      then have "block_returns step head W io decode prog A j0 b p m (1 + k + (n - k)) u"
        by (intro block_returns_before [OF l _ e3]) (use q(5) s0 in simp)
      then show ?thesis using q(1) by simp
    qed
  qed
qed

lemma block_runs:
  assumes W: "\<And>a. A a \<Longrightarrow> good_block decode prog offs le a (W a)" and o: "vm_offset j0 = offs"
  shows "at_opcode decode prog offs le b ctx m u \<Longrightarrow> uxn_exec io decode prog A n u = Some uf \<Longrightarrow> stopped decode prog uf \<Longrightarrow>
    block_returns step head W io decode prog A j0 b (length (code ctx)) m n u"
proof (induction n arbitrary: ctx m u b rule: less_induct)
  case (less n)
  note at = less.prems(1) and ex = less.prems(2) and fin = less.prems(3)
  show ?case
  proof (cases "stopped decode prog u")
    case True
    then show ?thesis by (rule stop_returns [OF at o])
  next
    case False
    then have "n \<noteq> 0" using ex fin by (cases n) auto
    then obtain n' where n: "n = Suc n'" by (cases n) simp_all
    obtain tr u2 where s: "fetched decode prog u" "in_range decode u" "uxn_next io decode u = Some (tr, u2)" "tr \<longrightarrow> A (upc u2)"
      "uxn_exec io decode prog A n' u2 = Some uf"
      using ex by (auto simp: n Option.bind_eq_Some_conv split: if_splits)
    have one: "uxn_exec io decode prog A 1 u = Some u2" using s(1-4) by simp
    have rb: "uram u (upc u) = prog (upc u)" using s(1) by (simp add: fetched_def)
    have p: "256 \<le> upc u" "decode (prog (upc u)) \<noteq> OP_BRK"
      using False s(3) rb uxn_next_BRK [of decode u io] by (auto simp: stopped_def)
    have onwards: ?thesis if "at_opcode decode prog offs le b c' m1 u2" "reg m1 (S 0) = reg m (S 0)"
        "leads step head W b (length (code ctx)) m b (length (code c')) m1" for c' m1
      using block_returns_before [OF that(3,2) one less.IH [OF _ that(1) s(5) fin]] n by simp
    show ?thesis
    proof (cases "is_jump (decode (prog (upc u)))")
      case False
      show ?thesis by (rule opcode_leads [OF at p rb s(3) False]) (rule onwards)
    next
      case True
      show ?thesis
      proof (rule jump_leads [OF at p s(1-3) True o, where head = head and W = W])
        fix c' m1 assume "at_opcode decode prog offs le b c' m1 u2"
          "leads step head W b (length (code ctx)) m b (length (code c')) m1" "reg m1 (S 0) = reg m (S 0)"
        then show ?thesis by (intro onwards)
      next
        fix c' m1 ra assume leaves: "tr" "in_memory j0 m1 u2" "reg m1 (S 0) = reg m (S 0)"
          "transfers step head W b (length (code ctx)) m (upc u2) ra c' m1"
          "\<And>m2 u3. ra \<noteq> 0 \<Longrightarrow> mem_base c' = 0 \<Longrightarrow> in_memory j0 m2 u3 \<Longrightarrow> reg m2 (S 0) = reg m1 (S 0) \<Longrightarrow>
            upc u3 = ra \<Longrightarrow> at_opcode decode prog offs le b c' m2 u3"
        have Au: "A (upc u2)" and lay: "layout_ok offs (reg m1 (S 0))" using s(4) leaves(1,3) at_opcodeD(10) [OF at] by simp_all
        obtain c2 where c2: "at_opcode decode prog offs le (W (upc u2)) c2 m1 u2"
          "leads step head W (W (upc u2)) (nhead (W (upc u2))) m1 (W (upc u2)) (length (code c2)) m1"
          "leads step head W (W (upc u2)) (nbody (W (upc u2))) m1 (W (upc u2)) (length (code c2)) m1"
          by (rule enter_block_at [OF W [OF Au] leaves(2) o lay refl])
        have br: "block_returns step head W io decode prog A j0 (W (upc u2)) (length (code c2)) m1 n' u2"
          by (rule less.IH [OF _ c2(1) s(5) fin]) (simp add: n)
        have z: "uxn_exec io decode prog A 0 u2 = Some u2" by simp
        show ?thesis unfolding n
        proof (rule transfer_returns [OF leaves(4) one Au leaves(2,3) s(5)])
          show "block_returns step head W io decode prog A j0 (W (upc u2)) (nbody (W (upc u2))) m1 n' u2"
            and "block_returns step head W io decode prog A j0 (W (upc u2)) (nhead (W (upc u2))) m1 n' u2"
            using block_returns_before [OF c2(3) refl z br] block_returns_before [OF c2(2) refl z br] by simp_all
        qed (rule less.IH [OF _ leaves(5) _ fin], simp_all add: n)
      qed
    qed
  qed
qed

text \<open>The same, entered at the head of the block.\<close>

lemma block_runs_head:
  assumes W: "\<And>a. A a \<Longrightarrow> good_block decode prog offs le a (W a)" and g: "good_block decode prog offs le (upc u) b"
    and o: "vm_offset j0 = offs" and im: "in_memory j0 m u" and lay: "layout_ok offs (reg m (S 0))"
    and ex: "uxn_exec io decode prog A n u = Some uf" and fin: "stopped decode prog uf"
  shows "block_returns step head W io decode prog A j0 b (nhead b) m n u"
proof -
  obtain ctx where c: "at_opcode decode prog offs le b ctx m u"
    "leads step head W b (nhead b) m b (length (code ctx)) m"
    by (rule enter_block_at [OF g im o lay refl])
  have z: "uxn_exec io decode prog A 0 u = Some u" by simp
  show ?thesis using block_returns_before [OF c(2) refl z block_runs [OF W o c(1) ex fin]] by simp
qed

end

end
