(* ===== verification/Entry_Point.thy ===== *)
theory Entry_Point
  imports Program
begin

text \<open>
  The C entry point of a block and its trampoline: they load the stack pointers, call the block, translate every address a block
  returns and call the block of that address, until the virtual machine stops; then they store the pointers again.
\<close>

section \<open>Saving the stack pointers\<close>

lemma exit_value_bounds:
  "stopped decode prog u \<Longrightarrow> exit_value u < 0x100 \<or> 0xffff < exit_value u"
  "op1_val SLJIT_MOV32 (exit_value u) = exit_value u"
proof -
  show "stopped decode prog u \<Longrightarrow> exit_value u < 0x100 \<or> 0xffff < exit_value u"
    by (auto simp: exit_value_def word_less_nat_alt)
  show "op1_val SLJIT_MOV32 (exit_value u) = exit_value u"
    using mov32_const mov32_short [of "upc u"] by (simp add: exit_value_def del: op1_val.simps)
qed

context host_calls
begin

text \<open>Storing the stack pointers.\<close>

lemma save_state_runs:
  assumes g: "good_block decode prog offs le a b" and im: "in_memory j0 m u" and o: "vm_offset j0 = offs"
    and lay: "layout_ok offs (reg m (S 0))" and r: "op1_val SLJIT_MOV32 (reg m (R 0)) = reg m (R 0)"
  shows "\<exists>m'. runs step head W b 12 m (reg m (R 0)) m' \<and> vm_state offs m' u \<and> reg m' (S 0) = reg m (S 0)"
proof -
  let ?m = "exec step (saves offs) m"
  note k = good_block_code(1) [OF g]
  have c: "ncode b ! 12 = Label" "ncode b ! 13 = saves offs ! 0" "ncode b ! 14 = saves offs ! 1" "ncode b ! 15 = Return (Reg (R 0))"
    using good_block_code(2) [OF g, of 12] good_block_code(2) [OF g, of 13] good_block_code(2) [OF g, of 14]
      good_block_code(2) [OF g, of 15] by (auto simp: prologue_code saves_def)
  have e: "?m = step (saves offs ! 1) (step (saves offs ! 0) m)" "straight (saves offs ! 0)" "straight (saves offs ! 1)"
    by (simp_all add: saves_def)
  have "leads step head W b 12 m b 13 m" using leads_mark [of 12 b step head W m] k [of 12] c(1) by simp
  also have "leads step head W b 13 m b 14 (step (saves offs ! 0) m)"
    using leads_straight [of 13 b step head W m] k [of 13] c(2) e(2) by simp
  also have "leads step head W b 14 (step (saves offs ! 0) m) b 15 ?m"
    using leads_straight [of 14 b step head W "step (saves offs ! 0) m"] k [of 14] c(3) e(1,3) by simp
  finally have l: "leads step head W b 12 m b 15 ?m" .
  note s = exec_saves [OF im, unfolded o, OF lay]
  have "runs step head W b 15 ?m (op1_val SLJIT_MOV32 (rd ?m (Reg (R 0)))) ?m"
    by (rule run_return [OF _ c(4)]) (use k [of 15] in simp)
  then have "runs step head W b 15 ?m (reg m (R 0)) ?m" using r by (simp add: s(2) del: op1_val.simps)
  then show ?thesis using leadsD [OF l] s by (intro exI [of _ ?m]) simp
qed

section \<open>The trampoline\<close>

lemma trampoline_code:
  assumes g: "good_block decode prog offs le a b"
  shows "ncode b ! 4 = Label" "ncode b ! 5 = Cmp SLJIT_GREATER False (Reg (R 0)) (Imm 0xffff)"
    "ncode b ! 6 = Cmp SLJIT_LESS False (Reg (R 0)) (Imm 0x100)" "ncode b ! 7 = Op1 SLJIT_MOV32 (Reg (R 1)) (Reg (R 0))"
    "\<exists>w. ncode b ! 8 = Op1 SLJIT_MOV_P (Reg (R 0)) (Imm w)" "ncode b ! 9 = Icall Fn_translate_jump_addr"
    "ncode b ! 10 = Icall_reg_arg (R 0)" "ncode b ! 11 = Jump None False"
    "jump_dest W b 5 = Some (b, 12)" "jump_dest W b 6 = Some (b, 12)" "jump_dest W b 11 = Some (b, 4)" "jump_dest W b 3 = Some (b, 19)"
  using good_block_code(2) [OF g, of 4] good_block_code(2) [OF g, of 5] good_block_code(2) [OF g, of 6]
    good_block_code(2) [OF g, of 7] good_block_code(2) [OF g, of 8] good_block_code(2) [OF g, of 9] good_block_code(2) [OF g, of 10]
    good_block_code(2) [OF g, of 11] good_block_code(3,4) [OF g, of 3] good_block_code(3,4) [OF g, of 5]
    good_block_code(3,4) [OF g, of 6] good_block_code(3,4) [OF g, of 11]
  by (auto simp: prologue_code jump_dest_def)

text \<open>A result that is no program address, or one in the zero page, ends it.\<close>

lemma trampoline_ends:
  assumes g: "good_block decode prog offs le a b" and im: "in_memory j0 m u" and o: "vm_offset j0 = offs"
    and lay: "layout_ok offs (reg m (S 0))" and r: "op1_val SLJIT_MOV32 (reg m (R 0)) = reg m (R 0)"
    and e: "reg m (R 0) < 0x100 \<or> 0xffff < reg m (R 0)"
  shows "\<exists>m'. runs step head W b 4 m (reg m (R 0)) m' \<and> vm_state offs m' u \<and> reg m' (S 0) = reg m (S 0)"
proof -
  note k = good_block_code(1) [OF g]
  note c = trampoline_code [OF g]
  have "leads step head W b 4 m b 5 m" using leads_mark [of 4 b step head W m] k [of 4] c(1) by simp
  also have "leads step head W b 5 m b 12 m"
  proof (cases "0xffff < reg m (R 0)")
    case True
    then have "taken (ncode b ! 5) m = Some True" by (simp add: c(2))
    then show ?thesis using leads_jump [of 5 b m W b 12 step head] k [of 5] c(9) by simp
  next
    case False
    then have "taken (ncode b ! 5) m = Some False" "taken (ncode b ! 6) m = Some True" using e by (simp_all add: c(2,3))
    then have "leads step head W b 5 m b 6 m" "leads step head W b 6 m b 12 m"
      using leads_fall [of 5 b m step head W] leads_jump [of 6 b m W b 12 step head] k [of 5] k [of 6] c(10) by simp_all
    then show ?thesis by (rule leads_trans)
  qed
  finally have "leads step head W b 4 m b 12 m" .
  then show ?thesis using save_state_runs [OF g im o lay r, of head W] leadsD by blast
qed

text \<open>Any other is translated and called.\<close>

lemma trampoline_calls:
  assumes g: "good_block decode prog offs le a b" and r: "reg m (R 0) = ucast (t :: u16)" and t: "256 \<le> t"
  obtains m1 where "\<And>r1 m2. runs step head W (W t) (nhead (W t)) m1 r1 m2 \<Longrightarrow> leads step head W b 4 m b 4 (set_reg (R 0) r1 m2)"
    and "mem m1 = mem m" and "\<And>n. reg m1 (S n) = reg m (S n)"
proof -
  note k = good_block_code(1) [OF g]
  note c = trampoline_code [OF g]
  have "unat t < 65536" using unsigned_less [of t, where 'a = nat] by simp
  then have bound: "\<not> 65535 < unat t" by linarith
  have low: "256 \<le> unat t" using t by (simp add: word_le_nat_alt)
  obtain w where w: "step (Op1 SLJIT_MOV32 (Reg (R 1)) (Reg (R 0))) m = set_reg (R 1) w m" "(ucast w :: u32) = ucast (reg m (R 0))"
    using step_mov32 [of "Reg (R 0)" "R 1" m] by auto
  obtain v where v: "ncode b ! 8 = Op1 SLJIT_MOV_P (Reg (R 0)) (Imm v)" using c(5) by blast
  have "(ucast w :: u16) = ucast (ucast w :: u32)" by (rule bit_word_eqI) (auto simp: bit_simps)
  also have "\<dots> = t" unfolding w(2) r by (rule bit_word_eqI) (auto simp: bit_simps)
  finally have wt: "(ucast w :: u16) = t" .
  define ma where "ma = set_reg (R 1) w m"
  define mb where "mb = set_reg (R 0) v ma"
  define m1 where "m1 = set_reg (R 0) (head t) mb"
  have f: "taken (ncode b ! 5) m = Some False" "taken (ncode b ! 6) m = Some False"
    using bound low by (simp_all add: c(2,3) r word_less_nat_alt)
  have st: "step (ncode b ! 7) m = ma" unfolding c(4) w(1) ma_def ..
  have "leads step head W b 4 m b 5 m" using leads_mark [of 4 b step head W m] k [of 4] c(1) by simp
  also have "leads step head W b 5 m b 6 m" using leads_fall [of 5 b m step head W] k [of 5] f(1) by simp
  also have "leads step head W b 6 m b 7 m" using leads_fall [of 6 b m step head W] k [of 6] f(2) by simp
  also have "leads step head W b 7 m b 8 ma"
    using run_straight [of 7 b step head W m] k [of 7] c(4) st by (simp add: leads_def)
  also have "leads step head W b 8 ma b 9 mb"
    using run_straight [of 8 b step head W ma] k [of 8] by (simp add: leads_def v mb_def step_mov)
  also have "leads step head W b 9 mb b 10 m1"
    using run_translate [of 9 b step head W mb] k [of 9] by (simp add: leads_def c(6) m1_def mb_def ma_def wt)
  finally have l: "leads step head W b 4 m b 10 m1" .
  show ?thesis
  proof (rule that)
    fix r1 m2 assume q: "runs step head W (W t) (nhead (W t)) m1 r1 m2"
    have h: "reg m1 (R 0) = head t" by (simp add: m1_def)
    note l
    also have "leads step head W b 10 m1 b 11 (set_reg (R 0) r1 m2)"
      using run_icall [OF _ c(7) h q] k [of 10] by (simp add: leads_def)
    also have "leads step head W b 11 (set_reg (R 0) r1 m2) b 4 (set_reg (R 0) r1 m2)"
      using leads_jump [of 11 b _ W b 4 step head] k [of 11] c(8,11) by simp
    finally show "leads step head W b 4 m b 4 (set_reg (R 0) r1 m2)" .
  qed (simp_all add: m1_def mb_def ma_def)
qed

lemma trampoline_done:
  assumes g: "good_block decode prog offs le a b" and im: "in_memory j0 m u" and o: "vm_offset j0 = offs"
    and lay: "layout_ok offs (reg m (S 0))" and st: "stopped decode prog u" and r: "reg m (R 0) = exit_value u"
    and ex: "uxn_exec io decode prog A n u = Some uf"
  shows "\<exists>m'. runs step head W b 4 m (exit_value uf) m' \<and> vm_state offs m' uf"
proof -
  have "uf = u" using stopped_final [OF st ex] by simp
  moreover have "op1_val SLJIT_MOV32 (reg m (R 0)) = reg m (R 0)" "reg m (R 0) < 0x100 \<or> 0xffff < reg m (R 0)"
    using r exit_value_bounds(2) exit_value_bounds(1) [OF st] by auto
  ultimately show ?thesis using trampoline_ends [OF g im o lay, of head W] r by auto
qed

lemma trampoline_runs:
  assumes W: "\<And>a. A a \<Longrightarrow> good_block decode prog offs le a (W a)" and o: "vm_offset j0 = offs"
    and g: "good_block decode prog offs le a b"
  shows "in_memory j0 m u \<Longrightarrow> layout_ok offs (reg m (S 0)) \<Longrightarrow>
    stopped decode prog u \<and> reg m (R 0) = exit_value u \<or> A (upc u) \<and> reg m (R 0) = ucast (upc u) \<Longrightarrow>
    uxn_exec io decode prog A n u = Some uf \<Longrightarrow> stopped decode prog uf \<Longrightarrow>
    \<exists>m'. runs step head W b 4 m (exit_value uf) m' \<and> vm_state offs m' uf"
proof (induction n arbitrary: m u rule: less_induct)
  case (less n)
  note im = less.prems(1) and lay = less.prems(2) and ex = less.prems(4) and fin = less.prems(5)
  show ?case
  proof (cases "stopped decode prog u \<and> reg m (R 0) = exit_value u")
    case True
    then show ?thesis using trampoline_done [OF g im o lay _ _ ex] by blast
  next
    case False
    then have A: "A (upc u)" and r: "reg m (R 0) = ucast (upc u)" using less.prems(3) by auto
    have ge: "256 \<le> upc u" using False r by (cases "upc u < 256") (auto simp: stopped_def exit_value_def)
    let ?t = "W (upc u)"
    obtain m1 where m1: "\<And>r1 m2. runs step head W ?t (nhead ?t) m1 r1 m2 \<Longrightarrow> leads step head W b 4 m b 4 (set_reg (R 0) r1 m2)"
      "mem m1 = mem m" "\<And>n. reg m1 (S n) = reg m (S n)"
      using trampoline_calls [OF g r ge, of head W] by metis
    have im1: "in_memory j0 m1 u" by (rule in_memory_cong [OF im]) (simp_all add: m1)
    have lay1: "layout_ok offs (reg m1 (S 0))" using lay m1(3) by simp
    obtain k r1 m2 u1 where q: "k \<le> n" "uxn_exec io decode prog A k u = Some u1" "runs step head W ?t (nhead ?t) m1 r1 m2"
      "in_memory j0 m2 u1" "reg m2 (S 0) = reg m1 (S 0)"
      "stopped decode prog u1 \<and> r1 = exit_value u1 \<or> 0 < k \<and> A (upc u1) \<and> r1 = ucast (upc u1)"
      using block_runs_head [OF W W [OF A] o im1 lay1 ex fin, of head] by (auto simp: block_returns_def)
    let ?m = "set_reg (R 0) r1 m2"
    have im2: "in_memory j0 ?m u1" by (rule in_memory_cong [OF q(4)]) simp_all
    have lay2: "layout_ok offs (reg ?m (S 0))" using lay1 q(5) by simp
    have ex1: "uxn_exec io decode prog A (n - k) u1 = Some uf" by (rule uxn_exec_split [OF ex q(1,2)])
    have "\<exists>m'. runs step head W b 4 ?m (exit_value uf) m' \<and> vm_state offs m' uf"
    proof (cases "stopped decode prog u1 \<and> r1 = exit_value u1")
      case True
      then show ?thesis using trampoline_done [OF g im2 o lay2 _ _ ex1] by simp
    next
      case False
      then have h: "0 < k" "A (upc u1)" "r1 = ucast (upc u1)" using q(6) by auto
      then have "n - k < n" using q(1) by simp
      from less.IH [OF this im2 lay2 _ ex1 fin] h(2,3) show ?thesis by simp
    qed
    then show ?thesis using leadsD [OF m1(1) [OF q(3)]] by blast
  qed
qed

section \<open>The C entry point\<close>

lemma entry_runs:
  assumes W: "\<And>a. A a \<Longrightarrow> good_block decode prog offs le a (W a)" and lay: "layout_ok offs (reg m BUXN_JIT_S_VM)"
    and vm: "vm_state offs m u" and A: "A (upc u)" and ex: "uxn_exec io decode prog A n u = Some uf" and fin: "stopped decode prog uf"
  shows "\<exists>m'. runs step head W (W (upc u)) 0 m (exit_value uf) m' \<and> vm_state offs m' uf"
proof -
  let ?b = "W (upc u)"
  define j0 where "j0 = buxn_jit_init 0 prog offs le (\<lambda>_. undefined) (\<lambda>_. undefined)"
  have o: "vm_offset j0 = offs" by (simp add: j0_def buxn_jit_init_def)
  note g = W [OF A]
  note k = good_block_code(1) [OF g]
  define mb where "mb = exec step (loads offs) m"
  have c: "ncode ?b ! 0 = Enter_c" "ncode ?b ! 1 = loads offs ! 0" "ncode ?b ! 2 = loads offs ! 1" "ncode ?b ! 3 = Call_reg_arg False"
    using good_block_code(2) [OF g, of 0] good_block_code(2) [OF g, of 1] good_block_code(2) [OF g, of 2]
      good_block_code(2) [OF g, of 3] by (auto simp: prologue_code loads_def)
  have e: "mb = step (loads offs ! 1) (step (loads offs ! 0) m)" "straight (loads offs ! 0)" "straight (loads offs ! 1)"
    by (simp_all add: loads_def mb_def)
  have "leads step head W ?b 0 m ?b 1 m" using leads_mark [of 0 ?b step head W m] k [of 0] c(1) by simp
  also have "leads step head W ?b 1 m ?b 2 (step (loads offs ! 0) m)"
    using leads_straight [of 1 ?b step head W m] k [of 1] c(2) e(2) by (simp add: numeral_2_eq_2)
  also have "leads step head W ?b 2 (step (loads offs ! 0) m) ?b 3 mb"
    using leads_straight [of 2 ?b step head W "step (loads offs ! 0) m"] k [of 2] c(3) e(1,3) by (simp add: eval_nat_numeral)
  finally have l: "leads step head W ?b 0 m ?b 3 mb" .
  note s = exec_loads [of j0 m u, unfolded o, OF vm, folded mb_def]
  have im: "in_memory j0 mb u" by (rule s(1))
  have layb: "layout_ok offs (reg mb (S 0))" using lay regs_sameD [OF s(3), of "S 0"] by (simp add: jit_reg_defs)
  obtain i r1 m2 u1 where q: "i \<le> n" "uxn_exec io decode prog A i u = Some u1" "runs step head W ?b (nhead ?b) mb r1 m2"
    "in_memory j0 m2 u1" "reg m2 (S 0) = reg mb (S 0)"
    "stopped decode prog u1 \<and> r1 = exit_value u1 \<or> 0 < i \<and> A (upc u1) \<and> r1 = ucast (upc u1)"
    using block_runs_head [OF W g o im layb ex fin, of head] by (auto simp: block_returns_def)
  let ?m = "set_reg (R 0) r1 m2"
  have h: "nhead ?b = 19" using good_block_entry [OF g] by metis
  have "runs step head W ?b 19 mb r1 m2" using q(3) h by simp
  then have l3: "leads step head W ?b 3 mb ?b 4 ?m"
    using run_call [OF _ c(4) trampoline_code(12) [OF g]] k [of 3] by (simp add: leads_def)
  have im2: "in_memory j0 ?m u1" by (rule in_memory_cong [OF q(4)]) simp_all
  have lay2: "layout_ok offs (reg ?m (S 0))" using layb q(5) by simp
  have r2: "stopped decode prog u1 \<and> reg ?m (R 0) = exit_value u1 \<or> A (upc u1) \<and> reg ?m (R 0) = ucast (upc u1)"
    using q(6) by auto
  have "\<exists>m'. runs step head W ?b 4 ?m (exit_value uf) m' \<and> vm_state offs m' uf"
    by (rule trampoline_runs [OF W o g im2 lay2 r2 uxn_exec_split [OF ex q(1,2)] fin])
  then show ?thesis using leadsD [OF leads_trans [OF l l3]] by blast
qed

end

end
