(* ===== verification/Program_Correct.thy ===== *)
theory Program_Correct
  imports Entry_Point Examples
begin

text \<open>
  The correctness of compiled programs, stated outside the interface of the code generator, and a program with a subroutine it is
  applied to.
\<close>

section \<open>Blocks that are good\<close>

text \<open>Whatever the runtime has queued, a block under the conditions is compiled within the fuel.\<close>

lemma block_compiles: "\<exists>b. compile_block decode j cid a = Some b"
proof -
  let ?c = "snd (prologue (initial_ctx j cid a))"
  have "regs_ok ?c []" using initial_regs by simp
  then have "returns (compile_loop decode 65536 ?c) (\<lambda>c. True \<and> compiler_id c = compiler_id ?c \<and> \<not> compiler c)"
    by (rule compile_loop_returns) (use left_bound [of "pc ?c"] in \<open>simp_all add: jit_closed_def\<close>)
  then show ?thesis by (auto simp: returns_def compile_block_def split_beta)
qed

lemma good_block_compiled:
  assumes j: "in_runtime j" "code_links cid j = Map.empty" and s: "safe_loop decode n (entry_ctx j cid a)"
  shows "good_block decode (vm_memory j) (vm_offset j) (little_endian j) a (the (compile_block decode j cid a))"
proof -
  obtain b where "compile_block decode j cid a = Some b" using block_compiles by blast
  then show ?thesis unfolding good_block_def using assms by auto
qed

section \<open>Correctness\<close>

text \<open>
  C1. A compiled program does what the virtual machine does, under these conditions. On the program: every block in use is
  \<open>good_block\<close>, that is, whenever one of its opcodes is compiled, no two cached operands share a register (they do after \<open>DUP\<close> or
  \<open>OVR\<close> outside keep mode, so such a block only qualifies when nothing but \<open>BRK\<close> is compiled behind them), the cached operands,
  the two shadow pointers in keep mode and the operands of the opcode need at most six registers, no jump tests or takes
  an operand known to be a boolean, and opcodes without modes have no keep bit. On the run of the virtual machine
  (\<open>uxn_exec\<close>): it ends, at a \<open>BRK\<close> or in the zero page; no stack runs over or under; executed opcodes have not been modified; relative
  jumps do not wrap around the end of the memory; all jumps go to blocks in use. Then the code, entered through the C entry
  point of the block at the program counter, runs through all blocks, calls, returns, divisions and calls of the device functions,
  comes back with the value the interpreter goes on from, and leaves the stacks, their pointers, the memory, the device page and the
  memory of the host as the virtual machine does. It can do nothing else.
\<close>

theorem program_correct:
  assumes "host_calls step le offs io" and "layout_ok offs (reg m BUXN_JIT_S_VM)" and "vm_state offs m u"
    and "\<And>a. A a \<Longrightarrow> good_block decode prog offs le a (W a)" and "A (upc u)"
    and "uxn_exec io decode prog A n u = Some uf" and "stopped decode prog uf" and "inj head"
  shows "\<exists>m'. runs step head W (W (upc u)) 0 m (exit_value uf) m' \<and> vm_state offs m' uf \<and>
    (\<forall>r m2. runs step head W (W (upc u)) 0 m r m2 \<longrightarrow> r = exit_value uf \<and> m2 = m')"
proof -
  obtain m' where "runs step head W (W (upc u)) 0 m (exit_value uf) m'" "vm_state offs m' uf"
    using host_calls.entry_runs [OF assms(1,4,2,3,5,6,7), of head] by blast
  then show ?thesis using runs_deterministic [OF _ assms(8)] by blast
qed

section \<open>A program with a subroutine, a division and a device\<close>

text \<open>\<^verbatim>\<open>JSI sub #18 DEO BRK @sub #0a #02 DIV JMP2r\<close>.\<close>

definition call_rom :: "u8 list" where
  "call_rom = [0x60, 0, 4, 0x80, 0x18, 0x17, 0, 0x80, 10, 0x80, 2, 0x1b, 0x6c]"

definition call_targets :: "u16 \<Rightarrow> bool" where
  "call_targets a \<longleftrightarrow> a = 0x100 \<or> a = 0x103 \<or> a = 0x107"

lemmas call_eval = safe_op_def top_kind_def is_jump_def is_immediate_jump_def jump_room_def
    jit_eval entry_ctx_def call_rom_def small_lists alloc_eval clear_eval safe_eval mode_r_def mode_2_def block_map_defs

lemma returns_weak_cong: "m = m' \<Longrightarrow> returns m P = returns m' P"
  by simp

lemma imp_weak_cong: "P = P' \<Longrightarrow> (P \<longrightarrow> Q) = (P' \<longrightarrow> Q)"
  by simp

lemma safe_loop_eval:
  "safe_loop decode (Suc n) c \<longleftrightarrow>
     (compiler c \<longrightarrow> safe_op decode c \<and> returns (buxn_jit_next_opcode decode (Suc 0) c) (safe_loop decode n))"
  "safe_loop decode 0 c \<longleftrightarrow> \<not> compiler c"
  by (auto simp: returns_def safe_loop.simps simp del: buxn_jit_next_opcode.simps split: option.splits)

text \<open>What the compiler makes of the three blocks.\<close>

lemma call_safe: "call_targets a \<Longrightarrow> safe_loop example_decode (Suc (Suc (Suc (Suc 0)))) (entry_ctx (example_jit call_rom) 0 a)"
  unfolding call_targets_def
  by (elim disjE; simp add: safe_loop_eval call_eval cong: bind_weak_cong let_weak_cong returns_weak_cong imp_weak_cong)

text \<open>The run, in three parts: the call, the subroutine up to its return, and what the caller does with the result.\<close>

lemma call_bytes: "rom call_rom a =
    (if a = 0x100 then 0x60 else if a = 0x102 then 4 else if a = 0x103 then 0x80 else if a = 0x104 then 0x18 else if a = 0x105 then 0x17
     else if a = 0x107 then 0x80 else if a = 0x108 then 10 else if a = 0x109 then 0x80 else if a = 0x10a then 2 else if a = 0x10b then 0x1b
     else if a = 0x10c then 0x6c else 0)"
  by (simp add: call_rom_def)

lemmas run_eval = fetched_def in_range_def uxn_next_def uxn_jump_def is_jump_def is_immediate_jump_def jump_addr_def imm_addr_def
  call_targets_def uxn_div_def div_bytes_def uxn_quotient_def uxn_deo_def port_poke_def port_output_def example_devices_def uxn_eval
  call_bytes short_bytes_def short_of_def addr_of_def hi_byte_def lo_byte_def fun_eq_iff

abbreviation called :: uxn_state where
  "called \<equiv> (example_state call_rom)\<lparr>ustk := (\<lambda>_. [])(True := [3, 1]), upc := 0x107\<rparr>"

abbreviation divided :: uxn_state where
  "divided \<equiv> (example_state call_rom)\<lparr>ustk := (\<lambda>_. [])(True := [3, 1], False := [5]), upc := 0x10c\<rparr>"

abbreviation called_back :: uxn_state where
  "called_back \<equiv>
     (example_state call_rom)\<lparr>ustk := (\<lambda>_. []), udev := (\<lambda>_. 0)(0x18 := 5), uhost := (\<lambda>_. 0)(0 := 5), upc := 0x106\<rparr>"

lemma call_parts:
  "uxn_exec example_devices example_decode (rom call_rom) call_targets (Suc 0) (example_state call_rom) = Some called"
  "uxn_exec example_devices example_decode (rom call_rom) call_targets (Suc (Suc (Suc 0))) called = Some divided"
  "uxn_exec example_devices example_decode (rom call_rom) call_targets (Suc (Suc (Suc 0))) divided = Some called_back"
  by (simp_all add: run_eval)

lemma call_exec:
  "uxn_exec example_devices example_decode (rom call_rom) call_targets (Suc 0 + (Suc (Suc (Suc 0)) + Suc (Suc (Suc 0))))
     (example_state call_rom) = Some called_back"
  unfolding uxn_exec_add call_parts bind.bind_lunit by (simp only: call_parts)

lemma example_runtime: "in_runtime (example_jit prog)" "code_links cid (example_jit prog) = Map.empty"
proof -
  have "idle (example_jit prog)" unfolding example_jit_def by (rule idle_init)
  then show "in_runtime (example_jit prog)" unfolding idle_def in_runtime_def by blast
  show "code_links cid (example_jit prog) = Map.empty"
    by (simp add: code_links_def jumps_of_def example_jit_def buxn_jit_init_def)
qed

lemma example_vm_state: "vm_state example_offs (example_mach prog) (example_state prog)"
  using example_holds [of prog] by (simp add: vm_state_def) (simp add: example_state_def)

abbreviation call_block :: "u16 \<Rightarrow> native_block" where
  "call_block a \<equiv> the (compile_block example_decode (example_jit call_rom) 0 a)"

theorem program_correct_witness:
  "\<exists>m'. runs (host_step example_offs True) ucast call_block (call_block 0x100) 0 (example_mach call_rom) 0x10000 m' \<and>
    vm_state example_offs m' called_back"
proof -
  have good: "good_block example_decode (rom call_rom) example_offs True a (call_block a)" if "call_targets a" for a
    using good_block_compiled [OF example_runtime call_safe [OF that]] by simp
  have "stopped example_decode (rom call_rom) called_back"
    by (simp add: stopped_def call_rom_def example_decode_def op_table_def mode_k_def)
  moreover have "inj (ucast :: u16 \<Rightarrow> uw)"
    by (rule injI) simp
  ultimately have "\<exists>m'. runs (host_step example_offs True) ucast call_block (call_block 0x100) 0 (example_mach call_rom) 0x10000 m' \<and>
    vm_state example_offs m' called_back \<and>
    (\<forall>r m2. runs (host_step example_offs True) ucast call_block (call_block 0x100) 0 (example_mach call_rom) r m2 \<longrightarrow>
      r = 0x10000 \<and> m2 = m')"
    using program_correct [where head = "ucast :: u16 \<Rightarrow> uw", OF host_machine.host_calls_axioms _ example_vm_state good _ call_exec]
    by (simp add: layout_ok_example call_targets_def exit_value_def)
  then show ?thesis by metis
qed

end
