(* ===== verification/Wiring.thy ===== *)
theory Wiring
  imports Program_Correct
begin

text \<open>
  Every jump of compiled code has somewhere to go. \<open>wired_but D base ctx\<close>: of the code emitted since \<open>base\<close>, every jump outside of
  \<open>D\<close> has a label, which was placed in the code, and every link that was queued names a jump that can be rewritten.
\<close>

section \<open>Jumps and labels\<close>

fun jumping :: "lir \<Rightarrow> bool" where
  "jumping (Jump _ _) = True"
| "jumping (Cmp _ _ _ _) = True"
| "jumping (Call_reg_arg _) = True"
| "jumping _ = False"

fun rewritable :: "lir \<Rightarrow> bool" where
  "rewritable (Jump _ rw) = rw"
| "rewritable (Cmp _ rw _ _) = rw"
| "rewritable (Call_reg_arg rw) = rw"
| "rewritable _ = False"

definition labelled :: "nat \<Rightarrow> buxn_jit_ctx \<Rightarrow> nat \<Rightarrow> bool" where
  "labelled fb ctx p \<longleftrightarrow> (\<exists>l. jump_labels ctx p = Some l \<and> (l = fb \<or> l < length (code ctx) \<and> code ctx ! l = Label))"

definition wired_by :: "queued_link list \<Rightarrow> nat set \<Rightarrow> buxn_jit_ctx \<Rightarrow> buxn_jit_ctx \<Rightarrow> bool" where
  "wired_by ls D base ctx \<longleftrightarrow>
     grown_by ls base ctx \<and> (\<forall>(lt, t, p) \<in> set ls. rewritable (code ctx ! p)) \<and>
     (\<forall>p. length (code base) \<le> p \<and> p < length (code ctx) \<and> p \<notin> D \<and> jumping (code ctx ! p) \<longrightarrow>
        labelled (call_fallback base) ctx p)"

definition wired_but :: "nat set \<Rightarrow> buxn_jit_ctx \<Rightarrow> buxn_jit_ctx \<Rightarrow> bool" where
  "wired_but D base ctx \<longleftrightarrow> (\<exists>ls. wired_by ls D base ctx)"

abbreviation wired :: "buxn_jit_ctx \<Rightarrow> buxn_jit_ctx \<Rightarrow> bool" where
  "wired \<equiv> wired_but {}"

lemma straight_not_jumping: "straight i \<Longrightarrow> \<not> jumping i"
  by (cases i) simp_all

lemma wired_by_grown: "wired_by ls D base ctx \<Longrightarrow> grown_by ls base ctx"
  by (simp add: wired_by_def)

lemma wired_grown: "wired_but D base ctx \<Longrightarrow> grown base ctx"
  unfolding wired_but_def grown_def using wired_by_grown by blast

lemma wired_length: "wired_but D base ctx \<Longrightarrow> length (code base) \<le> length (code ctx)"
  by (rule grown_length [OF wired_grown])

lemma wired_by_mono: "wired_by ls D base ctx \<Longrightarrow> D \<subseteq> D' \<Longrightarrow> wired_by ls D' base ctx"
  by (auto simp: wired_by_def)

lemma wired_mono: "wired_but D base ctx \<Longrightarrow> D \<subseteq> D' \<Longrightarrow> wired_but D' base ctx"
  unfolding wired_but_def using wired_by_mono by blast

lemma link_places: "wired_by ls D base ctx \<Longrightarrow> (lt, t, p) \<in> set ls \<Longrightarrow> p < length (code ctx)"
  by (auto simp: wired_by_def grown_by_def links_within_def)

lemma wired_by_trans:
  assumes 1: "wired_by ls D a b" and 2: "wired_by ks {} b c"
  shows "wired_by (ls @ ks) D a c"
proof -
  obtain "is" where i: "code c = code b @ is" using wired_by_grown [OF 2] by (auto simp: grown_by_def)
  have fb: "call_fallback b = call_fallback a" using wired_by_grown [OF 1] by (simp add: grown_by_def)
  have "\<forall>(lt, t, p) \<in> set (ls @ ks). rewritable (code c ! p)"
    using 1 2 link_places [OF 1] by (auto simp: wired_by_def i nth_append)
  moreover have "labelled (call_fallback a) c p"
    if "length (code a) \<le> p" "p < length (code c)" "p \<notin> D" "jumping (code c ! p)" for p
  proof (cases "p < length (code b)")
    case True
    then have "labelled (call_fallback a) b p" using that 1 by (simp add: wired_by_def i nth_append)
    moreover have "jump_labels c p = jump_labels b p" using True wired_by_grown [OF 2] by (simp add: grown_by_def)
    ultimately show ?thesis by (auto simp: labelled_def i nth_append)
  next
    case False
    then show ?thesis using that 2 fb by (simp add: wired_by_def)
  qed
  ultimately show ?thesis
    unfolding wired_by_def using grown_by_trans [OF wired_by_grown [OF 1] wired_by_grown [OF 2]] by blast
qed

lemma wired_trans: "wired_but D a b \<Longrightarrow> wired b c \<Longrightarrow> wired_but D a c"
  unfolding wired_but_def using wired_by_trans by blast

lemma steady_wired_by:
  assumes "steady base ctx"
  shows "wired_by [] D base ctx"
proof -
  obtain "is" where i: "code ctx = code base @ is" "list_all straight is" using assms by (auto simp: steady_def)
  have "grown_by [] base ctx" using assms by (auto simp: steady_def grown_by_def)
  moreover have "\<not> jumping (code ctx ! p)" if "length (code base) \<le> p" "p < length (code ctx)" for p
    using that i by (simp add: nth_append list_all_length straight_not_jumping)
  ultimately show ?thesis by (auto simp: wired_by_def)
qed

lemma steady_wired: "steady base ctx \<Longrightarrow> wired base ctx"
  unfolding wired_but_def using steady_wired_by by blast

lemma wired_refl [simp]: "wired ctx ctx" "wired_by [] D ctx ctx"
  by (simp_all add: steady_wired steady_wired_by)

lemma wired_by_emit:
  assumes "wired_by ls D base ctx" and "jumping i \<longrightarrow> length (code ctx) \<in> D"
  shows "wired_by ls D base (emit i ctx)"
proof -
  have "grown_by ls base (emit i ctx)" using grown_by_emit_all [OF wired_by_grown [OF assms(1)], of "[i]"] by simp
  then show ?thesis
    using assms link_places [OF assms(1)] by (auto simp: wired_by_def labelled_def emit_def nth_append less_Suc_eq)
qed

lemma wired_emit: "wired_but D base ctx \<Longrightarrow> jumping i \<longrightarrow> length (code ctx) \<in> D \<Longrightarrow> wired_but D base (emit i ctx)"
  unfolding wired_but_def using wired_by_emit by blast

lemma wired_emit_all: "wired_but D base ctx \<Longrightarrow> list_all (\<lambda>i. \<not> jumping i) is \<Longrightarrow> wired_but D base (emit_all is ctx)"
  by (induction "is" arbitrary: ctx) (simp_all add: wired_emit)

text \<open>Setting the label of a jump that has none.\<close>

lemma wired_by_set:
  assumes "wired_by ls (insert p D) base ctx" and "length (code base) \<le> p"
    and "l = call_fallback base \<or> l < length (code ctx) \<and> code ctx ! l = Label"
  shows "wired_by ls D base (set_label p l ctx)"
  using assms by (auto simp: wired_by_def labelled_def set_label_def grown_by_def)

lemma wired_by_label:
  assumes "wired_by ls (insert p D) base ctx" and "length (code base) \<le> p" and "l = length (code ctx)"
  shows "wired_by ls D base (set_label p l (emit Label ctx))"
  by (rule wired_by_set [OF wired_by_emit [OF assms(1)] assms(2)]) (simp_all add: emit_def assms(3))

lemma wired_label: "wired_but (insert p D) base ctx \<Longrightarrow> length (code base) \<le> p \<Longrightarrow> l = length (code ctx) \<Longrightarrow>
    wired_but D base (set_label p l (emit Label ctx))"
  unfolding wired_but_def using wired_by_label by blast

lemma wired_by_link:
  assumes "wired_by [] D base ctx" and "length (code base) \<le> p" and "p < length (code ctx)" and "rewritable (code ctx ! p)"
  shows "wired_by [(lt, t, p)] D base (queue_link lt t p ctx)"
  using assms
  by (auto simp: wired_by_def grown_by_def links_within_def labelled_def queue_link_def link_jit_def split_beta Let_def)

lemma wired_by_fields [simp]:
  "wired_by ls D base (ctx\<lparr>mem_base := b\<rparr>) = wired_by ls D base ctx"
  "wired_by ls D base (ctx\<lparr>compiler := on\<rparr>) = wired_by ls D base ctx"
  "wired_by ls D base (buxn_jit_finalize ctx) = wired_by ls D base ctx"
  by (simp_all add: wired_by_def grown_by_def labelled_def buxn_jit_finalize_def)

lemma wired_fields [simp]:
  "wired_but D base (ctx\<lparr>mem_base := b\<rparr>) = wired_but D base ctx" "wired_but D base (ctx\<lparr>compiler := on\<rparr>) = wired_but D base ctx"
  "wired_but D base (buxn_jit_finalize ctx) = wired_but D base ctx"
  by (simp_all add: wired_but_def)

section \<open>The jumps the compiler emits\<close>

lemma emitted:
  "code (emit i ctx) = code ctx @ [i]" "call_fallback (emit i ctx) = call_fallback ctx"
  "call_fallback (set_label p l ctx) = call_fallback ctx"
  by (simp_all add: emit_def set_label_def)

lemmas wired_by_rules = wired_by_emit wired_by_label wired_by_link

lemma jump_abs_wired: "wired ctx (buxn_jit_jump_abs target ra ctx)"
proof (cases "SEM_CONST \<in> semantics target")
  case False
  then show ?thesis by (simp add: buxn_jit_jump_abs_def wired_emit)
next
  case c: True
  show ?thesis
  proof (cases "ra = 0")
    case True
    have "wired_by [(LINK_TO_BODY, const_value target, length (code ctx))] {} ctx (buxn_jit_jump_abs target ra ctx)"
      by (simp add: buxn_jit_jump_abs_def c True emit_jump_def emit_label_def Let_def)
        (auto intro!: wired_by_rules simp: nth_append emitted)
    then show ?thesis unfolding wired_but_def by blast
  next
    case False
    have "wired_by [(LINK_TO_HEAD, const_value target, length (code ctx) + (if SEM_IMM_JMP \<in> semantics target then 0 else 1))]
        {} ctx (buxn_jit_jump_abs target ra ctx)"
      using False
      by (simp add: buxn_jit_jump_abs_def c emit_jump_def emit_label_def Let_def)
        (auto intro!: wired_by_rules wired_by_set simp: nth_append emitted)
    then show ?thesis unfolding wired_but_def by blast
  qed
qed

text \<open>The steady operations.\<close>

lemma every_wired:
  assumes "\<And>P. (\<And>c. steady ctx c \<Longrightarrow> P c) \<Longrightarrow> every m P" and "wired_but D base ctx" and "\<And>c. wired_but D base c \<Longrightarrow> Q c"
  shows "every m Q"
  by (rule assms(1)) (use assms(2,3) wired_trans steady_wired in blast)

lemma every2_wired:
  assumes "\<And>P. (\<And>v c. steady ctx c \<Longrightarrow> P v c) \<Longrightarrow> every2 m P" and "wired_but D base ctx" and "\<And>v c. wired_but D base c \<Longrightarrow> Q v c"
  shows "every2 m Q"
  by (rule assms(1)) (use assms(2,3) wired_trans steady_wired in blast)

lemmas every_wired_rules =
  every2_wired [OF every_pop [OF steady_refl]] every2_wired [OF every_pop_ex [OF steady_refl]]
  every2_wired [OF every_alloc [OF steady_refl]] every_wired [OF every_push [OF steady_refl]]
  every_wired [OF every_push_ex [OF steady_refl]] every_wired [OF every_return_addr [OF steady_refl]]
  every_wired [OF every_clear [OF steady_refl]]

lemma every_wired_after: "wired_but D base c \<Longrightarrow> every m (wired c) \<Longrightarrow> (\<And>c'. wired_but D base c' \<Longrightarrow> P c') \<Longrightarrow> every m P"
  using wired_trans by (auto simp: every_def)

lemma wired_codes [simp]:
  "wired_but D base ctx \<Longrightarrow> wired_but D base (buxn_jit_save_state ctx)"
  "wired_but D base ctx \<Longrightarrow> wired_but D base (buxn_jit_load_state ctx)"
  "wired_but D base ctx \<Longrightarrow> wired_but D base (buxn_jit_set_mem_base f ctx)"
  "wired_but D base ctx \<Longrightarrow> wired_but D base (snd (buxn_jit_immediate_jump_target ctx))"
  by (meson wired_trans steady_wired steady_refl steady_codes steady_mem_base)+

text \<open>A jump over code that was compiled after it.\<close>

lemma every_skip:
  assumes "wired base c" and "every m (wired (emit i c))"
  shows "every m (\<lambda>c'. wired base (set_label (length (code c)) (length (code c')) (emit Label c')))"
proof (rule every_mono [OF assms(2)])
  fix c' assume c': "wired (emit i c) c'"
  have "wired_but {length (code c)} base (emit i c)" by (rule wired_emit [OF wired_mono [OF assms(1)]]) simp_all
  then have "wired_but {length (code c)} base c'" using c' wired_trans by blast
  then show "wired base (set_label (length (code c)) (length (code c')) (emit Label c'))"
    using wired_length [OF assms(1)] by (intro wired_label) simp_all
qed

lemma every_jump_wired:
  assumes nxt: "\<And>c. every (nxt c) (wired c)" and "wired base ctx"
  shows "every (buxn_jit_jump nxt target ra ctx) (wired base)"
proof -
  have abs: "wired base (buxn_jit_jump_abs t ra c)" if "wired base c" for t c
    using that jump_abs_wired wired_trans by blast
  have skip: "every (nxt (emit i c)) (\<lambda>c1. every (buxn_jit_clear_stack_caches (c1\<lparr>compiler := on\<rparr>))
      (\<lambda>c'. wired base (set_label (length (code c)) (length (code c')) (emit Label c'))))" if "wired base c" for i on c
  proof -
    have "every (do { c1 \<leftarrow> nxt (emit i c); buxn_jit_clear_stack_caches (c1\<lparr>compiler := on\<rparr>) }) (wired (emit i c))"
      by (auto intro!: every_wired_after [OF wired_refl(1) nxt] every_wired [OF every_clear [OF steady_refl], where base = "emit i c"])
    then show ?thesis using every_skip [OF that] by fastforce
  qed
  show ?thesis
    unfolding buxn_jit_jump_def Let_def emit_jump_def emit_label_def
    by (auto intro!: every_wired_rules [where base = base] abs wired_emit skip assms(2))
qed

lemma every_conditional_wired:
  assumes "\<And>c. every (nxt c) (wired c)" and "wired base ctx"
  shows "every (buxn_jit_conditional_jump nxt cnd target ctx) (wired base)"
proof -
  have skip: "every (buxn_jit_jump nxt target 0 (emit i c))
      (\<lambda>c'. wired base (set_label (length (code c)) (length (code c')) (emit Label c')))" if "wired base c" for i c
    by (rule every_skip [OF that every_jump_wired [OF assms(1) wired_refl(1)]])
  show ?thesis
    unfolding buxn_jit_conditional_jump_def Let_def emit_jump_def emit_label_def
    by (auto intro!: every_wired_rules [where base = base] wired_emit skip assms(2) simp del: length_code_emit)
qed

section \<open>All opcodes\<close>

lemma every_opcode_wired:
  assumes "\<And>c. every (nxt c) (wired c)"
  shows "every (BUXN_JIT_DISPATCH oper nxt ctx) (wired ctx)"
proof (cases "covered oper")
  case True
  show ?thesis by (rule every_mono [OF every_covered [OF True steady_refl]]) (rule steady_wired)
next
  case False
  note rules = every_wired_rules [where base = ctx and D = "{}"]
  have j: "every (buxn_jit_jump nxt target ra c) P" if "wired ctx c" "\<And>c'. wired ctx c' \<Longrightarrow> P c'" for target ra c P
    using every_jump_wired [OF assms that(1)] that(2) by (auto simp: every_def)
  note cj = every_conditional_wired [OF assms]
  have div: "wired ctx (set_label e (length (code (emit i5 (set_label (length (code c)) z (emit Label (emit i3 d))))))
      (emit Label (emit i5 (set_label (length (code c)) z (emit Label (emit i3 d))))))"
    if "wired ctx c" "z = length (code (emit i3 d))" "e = length (code d)" "\<not> jumping i5"
      "length (code c) \<le> length (code d)" "\<And>D. length (code c) \<in> D \<Longrightarrow> wired_but D ctx c \<Longrightarrow> wired_but D ctx d"
    for c d z e i3 i5
  proof -
    have le: "length (code ctx) \<le> length (code c)" by (rule wired_length [OF that(1)])
    have "wired_but {length (code c), e} ctx d" by (rule that(6)) (use wired_mono [OF that(1)] in simp_all)
    then have "wired_but {length (code c), e} ctx (emit i3 d)" by (rule wired_emit) (simp add: that(3))
    then have "wired_but {e} ctx (set_label (length (code c)) z (emit Label (emit i3 d)))"
      using le that(2) by (intro wired_label) simp_all
    then have "wired_but {e} ctx (emit i5 (set_label (length (code c)) z (emit Label (emit i3 d))))"
      by (rule wired_emit) (simp add: that(4))
    then show ?thesis using le that(3,5) by (intro wired_label) simp_all
  qed
  from False consider "oper = OP_BRK" | "oper = OP_JMP" | "oper = OP_JCN" | "oper = OP_JSR" | "oper = OP_JCI" | "oper = OP_JMI"
    | "oper = OP_JSI" | "oper = OP_DEI" | "oper = OP_DEO" | "oper = OP_DIV"
    by (auto simp: covered_def)
  then show ?thesis
  proof cases
    case 10
    then show ?thesis
      by (auto simp: buxn_jit_DIV_def Let_def emit_jump_def emit_label_def simp del: length_code_emit intro!: rules div wired_emit)
        simp
  qed (auto simp: buxn_jit_BRK_def buxn_jit_JMP_def buxn_jit_JCN_def buxn_jit_JSR_def buxn_jit_JCI_def buxn_jit_JMI_def
        buxn_jit_JSI_def buxn_jit_DEI_def buxn_jit_DEO_def Let_def emit_jump_def emit_label_def host_call_code_def
        device_store_code_def intro!: rules j cj wired_emit wired_codes)
qed

lemma every_next_wired: "every (buxn_jit_next_opcode decode fuel ctx) (wired ctx)"
proof (induction fuel arbitrary: ctx)
  case 0
  then show ?case by simp
next
  case (Suc fuel)
  have d: "every (BUXN_JIT_DISPATCH oper (buxn_jit_next_opcode decode fuel) c) (wired ctx)" if "wired ctx c" for oper c
    by (rule every_wired_after [OF that every_opcode_wired]) (rule Suc.IH)
  show ?case
    by (auto intro!: every_wired_rules [where base = ctx and D = "{}"]
        every_wired [OF every_fetch [OF steady_refl], where base = ctx and D = "{}"]
        every_wired [OF every_shadow [OF steady_refl], where base = ctx and D = "{}"] d wired_emit)
qed

lemma every_compile_wired: "every (compile_loop decode n ctx) (wired ctx)"
proof (induction n arbitrary: ctx)
  case 0
  then show ?case by (simp add: compile_loop.simps [of decode 0])
next
  case (Suc n)
  have "every (compile_loop decode n c) (wired ctx)" if "wired ctx c" for c
    by (rule every_wired_after [OF that Suc.IH])
  then have "every (buxn_jit_next_opcode decode 65536 ctx) (\<lambda>c. every (compile_loop decode n c) (wired ctx))"
    by (rule every_mono [OF every_next_wired])
  then show ?case by (simp add: compile_loop.simps [of decode "Suc n"])
qed

section \<open>Blocks\<close>

definition wired_block :: "native_block \<Rightarrow> bool" where
  "wired_block b \<longleftrightarrow>
     (\<forall>p < length (ncode b). jumping (ncode b ! p) \<longrightarrow>
        (\<exists>l. nlabels b p = Some l \<and> l < length (ncode b) \<and> ncode b ! l = Label)) \<and>
     (\<forall>p lt t. nlinks b p = Some (lt, t) \<longrightarrow> p < length (ncode b) \<and> rewritable (ncode b ! p)) \<and>
     nhead b < length (ncode b) \<and> ncode b ! nhead b = Label \<and> nbody b < length (ncode b) \<and> ncode b ! nbody b = Label"

lemma entry_jumps:
  assumes "p < 22" and "jumping (code (entry_ctx j cid a) ! p)"
  shows "\<exists>l < 22. jump_labels (entry_ctx j cid a) p = Some l \<and> code (entry_ctx j cid a) ! l = Label"
  using assms
  by (auto simp: entry_ctx_def prologue_code prologue_rest nth_Cons' split: if_splits)

lemma block_is_wired:
  assumes "in_runtime j" and "code_links cid j = Map.empty" and "compile_block decode j cid a = Some b"
  shows "wired_block b"
proof -
  let ?c = "entry_ctx j cid a"
  obtain l where l: "compile_loop decode 65536 ?c = Some l" "b = native_of (19, 21) l"
    using assms(3) prologue_rest(1) [of j cid a] by (auto simp: compile_block_def entry_ctx_def split_beta)
  have "wired ?c l" by (rule everyD [OF every_compile_wired l(1)])
  then obtain ls where w: "wired_by ls {} ?c l" by (auto simp: wired_but_def)
  have len: "length (code ?c) = 22" by (simp add: entry_ctx_def prologue_code)
  have g: "grown_by ls ?c l" by (rule wired_by_grown [OF w])
  then obtain "is" where i: "code l = code ?c @ is" by (auto simp: grown_by_def)
  have fb: "call_fallback ?c = 16" "code ?c ! 16 = Label"
    by (simp_all add: entry_ctx_def prologue_code)
      (simp add: prologue_def initial_ctx_def Let_def emit_jump_def emit_label_def emit_def emit_all_eq
        set_label_def buxn_jit_load_state_def buxn_jit_save_state_def)
  have b: "ncode b = code l" "nlabels b = jump_labels l" "nlinks b = code_links (compiler_id l) (jit l)" "nhead b = 19" "nbody b = 21"
    by (simp_all add: l(2) native_of_def)
  have "code_links (compiler_id ?c) (jit ?c) = Map.empty"
    using assms(2) by (simp add: entry_ctx_fields) (simp add: entry_ctx_def prologue_rest)
  then have links: "nlinks b = link_map ls"
    using grown_by_links(2) [OF g] assms(1) by (simp add: b entry_ctx_fields)
  have "\<exists>q. nlabels b p = Some q \<and> q < length (ncode b) \<and> ncode b ! q = Label"
    if p: "p < length (ncode b)" "jumping (ncode b ! p)" for p
  proof (cases "p < 22")
    case True
    then have "jump_labels l p = jump_labels ?c p" using g len by (simp add: grown_by_def)
    moreover have "jumping (code ?c ! p)" using p(2) True by (simp add: b i nth_append len)
    ultimately show ?thesis using entry_jumps [OF True, of j cid a] by (auto simp: b i nth_append len)
  next
    case False
    then have "labelled 16 l p" using w p len fb(1) by (simp add: wired_by_def b)
    moreover have "code l ! 16 = Label" "16 < length (code l)" using fb(2) by (simp_all add: i nth_append len)
    ultimately show ?thesis by (auto simp: labelled_def b)
  qed
  moreover have "p < length (ncode b) \<and> rewritable (ncode b ! p)" if "nlinks b p = Some (lt, t)" for p lt t
  proof -
    have "(lt, t, p) \<in> set ls" using that by (auto simp: links link_map_def dest!: map_of_SomeD)
    then show ?thesis using w link_places [OF w] by (auto simp: wired_by_def b)
  qed
  moreover have "code ?c ! 19 = Label" "code ?c ! 21 = Label" by (simp_all add: entry_ctx_def prologue_code)
  ultimately show ?thesis by (simp add: wired_block_def) (simp add: b i nth_append len)
qed

text \<open>
  C9. The code of a block is well formed: every jump, compare and call has a label, which stands in the code of the block (so
  there is somewhere to go before the jump is linked), every link queued for the block names an instruction of it that is
  rewritable, and the two entries of the block are labels of it. This holds for every program.
\<close>

theorem compiled_block_wired:
  assumes "in_runtime j" and "code_links cid j = Map.empty" and "compile_block decode j cid a = Some b"
  shows "wired_block b"
  by (rule block_is_wired [OF assms])

lemma compiled_block_wired_witness: "wired_block (call_block 0x100)"
proof -
  obtain b where "compile_block example_decode (example_jit call_rom) 0 0x100 = Some b" using block_compiles by blast
  then show ?thesis using compiled_block_wired [OF example_runtime] by simp
qed

end
