(* ===== verification/Linking.thy ===== *)
theory Linking
  imports Wiring
begin

text \<open>
  The runtime and the compiled programs together: the blocks a call of \<^verbatim>\<open>buxn_jit\<close> leaves behind are the ones the other theories
  are about, with every jump that was queued for linking patched to the block of its target.
\<close>

section \<open>Compilers and their links\<close>

definition same_vm :: "buxn_jit \<Rightarrow> buxn_jit \<Rightarrow> bool" where
  "same_vm j j' \<longleftrightarrow> vm_memory j' = vm_memory j \<and> vm_offset j' = vm_offset j \<and> little_endian j' = little_endian j"

lemma same_vm_refl [simp]: "same_vm j j"
  by (simp add: same_vm_def)

lemma same_vm_trans [trans]: "same_vm a b \<Longrightarrow> same_vm b c \<Longrightarrow> same_vm a c"
  by (simp add: same_vm_def)

lemma same_vm_ops [simp]:
  "same_vm j (link_jit lt t jump cid j)" "same_vm j (set_code b f h bd off sz j)" "same_vm j (enqueue_pool e j)"
  "same_vm j (snd (buxn_jit_queue_block j p))" "same_vm j (j\<lparr>compile_queue := q\<rparr>)"
proof -
  have a: "same_vm j (snd (buxn_jit_alloc_entry j))" for j
    by (auto simp: same_vm_def buxn_jit_alloc_entry_def split: prod.splits option.splits)
  have q: "same_vm j (snd (buxn_jit_queue_block j p))" for j p
    using a by (auto simp: same_vm_def buxn_jit_queue_block_def new_block_def enqueue_compile_def enqueue_cleanup_def
      update_entry_def Let_def split_beta split: option.splits)
  show "same_vm j (snd (buxn_jit_queue_block j p))" by (rule q)
  show "same_vm j (link_jit lt t jump cid j)"
    using a q by (simp add: same_vm_def link_jit_def enqueue_link_def update_entry_def Let_def split_beta)
qed (simp_all add: same_vm_def set_code_def enqueue_pool_def Let_def split_beta)

text \<open>\<open>fresh U j cq lq\<close>: the compilers that wait in \<open>cq\<close> differ from each other and from the ones in use, \<open>U\<close>, and only
  these have queued links.\<close>

abbreviation comp :: "buxn_jit \<Rightarrow> nat \<Rightarrow> nat" where
  "comp j e \<equiv> ecompiler (entry_store j e)"

definition fresh :: "nat set \<Rightarrow> buxn_jit \<Rightarrow> nat list \<Rightarrow> nat list \<Rightarrow> bool" where
  "fresh U j cq lq \<longleftrightarrow> distinct (map (comp j) cq) \<and> (\<forall>e \<in> set cq. comp j e < compilers_created j) \<and>
     (\<forall>c \<in> U. c < compilers_created j \<and> c \<notin> comp j ` set cq) \<and> (\<forall>x \<in> set lq. comp j x \<in> U)"

lemma fresh_cong:
  assumes "\<forall>e \<in> set cq \<union> set lq. same_entry j j' e" and "compilers_created j' = compilers_created j"
  shows "fresh U j' cq lq = fresh U j cq lq"
proof -
  have "comp j' e = comp j e" if "e \<in> set cq \<union> set lq" for e using assms(1) that by (simp add: same_entry_def)
  then have m: "map (comp j') cq = map (comp j) cq" "comp j' ` set cq = comp j ` set cq"
    "\<forall>e \<in> set cq. comp j' e = comp j e" "\<forall>e \<in> set lq. comp j' e = comp j e" by (simp_all cong: image_cong)
  show ?thesis unfolding fresh_def m(1,2) using m(3,4) assms(2) by simp
qed

lemma fresh_more:
  assumes f: "fresh U j cq lq" and q: "queued_more j cq j' cq'" and l: "\<forall>x \<in> set lq. same_entry j j' x"
  shows "fresh U j' cq' lq" and "compilers_created j \<le> compilers_created j'"
proof -
  have s: "comp j' e = comp j e" if "e \<in> set cq \<union> set lq" for e using q l that by (auto simp: queued_more_def same_entry_def)
  then have m: "map (comp j') cq = map (comp j) cq" "comp j' ` set cq = comp j ` set cq" by (auto cong: image_cong)
  consider "cq' = cq" "compilers_created j' = compilers_created j"
    | e where "cq' = e # cq" "comp j' e = compilers_created j" "compilers_created j' = Suc (compilers_created j)"
    using q by (auto simp: queued_more_def)
  then have "fresh U j' cq' lq \<and> compilers_created j \<le> compilers_created j'"
  proof cases
    case 1
    then show ?thesis using f s by (auto simp: fresh_def m(1))
  next
    case 2
    have "compilers_created j \<notin> comp j ` set cq" "\<forall>e \<in> set cq. comp j' e < compilers_created j"
      using f s by (auto simp: fresh_def)
    then show ?thesis using f s 2 unfolding fresh_def by (auto simp: m less_Suc_eq)
  qed
  then show "fresh U j' cq' lq" "compilers_created j \<le> compilers_created j'" by simp_all
qed

lemma jumps_of_cong:
  assumes "\<forall>e \<in> set lq. same_entry j j' e" and "\<forall>e \<in> set lq. bpc (block_store j' (eblock (entry_store j e))) = bpc (block_store j (eblock (entry_store j e)))"
  shows "jumps_of c j' lq = jumps_of c j lq"
proof -
  have "map (queued j') lq = map (queued j) lq" using assms by (simp add: queued_def same_entry_def Let_def)
  then show ?thesis by (simp only: jumps_of_def)
qed

section \<open>The compilation of one entry\<close>

text \<open>While the block of entry \<open>e\<close> is compiled.\<close>

definition compiling :: "nat set \<Rightarrow> nat \<Rightarrow> nat \<Rightarrow> nat \<Rightarrow> nat \<Rightarrow> (nat \<Rightarrow> nat \<rightharpoonup> buxn_jit_link_type \<times> u16) \<Rightarrow> buxn_jit \<Rightarrow> buxn_jit \<Rightarrow> bool" where
  "compiling U e b c0 cid old j j' \<longleftrightarrow> (\<exists>cq lq kq pool bs.
     runtime j' [e] c0 {b} cq lq kq pool bs \<and> fresh U j' cq lq \<and> extends j j' \<and> same_vm j j' \<and>
     (\<forall>c. c \<noteq> cid \<longrightarrow> jumps_of c j' lq = old c) \<and>
     (\<forall>b. blocks_allocated j \<le> b \<and> b < blocks_allocated j' \<longrightarrow> fn (block_store j' b) = 0))"

lemma compiling_link:
  assumes c: "compiling U e b c0 cid old j j'" and U: "cid \<in> U"
  shows "compiling U e b c0 cid old j (link_jit lt t jump cid j')"
proof -
  let ?j = "link_jit lt t jump cid j'"
  obtain cq lq kq pool bs where r: "runtime j' [e] c0 {b} cq lq kq pool bs" "fresh U j' cq lq" "extends j j'" "same_vm j j'"
    "\<forall>c. c \<noteq> cid \<longrightarrow> jumps_of c j' lq = old c" "\<forall>b. blocks_allocated j \<le> b \<and> b < blocks_allocated j' \<longrightarrow> fn (block_store j' b) = 0"
    using c by (auto simp: compiling_def)
  from link_runtime [OF r(1), of lt t jump cid] obtain x cq' kq' pool' bs' where
    l: "runtime ?j [e] c0 {b} cq' (x # lq) kq' pool' bs'" "\<forall>y \<in> set ([e] @ lq). same_entry j' ?j y" "extends j' ?j"
      "queued ?j x = (cid, jump, lt, t)" "queued_more j' cq ?j cq'"
    by metis
  have s: "\<forall>y \<in> set lq. same_entry j' ?j y" using l(2) by simp
  have "fresh U ?j cq' lq" by (rule fresh_more(1) [OF r(2) l(5) s])
  then have "fresh U ?j cq' (x # lq)" using l(4) U by (simp add: fresh_def queued_def Let_def)
  moreover have "eblock (entry_store j' y) < blocks_allocated j'" if "y \<in> set lq" for y
    using r(1) that by (simp add: runtime_def entries_ok_def)
  then have j: "jumps_of c ?j lq = jumps_of c j' lq" for c
    using l(3) by (intro jumps_of_cong [OF s]) (simp add: extends_def)
  have "jumps_of c ?j (x # lq) = old c" if "c \<noteq> cid" for c
    using j [of c] r(5) that l(4) by (simp add: jumps_of_def)
  moreover have "extends j ?j" by (rule extends_trans [OF r(3) l(3)])
  moreover have "same_vm j ?j" by (rule same_vm_trans [OF r(4) same_vm_ops(1)])
  moreover have "fn (block_store ?j b) = 0" if "blocks_allocated j \<le> b" "b < blocks_allocated ?j" for b
  proof (cases "b < blocks_allocated j'")
    case True
    then show ?thesis using r(6) that(1) l(3) by (simp add: extends_def)
  next
    case False
    then show ?thesis using l(5) that(2) by (simp add: queued_more_def)
  qed
  ultimately show ?thesis unfolding compiling_def using l(1) by blast
qed

lemma compile_entry:
  assumes r: "runtime j [e] c0 {eblock (entry_store j e)} cq lq kq pool bs" and t: "etarget (entry_store j e) = Pc_target a"
    and nz: "\<forall>cid is ls. generated_fn (gen cid is ls) \<noteq> 0" and f: "fresh U j cq lq" and U: "comp j e \<in> U"
  obtains jx blk out where "compile_block decode j (comp j e) a = Some blk" and "out = gen (comp j e) (ncode blk) (nlabels blk)"
    and "nlinks blk = code_links (comp j e) jx" and "nhead blk = 19" and "nbody blk = 21"
    and "compiling U e (eblock (entry_store j e)) c0 (comp j e) (\<lambda>c. jumps_of c j lq) j jx"
    and "buxn_jit_compile decode gen e j = Some (set_code (eblock (entry_store j e)) (generated_fn out) (label_addr out 19)
      (label_addr out 21) (generated_offset out) (generated_size out) jx)"
proof -
  let ?c = "snd (prologue (initial_ctx j (comp j e) a))"
  let ?P = "compiling U e (eblock (entry_store j e)) c0 (comp j e) (\<lambda>c. jumps_of c j lq) j"
  have "\<forall>b. blocks_allocated j \<le> b \<and> b < blocks_allocated j \<longrightarrow> fn (block_store j b) = 0" by auto
  then have "?P j" using r f extends_refl same_vm_refl unfolding compiling_def by blast
  then have P: "?P (jit ?c)" by (simp add: entry_ctx_fields [unfolded entry_ctx_def])
  have closed: "jit_closed (compiler_id ?c) ?P"
    using compiling_link U by (simp add: jit_closed_def prologue_rest)
  have "regs_ok ?c []" using initial_regs by simp
  moreover have "left (pc ?c) < 65536" using left_bound [of "pc ?c"] by simp
  ultimately have "returns (compile_loop decode 65536 ?c) (\<lambda>c. ?P (jit c) \<and> compiler_id c = compiler_id ?c \<and> \<not> compiler c)"
    using P closed by (rule compile_loop_returns)
  then obtain l where l: "compile_loop decode 65536 ?c = Some l" "?P (jit l)" "compiler_id l = comp j e"
    by (auto simp: returns_def prologue_rest)
  define blk where "blk = native_of (19, 21) l"
  show ?thesis
  proof (rule that [where blk = blk and out = "gen (comp j e) (ncode blk) (nlabels blk)" and jx = "jit l"])
    show "compile_block decode j (comp j e) a = Some blk" using l(1) prologue_rest(1) [of j "comp j e" a] by (simp add: compile_block_def split_beta blk_def)
    show "nlinks blk = code_links (comp j e) (jit l)" "nhead blk = 19" "nbody blk = 21" by (simp_all add: blk_def native_of_def l(3))
    show "?P (jit l)" by (rule l(2))
    show "buxn_jit_compile decode gen e j = Some (set_code (eblock (entry_store j e))
        (generated_fn (gen (comp j e) (ncode blk) (nlabels blk))) (label_addr (gen (comp j e) (ncode blk) (nlabels blk)) 19)
        (label_addr (gen (comp j e) (ncode blk) (nlabels blk)) 21) (generated_offset (gen (comp j e) (ncode blk) (nlabels blk)))
        (generated_size (gen (comp j e) (ncode blk) (nlabels blk))) (jit l))"
      using t l(1) prologue_rest(1) [of j "comp j e" a]
      by (simp add: buxn_jit_compile_def Let_def split_beta set_code_def blk_def native_of_def)
  qed simp
qed

section \<open>The compile loop\<close>

text \<open>Block \<open>b\<close> was compiled by \<open>cid\<close>, in a runtime for the same machine as \<open>jv\<close>, and its entries are in the block.\<close>

definition compiled_as :: "(u8 \<Rightarrow> opname) \<Rightarrow> sljit_generator \<Rightarrow> buxn_jit \<Rightarrow> nat \<Rightarrow> native_block \<Rightarrow> buxn_jit_block \<Rightarrow> bool" where
  "compiled_as decode gen jv cid blk s \<longleftrightarrow>
     (\<exists>j1. in_runtime j1 \<and> code_links cid j1 = Map.empty \<and> same_vm jv j1 \<and> compile_block decode j1 cid (bpc s) = Some blk) \<and>
     (let out = gen cid (ncode blk) (nlabels blk) in
      fn s = generated_fn out \<and> head_addr s = label_addr out (nhead blk) \<and> body_addr s = label_addr out (nbody blk) \<and>
      executable_offset s = generated_offset out)"

definition all_built :: "(u8 \<Rightarrow> opname) \<Rightarrow> sljit_generator \<Rightarrow> nat \<Rightarrow> buxn_jit \<Rightarrow> nat set \<Rightarrow> buxn_jit \<Rightarrow> nat list \<Rightarrow> bool" where
  "all_built decode gen n0 jv U j lq \<longleftrightarrow>
     (\<forall>b. n0 \<le> b \<and> b < blocks_allocated j \<and> fn (block_store j b) \<noteq> 0 \<longrightarrow>
        (\<exists>cid \<in> U. \<exists>blk. compiled_as decode gen jv cid blk (block_store j b) \<and> jumps_of cid j lq = nlinks blk))"

definition compile_state ::
  "(u8 \<Rightarrow> opname) \<Rightarrow> sljit_generator \<Rightarrow> nat \<Rightarrow> nat \<Rightarrow> buxn_jit \<Rightarrow> buxn_jit \<Rightarrow> nat list \<Rightarrow> nat list \<Rightarrow> nat list \<Rightarrow> nat list \<Rightarrow> nat list \<Rightarrow> bool" where
  "compile_state decode gen c0 n0 jv j cq lq kq pool bs \<longleftrightarrow>
     runtime j [] c0 {} cq lq kq pool bs \<and> same_vm jv j \<and> (\<exists>U. fresh U j cq lq \<and> all_built decode gen n0 jv U j lq)"

lemma empty_links: "fresh U j cq lq \<Longrightarrow> cid \<notin> U \<Longrightarrow> jumps_of cid j lq = Map.empty"
  by (force simp: fresh_def jumps_of_def queued_def Let_def filter_empty_conv)

lemma compile_step:
  assumes c: "compile_state decode gen c0 n0 jv j (e # cq) lq kq pool bs"
    and nz: "\<forall>cid is ls. generated_fn (gen cid is ls) \<noteq> 0"
  obtains j' cq' lq' kq' pool' bs' where
    "buxn_jit_compile decode gen e (j\<lparr>compile_queue := enext (entry_store j e)\<rparr>) = Some j'"
    and "compile_state decode gen c0 n0 jv (enqueue_pool e j') cq' lq' kq' pool' bs'"
proof -
  let ?b = "eblock (entry_store j e)" and ?j = "j\<lparr>compile_queue := enext (entry_store j e)\<rparr>" and ?c = "comp j e"
  obtain U where r: "runtime j [] c0 {} (e # cq) lq kq pool bs" "same_vm jv j" "fresh U j (e # cq) lq" "all_built decode gen n0 jv U j lq"
    using c by (auto simp: compile_state_def)
  note d = dequeue_runtime [OF r(1)]
  have U: "?c \<notin> U" using r(3) by (auto simp: fresh_def)
  have f: "fresh (insert ?c U) ?j cq lq" using r(3) by (auto simp: fresh_def)
  have r1: "runtime ?j [e] c0 {eblock (entry_store ?j e)} cq lq kq pool bs" using d(2) by simp
  have t: "etarget (entry_store ?j e) = Pc_target (bpc (block_store j ?b))" using d(3) by simp
  obtain jx blk out where x: "compile_block decode ?j ?c (bpc (block_store j ?b)) = Some blk" "out = gen ?c (ncode blk) (nlabels blk)"
    "nlinks blk = code_links ?c jx" "nhead blk = 19" "nbody blk = 21"
    "compiling (insert ?c U) e ?b c0 ?c (\<lambda>c. jumps_of c ?j lq) ?j jx"
    "buxn_jit_compile decode gen e ?j = Some (set_code ?b (generated_fn out) (label_addr out 19) (label_addr out 21)
      (generated_offset out) (generated_size out) jx)"
    using compile_entry [OF r1 t nz f, of decode thesis] by simp
  define j1 where "j1 = set_code ?b (generated_fn out) (label_addr out 19) (label_addr out 21) (generated_offset out) (generated_size out) jx"
  define j2 where "j2 = enqueue_pool e j1"
  obtain cq' lq' kq' pool' bs' where y: "runtime jx [e] c0 {?b} cq' lq' kq' pool' bs'" "fresh (insert ?c U) jx cq' lq'" "extends ?j jx"
    "same_vm ?j jx" "\<forall>c. c \<noteq> ?c \<longrightarrow> jumps_of c jx lq' = jumps_of c ?j lq"
    "\<forall>b. blocks_allocated ?j \<le> b \<and> b < blocks_allocated jx \<longrightarrow> fn (block_store jx b) = 0"
    using x(6) by (auto simp: compiling_def)
  have "runtime j1 [e] c0 {} cq' lq' kq' pool' bs'" unfolding j1_def by (rule set_code_runtime [OF y(1)]) (simp add: x(2) nz)
  note p = pool_runtime [OF this, folded j2_def]
  have se: "same_entry jx j2 z" for z
    using pool_same_entry [of j1 e z] by (simp add: j2_def same_entry_def j1_def)
  have bp: "bpc (block_store j2 z) = bpc (block_store jx z)" "blocks_allocated j2 = blocks_allocated jx" for z
    using p(2) by (simp_all add: same_blocks_def j1_def)
  have bs: "block_store j2 z = block_store jx z" if "z \<noteq> ?b" for z
    using p(2) that by (simp add: same_blocks_def j1_def)
  have "compilers_created j2 = compilers_created jx" by (simp add: j2_def j1_def)
  then have f2: "fresh (insert ?c U) j2 cq' lq'" using y(2) fresh_cong [of cq' lq' jx j2] se by simp
  have jo: "jumps_of c j2 lq' = jumps_of c jx lq'" for c by (rule jumps_of_cong) (simp_all add: se bp)
  have built: "all_built decode gen n0 jv (insert ?c U) j2 lq'"
    unfolding all_built_def
  proof (intro allI impI)
    fix b assume b: "n0 \<le> b \<and> b < blocks_allocated j2 \<and> fn (block_store j2 b) \<noteq> 0"
    show "\<exists>cid \<in> insert ?c U. \<exists>blk. compiled_as decode gen jv cid blk (block_store j2 b) \<and> jumps_of cid j2 lq' = nlinks blk"
    proof (cases "b = ?b")
      case True
      have "in_runtime ?j" "code_links ?c ?j = Map.empty"
        using r1 empty_links [OF f] U jumps_of_cong [of lq j ?j ?c] empty_links [OF r(3) U]
        unfolding in_runtime_def code_links_def runtime_link_queue [OF r1] by (blast, simp add: same_entry_def)
      moreover have "same_vm jv ?j" using r(2) by (simp add: same_vm_def)
      moreover have "bpc (block_store j2 ?b) = bpc (block_store j ?b)" using y(3) d(4) by (simp add: bp extends_def)
      moreover have "block_store j2 ?b = (block_store jx ?b)\<lparr>fn := generated_fn out, head_addr := label_addr out 19,
          body_addr := label_addr out 21, executable_offset := generated_offset out\<rparr>"
        using p(2) by (simp add: same_blocks_def j1_def set_code_def)
      ultimately have "compiled_as decode gen jv ?c blk (block_store j2 ?b)"
        using x(1,2,4,5) unfolding compiled_as_def by (auto simp: Let_def)
      moreover have "jumps_of ?c j2 lq' = nlinks blk" by (simp add: jo x(3) code_links_def runtime_link_queue [OF y(1)])
      ultimately show ?thesis using True by blast
    next
      case False
      have "b < blocks_allocated j"
        using y(6) b bs [OF False] by (force simp: bp not_less)
      then have "block_store j2 b = block_store j b" using bs [OF False] y(3) by (simp add: extends_def)
      then obtain cid blk where "cid \<in> U" "compiled_as decode gen jv cid blk (block_store j2 b)" "jumps_of cid j lq = nlinks blk"
        using r(4) b \<open>b < blocks_allocated j\<close> by (auto simp: all_built_def)
      moreover have "jumps_of cid j2 lq' = jumps_of cid j lq" if u: "cid \<in> U" for cid
      proof -
        have "cid \<noteq> ?c" using u U by blast
        then have "jumps_of cid j2 lq' = jumps_of cid ?j lq" using y(5) by (simp add: jo)
        also have "\<dots> = jumps_of cid j lq" by (rule jumps_of_cong) (simp_all add: same_entry_def)
        finally show ?thesis .
      qed
      ultimately show ?thesis by auto
    qed
  qed
  have "same_vm jv j2" using r(2) y(4) by (simp add: same_vm_def j2_def j1_def set_code_def enqueue_pool_def Let_def split_beta)
  then have "compile_state decode gen c0 n0 jv j2 cq' lq' kq' (e # pool') bs'"
    using p(1) f2 built by (auto simp: compile_state_def)
  then show ?thesis using that x(7) by (simp add: j2_def j1_def)
qed

lemma compile_all_built:
  assumes nz: "\<forall>cid is ls. generated_fn (gen cid is ls) \<noteq> 0"
  shows "compile_state decode gen c0 n0 jv j cq lq kq pool bs \<Longrightarrow> compile_all decode gen fuel j = Some j' \<Longrightarrow>
    \<exists>lq' kq' pool' bs'. compile_state decode gen c0 n0 jv j' [] lq' kq' pool' bs'"
proof (induction fuel arbitrary: j cq lq kq pool bs)
  case (0 j)
  show ?case
  proof (cases cq)
    case Nil
    then have "buxn_jit_dequeue (entry_store j) (compile_queue j) = (None, None)"
      using 0(1) by (simp add: compile_state_def runtime_def jit_queues_def buxn_jit_dequeue_def)
    then show ?thesis using 0 Nil by (auto simp: compile_all.simps)
  next
    case (Cons e es)
    have "runtime j [] c0 {} (e # es) lq kq pool bs" using 0(1) Cons by (simp add: compile_state_def)
    from dequeue_runtime(1) [OF this] show ?thesis using 0(2) by (simp add: compile_all.simps)
  qed
next
  case (Suc fuel j)
  show ?case
  proof (cases cq)
    case Nil
    then have "buxn_jit_dequeue (entry_store j) (compile_queue j) = (None, None)"
      using Suc.prems(1) by (simp add: compile_state_def runtime_def jit_queues_def buxn_jit_dequeue_def)
    then show ?thesis using Suc.prems Nil by (auto simp: compile_all.simps [of decode gen "Suc fuel"])
  next
    case (Cons e es)
    have r: "runtime j [] c0 {} (e # es) lq kq pool bs" using Suc.prems(1) Cons by (simp add: compile_state_def)
    obtain j1 cq' lq' kq' pool' bs' where c: "buxn_jit_compile decode gen e (j\<lparr>compile_queue := enext (entry_store j e)\<rparr>) = Some j1"
      "compile_state decode gen c0 n0 jv (enqueue_pool e j1) cq' lq' kq' pool' bs'"
      by (rule compile_step [OF Suc.prems(1) [unfolded Cons] nz])
    have "compile_all decode gen fuel (enqueue_pool e j1) = Some j'"
      using Suc.prems(2) dequeue_runtime(1) [OF r] c(1) by (simp add: compile_all.simps [of decode gen "Suc fuel"])
    then show ?thesis by (rule Suc.IH [OF c(2)])
  qed
qed

section \<open>A call of the runtime\<close>

definition entry_addr :: "buxn_jit_link_type \<Rightarrow> buxn_jit_block \<Rightarrow> uw" where
  "entry_addr lt s = (case lt of LINK_TO_HEAD \<Rightarrow> head_addr s | LINK_TO_BODY \<Rightarrow> body_addr s)"

definition entered :: "buxn_jit \<Rightarrow> bool" where
  "entered j \<longleftrightarrow> (\<forall>b < blocks_allocated j. \<forall>lt. entry_addr lt (block_store j b) \<noteq> 0)"

text \<open>The jump at \<open>p\<close> of compiler \<open>cid\<close> was patched to the entry of the block of \<open>t\<close>.\<close>

definition jump_patched :: "buxn_jit \<Rightarrow> sljit_event list \<Rightarrow> nat \<Rightarrow> nat \<Rightarrow> buxn_jit_link_type \<Rightarrow> u16 \<Rightarrow> bool" where
  "jump_patched j evs cid p lt t \<longleftrightarrow>
     (\<exists>b < blocks_allocated j. bpc (block_store j b) = t \<and> fn (block_store j b) \<noteq> 0 \<and>
        Set_jump_addr cid p (entry_addr lt (block_store j b)) (executable_offset (block_store j b)) \<in> set evs)"

text \<open>Block \<open>b\<close> of \<open>j'\<close> is well-formed code for its address, compiled for the machine of \<open>j\<close> and linked by \<open>evs\<close>.\<close>

definition block_ready :: "(u8 \<Rightarrow> opname) \<Rightarrow> sljit_generator \<Rightarrow> buxn_jit \<Rightarrow> sljit_event list \<Rightarrow> buxn_jit \<Rightarrow> nat \<Rightarrow> bool" where
  "block_ready decode gen j evs j' b \<longleftrightarrow>
     (\<exists>j1 cid blk. let s = block_store j' b; out = gen cid (ncode blk) (nlabels blk) in
        compile_block decode j1 cid (bpc s) = Some blk \<and> wired_block blk \<and>
        (\<forall>n. safe_loop decode n (entry_ctx j1 cid (bpc s)) \<longrightarrow>
           good_block decode (vm_memory j) (vm_offset j) (little_endian j) (bpc s) blk) \<and>
        fn s = generated_fn out \<and> head_addr s = label_addr out (nhead blk) \<and> body_addr s = label_addr out (nbody blk) \<and>
        executable_offset s = generated_offset out \<and>
        (\<forall>p lt t. nlinks blk p = Some (lt, t) \<longrightarrow> jump_patched j' evs cid p lt t))"

lemma link_event_patches:
  assumes r: "runtime j [] c0 {} [] lq kq pool bs" and e: "x \<in> set lq" "queued j x = (cid, p, lt, t)" and a: "entered j"
  shows "jump_patched j (concat (map (link_event j) lq)) cid p lt t"
proof -
  have en: "entries_ok j c0 {} [] lq kq" using r by (simp add: runtime_def)
  let ?b = "eblock (entry_store j x)"
  obtain jump where x: "?b < blocks_allocated j" "etarget (entry_store j x) = Jump_target jump"
    using en e(1) by (auto simp: entries_ok_def)
  have q: "ecompiler (entry_store j x) = cid" "jump = p" "link_type (entry_store j x) = lt" "bpc (block_store j ?b) = t"
    using e(2) x(2) by (simp_all add: queued_def Let_def)
  have "fn (block_store j ?b) \<noteq> 0" using en x(1) by (simp add: entries_ok_def)
  moreover have "entry_addr lt (block_store j ?b) \<noteq> 0" using a x(1) by (simp add: entered_def)
  then have "link_event j x = [Set_jump_addr cid p (entry_addr lt (block_store j ?b)) (executable_offset (block_store j ?b))]"
    using q x(2) by (simp add: link_event_def Let_def entry_addr_def)
  then have "Set_jump_addr cid p (entry_addr lt (block_store j ?b)) (executable_offset (block_store j ?b)) \<in> set (link_event j x)"
    by simp
  then have "Set_jump_addr cid p (entry_addr lt (block_store j ?b)) (executable_offset (block_store j ?b)) \<in>
      set (concat (map (link_event j) lq))" using e(1) by auto
  ultimately show ?thesis using x(1) q(4) unfolding jump_patched_def by blast
qed

lemma jumps_of_queued:
  assumes "jumps_of cid j lq p = Some (lt, t)"
  obtains x where "x \<in> set lq" and "queued j x = (cid, p, lt, t)"
proof -
  have "(p, lt, t) \<in> set (map snd (filter (\<lambda>x. fst x = cid) (map (queued j) lq)))"
    using assms unfolding jumps_of_def by (rule map_of_SomeD)
  then obtain x where "x \<in> set lq" "fst (queued j x) = cid" "snd (queued j x) = (p, lt, t)" by auto
  then show ?thesis using that by (metis prod.collapse)
qed

lemma built_ready:
  assumes c: "compile_state decode gen c0 n0 jv j [] lq kq pool bs" and a: "entered j" and b: "n0 \<le> b" "b < blocks_allocated j"
    and sb: "same_blocks j j'"
  shows "block_ready decode gen jv (concat (map (link_event j) lq) @ evs) j' b"
proof -
  obtain U where r: "runtime j [] c0 {} [] lq kq pool bs" and ab: "all_built decode gen n0 jv U j lq"
    using c by (auto simp: compile_state_def)
  let ?s = "block_store j b"
  have s: "block_store j' b = ?s" using sb by (simp add: same_blocks_def)
  have "fn ?s \<noteq> 0" using r b(2) by (simp add: runtime_def entries_ok_def)
  then obtain cid blk where k: "compiled_as decode gen jv cid blk ?s" "jumps_of cid j lq = nlinks blk"
    using ab b by (auto simp: all_built_def)
  then obtain j1 where j1: "in_runtime j1" "code_links cid j1 = Map.empty" "same_vm jv j1" "compile_block decode j1 cid (bpc ?s) = Some blk"
    by (auto simp: compiled_as_def)
  have "wired_block blk" by (rule block_is_wired [OF j1(1,2,4)])
  moreover have "good_block decode (vm_memory jv) (vm_offset jv) (little_endian jv) (bpc ?s) blk"
    if "safe_loop decode n (entry_ctx j1 cid (bpc ?s))" for n
    unfolding good_block_def using j1 that by (auto simp: same_vm_def)
  moreover have "jump_patched j' (concat (map (link_event j) lq) @ evs) cid p lt t" if h: "nlinks blk p = Some (lt, t)" for p lt t
  proof -
    have "jumps_of cid j lq p = Some (lt, t)" using h k(2) by simp
    then obtain x where "x \<in> set lq" "queued j x = (cid, p, lt, t)" by (rule jumps_of_queued)
    from link_event_patches [OF r this a] show ?thesis using sb by (auto simp: jump_patched_def same_blocks_def)
  qed
  ultimately show ?thesis
    using j1(4) k(1) unfolding block_ready_def s
    by (intro exI [of _ j1] exI [of _ cid] exI [of _ blk]) (auto simp: compiled_as_def Let_def)
qed

lemma state_entered:
  assumes c: "compile_state decode gen c0 (blocks_allocated jv) jv j [] lq kq pool bs" and a: "entered jv" and g: "grows jv j"
    and i: "idle jv" and nz: "\<forall>cid is ls l. label_addr (gen cid is ls) l \<noteq> 0"
  shows "entered j"
  unfolding entered_def
proof (intro allI impI)
  fix b lt assume b: "b < blocks_allocated j"
  show "entry_addr lt (block_store j b) \<noteq> 0"
  proof (cases "b < blocks_allocated jv")
    case True
    then have "block_store j b = block_store jv b" using g idle_blocks [OF i] by (simp add: grows_def)
    then show ?thesis using a True by (simp add: entered_def)
  next
    case False
    have "fn (block_store j b) \<noteq> 0" using c b by (simp add: compile_state_def runtime_def entries_ok_def)
    moreover obtain U where "all_built decode gen (blocks_allocated jv) jv U j lq" using c by (auto simp: compile_state_def)
    moreover have "blocks_allocated jv \<le> b" using False by simp
    ultimately obtain cid blk where "compiled_as decode gen jv cid blk (block_store j b)" using b unfolding all_built_def by blast
    then show ?thesis using nz by (cases lt) (simp_all add: compiled_as_def entry_addr_def Let_def)
  qed
qed

text \<open>The start of a call, and its last two loops.\<close>

lemma queued_state:
  assumes i: "idle j" and q: "buxn_jit_queue_block j p = (b, j1)"
  obtains cq kq pool bs where "compile_state decode gen (compilers_created j) (blocks_allocated j) j j1 cq [] kq pool bs"
    and "grows j j1" and "j1 = j \<or> fn (block_store j1 b) = 0"
proof -
  obtain pool bs where r: "runtime j [] (compilers_created j) {} [] [] [] pool bs" using i by (auto simp: idle_def)
  from queue_block_runtime [OF r q] obtain cq kq pool1 bs1 where
    r1: "runtime j1 [] (compilers_created j) {} cq [] kq pool1 bs1" "extends j j1" "j1 = j \<or> fn (block_store j1 b) = 0"
      "queued_more j [] j1 cq"
    by metis
  have "fresh {} j [] []" by (simp add: fresh_def)
  then have "fresh {} j1 cq []" by (rule fresh_more(1) [OF _ r1(4)]) simp
  moreover have "same_vm j j1" using same_vm_ops(4) [of j p] q by simp
  moreover have "all_built decode gen (blocks_allocated j) j {} j1 []" using r1(4) by (auto simp: all_built_def queued_more_def)
  ultimately have "compile_state decode gen (compilers_created j) (blocks_allocated j) j j1 cq [] kq pool1 bs1"
    using r1(1) by (auto simp: compile_state_def)
  then show ?thesis using that r1(3) extends_grows [OF r1(2)] by blast
qed

lemma linked_state:
  assumes "compile_state decode gen c0 n0 jv j [] lq kq pool bs"
  obtains j1 frees j2 where "link_all j = Some (concat (map (link_event j) lq), j1)" and "cleanup_all j1 = Some (frees, j2)"
    and "same_blocks j j2"
proof -
  have "runtime j [] c0 {} [] lq kq pool bs" using assms by (simp add: compile_state_def)
  from link_all_returns [OF this] obtain j1 where l: "link_all j = Some (concat (map (link_event j) lq), j1)"
    "runtime j1 [] c0 {} [] [] kq (rev lq @ pool) bs" "same_blocks j j1"
    by blast
  have "jit_queues j1 [] [] [] kq (rev lq @ pool)" using l(2) by (simp add: runtime_def)
  from cleanup_all_returns [OF this] show ?thesis using that l(1) same_blocks_trans [OF l(3)] by blast
qed

text \<open>
  C7. What a call of \<^verbatim>\<open>buxn_jit\<close> leaves behind is a linked program. Between calls, when code generation does not
  fail and addresses are not null, the call returns, and every block it created is ready: its code is well-formed code for its
  address, compiled from the memory of the machine (so the correctness theorem of programs applies to it when the conditions on its
  opcodes hold), the entries stored in the block are the labels of that code, and every jump whose link was queued during the
  compilation has been patched to the head or the body of the block of its target, which has code.
\<close>

theorem buxn_jit_links_program:
  assumes "idle j" and "entered j" and "\<forall>cid is ls. generated_fn (gen cid is ls) \<noteq> 0" and "\<forall>cid is ls l. label_addr (gen cid is ls) l \<noteq> 0"
  shows "\<exists>b evs j'. buxn_jit_main decode gen p j = Some (b, evs, j') \<and> entered j' \<and>
    (\<forall>b. blocks_allocated j \<le> b \<and> b < blocks_allocated j' \<longrightarrow> block_ready decode gen j evs j' b)"
proof -
  obtain b j1 where q: "buxn_jit_queue_block j p = (b, j1)" by fastforce
  obtain cq kq pool bs where s1: "compile_state decode gen (compilers_created j) (blocks_allocated j) j j1 cq [] kq pool bs"
    "grows j j1" "j1 = j \<or> fn (block_store j1 b) = 0"
    by (rule queued_state [OF assms(1) q])
  show ?thesis
  proof (cases "fn (block_store j1 b) = 0")
    case False
    then have "buxn_jit_main decode gen p j = Some (b, [], j)" using s1(3) q by (auto simp: buxn_jit_main_def)
    then show ?thesis using assms(2) by auto
  next
    case True
    have "runtime j1 [] (compilers_created j) {} cq [] kq pool bs" using s1(1) by (simp add: compile_state_def)
    from compile_all_returns [OF assms(3) this, of 65536 decode] obtain j2 where
      c: "compile_all decode gen 65536 j1 = Some j2" "grows j1 j2" by auto
    obtain lq kq2 pool2 bs2 where s2: "compile_state decode gen (compilers_created j) (blocks_allocated j) j j2 [] lq kq2 pool2 bs2"
      using compile_all_built [OF assms(3) s1(1) c(1)] by blast
    have a2: "entered j2" by (rule state_entered [OF s2 assms(2) grows_trans [OF s1(2) c(2)] assms(1,4)])
    obtain j3 frees j4 where l: "link_all j2 = Some (concat (map (link_event j2) lq), j3)" "cleanup_all j3 = Some (frees, j4)"
      "same_blocks j2 j4"
      by (rule linked_state [OF s2])
    have "buxn_jit_main decode gen p j = Some (b, concat (map (link_event j2) lq) @ frees, j4)"
      using q True c(1) l(1,2) by (simp add: buxn_jit_main_def)
    moreover have "entered j4" using a2 l(3) by (simp add: entered_def same_blocks_def)
    moreover have "block_ready decode gen j (concat (map (link_event j2) lq) @ frees) j4 b"
      if "blocks_allocated j \<le> b" "b < blocks_allocated j4" for b
      using built_ready [OF s2 a2 that(1) _ l(3)] that(2) l(3) by (simp add: same_blocks_def)
    ultimately show ?thesis by blast
  qed
qed

text \<open>The program with a subroutine, from the start.\<close>

definition plain_code :: sljit_generator where
  "plain_code cid is ls = \<lparr>generated_fn = 1, label_addr = (\<lambda>l. 0x1000), generated_offset = 0, generated_size = length is\<rparr>"

lemma buxn_jit_links_program_witness:
  "\<exists>b evs j'. buxn_jit_main example_decode plain_code 0x100 (example_jit call_rom) = Some (b, evs, j') \<and> entered j'"
proof -
  have "idle (example_jit call_rom)" unfolding example_jit_def by (rule idle_init)
  moreover have "entered (example_jit call_rom)" by (simp add: entered_def example_jit_def buxn_jit_init_def)
  ultimately show ?thesis
    using buxn_jit_links_program [of "example_jit call_rom" plain_code example_decode "0x100"] by (auto simp: plain_code_def)
qed

end
