(* ===== verification/Execute.thy ===== *)
theory Execute
  imports Linking
begin

text \<open>
  Single opcodes with divisions and device accesses, and \<^verbatim>\<open>buxn_jit_execute\<close>: what a call of it does with a program whose
  run ends.
\<close>

section \<open>One opcode, division and device accesses included\<close>

text \<open>
  C4. Any opcode that is no jump, divisions and device accesses included, in any of its modes, with any device functions:
  suppose that no two cached operands share a register, that the cached operands, the two shadow pointers in keep mode and the
  operands of the opcode fit the six registers, that the opcode is not in the zero page and has not been modified since
  it was read, and that the virtual machine can execute it (no \<open>BRK\<close>, no stack runs over or under). Then compiling it
  succeeds, and in every block that holds the code, execution leads from the start of the code, with a machine that
  represents the virtual machine, to its end with a machine that represents it after the instruction.
\<close>

theorem nonjump_opcode_correct:
  assumes "host_calls step le offs io" and "represents ctx m u" and "linear ctx" and "256 \<le> pc ctx"
    and "vm_memory (jit ctx) (pc ctx) = uram u (upc u)" and "little_endian (jit ctx) = le" and "vm_offset (jit ctx) = offs"
    and "cached_total ctx + shadows (uram u (upc u)) + operands (decode (uram u (upc u))) \<le> 6"
    and "\<not> is_jump (decode (uram u (upc u)))" and "uxn_next io decode u = Some (transfer, u')"
  shows "\<exists>ctx' m'. (\<forall>n. buxn_jit_next_opcode decode (Suc n) ctx = Some ctx') \<and> represents ctx' m' u' \<and>
    reaches step ctx m ctx' m'"
  using host_calls.opcode_reaches [OF assms(1-8) refl assms(10,9)] by blast

text \<open>Zero divided by zero.\<close>

definition divide_state :: uxn_state where
  "divide_state = (example_state [0x1b])\<lparr>ustk := (\<lambda>_. [])(False := [0, 0])\<rparr>"

definition divide_mach :: mach where
  "divide_mach = (example_mach [0x1b])\<lparr>reg := (reg (example_mach [0x1b]))(stack_reg False := 2)\<rparr>"

lemma divide_represents: "represents (example_ctx [0x1b]) divide_mach divide_state"
proof -
  have vm: "reg divide_mach BUXN_JIT_S_VM = 0x1000" "mem divide_mach = mem (example_mach [0x1b])"
    by (simp_all add: divide_mach_def jit_reg_defs stack_reg_def example_mach_def)
  have "vm_holds example_offs divide_mach divide_state"
    using example_holds [of "[0x1b]"] by (simp add: vm_holds_def vm divide_state_def)
  moreover have "below (\<lambda>p. mem divide_mach (vm_addr example_offs 0x1000 (stack_field r) (ucast p)))
      (ucast (reg divide_mach (stack_reg r))) (ustk divide_state r)" for r
    by (cases r) (simp_all add: divide_state_def divide_mach_def stack_reg_def jit_reg_defs vm_addr_def example_mach_def
        stack_field_def)
  ultimately have "in_memory (example_jit [0x1b]) divide_mach divide_state"
    by (simp add: in_memory_def vm) (simp add: divide_state_def)
  then show ?thesis
    using layout_ok_example by (intro represents_fresh(1)) (simp_all add: entry_ctx_fields vm divide_state_def)
qed

theorem nonjump_opcode_correct_witness:
  "\<exists>ctx' m'. (\<forall>n. buxn_jit_next_opcode example_decode (Suc n) (example_ctx [0x1b]) = Some ctx') \<and>
    represents ctx' m' (divide_state\<lparr>ustk := (\<lambda>_. [])(False := [0]), upc := 0x101\<rparr>) \<and>
    reaches (host_step example_offs True) (example_ctx [0x1b]) divide_mach ctx' m'"
proof -
  have b: "uram divide_state (upc divide_state) = 0x1b" "example_decode 0x1b = OP_DIV"
    by (simp_all add: divide_state_def example_state_def example_decode_def op_table_def)
  have s: "uxn_next example_devices example_decode divide_state =
      Some (False, divide_state\<lparr>ustk := (\<lambda>_. [])(False := [0]), upc := 0x101\<rparr>)"
    by (simp add: uxn_next_def b is_jump_def)
      (simp add: divide_state_def example_state_def uxn_div_def div_bytes_def uxn_quotient_def uxn_eval)
  show ?thesis
    using nonjump_opcode_correct [OF host_machine.host_calls_axioms divide_represents example_linear _ _ _ _ _ _ s] b
    by (simp add: entry_ctx_fields is_jump_def mode_k_def shadows_def operands_def cached_total_eq [of _ False] empty_cache_def)
qed

section \<open>Executing a program\<close>



end
