(* ===== verification/Spec2Isabelle.thy ===== *)
theory Spec2Isabelle
  imports Divergence Perf Gdb_Hook Gdb_Reader Cli Execute
begin

text \<open>
  A verification development for buxn-jit, a just-in-time compiler for the uxn virtual machine.

  \<^bold>\<open>The program.\<close> \<^verbatim>\<open>src/src/jit.c\<close> translates uxn code to native code through sljit, one block at a time. A block starts at a
  program address and ends at a \<^verbatim>\<open>BRK\<close> or an unconditional jump. \<^verbatim>\<open>buxn_jit_execute\<close> calls \<^verbatim>\<open>buxn_jit\<close>, which looks the address up
  in a hash array mapped trie (\<^verbatim>\<open>hamt.h\<close>), queues a block that is new, compiles queued blocks until none is left (compiling a
  jump to a constant address queues the block of the target and an entry for the link queue), patches the queued jumps and frees
  the compilers. Inside a block the bytes on the two stacks live in registers as long as possible: the stack cache holds up to
  four operands per stack, next to what is known of their values at compile time. Hooks observe the compilation:
  \<^verbatim>\<open>perf.c\<close> writes jitdump records, \<^verbatim>\<open>gdb/hook.c\<close> registers debug information that \<^verbatim>\<open>gdb/reader.c\<close> reads inside gdb,
  \<^verbatim>\<open>composite_hook.h\<close> combines hooks. \<^verbatim>\<open>cli.c\<close> is the command line driver.

  \<^bold>\<open>Parameters.\<close> The following code is not part of the repository. The opcode table is \<open>decode\<close>, a function from the opcode
  byte to the handler. sljit is described by what the emitted instructions do: \<open>Lir.lir\<close> has one constructor per sljit call of
  \<^verbatim>\<open>jit.c\<close>, the locales \<open>sljit_exec\<close> (\<open>Lir\<close>) and \<open>sljit_control\<close> (\<open>Jump_Sim\<close>) state the documented effect of the instructions, and
  the reference machine \<open>lir_step\<close> satisfies both. The device functions of the emulator are \<open>io\<close>; the locale \<open>host_calls\<close> (\<open>Devices\<close>)
  states what a call of them from native code does, and the machine \<open>host_step\<close> satisfies it. \<open>sljit_generator\<close> (\<open>Jit_Compile\<close>) stands for the machine code and its addresses.
  The interpreter \<^verbatim>\<open>buxn_vm_execute\<close>, the symbol table, the clock, and gdb are arguments of the definitions that use
  them. The layout of \<^verbatim>\<open>buxn_vm_t\<close> is \<open>vm_offset\<close>, constrained by \<open>layout_ok\<close>.

  \<^bold>\<open>The runtime.\<close> \<open>Hamt\<close>: the trie as a tree, search and slot assignment, the 32-bit hash. Its interface is the locale \<open>key_map\<close>.
  \<open>Jit_Queue\<close>: the record \<open>buxn_jit\<close>; entries and blocks are numbered in the order of their allocation and kept in stores, a
  pointer is such a number. The linked queues refine lists (\<open>jit_queues\<close>, locale \<open>lifo_queue\<close>), every entry is on exactly one of
  them, and blocks are found exactly under their address (\<open>jit_blocks\<close>). \<open>Jit_Compile\<close>: \<^verbatim>\<open>buxn_jit_next_opcode\<close>,
  \<^verbatim>\<open>buxn_jit_compile\<close>, the loops of \<^verbatim>\<open>buxn_jit\<close>, \<^verbatim>\<open>buxn_jit_execute\<close>. \<open>Runtime\<close>: between calls nothing is queued and every block has
  code; a call keeps this and returns the block it was asked for. \<open>Linking\<close>: the blocks a call creates are those the theorems on
  programs are about, and every queued jump is patched to the block of its target.

  \<^bold>\<open>The compiler.\<close> \<open>Jit_Ctx\<close>, \<open>Stack_Cache\<close>, \<open>Micro_Ops\<close>, \<open>Opcodes\<close>: the compilation context, register allocation, the stack cache, the micro
  operations and all handlers, function by function as in \<^verbatim>\<open>jit.c\<close>; each appends to the list \<open>code\<close>. A failed assertion and
  an undefined access of the source are the result \<open>None\<close>. A label is the position of a \<open>Label\<close> in the code, \<open>jump_labels\<close> is what
  \<^verbatim>\<open>sljit_set_label\<close> was called with. \<open>Registers\<close> and \<open>Compile_Total\<close> prove that no assertion about registers and reference counts
  fails and that compilation ends.

  \<^bold>\<open>Correctness of the code.\<close> \<open>Uxn_Spec\<close> and \<open>Uxn_Control\<close> are the meaning of the opcodes, on lists of bytes.
  \<open>Jit_Sim\<close>, \<open>Sim_Cache\<close>, \<open>Sim_Stack\<close>, \<open>Sim_Pop\<close>, \<open>Sim_Push\<close>, \<open>Sim_Ops\<close>, \<open>Sim_Mem\<close>, \<open>Sim_Step\<close>: the simulation \<open>sim\<close>, in which the stack of
  the virtual machine is the bytes in memory below the pointer register, then the cached operands; one lemma per operation, stated
  on views of the stack (\<open>vsim\<close>): in the ordinary mode an operation pops the stack itself, in keep mode through a shadow copy of the
  pointer. \<open>Sim_Keep\<close>: the flush and the shadow pointers with which an opcode in keep mode starts.
  \<open>Jit_Correct\<close> and \<open>Jit_Block\<close>: opcodes and straight-line blocks. \<open>Code_Growth\<close>: how each operation extends the code (\<open>steady\<close>, \<open>grown\<close>),
  so that facts about a piece of code hold in the finished block. \<open>Control\<close>: the relation \<open>runs\<close>, execution of native blocks with
  jumps, calls and returns. \<open>Links\<close>: the link queue as a map from jumps to targets. \<open>Jump_Code\<close>, \<open>Jump_Sim\<close>, \<open>Jump_Ops\<close>: the jump opcodes.
  \<open>Devices\<close>: device accesses, which put the state of the virtual machine into memory, call the host and take the state back.
  \<open>Division\<close>: division, whose code has jumps of its own. \<open>Program\<close>: induction over the instructions of a run through many blocks. \<open>Entry_Point\<close>: the C entry point and the trampoline.
  \<open>Program_Correct\<close>: the theorem, and a program with a subroutine, a division and a device. \<open>Wiring\<close>: every jump has a label, every link is rewritable.
  \<open>Execute\<close>: single opcodes with divisions and device accesses, and \<^verbatim>\<open>buxn_jit_execute\<close> on a program whose run ends.
  \<open>Divergence\<close>: programs whose compiled code differs from the virtual machine, by evaluation; their blocks violate the conditions below. \<open>Examples\<close>: the instances the witnesses use.

  \<^bold>\<open>Hooks and tools.\<close> \<open>Label_Map\<close>, \<open>Addr_Mapping\<close>: label lookup, address marks and symbol lookup. \<open>Perf\<close>: the hook and the bytes of the
  jitdump file. \<open>Gdb_Hook\<close>: the hook and the doubly linked list of entries. \<open>Gdb_Reader\<close>: reading a block with its calls of gdb as a
  trace, frames and unwinding. \<open>Jit_Hook\<close>: marks, the places where \<^verbatim>\<open>jit.c\<close> calls a hook, the locale \<open>marking_hook\<close> with the perf,
  the gdb and the composite hook as its instances. \<open>Cli\<close>: loading, console events, the main loop, device dispatch.

  \<^bold>\<open>Bounds.\<close> \<^verbatim>\<open>buxn_jit_next_opcode\<close> calls itself for a jump on a boolean, \<^verbatim>\<open>buxn_jit_compile\<close> loops over opcodes and \<^verbatim>\<open>buxn_jit\<close> over
  queued blocks; all three have fuel 65536 in the model. The program counter grows with every opcode and compilation stops in the
  zero page, so fewer than 65536 opcodes are compiled (\<open>compile_terminates\<close>); every compiled block has its own 16-bit
  address (\<open>buxn_jit_returns_compiled\<close>). The other loops of the program are structural recursions on lists, recursions with a
  termination proof, or partial functions that are proved to return.

  \<^bold>\<open>Conditions of the correctness theorems.\<close> \<open>safe_run\<close> and \<open>safe_loop\<close> are decidable conditions on the compiled program: enough
  free registers for the opcode (cached operands, operands and in keep mode the two shadow pointers together at most six), no register
  shared by two cached operands (\<open>linear\<close>), no jump over a boolean, no keep bit on an opcode without modes. The theorems about one opcode and about straight-line blocks
  (\<open>Jit_Correct\<close>, \<open>Jit_Block\<close>) leave out device accesses and divisions, \<open>nonjump_opcode_correct\<close> and the theorem on programs cover them. The conditions exclude the defects shown in \<open>Divergence\<close>. \<open>uxn_exec\<close> follows a run as long as the program does not modify the code it executes, no
  relative jump wraps around the end of memory, and jumps go to compiled addresses. The native stack is unbounded in \<open>runs\<close>, and
  is no part of the memory of the machine.

  The driver takes the execution of a program as an argument that may fail to return (\<open>Cli\<close>): the theorem on the driver says that it
  returns exactly when every execution it starts does, and assumes that the program leaves the console device's fields alone.

  \<^bold>\<open>Not modelled.\<close> \<open>buxn_jit_next_opcode\<close> and \<open>buxn_jit_compile\<close> are the functions with no hook installed; what they do with one is
  modelled at its call sites (\<open>hook_begin_block\<close>, \<open>hook_jit_opcode\<close>, \<open>hook_end_block\<close>), whose only effect on the code is to add labels.
  Memory is never exhausted. Opening and closing of files, the statistics the driver prints, the mutex of the gdb hook, verbose output
  and the test programs have no behaviour to verify; \<^verbatim>\<open>gdb/jit-reader.h\<close> is a header of gdb.
\<close>

end
